(* ===== verification/SqPrelude.thy ===== *)
theory SqPrelude
  imports Complex_Main "HOL-Library.Word" "HOL-Library.Monad_Syntax" "HOL-Library.Multiset"
begin

unbundle bit_operations_syntax

text \<open>
  Shared vocabulary of the development: machine-integer types, checked array accesses
  (\<open>None\<close> is what C++ leaves undefined: an index outside the buffer, a shift by the
  operand's width or more), the folds that stand for counted \<open>for\<close> loops, and the generic
  list and word lemmas the components use.
\<close>

type_synonym u8 = "8 word"
type_synonym u16 = "16 word"
type_synonym u32 = "32 word"
type_synonym u64 = "64 word"

named_theorems sq_defs \<open>definitions a component unfolds in its own proofs\<close>
named_theorems sq_inv \<open>preservation facts for invariants\<close>

subsection \<open>Checked arrays\<close>

definition aget :: "'a list \<Rightarrow> nat \<Rightarrow> 'a option" where
  "aget xs i = (if i < length xs then Some (xs ! i) else None)"

definition aset :: "'a list \<Rightarrow> nat \<Rightarrow> 'a \<Rightarrow> 'a list option" where
  "aset xs i v = (if i < length xs then Some (xs[i := v]) else None)"

text \<open>The block \<open>[off, off + n)\<close> of a buffer, as \<open>memcpy\<close> reads it.\<close>

definition ablock :: "'a list \<Rightarrow> nat \<Rightarrow> nat \<Rightarrow> 'a list option" where
  "ablock xs off n = (if off + n \<le> length xs then Some (take n (drop off xs)) else None)"

text \<open>Writing a block into a buffer at an offset, as \<open>memcpy\<close> writes it.\<close>

definition ablit :: "'a list \<Rightarrow> nat \<Rightarrow> 'a list \<Rightarrow> 'a list option" where
  "ablit xs off ys = (if off + length ys \<le> length xs
     then Some (take off xs @ ys @ drop (off + length ys) xs) else None)"

lemma aget_Some_iff [simp]: "aget xs i = Some v \<longleftrightarrow> i < length xs \<and> xs ! i = v"
  by (simp add: aget_def)

lemma aget_None_iff [simp]: "aget xs i = None \<longleftrightarrow> length xs \<le> i"
  by (simp add: aget_def)

lemma aset_Some_iff [simp]: "aset xs i v = Some ys \<longleftrightarrow> i < length xs \<and> ys = xs[i := v]"
  by (auto simp: aset_def)

lemma aset_None_iff [simp]: "aset xs i v = None \<longleftrightarrow> length xs \<le> i"
  by (simp add: aset_def)

lemma ablock_Some_iff:
  "ablock xs off n = Some ys \<longleftrightarrow> off + n \<le> length xs \<and> ys = take n (drop off xs)"
  by (auto simp: ablock_def)

lemma length_ablock: "ablock xs off n = Some ys \<Longrightarrow> length ys = n"
  by (auto simp: ablock_Some_iff)

lemma length_ablit: "ablit xs off ys = Some zs \<Longrightarrow> length zs = length xs"
  by (auto simp: ablit_def split: if_splits)

lemma ablit_Some: "off + length ys \<le> length xs \<Longrightarrow>
    ablit xs off ys = Some (take off xs @ ys @ drop (off + length ys) xs)"
  by (simp add: ablit_def)

subsection \<open>Loops over lists that may stop with undefined behaviour\<close>

fun omap :: "('a \<Rightarrow> 'b option) \<Rightarrow> 'a list \<Rightarrow> 'b list option" where
  "omap f [] = Some []"
| "omap f (x # xs) = do { y \<leftarrow> f x; ys \<leftarrow> omap f xs; Some (y # ys) }"

fun ofold :: "('a \<Rightarrow> 's \<Rightarrow> 's option) \<Rightarrow> 'a list \<Rightarrow> 's \<Rightarrow> 's option" where
  "ofold f [] s = Some s"
| "ofold f (x # xs) s = do { t \<leftarrow> f x s; ofold f xs t }"

lemma ofold_append: "ofold f (xs @ ys) s = do { t \<leftarrow> ofold f xs s; ofold f ys t }"
proof (induction xs arbitrary: s)
  case (Cons x xs)
  then show ?case by (cases "f x s") auto
qed simp

lemma omap_Some_map:
  "(\<And>x. x \<in> set xs \<Longrightarrow> f x = Some (g x)) \<Longrightarrow> omap f xs = Some (map g xs)"
  by (induction xs) auto

lemma omap_length: "omap f xs = Some ys \<Longrightarrow> length ys = length xs"
proof (induction xs arbitrary: ys)
  case (Cons x xs)
  then show ?case by (auto simp: bind_eq_Some_conv)
qed simp

lemma omap_nth: "omap f xs = Some ys \<Longrightarrow> i < length xs \<Longrightarrow> f (xs ! i) = Some (ys ! i)"
proof (induction xs arbitrary: ys i)
  case (Cons x xs)
  then show ?case by (cases i) (auto simp: bind_eq_Some_conv)
qed simp

text \<open>An invariant of the body is an invariant of the loop, and a body that always steps
  under the invariant gives a loop that always finishes.\<close>

lemma ofold_invariant:
  assumes "ofold f xs s = Some t" and "P s"
    and "\<And>x a b. x \<in> set xs \<Longrightarrow> P a \<Longrightarrow> f x a = Some b \<Longrightarrow> P b"
  shows "P t"
  using assms
proof (induction xs arbitrary: s)
  case (Cons x xs)
  from Cons.prems(1) obtain b where b: "f x s = Some b" "ofold f xs b = Some t"
    by (auto simp: bind_eq_Some_conv)
  have "P b" using Cons.prems(2,3) b(1) by auto
  then show ?case using Cons.IH [OF b(2)] Cons.prems(3) by auto
qed simp

lemma ofold_total:
  assumes "P s"
    and "\<And>x a. x \<in> set xs \<Longrightarrow> P a \<Longrightarrow> \<exists>b. f x a = Some b \<and> P b"
  shows "\<exists>t. ofold f xs s = Some t \<and> P t"
  using assms
proof (induction xs arbitrary: s)
  case (Cons x xs)
  obtain b where b: "f x s = Some b" "P b" using Cons.prems by force
  obtain t where "ofold f xs b = Some t" "P t"
    using Cons.IH [OF b(2)] Cons.prems(2) by auto
  with b(1) show ?case by auto
qed simp

subsection \<open>Results of loops that may not end\<close>

text \<open>
  A loop that need not end runs with fuel. Its result tells apart what \<open>None\<close> would mix up:
  it has returned a value, it has run into undefined behaviour, or it is still running when the
  fuel is used up. \<open>Unfinished\<close> for every fuel is a loop that never ends.
\<close>

datatype 'a loop_result = Returned 'a | Undefined | Unfinished

fun lbind :: "'a loop_result \<Rightarrow> ('a \<Rightarrow> 'b loop_result) \<Rightarrow> 'b loop_result" where
  "lbind (Returned x) k = k x"
| "lbind Undefined k = Undefined"
| "lbind Unfinished k = Unfinished"

text \<open>Code without such loops, whose \<open>None\<close> is undefined behaviour, as part of a loop.\<close>

fun checked :: "'a option \<Rightarrow> 'a loop_result" where
  "checked (Some x) = Returned x"
| "checked None = Undefined"

lemma lbind_Returned_iff: "lbind m k = Returned y \<longleftrightarrow> (\<exists>x. m = Returned x \<and> k x = Returned y)"
  by (cases m) auto

lemma lbind_cong [fundef_cong]: "m = m' \<Longrightarrow> (\<And>x. m' = Returned x \<Longrightarrow> k x = k' x) \<Longrightarrow> lbind m k = lbind m' k'"
  by (cases m') auto

lemma checked_iff [simp]: "checked m = Returned x \<longleftrightarrow> m = Some x" "checked m = Undefined \<longleftrightarrow> m = None"
    "checked m \<noteq> Unfinished"
  by (cases m; simp)+

subsection \<open>Two-dimensional loops\<close>

text \<open>Accesses with a C++ \<open>int\<close> index: a negative index is outside the buffer.\<close>

definition iget :: "'a list \<Rightarrow> int \<Rightarrow> 'a option" where
  "iget xs i = (if 0 \<le> i then aget xs (nat i) else None)"

definition iset :: "'a list \<Rightarrow> int \<Rightarrow> 'a \<Rightarrow> 'a list option" where
  "iset xs i v = (if 0 \<le> i then aset xs (nat i) v else None)"

text \<open>The index pairs of \<open>for (y ...) for (x ...)\<close>, in order, also with strides.\<close>

definition pairs_by :: "nat \<Rightarrow> nat \<Rightarrow> nat \<Rightarrow> nat \<Rightarrow> (nat \<times> nat) list" where
  "pairs_by sy h sx w = concat (map (\<lambda>y. map (\<lambda>x. (sy * y, sx * x)) [0..<(w + sx - 1) div sx]) [0..<(h + sy - 1) div sy])"

abbreviation pairs :: "nat \<Rightarrow> nat \<Rightarrow> (nat \<times> nat) list" where
  "pairs h w \<equiv> pairs_by 1 h 1 w"

lemma set_pairs: "set (pairs h w) = {0..<h} \<times> {0..<w}"
  by (auto simp: pairs_by_def)

lemma set_pairs_by2: "set (pairs_by 2 h 2 w) = {(y, x). even y \<and> even x \<and> y < h \<and> x < w}"
proof -
  have "a \<in> (*) 2 ` {0..<(n + 1) div 2} \<longleftrightarrow> even a \<and> a < n" for a n :: nat
    by (auto simp: image_iff elim!: evenE) 
  then show ?thesis unfolding pairs_by_def by (auto simp: image_iff)
qed

lemma nth_concat_rows:
  "y < length rows \<Longrightarrow> \<forall>r \<in> set rows. length r = w \<Longrightarrow> x < w \<Longrightarrow> concat rows ! (y * w + x) = rows ! y ! x"
proof (induction rows arbitrary: y)
  case (Cons r rows)
  then show ?case by (cases y) (auto simp: nth_append)
qed simp

lemma length_pairs: "length (pairs h w) = h * w"
  by (simp add: pairs_by_def length_concat comp_def sum_list_triv)

lemma nth_pairs: "y < h \<Longrightarrow> x < w \<Longrightarrow> pairs h w ! (y * w + x) = (y, x)"
  by (simp add: pairs_by_def nth_concat_rows)

lemma row_index: "x < w \<Longrightarrow> y < h \<Longrightarrow> y * w + x < h * (w :: nat)"
proof -
  assume "x < w" "y < h"
  then have "y * w + x < Suc y * w" by simp
  also have "\<dots> \<le> h * w" using \<open>y < h\<close> by (intro mult_le_mono1) simp
  finally show ?thesis .
qed

text \<open>A loop whose body puts into each cell it writes a value that is right for the cell, and
  leaves the other cells alone, has right values in every cell of its items at the end.\<close>

lemma ofold_writes:
  assumes "P s"
    and step: "\<And>x a. x \<in> set xs \<Longrightarrow> P a \<Longrightarrow> \<exists>b. f x a = Some b \<and> P b \<and>
      (\<forall>p \<in> W x. R p (obs b p)) \<and> (\<forall>p. p \<notin> W x \<longrightarrow> obs b p = obs a p)"
  shows "\<exists>t. ofold f xs s = Some t \<and> P t \<and>
    (\<forall>p \<in> \<Union> (W ` set xs). R p (obs t p)) \<and> (\<forall>p. p \<notin> \<Union> (W ` set xs) \<longrightarrow> obs t p = obs s p)"
  using assms
proof (induction xs arbitrary: s)
  case (Cons x xs)
  obtain b where b: "f x s = Some b" "P b" "\<forall>p \<in> W x. R p (obs b p)" "\<forall>p. p \<notin> W x \<longrightarrow> obs b p = obs s p"
    using Cons.prems(2) [OF list.set_intros(1) Cons.prems(1)] by blast
  have "\<exists>t. ofold f xs b = Some t \<and> P t \<and> (\<forall>p \<in> \<Union> (W ` set xs). R p (obs t p)) \<and>
      (\<forall>p. p \<notin> \<Union> (W ` set xs) \<longrightarrow> obs t p = obs b p)"
    by (rule Cons.IH [OF b(2)]) (rule Cons.prems(2), simp_all)
  then obtain t where t: "ofold f xs b = Some t" "P t" "\<forall>p \<in> \<Union> (W ` set xs). R p (obs t p)"
    "\<forall>p. p \<notin> \<Union> (W ` set xs) \<longrightarrow> obs t p = obs b p" by blast
  have "R p (obs t p)" if "p \<in> \<Union> (W ` set (x # xs))" for p
    using that t(3,4) b(3) by (cases "p \<in> \<Union> (W ` set xs)") auto
  moreover have "obs t p = obs s p" if "p \<notin> \<Union> (W ` set (x # xs))" for p
    using that t(4) b(4) by auto
  ultimately show ?case using b(1) t(1,2) by auto
qed simp

subsection \<open>Lists\<close>

lemma filter_split_first:
  assumes "\<exists>x \<in> set xs. P x"
  shows "\<exists>ys z zs. xs = ys @ z # zs \<and> P z \<and> (\<forall>y \<in> set ys. \<not> P y)"
  using split_list_first_prop [OF assms] by blast

lemma find_map_Some: "find P xs = Some x \<Longrightarrow> P x \<and> x \<in> set xs"
  by (auto simp: find_Some_iff)

lemma find_ex: "\<exists>x \<in> set xs. P x \<Longrightarrow> \<exists>x. find P xs = Some x"
  by (cases "find P xs") (auto simp: find_None_iff)

subsection \<open>The contract of std::sort\<close>

text \<open>
  \<open>std::sort\<close> with a comparison that is a strict weak order on the elements returns some sorted permutation;
  which one, among elements the comparison does not separate, is unspecified. The operations
  that sort take the sorting function as an argument and rely on this contract only. That the result is a
  permutation is asked of every comparison, as implementations that only swap elements give it; the C++
  standard promises it, like the order, for strict weak orders.
\<close>

definition strict_weak_on :: "'a set \<Rightarrow> ('a \<Rightarrow> 'a \<Rightarrow> bool) \<Rightarrow> bool" where
  "strict_weak_on A lt \<longleftrightarrow> (\<forall>a \<in> A. \<not> lt a a) \<and>
     (\<forall>a \<in> A. \<forall>b \<in> A. \<forall>c \<in> A. lt a b \<longrightarrow> lt b c \<longrightarrow> lt a c) \<and>
     (\<forall>a \<in> A. \<forall>b \<in> A. \<forall>c \<in> A. \<not> lt a b \<longrightarrow> \<not> lt b c \<longrightarrow> \<not> lt a c)"

locale std_sort =
  fixes srt :: "('a \<Rightarrow> 'a \<Rightarrow> bool) \<Rightarrow> 'a list \<Rightarrow> 'a list"
  assumes srt_mset: "mset (srt lt xs) = mset xs"
    and srt_sorted: "strict_weak_on (set xs) lt \<Longrightarrow> sorted_wrt (\<lambda>a b. \<not> lt b a) (srt lt xs)"
begin

lemma srt_set: "set (srt lt xs) = set xs"
  using srt_mset by (metis set_mset_mset)

lemma srt_length: "length (srt lt xs) = length xs"
  using srt_mset by (metis size_mset)

end

fun isort1 :: "('a \<Rightarrow> 'a \<Rightarrow> bool) \<Rightarrow> 'a \<Rightarrow> 'a list \<Rightarrow> 'a list" where
  "isort1 lt x [] = [x]"
| "isort1 lt x (y # ys) = (if lt y x then y # isort1 lt x ys else x # y # ys)"

fun isort :: "('a \<Rightarrow> 'a \<Rightarrow> bool) \<Rightarrow> 'a list \<Rightarrow> 'a list" where
  "isort lt [] = []"
| "isort lt (x # xs) = isort1 lt x (isort lt xs)"

lemma mset_isort1: "mset (isort1 lt x xs) = add_mset x (mset xs)"
  by (induction xs) auto

lemma set_isort1: "set (isort1 lt x xs) = insert x (set xs)"
  by (induction xs) auto

lemma mset_isort: "mset (isort lt xs) = mset xs"
  by (induction xs) (simp_all add: mset_isort1)

lemma strict_weak_on_mono: "strict_weak_on B lt \<Longrightarrow> A \<subseteq> B \<Longrightarrow> strict_weak_on A lt"
  unfolding strict_weak_on_def by (intro conjI; blast)

lemma strict_weak_on_asym:
  "strict_weak_on A lt \<Longrightarrow> a \<in> A \<Longrightarrow> b \<in> A \<Longrightarrow> lt a b \<Longrightarrow> \<not> lt b a"
  unfolding strict_weak_on_def by blast

lemma strict_weak_on_negtrans:
  "strict_weak_on A lt \<Longrightarrow> a \<in> A \<Longrightarrow> b \<in> A \<Longrightarrow> c \<in> A \<Longrightarrow> \<not> lt a b \<Longrightarrow> \<not> lt b c \<Longrightarrow> \<not> lt a c"
  unfolding strict_weak_on_def by blast

lemma sorted_isort1:
  assumes "strict_weak_on (insert x (set xs)) lt" and "sorted_wrt (\<lambda>a b. \<not> lt b a) xs"
  shows "sorted_wrt (\<lambda>a b. \<not> lt b a) (isort1 lt x xs)"
  using assms
proof (induction xs)
  case (Cons y ys)
  note sw = Cons.prems(1)
  have sw': "strict_weak_on (insert x (set ys)) lt" by (rule strict_weak_on_mono [OF sw]) auto
  have IH: "sorted_wrt (\<lambda>a b. \<not> lt b a) (isort1 lt x ys)"
    by (rule Cons.IH [OF sw']) (use Cons.prems(2) in simp)
  show ?case
  proof (cases "lt y x")
    case True
    then have "\<not> lt x y" by (intro strict_weak_on_asym [OF sw]) simp_all
    then show ?thesis using True IH Cons.prems(2) by (simp add: set_isort1)
  next
    case False
    have "\<not> lt z x" if "z \<in> set ys" for z
      by (rule strict_weak_on_negtrans [OF sw, of z y x]) (use that False Cons.prems(2) in simp_all)
    then show ?thesis using False Cons.prems(2) by simp
  qed
qed simp

lemma set_isort: "set (isort lt xs) = set xs"
  using mset_isort by (metis set_mset_mset)

lemma sorted_isort: "strict_weak_on (set xs) lt \<Longrightarrow> sorted_wrt (\<lambda>a b. \<not> lt b a) (isort lt xs)"
proof (induction xs)
  case (Cons x xs)
  have "strict_weak_on (set xs) lt" by (rule strict_weak_on_mono [OF Cons.prems]) auto
  then have "sorted_wrt (\<lambda>a b. \<not> lt b a) (isort lt xs)" by (rule Cons.IH)
  then have "sorted_wrt (\<lambda>a b. \<not> lt b a) (isort1 lt x (isort lt xs))"
    using Cons.prems by (intro sorted_isort1) (simp_all add: set_isort)
  then show ?case by simp
qed simp

interpretation isort: std_sort isort
  by unfold_locales (simp_all add: mset_isort sorted_isort)

text \<open>A strict order obtained from a linearly ordered key.\<close>

lemma strict_weak_key: "strict_weak_on A (\<lambda>a b. (f a :: 'k::linorder) < f b)"
  unfolding strict_weak_on_def by (auto intro: less_trans)

text \<open>\<open>std::unique\<close>: the first of each run of equivalent neighbours.\<close>

fun uniq :: "('a \<Rightarrow> 'a \<Rightarrow> bool) \<Rightarrow> 'a list \<Rightarrow> 'a list" where
  "uniq eq [] = []"
| "uniq eq [x] = [x]"
| "uniq eq (x # y # ys) = (if eq x y then uniq eq (x # ys) else x # uniq eq (y # ys))"

lemma set_uniq_subset: "set (uniq eq xs) \<subseteq> set xs"
  by (induction eq xs rule: uniq.induct) auto

lemma uniq_keys: "f ` set (uniq (\<lambda>a b. f a = f b) xs) = f ` set xs"
proof (induction "\<lambda>a b. f a = f b" xs rule: uniq.induct)
  case (3 x y ys)
  then show ?case by (cases "f x = f y") auto
qed simp_all

lemma uniq_strict:
  fixes f :: "'a \<Rightarrow> 'k::linorder"
  shows "sorted_wrt (\<lambda>a b. \<not> f b < f a) xs \<Longrightarrow>
    sorted_wrt (\<lambda>a b. f a < f b) (uniq (\<lambda>a b. f a = f b) xs)"
proof (induction "\<lambda>a b. f a = f b" xs rule: uniq.induct)
  case (3 x y ys)
  show ?case
  proof (cases "f x = f y")
    case True
    then show ?thesis using 3 by simp
  next
    case False
    have "f x < f z" if "z \<in> set (uniq (\<lambda>a b. f a = f b) (y # ys))" for z
    proof -
      have "z \<in> set (y # ys)" using that set_uniq_subset by fast
      moreover have "f x < f y" using False "3.prems" by auto
      ultimately show ?thesis using "3.prems" by (auto simp: not_less)
    qed
    then show ?thesis using 3 False by auto
  qed
qed simp_all

subsection \<open>Words\<close>

lemma unat_push_bit_small:
  fixes x :: "'a::len word"
  assumes "unat x < 2 ^ (LENGTH('a) - n)" and "n \<le> LENGTH('a)"
  shows "unat (push_bit n x) = unat x * 2 ^ n"
proof -
  have "unat x * 2 ^ n < 2 ^ (LENGTH('a) - n) * 2 ^ n"
    using assms(1) by simp
  also have "\<dots> = 2 ^ LENGTH('a)"
    using assms(2) by (simp flip: power_add)
  finally have lt: "push_bit n (unat x) < 2 ^ LENGTH('a)"
    by (simp add: push_bit_eq_mult)
  have "unat (push_bit n x) = take_bit LENGTH('a) (push_bit n (unat x))"
    by (rule unsigned_push_bit_eq)
  also have "\<dots> = push_bit n (unat x)"
    using lt by (rule take_bit_nat_eq_self)
  finally show ?thesis by (simp add: push_bit_eq_mult)
qed

lemma unat_drop_bit: "unat (drop_bit n (x :: 'a::len word)) = unat x div 2 ^ n"
proof -
  have "unat (drop_bit n x) = drop_bit n (take_bit LENGTH('a) (unat x))"
    by (rule unsigned_drop_bit_eq)
  also have "\<dots> = drop_bit n (unat x)"
    by (simp add: take_bit_nat_eq_self)
  finally show ?thesis by (simp add: drop_bit_eq_div)
qed

end
