(* ===== verification/IeeeFloat.thy ===== *)
theory IeeeFloat
  imports SqPrelude
begin

text \<open>
  IEEE 754 binary floating point as the C++ code uses it: \<open>float\<close> (binary32) and
  \<open>double\<close> (binary64), round to nearest with ties to even, signed zeros, infinities and
  NaN. A finite value is a sign and a rational magnitude; every operation computes the exact
  rational result and rounds it once to the format, as the standard requires of
  \<open>+ - * / sqrt\<close>. NaN payloads are not distinguished.
\<close>

datatype fp = NaN | Inf bool | Fin bool rat

text \<open>A format: precision in bits, exponent of the smallest quantum, largest finite value.\<close>

datatype fmt = Fmt (fprec: nat) (fqmin: int) (ffmax: rat)

definition F32 :: fmt where
  "F32 = Fmt 24 (-149) (16777215 * 2 ^ 104)"

definition F64 :: fmt where
  "F64 = Fmt 53 (-1074) (9007199254740991 * 2 ^ 971)"

subsection \<open>Rounding\<close>

fun nlog2 :: "nat \<Rightarrow> nat" where
  "nlog2 n = (if n < 2 then 0 else Suc (nlog2 (n div 2)))"

declare nlog2.simps [simp del]

lemma nlog2_bounds: "0 < n \<Longrightarrow> 2 ^ nlog2 n \<le> n \<and> n < 2 ^ Suc (nlog2 n)"
proof (induction n rule: nlog2.induct)
  case (1 n)
  show ?case
  proof (cases "n < 2")
    case True
    with "1.prems" show ?thesis by (simp add: nlog2.simps [of n])
  next
    case False
    then have "2 ^ nlog2 (n div 2) \<le> n div 2 \<and> n div 2 < 2 ^ Suc (nlog2 (n div 2))"
      using "1.IH" by auto
    with False show ?thesis by (auto simp: nlog2.simps [of n])
  qed
qed

text \<open>The exponent of a positive rational: \<open>2 powi ilog2 q \<le> q < 2 powi (ilog2 q + 1)\<close>.\<close>

definition ilog2 :: "rat \<Rightarrow> int" where
  "ilog2 q = (case quotient_of q of (a, b) \<Rightarrow>
     let k = int (nlog2 (nat a)) - int (nlog2 (nat b))
     in if 2 powi k \<le> q then k else k - 1)"

lemma powi_nlog2_bounds:
  assumes "0 < a"
  shows "(2::rat) powi int (nlog2 (nat a)) \<le> of_int a"
    and "of_int a < (2::rat) powi (int (nlog2 (nat a)) + 1)"
proof -
  have b: "2 ^ nlog2 (nat a) \<le> nat a" "nat a < 2 ^ Suc (nlog2 (nat a))"
    using nlog2_bounds [of "nat a"] assms by auto
  have "(2::int) ^ nlog2 (nat a) \<le> a" using b(1) assms by (simp add: nat_le_iff le_nat_iff)
  then have "(of_int ((2::int) ^ nlog2 (nat a)) :: rat) \<le> of_int a" by (simp only: of_int_le_iff)
  then show "(2::rat) powi int (nlog2 (nat a)) \<le> of_int a" by simp
  have "a < (2::int) ^ Suc (nlog2 (nat a))" using b(2) assms by (simp add: nat_less_iff)
  then have "(of_int a :: rat) < of_int ((2::int) ^ Suc (nlog2 (nat a)))" by (simp only: of_int_less_iff)
  then show "of_int a < (2::rat) powi (int (nlog2 (nat a)) + 1)"
    by (simp add: power_int_add)
qed

lemma ilog2_bounds:
  assumes "0 < q"
  shows "2 powi ilog2 q \<le> q" and "q < 2 powi (ilog2 q + 1)"
proof -
  obtain a b where ab: "quotient_of q = (a, b)" by fastforce
  have b0: "0 < b" using quotient_of_denom_pos [OF ab] .
  have q: "q = of_int a / of_int b" using quotient_of_div [OF ab] .
  have a0: "0 < a" using assms b0 q by (simp add: zero_less_divide_iff)
  define m n where "m = int (nlog2 (nat a))" and "n = int (nlog2 (nat b))"
  have A: "2 powi m \<le> (of_int a :: rat)" "(of_int a :: rat) < 2 powi (m + 1)"
    using powi_nlog2_bounds [OF a0] by (simp_all add: m_def)
  have B: "2 powi n \<le> (of_int b :: rat)" "(of_int b :: rat) < 2 powi (n + 1)"
    using powi_nlog2_bounds [OF b0] by (simp_all add: n_def)
  have p: "0 < (2::rat) powi n" "0 < (2::rat) powi (n + 1)" by simp_all
  have b0r: "0 < (of_int b :: rat)" using b0 by simp
  have lo: "2 powi (m - n - 1) \<le> q"
  proof -
    have "(2::rat) powi (m - n - 1) = 2 powi m / 2 powi (n + 1)"
      by (simp add: power_int_diff power_int_add field_simps)
    also have "\<dots> \<le> of_int a / of_int b"
      by (rule frac_le) (use A(1) B(2) b0r a0 in auto)
    finally show ?thesis by (simp add: q)
  qed
  have hi: "q < 2 powi (m - n + 1)"
  proof -
    have "of_int a / of_int b \<le> of_int a / (2::rat) powi n"
      using B(1) a0 by (intro divide_left_mono) (simp_all add: b0 p)
    also have "\<dots> < 2 powi (m + 1) / 2 powi n"
      using A(2) p by (simp add: divide_strict_right_mono)
    also have "\<dots> = 2 powi (m - n + 1)"
      by (simp add: power_int_diff power_int_add field_simps)
    finally show ?thesis by (simp add: q)
  qed
  have il: "ilog2 q = (if 2 powi (m - n) \<le> q then m - n else m - n - 1)"
    by (simp add: ilog2_def ab m_def n_def Let_def)
  show "2 powi ilog2 q \<le> q" using lo by (simp add: il)
  show "q < 2 powi (ilog2 q + 1)" using hi by (simp add: il)
qed

text \<open>Round half to even.\<close>

definition rne :: "rat \<Rightarrow> int" where
  "rne x = (let f = floor x; r = x - of_int f in
     if r < 1/2 then f else if 1/2 < r then f + 1 else if even f then f else f + 1)"

lemma rne_of_int [simp]: "rne (of_int n) = n"
  by (simp add: rne_def)

lemma rne_floor: "floor x \<le> rne x \<and> rne x \<le> floor x + 1"
  by (simp add: rne_def Let_def)

lemma rne_mono: "x \<le> y \<Longrightarrow> rne x \<le> rne y"
proof -
  assume le: "x \<le> y"
  show ?thesis
  proof (cases "floor x = floor y")
    case True
    then show ?thesis using le by (auto simp: rne_def Let_def)
  next
    case False
    then have "floor x + 1 \<le> floor y" using floor_mono [OF le] by linarith
    then show ?thesis using rne_floor [of x] rne_floor [of y] by linarith
  qed
qed

definition fquantum :: "fmt \<Rightarrow> rat \<Rightarrow> int" where
  "fquantum F q = max (fqmin F) (ilog2 q - int (fprec F) + 1)"

definition rnd :: "fmt \<Rightarrow> rat \<Rightarrow> rat" where
  "rnd F q = (if q = 0 then 0
     else let e = fquantum F q in of_int (rne (q / 2 powi e)) * 2 powi e)"

definition fround :: "fmt \<Rightarrow> bool \<Rightarrow> rat \<Rightarrow> fp" where
  "fround F s q = (let m = rnd F q in if ffmax F < m then Inf s else Fin s m)"

text \<open>Values the format represents: an integer of at most \<open>fprec\<close> bits times a power of
  two that is not below the smallest quantum.\<close>

definition representable :: "fmt \<Rightarrow> rat \<Rightarrow> bool" where
  "representable F q \<longleftrightarrow> (\<exists>n e. q = of_int n * 2 powi e \<and> \<bar>n\<bar> < 2 ^ fprec F \<and> fqmin F \<le> e)"

lemma rnd_nonneg: "0 \<le> q \<Longrightarrow> 0 \<le> rnd F q"
proof -
  assume "0 \<le> q"
  have "0 \<le> rne (q / 2 powi fquantum F q)"
    using rne_mono [of 0 "q / 2 powi fquantum F q"] \<open>0 \<le> q\<close> rne_of_int [of 0] by simp
  then show ?thesis by (simp add: rnd_def Let_def)
qed

lemma ilog2_less_iff: "0 < q \<Longrightarrow> q < 2 powi k \<Longrightarrow> ilog2 q < k"
proof -
  assume "0 < q" "q < 2 powi k"
  then have "(2::rat) powi ilog2 q < 2 powi k"
    using ilog2_bounds(1) [of q] by linarith
  then show ?thesis
    using power_int_increasing [of k "ilog2 q" "2::rat"] by (meson linorder_not_less one_le_numeral)
qed

lemma rnd_exact:
  assumes "representable F q" and "0 \<le> q"
  shows "rnd F q = q"
proof (cases "q = 0")
  case False
  with assms(2) have q0: "0 < q" by simp
  from assms(1) obtain n e where n: "q = of_int n * 2 powi e" "\<bar>n\<bar> < 2 ^ fprec F" "fqmin F \<le> e"
    by (auto simp: representable_def)
  have "q < 2 powi (int (fprec F)) * 2 powi e"
  proof -
    have "(of_int n :: rat) < of_int (2 ^ fprec F)" using n(2) by (simp only: of_int_less_iff)
    then show ?thesis by (simp add: n(1))
  qed
  also have "\<dots> = 2 powi (int (fprec F) + e)" by (simp add: power_int_add)
  finally have "ilog2 q < int (fprec F) + e" using q0 ilog2_less_iff by blast
  then have le: "fquantum F q \<le> e" using n(3) by (simp add: fquantum_def)
  then obtain d where d: "e = fquantum F q + int d" using zle_iff_zadd by blast
  define f where "f = fquantum F q"
  have e: "(2::rat) powi e = 2 powi f * 2 ^ d" by (simp add: d f_def power_int_add)
  have "q / 2 powi f = of_int (n * 2 ^ d)" by (simp add: n(1) e)
  then have "rne (q / 2 powi f) = n * 2 ^ d" by (simp only: rne_of_int)
  moreover have "rnd F q = of_int (rne (q / 2 powi f)) * 2 powi f"
    using False by (simp add: rnd_def Let_def f_def)
  ultimately show ?thesis by (simp add: n(1) e)
qed (simp add: rnd_def)

lemma ilog2_mono: "0 < x \<Longrightarrow> x \<le> y \<Longrightarrow> ilog2 x \<le> ilog2 y"
  using ilog2_bounds(2) [of y] ilog2_less_iff [of x "ilog2 y + 1"] by simp

lemma rne_le_int: "x \<le> of_int n \<Longrightarrow> rne x \<le> n"
  using rne_mono [of x "of_int n"] by simp

lemma rne_ge_int: "of_int n \<le> x \<Longrightarrow> n \<le> rne x"
  using rne_mono [of "of_int n" x] by simp

lemma rnd_mono:
  assumes "0 \<le> x" and "x \<le> y" and p: "0 < fprec F"
  shows "rnd F x \<le> rnd F y"
proof (cases "x = 0")
  case True
  then show ?thesis using rnd_nonneg [of y F] assms by (simp add: rnd_def)
next
  case False
  with assms have x0: "0 < x" and y0: "0 < y" by simp_all
  define ex ey where "ex = fquantum F x" and "ey = fquantum F y"
  have rx: "rnd F x = of_int (rne (x / 2 powi ex)) * 2 powi ex"
    and ry: "rnd F y = of_int (rne (y / 2 powi ey)) * 2 powi ey"
    using x0 y0 by (simp_all add: rnd_def Let_def ex_def ey_def)
  have px: "0 < (2::rat) powi ex" and py: "0 < (2::rat) powi ey" by simp_all
  have lg: "ilog2 x \<le> ilog2 y" using ilog2_mono [OF x0 assms(2)] .
  then have le: "ex \<le> ey" by (simp add: ex_def ey_def fquantum_def)
  show ?thesis
  proof (cases "ex = ey")
    case True
    have "rne (x / 2 powi ex) \<le> rne (y / 2 powi ex)"
      using assms(2) px by (intro rne_mono divide_right_mono) simp_all
    then show ?thesis using True px by (simp add: rx ry mult_right_mono)
  next
    case False
    with le have lt: "ex < ey" by simp
    then have iy: "ilog2 y = ey + int (fprec F) - 1" and ix: "ilog2 x - int (fprec F) + 1 < ey"
      by (auto simp: ex_def ey_def fquantum_def max_def split: if_splits)
    define T :: rat where "T = 2 powi (ey + int (fprec F) - 1)"
    define a b where "a = nat (ey + int (fprec F) - 1 - ex)" and "b = nat (int (fprec F) - 1)"
    have Ta: "T = of_int (2 ^ a) * 2 powi ex"
    proof -
      have a: "ey + int (fprec F) - 1 = int a + ex" using lt p by (simp add: a_def)
      show ?thesis unfolding T_def a by (simp add: power_int_add)
    qed
    have Tb: "T = of_int (2 ^ b) * 2 powi ey"
    proof -
      have b: "ey + int (fprec F) - 1 = int b + ey" using p by (simp add: b_def)
      show ?thesis unfolding T_def b by (simp add: power_int_add)
    qed
    have "x \<le> 2 powi (ilog2 x + 1)" using ilog2_bounds(2) [OF x0] by simp
    also have "\<dots> \<le> T"
      unfolding T_def by (rule power_int_increasing) (use ix in simp_all)
    finally have "x / 2 powi ex \<le> of_int (2 ^ a)" using px by (simp add: Ta divide_le_eq)
    then have "rne (x / 2 powi ex) \<le> 2 ^ a" by (rule rne_le_int)
    then have "(of_int (rne (x / 2 powi ex)) :: rat) \<le> of_int (2 ^ a)" by (simp only: of_int_le_iff)
    then have 1: "rnd F x \<le> T" unfolding rx Ta using px by (intro mult_right_mono) simp_all
    have "T \<le> y" using ilog2_bounds(1) [OF y0] by (simp add: T_def iy)
    then have "of_int (2 ^ b) \<le> y / 2 powi ey" using py by (simp add: Tb le_divide_eq)
    then have "2 ^ b \<le> rne (y / 2 powi ey)" by (rule rne_ge_int)
    then have "(of_int (2 ^ b) :: rat) \<le> of_int (rne (y / 2 powi ey))" by (simp only: of_int_le_iff)
    then have 2: "T \<le> rnd F y" unfolding ry Tb using py by (intro mult_right_mono) simp_all
    from 1 2 show ?thesis by (rule order_trans)
  qed
qed

lemma rnd_le_representable:
  assumes "0 \<le> x" and "x \<le> m" and "representable F m" and "0 < fprec F"
  shows "rnd F x \<le> m"
  using rnd_mono [OF assms(1,2,4)] rnd_exact [OF assms(3)] assms(1,2) by simp

lemma representable_int:
  "\<bar>n\<bar> < 2 ^ fprec F \<Longrightarrow> fqmin F \<le> 0 \<Longrightarrow> representable F (of_int n)"
  unfolding representable_def by (rule exI [of _ n], rule exI [of _ 0]) simp

subsection \<open>Arithmetic\<close>

definition sval :: "bool \<Rightarrow> rat \<Rightarrow> rat" where
  "sval s a = (if s then - a else a)"

text \<open>A rational constant rounded to the format: how a literal is read.\<close>

definition flit :: "fmt \<Rightarrow> rat \<Rightarrow> fp" where
  "flit F q = fround F (q < 0) \<bar>q\<bar>"

definition f_of_int :: "fmt \<Rightarrow> int \<Rightarrow> fp" where
  "f_of_int F n = flit F (of_int n)"

fun fneg :: "fp \<Rightarrow> fp" where
  "fneg NaN = NaN"
| "fneg (Inf s) = Inf (\<not> s)"
| "fneg (Fin s a) = Fin (\<not> s) a"

fun ffabs :: "fp \<Rightarrow> fp" where
  "ffabs NaN = NaN"
| "ffabs (Inf s) = Inf False"
| "ffabs (Fin s a) = Fin False a"

fun fadd :: "fmt \<Rightarrow> fp \<Rightarrow> fp \<Rightarrow> fp" where
  "fadd F NaN y = NaN"
| "fadd F (Inf s) NaN = NaN"
| "fadd F (Inf s) (Inf t) = (if s = t then Inf s else NaN)"
| "fadd F (Inf s) (Fin t b) = Inf s"
| "fadd F (Fin s a) NaN = NaN"
| "fadd F (Fin s a) (Inf t) = Inf t"
| "fadd F (Fin s a) (Fin t b) =
     (let v = sval s a + sval t b
      in if v = 0 then Fin (s \<and> t) 0 else fround F (v < 0) \<bar>v\<bar>)"

definition fsub :: "fmt \<Rightarrow> fp \<Rightarrow> fp \<Rightarrow> fp" where
  "fsub F x y = fadd F x (fneg y)"

fun fmul :: "fmt \<Rightarrow> fp \<Rightarrow> fp \<Rightarrow> fp" where
  "fmul F NaN y = NaN"
| "fmul F (Inf s) NaN = NaN"
| "fmul F (Inf s) (Inf t) = Inf (s \<noteq> t)"
| "fmul F (Inf s) (Fin t b) = (if b = 0 then NaN else Inf (s \<noteq> t))"
| "fmul F (Fin s a) NaN = NaN"
| "fmul F (Fin s a) (Inf t) = (if a = 0 then NaN else Inf (s \<noteq> t))"
| "fmul F (Fin s a) (Fin t b) = fround F (s \<noteq> t) (a * b)"

fun fdiv :: "fmt \<Rightarrow> fp \<Rightarrow> fp \<Rightarrow> fp" where
  "fdiv F NaN y = NaN"
| "fdiv F (Inf s) NaN = NaN"
| "fdiv F (Inf s) (Inf t) = NaN"
| "fdiv F (Inf s) (Fin t b) = Inf (s \<noteq> t)"
| "fdiv F (Fin s a) NaN = NaN"
| "fdiv F (Fin s a) (Inf t) = Fin (s \<noteq> t) 0"
| "fdiv F (Fin s a) (Fin t b) =
     (if b = 0 then if a = 0 then NaN else Inf (s \<noteq> t) else fround F (s \<noteq> t) (a / b))"

text \<open>Integer square root, and the correctly rounded square root built on it.\<close>

fun isqrt :: "nat \<Rightarrow> nat" where
  "isqrt n = (if n = 0 then 0
     else let r = 2 * isqrt (n div 4) in if (r + 1) * (r + 1) \<le> n then r + 1 else r)"

declare isqrt.simps [simp del]

definition rsqrt :: "fmt \<Rightarrow> rat \<Rightarrow> rat" where
  "rsqrt F q =
     (let e = max (fqmin F) (ilog2 q div 2 - int (fprec F) + 1);
          x = q / 2 powi (2 * e);
          n = isqrt (nat (floor x));
          h = (of_nat n + 1/2) * (of_nat n + 1/2);
          m = (if x < h then n else if h < x then n + 1 else if even n then n else n + 1)
      in of_nat m * 2 powi e)"

fun fsqrt :: "fmt \<Rightarrow> fp \<Rightarrow> fp" where
  "fsqrt F NaN = NaN"
| "fsqrt F (Inf s) = (if s then NaN else Inf False)"
| "fsqrt F (Fin s a) = (if a = 0 then Fin s 0 else if s then NaN else Fin False (rsqrt F a))"

subsection \<open>Comparison and conversion\<close>

fun flt :: "fp \<Rightarrow> fp \<Rightarrow> bool" where
  "flt NaN y = False"
| "flt (Inf s) NaN = False"
| "flt (Inf s) (Inf t) = (s \<and> \<not> t)"
| "flt (Inf s) (Fin t b) = s"
| "flt (Fin s a) NaN = False"
| "flt (Fin s a) (Inf t) = (\<not> t)"
| "flt (Fin s a) (Fin t b) = (sval s a < sval t b)"

fun feq :: "fp \<Rightarrow> fp \<Rightarrow> bool" where
  "feq (Inf s) (Inf t) = (s = t)"
| "feq (Fin s a) (Fin t b) = (sval s a = sval t b)"
| "feq x y = False"

definition fle :: "fp \<Rightarrow> fp \<Rightarrow> bool" where
  "fle x y \<longleftrightarrow> flt x y \<or> feq x y"

definition isnan :: "fp \<Rightarrow> bool" where
  "isnan x \<longleftrightarrow> x = NaN"

fun isinf :: "fp \<Rightarrow> bool" where
  "isinf (Inf s) = True"
| "isinf x = False"

fun isfin :: "fp \<Rightarrow> bool" where
  "isfin (Fin s a) = True"
| "isfin x = False"

text \<open>Conversion between formats, rounding where the target is narrower.\<close>

fun fcvt :: "fmt \<Rightarrow> fp \<Rightarrow> fp" where
  "fcvt F (Fin s a) = fround F s a"
| "fcvt F x = x"

text \<open>Conversion to an integer truncates toward zero; NaN and infinities have no integer
  value (undefined behaviour in C++).\<close>

fun ftrunc :: "fp \<Rightarrow> int option" where
  "ftrunc (Fin s a) = Some (if s then - floor a else floor a)"
| "ftrunc x = None"

definition f_to_u8 :: "fp \<Rightarrow> u8 option" where
  "f_to_u8 x = (case ftrunc x of None \<Rightarrow> None
     | Some n \<Rightarrow> if 0 \<le> n \<and> n < 256 then Some (word_of_int n) else None)"

definition f_to_u32 :: "fp \<Rightarrow> u32 option" where
  "f_to_u32 x = (case ftrunc x of None \<Rightarrow> None
     | Some n \<Rightarrow> if 0 \<le> n \<and> n < 2 ^ 32 then Some (word_of_int n) else None)"

text \<open>\<open>floor\<close> and \<open>fmod (x, 1)\<close> of the C library are exact.\<close>

fun ffloor :: "fp \<Rightarrow> fp" where
  "ffloor (Fin s a) = Fin s (if s then of_int (ceiling a) else of_int (floor a))"
| "ffloor x = x"

fun fmod1 :: "fp \<Rightarrow> fp" where
  "fmod1 (Fin s a) = Fin s (a - of_int (floor a))"
| "fmod1 x = NaN"

definition fzero :: fp where
  "fzero = Fin False 0"

subsection \<open>Facts the components use\<close>

lemma fmt_simps [simp]:
  "fprec F32 = 24" "fqmin F32 = -149" "ffmax F32 = 16777215 * 2 ^ 104"
  "fprec F64 = 53" "fqmin F64 = -1074" "ffmax F64 = 9007199254740991 * 2 ^ 971"
  by (simp_all add: F32_def F64_def)

lemma nan_right [simp]:
  "fadd F x NaN = NaN" "fmul F x NaN = NaN" "fdiv F x NaN = NaN"
  by (cases x; simp)+

lemma nan_sub [simp]: "fsub F NaN y = NaN" "fsub F x NaN = NaN"
  by (simp_all add: fsub_def)

lemma nan_cmp [simp]: "\<not> flt x NaN" "\<not> feq NaN y" "\<not> feq x NaN" "\<not> fle NaN y" "\<not> fle x NaN"
  by (cases x; simp add: fle_def)+

lemma isnan_simps [simp]:
  "isnan NaN" "\<not> isnan (Inf s)" "\<not> isnan (Fin s a)"
  by (simp_all add: isnan_def)

lemma fneg_eq_NaN [simp]: "fneg x = NaN \<longleftrightarrow> x = NaN"
  by (cases x) simp_all

lemma fround_not_nan [simp]: "fround F s q \<noteq> NaN"
  by (simp add: fround_def Let_def)

text \<open>A value minus itself is a positive zero, or NaN for an infinity or a NaN.\<close>

lemma fsub_self: "fsub F x x = NaN \<or> fsub F x x = Fin False 0"
  by (cases x) (auto simp: fsub_def sval_def)

lemma feq_zero_iff: "feq x fzero \<longleftrightarrow> (\<exists>s. x = Fin s 0)"
  by (cases x) (auto simp: fzero_def sval_def)

lemma fround_exact:
  assumes "representable F q" and "0 \<le> q" and "q \<le> ffmax F"
  shows "fround F s q = Fin s q"
  using assms by (simp add: fround_def rnd_exact)

lemma fround_zero [simp]: "0 \<le> ffmax F \<Longrightarrow> fround F s 0 = Fin s 0"
  by (simp add: fround_def rnd_def)

lemma f_of_int_exact:
  assumes "\<bar>n\<bar> < 2 ^ 24"
  shows "f_of_int F32 n = Fin (n < 0) \<bar>of_int n\<bar>"
proof -
  have r: "representable F32 (of_int \<bar>n\<bar>)"
    using assms by (intro representable_int) simp_all
  have "(of_int \<bar>n\<bar> :: rat) \<le> of_int (2 ^ 24)"
    using assms by (subst of_int_le_iff) simp
  also have "\<dots> \<le> ffmax F32" by simp
  finally have "fround F32 (n < 0) (of_int \<bar>n\<bar>) = Fin (n < 0) (of_int \<bar>n\<bar>)"
    using r by (intro fround_exact) simp_all
  then show ?thesis by (simp add: f_of_int_def flit_def)
qed

lemma isqrt_bounds: "isqrt n * isqrt n \<le> n \<and> n < Suc (isqrt n) * Suc (isqrt n)"
proof (induction n rule: isqrt.induct)
  case (1 n)
  show ?case
  proof (cases "n = 0")
    case True
    then show ?thesis by (simp add: isqrt.simps)
  next
    case False
    define r where "r = isqrt (n div 4)"
    have IH: "r * r \<le> n div 4" "n div 4 < Suc r * Suc r" using "1.IH" False by (auto simp: r_def)
    have lo: "2 * r * (2 * r) \<le> n" using IH(1) by linarith
    have "n < 4 * (Suc r * Suc r)" using IH(2) by linarith
    then have hi: "n < Suc (Suc (2 * r)) * Suc (Suc (2 * r))" by (simp add: algebra_simps)
    show ?thesis using False lo hi
      by (subst (1 2 3 4) isqrt.simps) (simp add: Let_def r_def [symmetric])
  qed
qed

text \<open>Without NaN the comparison is a strict weak order.\<close>

lemma flt_irrefl [simp]: "\<not> flt x x"
  by (cases x) simp_all

lemma flt_trans: "flt x y \<Longrightarrow> flt y z \<Longrightarrow> flt x z"
  by (cases x; cases y; cases z) auto

lemma flt_negtrans: "y \<noteq> NaN \<Longrightarrow> \<not> flt x y \<Longrightarrow> \<not> flt y z \<Longrightarrow> \<not> flt x z"
  by (cases x; cases y; cases z) auto

lemma flt_strict_weak:
  "\<forall>a \<in> A. f a \<noteq> NaN \<Longrightarrow> strict_weak_on A (\<lambda>l r. flt (f l) (f r))"
  unfolding strict_weak_on_def
  by (intro conjI ballI impI) (simp, erule (1) flt_trans, rule flt_negtrans, simp_all)

end
