(* ===== verification/Gmtl.thy ===== *)
theory Gmtl
  imports IeeeFloat
begin

text \<open>
  The part of the bundled math library (\<open>src/core/gmtl\<close>) the program computes with, on
  binary32 values: vectors of two, three and four floats, their arithmetic, dot and cross
  products, lengths, and the axis-aligned box. Sums are associated the way the
  library's unrolled templates associate them.
\<close>

datatype vec2 = V2 (v2x: fp) (v2y: fp)
datatype vec3 = V3 (vx: fp) (vy: fp) (vz: fp)
datatype vec4 = V4 (wx: fp) (wy: fp) (wz: fp) (ww: fp)

definition vadd :: "vec3 \<Rightarrow> vec3 \<Rightarrow> vec3" where
  "vadd a b = V3 (fadd F32 (vx a) (vx b)) (fadd F32 (vy a) (vy b)) (fadd F32 (vz a) (vz b))"

definition vsub :: "vec3 \<Rightarrow> vec3 \<Rightarrow> vec3" where
  "vsub a b = V3 (fsub F32 (vx a) (vx b)) (fsub F32 (vy a) (vy b)) (fsub F32 (vz a) (vz b))"

definition vscale :: "vec3 \<Rightarrow> fp \<Rightarrow> vec3" where
  "vscale a s = V3 (fmul F32 (vx a) s) (fmul F32 (vy a) s) (fmul F32 (vz a) s)"

definition vdivs :: "vec3 \<Rightarrow> fp \<Rightarrow> vec3" where
  "vdivs a s = V3 (fdiv F32 (vx a) s) (fdiv F32 (vy a) s) (fdiv F32 (vz a) s)"

definition wsub :: "vec4 \<Rightarrow> vec4 \<Rightarrow> vec4" where
  "wsub a b = V4 (fsub F32 (wx a) (wx b)) (fsub F32 (wy a) (wy b))
                 (fsub F32 (wz a) (wz b)) (fsub F32 (ww a) (ww b))"

text \<open>\<open>DotVecUnrolled\<close> and \<open>LenSqrVecUnrolled\<close> add the last component's product first.\<close>

definition vdot :: "vec3 \<Rightarrow> vec3 \<Rightarrow> fp" where
  "vdot a b = fadd F32 (fmul F32 (vz a) (vz b))
                (fadd F32 (fmul F32 (vy a) (vy b)) (fmul F32 (vx a) (vx b)))"

definition vlengthSquared :: "vec3 \<Rightarrow> fp" where
  "vlengthSquared a = vdot a a"

definition vlength :: "vec3 \<Rightarrow> fp" where
  "vlength a = (let r = vlengthSquared a in if feq r fzero then fzero else fsqrt F32 r)"

definition vnormalize :: "vec3 \<Rightarrow> vec3" where
  "vnormalize a = (let len = vlength a in if \<not> feq len fzero then vdivs a len else a)"

definition vcross :: "vec3 \<Rightarrow> vec3 \<Rightarrow> vec3" where
  "vcross a b = V3
     (fsub F32 (fmul F32 (vy a) (vz b)) (fmul F32 (vz a) (vy b)))
     (fsub F32 (fmul F32 (vz a) (vx b)) (fmul F32 (vx a) (vz b)))
     (fsub F32 (fmul F32 (vx a) (vy b)) (fmul F32 (vy a) (vx b)))"

subsection \<open>Axis-aligned boxes\<close>

record aabox =
  mMin :: vec3
  mMax :: vec3
  mEmpty :: bool

definition vzero :: vec3 where
  "vzero = V3 fzero fzero fzero"

definition aabox_empty :: aabox where
  "aabox_empty = \<lparr>mMin = vzero, mMax = vzero, mEmpty = True\<rparr>"

definition aabox_of :: "vec3 \<Rightarrow> vec3 \<Rightarrow> aabox" where
  "aabox_of lo hi = \<lparr>mMin = lo, mMax = hi, mEmpty = False\<rparr>"

subsection \<open>NaN is contagious\<close>

definition vhasnan :: "vec3 \<Rightarrow> bool" where
  "vhasnan v \<longleftrightarrow> vx v = NaN \<or> vy v = NaN \<or> vz v = NaN"

lemma vdot_nan: "vhasnan a \<or> vhasnan b \<Longrightarrow> vdot a b = NaN"
  by (auto simp: vdot_def vhasnan_def)

lemma vlength_nan: "vhasnan a \<Longrightarrow> vlength a = NaN"
  by (simp add: vlength_def vlengthSquared_def vdot_nan)

end
