(* ===== verification/OctTreeLoc.thy ===== *)
theory OctTreeLoc
  imports Gmtl
begin

text \<open>
  \<open>OctTreeLoc\<close> (\<open>src/core/OctTreeLoc.h\<close>, \<open>src/core/OctTreeLoc.cpp\<close>): the address of a cell of
  an octree, a level and three 32-bit tile coordinates. Unsigned arithmetic wraps as in C++;
  a shift by 32 or more, undefined in C++, is \<open>None\<close>.
\<close>

datatype octloc = OctTreeLoc (m_level: u32) (m_x: u32) (m_y: u32) (m_z: u32)

definition sInvalidLOD :: u32 where
  "sInvalidLOD = - 1"

definition invalid_loc :: octloc where
  "invalid_loc = OctTreeLoc sInvalidLOD 0 0 0"

subsection \<open>Shifts\<close>

definition shr32 :: "u32 \<Rightarrow> u32 \<Rightarrow> u32 option" where
  "shr32 x n = (if unat n < 32 then Some (drop_bit (unat n) x) else None)"

definition shl32 :: "u32 \<Rightarrow> u32 \<Rightarrow> u32 option" where
  "shl32 x n = (if unat n < 32 then Some (push_bit (unat n) x) else None)"

subsection \<open>Comparison operators\<close>

definition loc_eq :: "octloc \<Rightarrow> octloc \<Rightarrow> bool" where
  "loc_eq a b \<longleftrightarrow> m_level a = m_level b \<and> m_x a = m_x b \<and> m_y a = m_y b \<and> m_z a = m_z b"

definition loc_ne :: "octloc \<Rightarrow> octloc \<Rightarrow> bool" where
  "loc_ne a b \<longleftrightarrow> \<not> loc_eq a b"

definition loc_lt :: "octloc \<Rightarrow> octloc \<Rightarrow> bool" where
  "loc_lt a b =
     (if m_level a \<noteq> m_level b then m_level a < m_level b
      else if m_x a \<noteq> m_x b then m_x a < m_x b
      else if m_y a \<noteq> m_y b then m_y a < m_y b
      else if m_z a \<noteq> m_z b then m_z a < m_z b
      else False)"

definition loc_gt :: "octloc \<Rightarrow> octloc \<Rightarrow> bool" where
  "loc_gt a b =
     (if m_level a \<noteq> m_level b then m_level b < m_level a
      else if m_x a \<noteq> m_x b then m_x b < m_x a
      else if m_y a \<noteq> m_y b then m_y b < m_y a
      else if m_z a \<noteq> m_z b then m_z b < m_z a
      else False)"

definition loc_le :: "octloc \<Rightarrow> octloc \<Rightarrow> bool" where
  "loc_le a b \<longleftrightarrow> \<not> loc_gt a b"

definition loc_ge :: "octloc \<Rightarrow> octloc \<Rightarrow> bool" where
  "loc_ge a b \<longleftrightarrow> \<not> loc_lt a b"

text \<open>The comparison operators make the addresses a linear order.\<close>

instantiation octloc :: linorder
begin

definition less_eq_octloc :: "octloc \<Rightarrow> octloc \<Rightarrow> bool" where
  "less_eq_octloc a b = loc_le a b"

definition less_octloc :: "octloc \<Rightarrow> octloc \<Rightarrow> bool" where
  "less_octloc a b = loc_lt a b"

instance
  by standard
    (auto simp: less_eq_octloc_def less_octloc_def loc_le_def loc_lt_def loc_gt_def
       intro: octloc.expand split: if_splits)

end

subsection \<open>Operations\<close>

definition IsValid :: "octloc \<Rightarrow> bool option" where
  "IsValid l =
     (if m_level l = sInvalidLOD then Some False
      else do {
        maxTileIdx \<leftarrow> shl32 1 (m_level l);
        Some (\<not> (maxTileIdx \<le> m_x l \<or> maxTileIdx \<le> m_y l \<or> maxTileIdx \<le> m_z l)) })"

definition GetChild :: "octloc \<Rightarrow> u64 \<Rightarrow> octloc" where
  "GetChild l idx =
     (let xInc = ucast (idx AND 1); yInc = ucast (drop_bit 1 idx AND 1);
          zInc = ucast (drop_bit 2 idx AND 1)
      in OctTreeLoc (m_level l + 1) (push_bit 1 (m_x l) + xInc)
           (push_bit 1 (m_y l) + yInc) (push_bit 1 (m_z l) + zInc))"

definition ParentAtLevel :: "octloc \<Rightarrow> u32 \<Rightarrow> octloc option" where
  "ParentAtLevel l level =
     (let levelShift = m_level l - level
      in do { x \<leftarrow> shr32 (m_x l) levelShift; y \<leftarrow> shr32 (m_y l) levelShift;
              z \<leftarrow> shr32 (m_z l) levelShift; Some (OctTreeLoc level x y z) })"

text \<open>\<open>int levelDelta\<close>: the wrapped unsigned difference read as a signed 32-bit value.\<close>

definition GlobalToLoc :: "octloc \<Rightarrow> octloc \<Rightarrow> octloc option" where
  "GlobalToLoc l parentTile =
     (let levelDelta = m_level l - m_level parentTile
      in if sint levelDelta < 0 then Some invalid_loc
         else do {
           gx \<leftarrow> shr32 (m_x l) levelDelta; gy \<leftarrow> shr32 (m_y l) levelDelta;
           gz \<leftarrow> shr32 (m_z l) levelDelta;
           if gx \<noteq> m_x parentTile \<or> gy \<noteq> m_y parentTile \<or> gz \<noteq> m_z parentTile
           then Some invalid_loc
           else do {
             sx \<leftarrow> shl32 (m_x parentTile) levelDelta; sy \<leftarrow> shl32 (m_y parentTile) levelDelta;
             sz \<leftarrow> shl32 (m_z parentTile) levelDelta;
             Some (OctTreeLoc levelDelta (m_x l - sx) (m_y l - sy) (m_z l - sz)) } })"

definition npos64 :: u64 where
  "npos64 = - 1"

definition IndexOfChild :: "octloc \<Rightarrow> octloc \<Rightarrow> u64 option" where
  "IndexOfChild l child =
     (if m_level child \<le> m_level l then Some npos64
      else do {
        childLoc \<leftarrow> (if m_level l + 1 < m_level child
                      then ParentAtLevel child (m_level l + 1) else Some child);
        let localX = m_x childLoc - push_bit 1 (m_x l);
            localY = m_y childLoc - push_bit 1 (m_y l);
            localZ = m_z childLoc - push_bit 1 (m_z l)
        in if 1 < localX \<or> 1 < localY \<or> 1 < localZ then Some npos64
           else Some (ucast (push_bit 2 localZ OR push_bit 1 localY OR localX)) })"

definition IsChildOf :: "octloc \<Rightarrow> octloc \<Rightarrow> bool option" where
  "IsChildOf l parent =
     (let levelDelta = m_level l - m_level parent
      in if sint levelDelta < 0 then Some False
         else do {
           gx \<leftarrow> shr32 (m_x l) levelDelta; gy \<leftarrow> shr32 (m_y l) levelDelta;
           gz \<leftarrow> shr32 (m_z l) levelDelta;
           Some (\<not> (gx \<noteq> m_x parent \<or> gy \<noteq> m_y parent \<or> gz \<noteq> m_z parent)) })"

subsection \<open>Geometry\<close>

definition mulvec :: "vec3 \<Rightarrow> vec3 \<Rightarrow> vec3" where
  "mulvec a b = V3 (fmul F32 (vx a) (vx b)) (fmul F32 (vy a) (vy b)) (fmul F32 (vz a) (vz b))"

definition u32_to_f :: "u32 \<Rightarrow> fp" where
  "u32_to_f x = f_of_int F32 (uint x)"

definition GetBounds :: "octloc \<Rightarrow> aabox \<Rightarrow> aabox option" where
  "GetBounds l bounds = do {
     p \<leftarrow> shl32 1 (m_level l);
     let extents = vdivs (vsub (mMax bounds) (mMin bounds)) (u32_to_f p);
         minPt = V3 (u32_to_f (m_x l)) (u32_to_f (m_y l)) (u32_to_f (m_z l));
         maxPt = V3 (u32_to_f (m_x l + 1)) (u32_to_f (m_y l + 1)) (u32_to_f (m_z l + 1))
     in Some (aabox_of (vadd (mMin bounds) (mulvec minPt extents))
                       (vadd (mMin bounds) (mulvec maxPt extents))) }"

definition GetTileAtLoc :: "vec3 \<Rightarrow> u32 \<Rightarrow> aabox \<Rightarrow> octloc option" where
  "GetTileAtLoc pt level bounds = do {
     p \<leftarrow> shl32 1 level;
     let e = vdivs (vsub (mMax bounds) (mMin bounds)) (u32_to_f p);
         one = f_of_int F32 1;
         inv = V3 (fdiv F32 one (vx e)) (fdiv F32 one (vy e)) (fdiv F32 one (vz e));
         xyz = mulvec (vsub pt (mMin bounds)) inv
     in do { x \<leftarrow> f_to_u32 (vx xyz); y \<leftarrow> f_to_u32 (vy xyz); z \<leftarrow> f_to_u32 (vz xyz);
             Some (OctTreeLoc level x y z) } }"

subsection \<open>Addresses as numbers\<close>

text \<open>A cell of a tree of depth at most 31: every coordinate is below \<open>2 ^ level\<close>.\<close>

definition loc_ok :: "octloc \<Rightarrow> bool" where
  "loc_ok l \<longleftrightarrow> unat (m_level l) < 32 \<and> unat (m_x l) < 2 ^ unat (m_level l) \<and>
     unat (m_y l) < 2 ^ unat (m_level l) \<and> unat (m_z l) < 2 ^ unat (m_level l)"

lemma octloc_eqI:
  "m_level a = m_level b \<Longrightarrow> m_x a = m_x b \<Longrightarrow> m_y a = m_y b \<Longrightarrow> m_z a = m_z b \<Longrightarrow> a = b"
  by (cases a; cases b) simp

lemma unat_shl_one: "n < 32 \<Longrightarrow> unat ((2 :: u32) ^ n) = 2 ^ n"
  using one_less_power [of "2::nat" "32 - n"] unat_push_bit_small [of "1 :: u32" n] by simp

lemma unat_sInvalidLOD: "unat sInvalidLOD = 4294967295"
  using unsigned_minus_1_eq_mask [where 'a=nat and 'b=32]
  by (simp add: sInvalidLOD_def mask_eq_exp_minus_1)

lemma IsValid_iff: "IsValid l = Some True \<longleftrightarrow> loc_ok l"
proof (cases "m_level l = sInvalidLOD")
  case True
  then have "\<not> unat (m_level l) < 32" by (simp add: unat_sInvalidLOD)
  then have "\<not> loc_ok l" unfolding loc_ok_def by blast
  with True show ?thesis by (simp add: IsValid_def)
next
  case False
  then show ?thesis
    by (auto simp: IsValid_def shl32_def loc_ok_def word_le_nat_alt unat_shl_one not_le)
qed

lemma pow2_le_u32: "n < 32 \<Longrightarrow> (2::nat) ^ n \<le> 2 ^ 31"
  by (intro power_increasing) auto

lemma loc_ok_small: "loc_ok l \<Longrightarrow> unat (m_x l) < 2 ^ 31 \<and> unat (m_y l) < 2 ^ 31 \<and> unat (m_z l) < 2 ^ 31"
  using pow2_le_u32 [of "unat (m_level l)"] by (auto simp: loc_ok_def)

text \<open>The difference of two small levels, read as \<open>int\<close>.\<close>

lemma sint_diff_small:
  fixes a b :: u32
  assumes "unat a < 2 ^ 31" and "unat b < 2 ^ 31"
  shows "sint (a - b) = int (unat a) - int (unat b)"
proof -
  have "int (unat a) < 2 ^ 31" "int (unat b) < 2 ^ 31" "0 \<le> int (unat a)" "0 \<le> int (unat b)"
    using assms by (auto simp only: of_nat_less_numeral_power_cancel_iff)
  then have "signed_take_bit 31 (int (unat a) - int (unat b)) = int (unat a) - int (unat b)"
    by (intro signed_take_bit_int_eq_self) linarith+
  moreover have "a - b = word_of_int (int (unat a) - int (unat b))" by simp
  ultimately show ?thesis
    using sint_sbintrunc' [of "int (unat a) - int (unat b)", where 'a = 32] by simp
qed

lemma level_diff:
  "loc_ok a \<Longrightarrow> loc_ok b \<Longrightarrow> sint (m_level a - m_level b) = int (unat (m_level a)) - int (unat (m_level b))"
  by (intro sint_diff_small) (auto simp: loc_ok_def)

lemma level_neg:
  assumes "loc_ok a" and "loc_ok b"
  shows "sint (m_level a - m_level b) < 0 \<longleftrightarrow> unat (m_level a) < unat (m_level b)"
  unfolding level_diff [OF assms] by (simp only: diff_less_0_iff_less of_nat_less_iff)

lemma unat_level_diff:
  "unat (b :: u32) \<le> unat a \<Longrightarrow> unat (a - b) = unat a - unat b"
  by (simp add: unat_sub_if')

lemma unat_bit0: "unat (ucast (x AND (1 :: u64)) :: u32) = unat x mod 2"
proof -
  have "unat x mod 2 < 2 ^ 32" by (rule order_less_trans [of _ 2]) simp_all
  then show ?thesis by (simp add: unsigned_ucast_eq and_one_eq unat_mod take_bit_nat_eq_self)
qed

lemma unat_double_add_bit:
  assumes "unat (x :: u32) < 2 ^ 31"
  shows "unat (push_bit 1 x + ucast (y AND (1 :: u64))) = 2 * unat x + unat y mod 2"
proof -
  have "unat (push_bit 1 x) = unat x * 2" using assms by (subst unat_push_bit_small) simp_all
  moreover have "2 * unat x + unat y mod 2 < 2 ^ 32" using assms by simp
  ultimately show ?thesis
    using unat_bit0 [of y] by (subst unat_add_lem [THEN iffD1]) simp_all
qed

lemma unat_Suc_level: "unat (l :: u32) < 2 ^ 31 \<Longrightarrow> unat (l + 1) = Suc (unat l)"
  by (subst unat_add_lem [THEN iffD1]) simp_all

lemma GetChild_unat:
  assumes "loc_ok l" and "unat (m_level l) < 31"
  shows "unat (m_level (GetChild l idx)) = Suc (unat (m_level l))"
    and "unat (m_x (GetChild l idx)) = 2 * unat (m_x l) + unat idx mod 2"
    and "unat (m_y (GetChild l idx)) = 2 * unat (m_y l) + unat (drop_bit 1 idx) mod 2"
    and "unat (m_z (GetChild l idx)) = 2 * unat (m_z l) + unat (drop_bit 2 idx) mod 2"
proof -
  note sm = loc_ok_small [OF assms(1)]
  show "unat (m_level (GetChild l idx)) = Suc (unat (m_level l))"
    using assms(2) by (simp add: GetChild_def Let_def unat_Suc_level)
  show "unat (m_x (GetChild l idx)) = 2 * unat (m_x l) + unat idx mod 2"
    unfolding GetChild_def Let_def octloc.sel using sm by (intro unat_double_add_bit) simp
  show "unat (m_y (GetChild l idx)) = 2 * unat (m_y l) + unat (drop_bit 1 idx) mod 2"
    unfolding GetChild_def Let_def octloc.sel using sm by (intro unat_double_add_bit) simp
  show "unat (m_z (GetChild l idx)) = 2 * unat (m_z l) + unat (drop_bit 2 idx) mod 2"
    unfolding GetChild_def Let_def octloc.sel using sm by (intro unat_double_add_bit) simp
qed

lemma loc_ok_GetChild:
  assumes "loc_ok l" and "unat (m_level l) < 31"
  shows "loc_ok (GetChild l idx)"
proof -
  have d: "2 * a + b mod 2 < 2 * 2 ^ n" if "a < 2 ^ n" for a b n :: nat
    using that by (cases "even b") (auto simp: odd_iff_mod_2_eq_one [symmetric] mod_2_eq_odd)
  show ?thesis
    using assms unfolding loc_ok_def GetChild_unat [OF assms] by (auto intro: d)
qed

text \<open>Going up by \<open>d\<close> levels divides each coordinate by \<open>2 ^ d\<close>.\<close>

lemma ParentAtLevel_unat:
  assumes "unat level \<le> unat (m_level l)" and "unat (m_level l) < 32"
  shows "\<exists>p. ParentAtLevel l level = Some p \<and> m_level p = level \<and>
    unat (m_x p) = unat (m_x l) div 2 ^ (unat (m_level l) - unat level) \<and>
    unat (m_y p) = unat (m_y l) div 2 ^ (unat (m_level l) - unat level) \<and>
    unat (m_z p) = unat (m_z l) div 2 ^ (unat (m_level l) - unat level)"
  using assms by (simp add: ParentAtLevel_def Let_def shr32_def unat_level_diff unat_drop_bit)

lemma loc_eq_unatI:
  "m_level a = m_level b \<Longrightarrow> unat (m_x a) = unat (m_x b) \<Longrightarrow> unat (m_y a) = unat (m_y b) \<Longrightarrow>
   unat (m_z a) = unat (m_z b) \<Longrightarrow> a = b"
  by (intro octloc_eqI) (simp_all add: word_unat_eq_iff)

subsection \<open>Children and parents\<close>

text \<open>A path of child indices from a cell.\<close>

fun descend :: "octloc \<Rightarrow> u64 list \<Rightarrow> octloc" where
  "descend l [] = l"
| "descend l (i # is) = descend (GetChild l i) is"

lemma descend_ok:
  "loc_ok l \<Longrightarrow> unat (m_level l) + length is \<le> 31 \<Longrightarrow>
   loc_ok (descend l is) \<and> unat (m_level (descend l is)) = unat (m_level l) + length is \<and>
   unat (m_x (descend l is)) div 2 ^ length is = unat (m_x l) \<and>
   unat (m_y (descend l is)) div 2 ^ length is = unat (m_y l) \<and>
   unat (m_z (descend l is)) div 2 ^ length is = unat (m_z l)"
proof (induction "is" arbitrary: l)
  case (Cons i "is")
  have lv: "unat (m_level l) < 31" using Cons.prems by simp
  note c = GetChild_unat [OF Cons.prems(1) lv, of i]
  have IH: "loc_ok (descend (GetChild l i) is) \<and>
     unat (m_level (descend (GetChild l i) is)) = unat (m_level (GetChild l i)) + length is \<and>
     unat (m_x (descend (GetChild l i) is)) div 2 ^ length is = unat (m_x (GetChild l i)) \<and>
     unat (m_y (descend (GetChild l i) is)) div 2 ^ length is = unat (m_y (GetChild l i)) \<and>
     unat (m_z (descend (GetChild l i) is)) div 2 ^ length is = unat (m_z (GetChild l i))"
    using Cons.prems c(1) by (intro Cons.IH loc_ok_GetChild) simp_all
  have dv: "a div 2 ^ Suc n = a div 2 ^ n div 2" for a n :: nat
    by (metis div_mult2_eq power_Suc2)
  show ?case using IH c
    by (simp only: descend.simps list.size add_0_right add_Suc_right plus_1_eq_Suc dv) simp
qed simp

lemma level_not_max: "(x :: u32) \<noteq> - 1 \<Longrightarrow> \<not> x + 1 \<le> x"
proof -
  assume "x \<noteq> - 1"
  then have "1 + x \<noteq> 0" by (metis add.commute add_eq_0_iff2)
  then have "unat (x + 1) = Suc (unat x)" by (subst add.commute) (rule unatSuc)
  then show ?thesis by (simp add: word_le_nat_alt)
qed

lemma IndexOfChild_word:
  assumes "i < 8" and "m_level l \<noteq> sInvalidLOD"
  shows "IndexOfChild l (GetChild l (word_of_nat i)) = Some (word_of_nat i)"
proof -
  have lv: "\<not> m_level l + 1 \<le> m_level l"
    using assms(2) level_not_max by (simp add: sInvalidLOD_def)
  have "i \<in> {0, 1, 2, 3, 4, 5, 6, 7}" using assms(1) by auto
  then show ?thesis
    using lv by (auto simp: IndexOfChild_def GetChild_def Let_def drop_bit_eq_div)
qed

text \<open>In any cell whose level is not the invalid marker, \<open>IndexOfChild\<close> gives back the index
  \<open>GetChild\<close> was called with, for the eight children.\<close>

lemma child_index_roundtrip:
  assumes "unat i < 8" and "m_level l \<noteq> sInvalidLOD"
  shows "IndexOfChild l (GetChild l i) = Some i"
  using IndexOfChild_word [OF assms] by simp

text \<open>Going down any path of children from a valid cell, within the 31 levels a shift by
  fewer than 32 bits can address, gives a valid cell whose ancestor at the starting level is
  the starting cell.\<close>

lemma parent_of_descend:
  assumes "IsValid l = Some True" and "unat (m_level l) + length is \<le> 31"
  shows "IsValid (descend l is) = Some True \<and> ParentAtLevel (descend l is) (m_level l) = Some l"
proof -
  have ok: "loc_ok l" using assms(1) by (simp add: IsValid_iff)
  note d = descend_ok [OF ok assms(2)]
  have "\<exists>p. ParentAtLevel (descend l is) (m_level l) = Some p \<and> m_level p = m_level l \<and>
    unat (m_x p) = unat (m_x l) \<and> unat (m_y p) = unat (m_y l) \<and> unat (m_z p) = unat (m_z l)"
    using ParentAtLevel_unat [of "m_level l" "descend l is"] d assms(2) by auto
  then have "ParentAtLevel (descend l is) (m_level l) = Some l" using loc_eq_unatI by blast
  then show ?thesis using d by (simp add: IsValid_iff)
qed

lemma IsChildOf_unat:
  assumes "loc_ok l" and "loc_ok p"
  shows "IsChildOf l p = Some (unat (m_level p) \<le> unat (m_level l) \<and>
    unat (m_x l) div 2 ^ (unat (m_level l) - unat (m_level p)) = unat (m_x p) \<and>
    unat (m_y l) div 2 ^ (unat (m_level l) - unat (m_level p)) = unat (m_y p) \<and>
    unat (m_z l) div 2 ^ (unat (m_level l) - unat (m_level p)) = unat (m_z p))"
proof (cases "unat (m_level p) \<le> unat (m_level l)")
  case True
  have "unat (m_level l) < 32" using assms(1) by (simp add: loc_ok_def)
  with True show ?thesis
    by (auto simp: IsChildOf_def Let_def level_neg [OF assms] shr32_def unat_level_diff
        word_unat_eq_iff unat_drop_bit)
next
  case False
  then show ?thesis by (simp add: IsChildOf_def Let_def level_neg [OF assms])
qed

text \<open>Between valid cells, \<open>IsChildOf\<close> decides exactly whether the other cell is the ancestor
  that \<open>ParentAtLevel\<close> computes at its level (a cell counts as its own child), and never
  reaches an undefined shift.\<close>

lemma is_child_iff_parent:
  assumes "IsValid l = Some True" and "IsValid p = Some True"
  shows "IsChildOf l p = Some (m_level p \<le> m_level l \<and> ParentAtLevel l (m_level p) = Some p)"
proof (cases "m_level p \<le> m_level l")
  case True
  have ok: "loc_ok l" "loc_ok p" using assms by (simp_all add: IsValid_iff)
  have lv: "unat (m_level p) \<le> unat (m_level l)" using True by (simp add: word_le_nat_alt)
  obtain q where q: "ParentAtLevel l (m_level p) = Some q" "m_level q = m_level p"
    "unat (m_x q) = unat (m_x l) div 2 ^ (unat (m_level l) - unat (m_level p))"
    "unat (m_y q) = unat (m_y l) div 2 ^ (unat (m_level l) - unat (m_level p))"
    "unat (m_z q) = unat (m_z l) div 2 ^ (unat (m_level l) - unat (m_level p))"
    using ParentAtLevel_unat [OF lv] ok(1) by (auto simp: loc_ok_def)
  have "q = p \<longleftrightarrow> unat (m_x q) = unat (m_x p) \<and> unat (m_y q) = unat (m_y p) \<and> unat (m_z q) = unat (m_z p)"
    using loc_eq_unatI [OF q(2)] by auto
  then show ?thesis using lv True q by (simp add: IsChildOf_unat [OF ok])
next
  case False
  have ok: "loc_ok l" "loc_ok p" using assms by (simp_all add: IsValid_iff)
  show ?thesis using False by (simp add: IsChildOf_unat [OF ok] word_le_nat_alt)
qed

text \<open>\<open>GlobalToLoc\<close> of a valid cell relative to a valid ancestor is a valid cell of the
  subtree: its level is the difference, and each coordinate of the cell is the ancestor's
  coordinate scaled by \<open>2 ^ difference\<close> plus the local one; relative to a cell that is not an
  ancestor it is the invalid location.\<close>

lemma global_to_loc_correct:
  assumes "IsValid l = Some True" and "IsValid p = Some True"
  shows "if IsChildOf l p = Some True
    then \<exists>r. GlobalToLoc l p = Some r \<and> IsValid r = Some True \<and>
      unat (m_level l) = unat (m_level p) + unat (m_level r) \<and>
      unat (m_x l) = unat (m_x p) * 2 ^ unat (m_level r) + unat (m_x r) \<and>
      unat (m_y l) = unat (m_y p) * 2 ^ unat (m_level r) + unat (m_y r) \<and>
      unat (m_z l) = unat (m_z p) * 2 ^ unat (m_level r) + unat (m_z r)
    else GlobalToLoc l p = Some invalid_loc"
proof -
  have ok: "loc_ok l" "loc_ok p" using assms by (simp_all add: IsValid_iff)
  define d where "d = unat (m_level l) - unat (m_level p)"
  note ch = IsChildOf_unat [OF ok, folded d_def]
  have d32: "d < 32" using ok(1) by (auto simp: d_def loc_ok_def)
  show ?thesis
  proof (cases "unat (m_level p) \<le> unat (m_level l)")
    case False
    then show ?thesis by (simp add: ch GlobalToLoc_def Let_def level_neg [OF ok])
  next
    case True
    have ud: "unat (m_level l - m_level p) = d" using True by (simp add: unat_level_diff d_def)
    have shr: "shr32 x (m_level l - m_level p) = Some (drop_bit d x)" for x
      using d32 by (simp add: shr32_def ud)
    have shl: "shl32 x (m_level l - m_level p) = Some (push_bit d x)" for x
      using d32 by (simp add: shl32_def ud)
    have nn: "\<not> sint (m_level l - m_level p) < 0" using True by (simp add: level_neg [OF ok])
    have sub: "unat (c - push_bit d q) = unat c mod 2 ^ d \<and> unat c = unat q * 2 ^ d + unat c mod 2 ^ d"
      if "unat c div 2 ^ d = unat q" "unat q < 2 ^ unat (m_level p)" for c q :: u32
    proof -
      have "(2::nat) ^ unat (m_level p) \<le> 2 ^ (32 - d)"
        using True ok(1) by (intro power_increasing) (auto simp: d_def loc_ok_def)
      with that(2) have "unat q < 2 ^ (32 - d)" by (rule order_less_le_trans)
      then have "unat (push_bit d q) = unat q * 2 ^ d"
        using d32 by (intro unat_push_bit_small) simp_all
      moreover have dm: "unat c = unat q * 2 ^ d + unat c mod 2 ^ d"
        using that(1) div_mult_mod_eq [of "unat c" "2 ^ d"] by simp
      ultimately show ?thesis by (simp add: unat_sub_if')
    qed
    show ?thesis
    proof (cases "IsChildOf l p = Some True")
      case False
      then show ?thesis
        using True by (auto simp: ch GlobalToLoc_def Let_def nn shr word_unat_eq_iff unat_drop_bit)
    next
      case isch: True
      define r where "r = OctTreeLoc (m_level l - m_level p) (m_x l - push_bit d (m_x p))
        (m_y l - push_bit d (m_y p)) (m_z l - push_bit d (m_z p))"
      have G: "GlobalToLoc l p = Some r"
        using isch by (auto simp: ch GlobalToLoc_def Let_def nn shr shl word_unat_eq_iff unat_drop_bit r_def)
      have x: "unat (m_x r) = unat (m_x l) mod 2 ^ d" "unat (m_x l) = unat (m_x p) * 2 ^ d + unat (m_x r)"
        and y: "unat (m_y r) = unat (m_y l) mod 2 ^ d" "unat (m_y l) = unat (m_y p) * 2 ^ d + unat (m_y r)"
        and z: "unat (m_z r) = unat (m_z l) mod 2 ^ d" "unat (m_z l) = unat (m_z p) * 2 ^ d + unat (m_z r)"
        using isch ok(2) sub [of "m_x l" "m_x p"] sub [of "m_y l" "m_y p"] sub [of "m_z l" "m_z p"]
        by (auto simp: ch r_def loc_ok_def)
      have "loc_ok r" using x(1) y(1) z(1) d32 by (simp add: loc_ok_def r_def ud)
      moreover have "unat (m_level r) = d" by (simp add: r_def ud)
      ultimately show ?thesis using isch G x(2) y(2) z(2) True by (auto simp: IsValid_iff d_def)
    qed
  qed
qed

end
