(* ===== verification/OctTree.thy ===== *)
theory OctTree
  imports OctTreeLoc
begin

text \<open>
  The octree of \<open>src/core/OctTree.cpp\<close>: \<open>OctNode::AddPoint\<close>, \<open>GetLeafNodes\<close>,
  \<open>ConsolidatePts\<close> and \<open>OctTree::AddPoint\<close>. A node holds its cell, its leaf flag, its points
  with their cells, and its children by value (the source's \<open>shared_ptr\<close>s are never shared
  between parents). The node mutex guards single operations and is not modelled. The class
  declaration (\<open>OctTree.h\<close>) is not in the repository; its fields are those the operations use,
  and the maximal level is a parameter. An index outside \<open>m_children\<close> is \<open>None\<close>.
\<close>

datatype 'v octnode =
  OctNode (n_loc: octloc) (n_isLeaf: bool) (n_pts: "(octloc \<times> 'v) list") (n_children: "'v octnode list")

definition new_node :: "octloc \<Rightarrow> 'v octnode" where
  "new_node l = OctNode l True [] []"

definition new_children :: "octloc \<Rightarrow> 'v octnode list" where
  "new_children l = map (\<lambda>i. new_node (GetChild l (word_of_nat i))) [0..<8]"

subsection \<open>Inserting a point\<close>

text \<open>The recursion goes one level down per call; \<open>fuel\<close> bounds the levels.\<close>

fun AddPoint :: "nat \<Rightarrow> u32 \<Rightarrow> 'v octnode \<Rightarrow> octloc \<Rightarrow> 'v \<Rightarrow> 'v octnode option" where
  "AddPoint 0 mx n loc pt = None"
| "AddPoint (Suc k) mx (OctNode l leaf pts ch) loc pt =
     (if leaf then
        let pts' = pts @ [(loc, pt)]
        in if m_level l < mx \<and> m_level l < m_level loc then do {
             ch' \<leftarrow> ofold (\<lambda>ipt cs. do {
                      childIdx \<leftarrow> IndexOfChild l (fst ipt);
                      c \<leftarrow> aget cs (unat childIdx);
                      c' \<leftarrow> AddPoint k mx c (fst ipt) (snd ipt);
                      aset cs (unat childIdx) c' }) pts' (ch @ new_children l);
             Some (OctNode l False [] ch') }
           else Some (OctNode l leaf pts' ch)
      else do {
        childIdx \<leftarrow> IndexOfChild l loc;
        c \<leftarrow> aget ch (unat childIdx);
        c' \<leftarrow> AddPoint k mx c loc pt;
        ch' \<leftarrow> aset ch (unat childIdx) c';
        Some (OctNode l leaf pts ch') })"

text \<open>The tree: its root, its bounds, and the number of points added.\<close>

record 'v octtree =
  m_topNode :: "'v octnode"
  m_bounds :: aabox
  m_ptCnt :: nat

definition tree_AddPoint :: "('v \<Rightarrow> vec3) \<Rightarrow> nat \<Rightarrow> u32 \<Rightarrow> 'v octtree \<Rightarrow> 'v \<Rightarrow> 'v octtree option" where
  "tree_AddPoint ploc fuel sMaxLevel t pt = do {
     loc \<leftarrow> GetTileAtLoc (ploc pt) sMaxLevel (m_bounds t);
     n \<leftarrow> AddPoint fuel sMaxLevel (m_topNode t) loc pt;
     Some (t\<lparr>m_topNode := n, m_ptCnt := m_ptCnt t + 1\<rparr>) }"

subsection \<open>Leaves\<close>

fun GetLeafNodes :: "bool \<Rightarrow> 'v octnode \<Rightarrow> 'v octnode list" where
  "GetLeafNodes getEmptyNodes (OctNode l leaf pts ch) =
     (if ch = [] \<and> (getEmptyNodes \<or> 0 < length pts) then [OctNode l leaf pts ch] else [])
     @ concat (map (GetLeafNodes getEmptyNodes) ch)"

subsection \<open>Removing duplicate cells\<close>

fun ConsolidatePts ::
  "((octloc \<times> 'v \<Rightarrow> octloc \<times> 'v \<Rightarrow> bool) \<Rightarrow> (octloc \<times> 'v) list \<Rightarrow> (octloc \<times> 'v) list)
   \<Rightarrow> 'v octnode \<Rightarrow> 'v octnode" where
  "ConsolidatePts srt (OctNode l leaf pts ch) =
     OctNode l leaf
       (if ch = [] \<and> 1 < length pts
        then uniq (\<lambda>a b. loc_eq (fst a) (fst b)) (srt (\<lambda>a b. loc_lt (fst a) (fst b)) pts)
        else pts)
       (map (ConsolidatePts srt) ch)"

subsection \<open>Well-formed trees\<close>

text \<open>\<open>inside l c\<close>: the cell \<open>c\<close> is \<open>l\<close> or below it.\<close>

definition inside :: "octloc \<Rightarrow> octloc \<Rightarrow> bool" where
  "inside l c \<longleftrightarrow> IsChildOf c l = Some True"

fun pts_of :: "'v octnode \<Rightarrow> (octloc \<times> 'v) multiset" where
  "pts_of (OctNode l leaf pts ch) = mset pts + \<Sum>\<^sub># (mset (map pts_of ch))"

text \<open>Points sit in leaves of the deepest level; a leaf above it is empty; an inner node has
  exactly the eight children of its cell, in index order.\<close>

fun octwf :: "u32 \<Rightarrow> 'v octnode \<Rightarrow> bool" where
  "octwf mx (OctNode l leaf pts ch) \<longleftrightarrow>
     loc_ok l \<and> m_level l \<le> mx \<and>
     (if leaf then ch = [] \<and> (m_level l < mx \<longrightarrow> pts = []) \<and>
        (\<forall>p \<in> set pts. m_level (fst p) = mx \<and> loc_ok (fst p) \<and> inside l (fst p))
      else m_level l < mx \<and> pts = [] \<and> length ch = 8 \<and>
        map n_loc ch = map (\<lambda>i. GetChild l (word_of_nat i)) [0..<8] \<and>
        (\<forall>c \<in> set ch. octwf mx c))"

lemma octwf_new_node: "loc_ok l \<Longrightarrow> m_level l \<le> mx \<Longrightarrow> octwf mx (new_node l)"
  by (simp add: new_node_def)

text \<open>A deeper cell inside \<open>l\<close> lies in exactly the child that \<open>IndexOfChild\<close> names.\<close>

lemma IndexOfChild_inside:
  assumes l: "loc_ok l" and c: "loc_ok c" and "inside l c" and lt: "m_level l < m_level c"
  shows "\<exists>i < 8. IndexOfChild l c = Some (word_of_nat i) \<and> inside (GetChild l (word_of_nat i)) c"
proof -
  have lt': "unat (m_level l) < unat (m_level c)" using lt by (simp add: word_less_nat_alt)
  have l31: "unat (m_level l) < 31" using lt' c by (simp add: loc_ok_def)
  have up: "unat (m_level l + 1) = Suc (unat (m_level l))" using l31 by (intro unat_Suc_level) simp
  define d where "d = unat (m_level c) - unat (m_level l) - 1"
  obtain q where q: "ParentAtLevel c (m_level l + 1) = Some q" "m_level q = m_level l + 1"
    "unat (m_x q) = unat (m_x c) div 2 ^ d" "unat (m_y q) = unat (m_y c) div 2 ^ d"
    "unat (m_z q) = unat (m_z c) div 2 ^ d"
    using ParentAtLevel_unat [of "m_level l + 1" c] lt' c by (auto simp: up loc_ok_def d_def)
  have Sd: "unat (m_level c) - unat (m_level l) = Suc d" using lt' by (simp add: d_def)
  have up2: "a div 2 ^ Suc d = a div 2 ^ d div 2" for a :: nat by (metis div_mult2_eq power_Suc2)
  have half: "unat (m_x q) div 2 = unat (m_x l)" "unat (m_y q) div 2 = unat (m_y l)"
    "unat (m_z q) div 2 = unat (m_z l)"
    using assms(3) by (simp_all add: inside_def IsChildOf_unat [OF c l] Sd up2 q del: power_Suc)
  define bx by' bz where "bx = unat (m_x q) mod 2" and "by' = unat (m_y q) mod 2"
    and "bz = unat (m_z q) mod 2"
  have dbl: "r = push_bit 1 s + word_of_nat (unat r mod 2)" if "unat r div 2 = unat s" "unat s < 2 ^ 31" for r s :: u32
  proof -
    have "unat (push_bit 1 s) = unat s * 2" using that(2) by (subst unat_push_bit_small) simp_all
    then have "unat r = unat (push_bit 1 s) + unat r mod 2" using that(1) by presburger
    then have "word_of_nat (unat r) = (word_of_nat (unat (push_bit 1 s) + unat r mod 2) :: u32)" by simp
    then show ?thesis by simp
  qed
  note sm = loc_ok_small [OF l]
  have qx: "m_x q = push_bit 1 (m_x l) + word_of_nat bx"
    and qy: "m_y q = push_bit 1 (m_y l) + word_of_nat by'"
    and qz: "m_z q = push_bit 1 (m_z l) + word_of_nat bz"
    using dbl half sm by (simp_all add: bx_def by'_def bz_def)
  have b: "bx \<in> {0, 1}" "by' \<in> {0, 1}" "bz \<in> {0, 1}" by (auto simp: bx_def by'_def bz_def)
  define i where "i = bz * 4 + by' * 2 + bx"
  have i8: "i < 8" using b by (auto simp: i_def)
  have childLoc: "(if m_level l + 1 < m_level c then ParentAtLevel c (m_level l + 1) else Some c) = Some q"
  proof (cases "m_level l + 1 < m_level c")
    case False
    then have "m_level c = m_level l + 1" using lt' up by (simp add: word_less_nat_alt word_unat_eq_iff)
    moreover have "d = 0" using calculation up by (simp add: d_def)
    ultimately have "q = c" using q by (intro loc_eq_unatI) simp_all
    then show ?thesis using False by simp
  qed (simp add: q(1))
  have idx: "IndexOfChild l c = Some (word_of_nat i)"
    using lt b by (auto simp: IndexOfChild_def childLoc qx qy qz i_def)
  have "GetChild l (word_of_nat i) = q"
    using b by (auto simp: GetChild_def Let_def i_def drop_bit_eq_div q(2) qx qy qz intro!: octloc_eqI)
  moreover have "inside q c"
  proof -
    have okq: "loc_ok q" using loc_ok_GetChild [OF l l31, of "word_of_nat i"] calculation by simp
    show ?thesis using lt' by (simp add: inside_def IsChildOf_unat [OF c okq] q up d_def)
  qed
  ultimately show ?thesis using i8 idx by auto
qed

lemma unat_small_index: "i < 8 \<Longrightarrow> unat (word_of_nat i :: u64) = i"
  by (simp add: unsigned_of_nat take_bit_nat_eq_self)

lemma sum_mset_update:
  "i < length cs \<Longrightarrow> f c' = add_mset x (f (cs ! i)) \<Longrightarrow>
   \<Sum>\<^sub># (mset (map f (cs[i := c']))) = add_mset x (\<Sum>\<^sub># (mset (map f cs)))"
proof (induction cs arbitrary: i)
  case (Cons d cs)
  then show ?case by (cases i) auto
qed simp

text \<open>Replacing one child by a well-formed node of the same cell keeps the children's shape.\<close>

lemma children_update:
  assumes "map n_loc cs = map (\<lambda>i. GetChild l (word_of_nat i)) [0..<8]"
    and "\<forall>c \<in> set cs. octwf mx c" and "i < 8" and "octwf mx c'" and "n_loc c' = n_loc (cs ! i)"
  shows "map n_loc (cs[i := c']) = map (\<lambda>i. GetChild l (word_of_nat i)) [0..<8] \<and>
    (\<forall>c \<in> set (cs[i := c']). octwf mx c)"
proof
  have "map n_loc (cs[i := c']) = (map n_loc cs)[i := n_loc (cs ! i)]" by (simp add: map_update assms(5))
  also have "\<dots> = map n_loc cs" by (metis list_update_id map_update)
  finally show "map n_loc (cs[i := c']) = map (\<lambda>i. GetChild l (word_of_nat i)) [0..<8]"
    using assms(1) by simp
  show "\<forall>c \<in> set (cs[i := c']). octwf mx c"
    using assms(2,4) set_update_subset_insert by fast
qed

lemma new_children_shape:
  assumes "loc_ok l" and "unat (m_level l) < 31" and "m_level l < mx"
  shows "map n_loc (new_children l) = map (\<lambda>i. GetChild l (word_of_nat i)) [0..<8]"
    and "\<forall>c \<in> set (new_children l). octwf mx c"
    and "length (new_children l) = 8"
    and "\<Sum>\<^sub># (mset (map pts_of (new_children l))) = {#}"
proof -
  show "map n_loc (new_children l) = map (\<lambda>i. GetChild l (word_of_nat i)) [0..<8]"
    by (simp add: new_children_def new_node_def comp_def)
  have "m_level (GetChild l i) \<le> mx" for i
    using assms(3) GetChild_unat(1) [OF assms(1,2), of i] by (simp add: word_le_nat_alt word_less_nat_alt)
  then show "\<forall>c \<in> set (new_children l). octwf mx c"
    using loc_ok_GetChild [OF assms(1,2)] by (auto simp: new_children_def intro: octwf_new_node)
  show "length (new_children l) = 8" by (simp add: new_children_def)
  show "\<Sum>\<^sub># (mset (map pts_of (new_children l))) = {#}"
    by (simp add: new_children_def new_node_def comp_def)
qed

lemma AddPoint_ok:
  fixes n :: "'v octnode"
  assumes mx: "unat mx < 32" and loc: "loc_ok loc" "m_level loc = mx"
  shows "octwf mx n \<Longrightarrow> inside (n_loc n) loc \<Longrightarrow> unat mx - unat (m_level (n_loc n)) < k \<Longrightarrow>
    \<exists>n'. AddPoint k mx n loc pt = Some n' \<and> octwf mx n' \<and> n_loc n' = n_loc n \<and>
      pts_of n' = add_mset (loc, pt) (pts_of n)"
proof (induction k arbitrary: n)
  case (Suc k)
  obtain l leaf pts ch where n: "n = OctNode l leaf pts ch" by (cases n)
  have l: "loc_ok l" "inside l loc" "unat mx - unat (m_level l) < Suc k"
    using Suc.prems by (simp_all add: n)
  have step: "\<exists>i < 8. \<exists>c'. IndexOfChild l loc = Some (word_of_nat i) \<and>
      AddPoint k mx (cs ! i) loc pt = Some c' \<and> octwf mx c' \<and> n_loc c' = n_loc (cs ! i) \<and>
      pts_of c' = add_mset (loc, pt) (pts_of (cs ! i))"
    if lt: "m_level l < mx" and cs: "map n_loc cs = map (\<lambda>i. GetChild l (word_of_nat i)) [0..<8]"
      "\<forall>c \<in> set cs. octwf mx c" for cs :: "'v octnode list"
  proof -
    have lt': "unat (m_level l) < unat mx" using lt by (simp add: word_less_nat_alt)
    have l31: "unat (m_level l) < 31" using lt' mx by simp
    obtain i where i: "i < 8" "IndexOfChild l loc = Some (word_of_nat i)"
      "inside (GetChild l (word_of_nat i)) loc"
      using IndexOfChild_inside [OF l(1) loc(1) l(2)] lt loc(2) by auto
    have len: "length cs = 8" using arg_cong [OF cs(1), of length] by simp
    have "n_loc (cs ! i) = map n_loc cs ! i" using i(1) len by simp
    then have nl: "n_loc (cs ! i) = GetChild l (word_of_nat i)" using i(1) by (simp add: cs(1))
    have "unat mx - unat (m_level (n_loc (cs ! i))) < k"
      using l(3) lt' by (simp add: nl GetChild_unat(1) [OF l(1) l31])
    then have "\<exists>n'. AddPoint k mx (cs ! i) loc pt = Some n' \<and> octwf mx n' \<and>
        n_loc n' = n_loc (cs ! i) \<and> pts_of n' = add_mset (loc, pt) (pts_of (cs ! i))"
      using i len cs(2) by (intro Suc.IH) (auto simp: nl)
    then show ?thesis using i by auto
  qed
  show ?case
  proof (cases leaf)
    case True
    show ?thesis
    proof (cases "m_level l < mx")
      case lt: True
      have l31: "unat (m_level l) < 31" using lt mx by (simp add: word_less_nat_alt)
      define cs :: "'v octnode list" where "cs = new_children l"
      have nc: "map n_loc cs = map (\<lambda>i. GetChild l (word_of_nat i)) [0..<8]"
        "\<forall>c \<in> set cs. octwf mx c" "length cs = 8" "\<Sum>\<^sub># (mset (map pts_of cs)) = {#}"
        unfolding cs_def by (rule new_children_shape [OF l(1) l31 lt])+
      have pts: "pts = []" "ch = []" using Suc.prems(1) True lt by (simp_all add: n)
      obtain i c' where i: "i < 8" "IndexOfChild l loc = Some (word_of_nat i)"
        "AddPoint k mx (cs ! i) loc pt = Some c'" "octwf mx c'" "n_loc c' = n_loc (cs ! i)"
        "pts_of c' = add_mset (loc, pt) (pts_of (cs ! i))"
        using step [OF lt nc(1,2)] by blast
      have "AddPoint (Suc k) mx n loc pt = Some (OctNode l False [] (cs[i := c']))"
        using i nc(3) True lt loc(2) by (simp add: n pts unat_small_index aget_def aset_def cs_def [symmetric])
      then show ?thesis
        using children_update [OF nc(1,2) i(1,4,5)] sum_mset_update [of i cs pts_of c'] i nc(3,4) l(1) lt
        by (auto simp: n pts)
    next
      case False
      then show ?thesis using Suc.prems True loc by (auto simp: n)
    qed
  next
    case False
    have lt: "m_level l < mx" and pts: "pts = []" and ch: "length ch = 8"
      "map n_loc ch = map (\<lambda>i. GetChild l (word_of_nat i)) [0..<8]" "\<forall>c \<in> set ch. octwf mx c"
      using Suc.prems(1) False by (simp_all add: n)
    obtain i c' where i: "i < 8" "IndexOfChild l loc = Some (word_of_nat i)"
      "AddPoint k mx (ch ! i) loc pt = Some c'" "octwf mx c'" "n_loc c' = n_loc (ch ! i)"
      "pts_of c' = add_mset (loc, pt) (pts_of (ch ! i))"
      using step [OF lt ch(2,3)] by blast
    have "AddPoint (Suc k) mx n loc pt = Some (OctNode l False [] (ch[i := c']))"
      using i ch(1) False by (simp add: n pts unat_small_index aget_def aset_def)
    then show ?thesis
      using children_update [OF ch(2,3) i(1,4,5)] sum_mset_update [of i ch pts_of c'] i ch(1) l(1) lt False
      by (auto simp: n pts)
  qed
qed simp

subsection \<open>Where the points of a node are\<close>

lemma inside_trans:
  assumes "loc_ok a" and "loc_ok b" and "loc_ok c" and ab: "inside a b" and bc: "inside b c"
  shows "inside a c"
proof -
  let ?l = "\<lambda>n. unat (m_level n)"
  have lv: "?l a \<le> ?l b" "?l b \<le> ?l c"
    using ab bc assms(1-3) by (simp_all add: inside_def IsChildOf_unat)
  then have e: "?l c - ?l a = (?l c - ?l b) + (?l b - ?l a)" by simp
  have "x div 2 ^ (?l c - ?l a) = x div 2 ^ (?l c - ?l b) div 2 ^ (?l b - ?l a)" for x :: nat
    unfolding e by (simp add: power_add div_mult2_eq)
  then show ?thesis using ab bc assms(1-3) lv by (simp add: inside_def IsChildOf_unat)
qed

lemma inside_GetChild:
  assumes "loc_ok l" and "unat (m_level l) < 31"
  shows "inside l (GetChild l i)"
  using GetChild_unat [OF assms, of i] loc_ok_GetChild [OF assms, of i] assms(1)
  by (simp add: inside_def IsChildOf_unat)

lemma inside_same_level:
  "loc_ok l \<Longrightarrow> loc_ok c \<Longrightarrow> inside l c \<Longrightarrow> m_level l = m_level c \<Longrightarrow> c = l"
  by (intro loc_eq_unatI) (simp_all add: inside_def IsChildOf_unat)

lemma inside_child_unique:
  assumes l: "loc_ok l" "unat (m_level l) < 31" and c: "loc_ok c" and ij: "i < 8" "j < 8"
    and "inside (GetChild l (word_of_nat i)) c" and "inside (GetChild l (word_of_nat j)) c"
  shows "i = j"
proof -
  have ok: "loc_ok (GetChild l k)" for k by (rule loc_ok_GetChild [OF l])
  have "GetChild l (word_of_nat i) = GetChild l (word_of_nat j)"
    using assms(6,7) GetChild_unat(1) [OF l] c
    by (intro loc_eq_unatI) (simp_all add: inside_def IsChildOf_unat ok word_unat_eq_iff)
  moreover have "m_level l \<noteq> sInvalidLOD" using l(2) unat_sInvalidLOD by auto
  ultimately have "(word_of_nat i :: u64) = word_of_nat j"
    using IndexOfChild_word [OF ij(1)] IndexOfChild_word [OF ij(2)] by (metis option.inject)
  then show ?thesis by (metis ij unat_small_index)
qed

lemma mem_sum_mset_map: "p \<in># \<Sum>\<^sub># (mset (map f cs)) \<longleftrightarrow> (\<exists>c \<in> set cs. p \<in># f c)"
  by (induction cs) auto

lemma child_locs:
  assumes "map n_loc ch = map (\<lambda>i. GetChild l (word_of_nat i)) [0..<8]" and "i < 8"
  shows "n_loc (ch ! i) = GetChild l (word_of_nat i)" and "i < length ch"
proof -
  show len: "i < length ch" using arg_cong [OF assms(1), of length] assms(2) by simp
  show "n_loc (ch ! i) = GetChild l (word_of_nat i)"
    using arg_cong [OF assms(1), of "\<lambda>xs. xs ! i"] len assms(2) by simp
qed

lemma pts_inside:
  "octwf mx n \<Longrightarrow> unat mx < 32 \<Longrightarrow> p \<in># pts_of n \<Longrightarrow>
   loc_ok (fst p) \<and> m_level (fst p) = mx \<and> inside (n_loc n) (fst p)"
proof (induction mx n rule: octwf.induct)
  case (1 mx l leaf pts ch)
  show ?case
  proof (cases leaf)
    case True
    then show ?thesis using "1.prems" by auto
  next
    case False
    have ch: "m_level l < mx" "pts = []" "\<forall>c \<in> set ch. octwf mx c" "loc_ok l"
      "map n_loc ch = map (\<lambda>i. GetChild l (word_of_nat i)) [0..<8]" "length ch = 8"
      using "1.prems" False by simp_all
    then obtain c where c: "c \<in> set ch" "p \<in># pts_of c" "octwf mx c"
      using "1.prems"(3) mem_sum_mset_map by fastforce
    then obtain i where i: "i < 8" "c = ch ! i" using ch(6) by (auto simp: in_set_conv_nth)
    have lv: "unat (m_level l) < 31" using ch(1) "1.prems"(2) by (simp add: word_less_nat_alt)
    have p: "loc_ok (fst p) \<and> m_level (fst p) = mx \<and> inside (n_loc c) (fst p)"
      using "1.IH" [OF False c(1,3) "1.prems"(2) c(2)] .
    have "n_loc c = GetChild l (word_of_nat i)" using child_locs(1) [OF ch(5) i(1)] i(2) by simp
    then show ?thesis
      using p inside_trans [OF ch(4) loc_ok_GetChild [OF ch(4) lv] _ inside_GetChild [OF ch(4) lv]]
      by auto
  qed
qed

subsection \<open>Consolidation\<close>

lemma loc_lt_less: "loc_lt a b \<longleftrightarrow> a < b"
  by (simp add: less_octloc_def)

lemma loc_eq_eq: "loc_eq a b \<longleftrightarrow> a = b"
  by (auto simp: loc_eq_def intro: octloc_eqI)

lemma sorted_keys_mset:
  fixes f :: "'a \<Rightarrow> 'k::linorder"
  assumes "sorted_wrt (\<lambda>a b. f a < f b) xs"
  shows "image_mset f (mset xs) = mset_set (f ` set xs)"
  using assms
proof (induction xs)
  case (Cons x xs)
  then have "f x \<notin> f ` set xs" by auto
  then show ?case using Cons by simp
qed simp

lemma sum_disjoint_keys:
  assumes "sorted_wrt (\<lambda>a b. K a \<inter> K b = {}) cs"
    and "\<And>c. c \<in> set cs \<Longrightarrow> finite (K c) \<and> image_mset f (g c) = mset_set (K c)"
  shows "image_mset f (\<Sum>\<^sub># (mset (map g cs))) = mset_set (\<Union> (K ` set cs))"
  using assms
proof (induction cs)
  case (Cons c cs)
  have "mset_set (K c \<union> \<Union> (K ` set cs)) = mset_set (K c) + mset_set (\<Union> (K ` set cs))"
    using Cons.prems by (intro mset_set_Union) auto
  then show ?case using Cons by simp
qed simp

context std_sort
begin

lemma sort_uniq_keys:
  fixes f :: "'a \<Rightarrow> 'k::linorder"
  shows "image_mset f (mset (uniq (\<lambda>a b. f a = f b) (srt (\<lambda>a b. f a < f b) xs))) = mset_set (f ` set xs)"
proof -
  let ?s = "srt (\<lambda>a b. f a < f b) xs"
  have "sorted_wrt (\<lambda>a b. f a < f b) (uniq (\<lambda>a b. f a = f b) ?s)"
    by (intro uniq_strict srt_sorted strict_weak_key)
  then have "image_mset f (mset (uniq (\<lambda>a b. f a = f b) ?s)) = mset_set (f ` set (uniq (\<lambda>a b. f a = f b) ?s))"
    by (rule sorted_keys_mset)
  then show ?thesis by (simp add: uniq_keys srt_set)
qed

end

lemma uniq_subseteq_mset: "mset (uniq eq xs) \<subseteq># mset xs"
proof (induction eq xs rule: uniq.induct)
  case (3 eq x y ys)
  show ?case
  proof (cases "eq x y")
    case True
    have "mset (uniq eq (x # ys)) \<subseteq># mset (x # ys)" using "3.IH"(1) True by simp
    also have "\<dots> \<subseteq># mset (x # y # ys)" by (simp add: add_mset_commute)
    finally show ?thesis using True by simp
  qed (use 3 in simp)
qed simp_all

lemma pts_of_Consolidate_subset:
  assumes "std_sort srt"
  shows "pts_of (ConsolidatePts srt n) \<subseteq># pts_of n"
proof (induction n)
  case (OctNode l leaf pts ch)
  have "mset (uniq eq (srt lt pts)) \<subseteq># mset pts" for eq lt
    using uniq_subseteq_mset [of eq "srt lt pts"] by (simp add: std_sort.srt_mset [OF assms])
  moreover have "\<Sum>\<^sub># (mset (map (pts_of \<circ> ConsolidatePts srt) ch)) \<subseteq># \<Sum>\<^sub># (mset (map pts_of ch))"
    using OctNode by (induction ch) (auto intro!: subset_mset.add_mono)
  ultimately show ?case by (auto simp: comp_def intro!: subset_mset.add_mono)
qed

lemma octwf_children_disjoint:
  assumes "octwf mx (OctNode l False pts ch)" and mx: "unat mx < 32"
  shows "sorted_wrt (\<lambda>a b. fst ` set_mset (pts_of a) \<inter> fst ` set_mset (pts_of b) = {}) ch"
proof -
  have ch: "m_level l < mx" "\<forall>c \<in> set ch. octwf mx c" "loc_ok l" "length ch = 8"
    "map n_loc ch = map (\<lambda>i. GetChild l (word_of_nat i)) [0..<8]"
    using assms(1) by simp_all
  have lv: "unat (m_level l) < 31" using ch(1) mx by (simp add: word_less_nat_alt)
  have "i = j" if "i < 8" "j < 8" "p \<in># pts_of (ch ! i)" "q \<in># pts_of (ch ! j)" "fst p = fst q" for i j p q
  proof -
    have "octwf mx (ch ! i)" "octwf mx (ch ! j)" using ch(2,4) that by auto
    from pts_inside [OF this(1) mx that(3)] pts_inside [OF this(2) mx that(4)] show ?thesis
      using inside_child_unique [OF ch(3) lv _ that(1,2)] child_locs(1) [OF ch(5)] that by metis
  qed
  then have "fst ` set_mset (pts_of (ch ! i)) \<inter> fst ` set_mset (pts_of (ch ! j)) = {}"
    if "i < 8" "j < 8" "i \<noteq> j" for i j
    using that by (auto simp: disjoint_iff)
  then show ?thesis by (simp add: sorted_wrt_iff_nth_less ch(4))
qed

lemma pts_of_Consolidate_keys:
  assumes "std_sort srt"
  shows "octwf mx n \<Longrightarrow> unat mx < 32 \<Longrightarrow>
    image_mset fst (pts_of (ConsolidatePts srt n)) = mset_set (fst ` set_mset (pts_of n))"
proof (induction mx n rule: octwf.induct)
  case (1 mx l leaf pts ch)
  show ?case
  proof (cases leaf)
    case True
    then have "ch = []" using "1.prems" by simp
    moreover have "image_mset fst (mset pts) = mset_set (fst ` set pts)" if "\<not> 1 < length pts"
      using that by (cases pts) auto
    moreover have "image_mset fst (mset (uniq (\<lambda>a b. loc_eq (fst a) (fst b)) (srt (\<lambda>a b. loc_lt (fst a) (fst b)) pts))) = mset_set (fst ` set pts)"
      using std_sort.sort_uniq_keys [OF assms(1), of fst pts] by (simp add: loc_lt_less loc_eq_eq)
    ultimately show ?thesis by simp
  next
    case False
    have ch: "pts = []" "\<forall>c \<in> set ch. octwf mx c" using "1.prems" False by simp_all
    have "image_mset fst (\<Sum>\<^sub># (mset (map (pts_of \<circ> ConsolidatePts srt) ch))) =
      mset_set (\<Union> ((\<lambda>c. fst ` set_mset (pts_of c)) ` set ch))"
      using octwf_children_disjoint [of mx l pts ch] "1.prems" False "1.IH" ch(2)
      by (intro sum_disjoint_keys) simp_all
    moreover have "fst ` set_mset (\<Sum>\<^sub># (mset (map pts_of ch))) = (\<Union> ((\<lambda>c. fst ` set_mset (pts_of c)) ` set ch))"
      by (auto simp del: set_mset_sum_list)
    ultimately show ?thesis using ch(1) by (auto simp: comp_def)
  qed
qed

subsection \<open>Trees\<close>

text \<open>A tree between calls: a well-formed root of level 0, and the counter at the number of
  points.\<close>

definition tree_ok :: "u32 \<Rightarrow> 'v octtree \<Rightarrow> bool" where
  "tree_ok mx t \<longleftrightarrow> octwf mx (m_topNode t) \<and> n_loc (m_topNode t) = OctTreeLoc 0 0 0 0 \<and>
     m_ptCnt t = size (pts_of (m_topNode t))"

lemma inside_root: "loc_ok c \<Longrightarrow> inside (OctTreeLoc 0 0 0 0) c"
  by (simp add: inside_def IsChildOf_unat loc_ok_def)

lemma AddPoint_npos:
  assumes "IndexOfChild l loc = Some npos64" and "octwf mx (OctNode l leaf pts ch)"
    and "m_level l < mx" and "m_level loc = mx"
  shows "AddPoint k mx (OctNode l leaf pts ch) loc pt = None"
proof -
  have np: "unat npos64 = 2 ^ 64 - 1"
    using unsigned_minus_1_eq_mask [where 'a=nat and 'b=64]
    by (simp add: npos64_def mask_eq_exp_minus_1)
  show ?thesis
    using assms by (cases k; cases leaf) (simp_all add: new_children_def aget_def np)
qed

lemma div_pow_ge2:
  assumes "0 < m" and "(2::nat) ^ m \<le> a"
  shows "2 \<le> a div 2 ^ (m - 1)"
proof -
  have "2 * 2 ^ (m - 1) \<le> a" using assms by (cases m) simp_all
  then show ?thesis by (simp add: less_eq_div_iff_mult_less_eq)
qed

lemma IndexOfChild_root_outside:
  assumes "unat (m_level c) < 32" and "0 < m_level c" and "IsValid c \<noteq> Some True"
  shows "IndexOfChild (OctTreeLoc 0 0 0 0) c = Some npos64"
proof -
  let ?m = "unat (m_level c)"
  have m0: "0 < ?m" using assms(2) by (simp add: word_less_nat_alt)
  obtain q where q: "ParentAtLevel c 1 = Some q" "unat (m_x q) = unat (m_x c) div 2 ^ (?m - 1)"
    "unat (m_y q) = unat (m_y c) div 2 ^ (?m - 1)" "unat (m_z q) = unat (m_z c) div 2 ^ (?m - 1)"
    using ParentAtLevel_unat [of 1 c] assms(1) m0 by auto
  have big: "2 ^ ?m \<le> unat (m_x c) \<or> 2 ^ ?m \<le> unat (m_y c) \<or> 2 ^ ?m \<le> unat (m_z c)"
    using assms(1,3) by (auto simp: IsValid_iff loc_ok_def not_less)
  have child: "\<exists>r. (if 1 < m_level c then ParentAtLevel c 1 else Some c) = Some r \<and>
    unat (m_x r) = unat (m_x c) div 2 ^ (?m - 1) \<and> unat (m_y r) = unat (m_y c) div 2 ^ (?m - 1) \<and>
    unat (m_z r) = unat (m_z c) div 2 ^ (?m - 1)"
  proof (cases "1 < m_level c")
    case False
    then have "?m = 1" using m0 by (simp add: word_less_nat_alt)
    then show ?thesis using False by simp
  qed (use q in auto)
  then obtain r where r: "(if 1 < m_level c then ParentAtLevel c 1 else Some c) = Some r"
    "unat (m_x r) = unat (m_x c) div 2 ^ (?m - 1)" "unat (m_y r) = unat (m_y c) div 2 ^ (?m - 1)"
    "unat (m_z r) = unat (m_z c) div 2 ^ (?m - 1)" by blast
  have "1 < m_x r \<or> 1 < m_y r \<or> 1 < m_z r"
    using big div_pow_ge2 [OF m0] r(2-4) by (force simp: word_less_nat_alt)
  then show ?thesis using assms(2) r(1) by (auto simp: IndexOfChild_def Let_def not_le split: if_splits)
qed

text \<open>C3: adding a point to a well-formed tree of maximal level 1 to 31, with more levels of
  recursion allowed than the tree has, behaves as follows. When the cell computed for the point
  is a valid cell, the call returns; the tree is well-formed again, has the same bounds, holds
  exactly the old points and the new one under its cell, and the counter is one higher. When
  the cell is not valid (a point on the upper faces of the bounds, whose tile index is
  \<open>2 ^ level\<close>), the child index is \<open>-1\<close> and the access is out of bounds.\<close>

theorem tree_add_point:
  assumes "0 < mx" and "unat mx < fuel" and "unat mx < 32" and "tree_ok mx t"
    and "GetTileAtLoc (ploc pt) mx (m_bounds t) = Some loc"
  shows "if IsValid loc = Some True
    then \<exists>t'. tree_AddPoint ploc fuel mx t pt = Some t' \<and> tree_ok mx t' \<and> m_bounds t' = m_bounds t \<and>
      pts_of (m_topNode t') = add_mset (loc, pt) (pts_of (m_topNode t))
    else tree_AddPoint ploc fuel mx t pt = None"
proof -
  have lv: "m_level loc = mx"
    using assms(5) by (auto simp: GetTileAtLoc_def Let_def bind_eq_Some_conv)
  have t: "octwf mx (m_topNode t)" "n_loc (m_topNode t) = OctTreeLoc 0 0 0 0"
    "m_ptCnt t = size (pts_of (m_topNode t))" using assms(4) by (simp_all add: tree_ok_def)
  show ?thesis
  proof (cases "IsValid loc = Some True")
    case True
    then have ok: "loc_ok loc" by (simp add: IsValid_iff)
    obtain n' where n': "AddPoint fuel mx (m_topNode t) loc pt = Some n'" "octwf mx n'"
      "n_loc n' = n_loc (m_topNode t)" "pts_of n' = add_mset (loc, pt) (pts_of (m_topNode t))"
      using AddPoint_ok [OF assms(3) ok lv t(1)] t(2) inside_root [OF ok] assms(2) by force
    then show ?thesis using True t by (simp add: tree_AddPoint_def assms(5) tree_ok_def)
  next
    case False
    obtain leaf pts ch where n: "m_topNode t = OctNode (OctTreeLoc 0 0 0 0) leaf pts ch"
      using t(2) by (cases "m_topNode t") simp
    have "IndexOfChild (OctTreeLoc 0 0 0 0) loc = Some npos64"
      using False assms(1,3) lv by (intro IndexOfChild_root_outside) simp_all
    then have "AddPoint fuel mx (m_topNode t) loc pt = None"
      unfolding n using t(1) assms(1) lv by (intro AddPoint_npos) (simp_all add: n)
    then show ?thesis using False by (simp add: tree_AddPoint_def assms(5))
  qed
qed

text \<open>C8: in a well-formed tree, the non-empty leaves that \<open>GetLeafNodes\<close> collects hold every
  point of the tree exactly once, each leaf is a cell of the deepest level, and every point of a
  leaf has the leaf's own cell.\<close>

theorem leaf_nodes_partition:
  assumes "tree_ok mx t" and "unat mx < 32"
  shows "\<Sum>\<^sub># (mset (map (mset \<circ> n_pts) (GetLeafNodes False (m_topNode t)))) = pts_of (m_topNode t) \<and>
    (\<forall>n \<in> set (GetLeafNodes False (m_topNode t)). n_children n = [] \<and> n_pts n \<noteq> [] \<and>
       m_level (n_loc n) = mx \<and> (\<forall>p \<in> set (n_pts n). fst p = n_loc n))"
proof -
  have "\<Sum>\<^sub># (mset (map (mset \<circ> n_pts) (GetLeafNodes False n))) = pts_of n \<and>
    (\<forall>n \<in> set (GetLeafNodes False n). n_children n = [] \<and> n_pts n \<noteq> [] \<and>
       m_level (n_loc n) = mx \<and> (\<forall>p \<in> set (n_pts n). fst p = n_loc n))"
    if "octwf mx n" for n :: "'a octnode" using that assms(2)
  proof (induction mx n rule: octwf.induct)
    case (1 mx l leaf pts ch)
    show ?case
    proof (cases leaf)
      case True
      have "fst p = l" if "p \<in> set pts" "m_level l = mx" for p
        using "1.prems"(1) that True by (intro inside_same_level) auto
      then show ?thesis using "1.prems"(1) True by (auto simp: word_less_nat_alt word_le_nat_alt word_unat_eq_iff)
    next
      case False
      have ch: "pts = []" "\<forall>c \<in> set ch. octwf mx c" "ch \<noteq> []" using "1.prems" False by auto
      have IH: "\<Sum>\<^sub># (mset (map (mset \<circ> n_pts) (GetLeafNodes False c))) = pts_of c \<and>
        (\<forall>n \<in> set (GetLeafNodes False c). n_children n = [] \<and> n_pts n \<noteq> [] \<and>
          m_level (n_loc n) = mx \<and> (\<forall>p \<in> set (n_pts n). fst p = n_loc n))" if "c \<in> set ch" for c
        using "1.IH" [OF False that] ch(2) that "1.prems"(2) by blast
      have "\<Sum>\<^sub># (mset (map (mset \<circ> n_pts) (concat (map (GetLeafNodes False) cs)))) = \<Sum>\<^sub># (mset (map pts_of cs))"
        if "set cs \<subseteq> set ch" for cs using that IH by (induction cs) auto
      from this [OF order_refl] show ?thesis using ch(1,3) IH by (auto simp: comp_def)
    qed
  qed
  then show ?thesis using assms(1) unfolding tree_ok_def by blast
qed

text \<open>C32: for any sorting function with the \<open>std::sort\<close> contract, \<open>ConsolidatePts\<close> on a
  well-formed tree leaves exactly one point for every occupied cell, each of them one of the
  points the tree had.\<close>

theorem consolidate_one_per_cell:
  assumes "std_sort srt" and "tree_ok mx t" and "unat mx < 32"
  shows "image_mset fst (pts_of (ConsolidatePts srt (m_topNode t))) =
      mset_set (fst ` set_mset (pts_of (m_topNode t))) \<and>
    pts_of (ConsolidatePts srt (m_topNode t)) \<subseteq># pts_of (m_topNode t)"
proof
  show "image_mset fst (pts_of (ConsolidatePts srt (m_topNode t))) =
      mset_set (fst ` set_mset (pts_of (m_topNode t)))"
    using assms(2,3) by (intro pts_of_Consolidate_keys [OF assms(1)]) (simp_all add: tree_ok_def)
  show "pts_of (ConsolidatePts srt (m_topNode t)) \<subseteq># pts_of (m_topNode t)"
    by (rule pts_of_Consolidate_subset [OF assms(1)])
qed

definition unit_tree :: "nat octtree" where
  "unit_tree = \<lparr>m_topNode = new_node (OctTreeLoc 0 0 0 0),
     m_bounds = aabox_of (V3 fzero fzero fzero) (V3 (f_of_int F32 4) (f_of_int F32 4) (f_of_int F32 4)), m_ptCnt = 0\<rparr>"

lemma unit_tree_ok: "tree_ok 2 unit_tree"
  by (simp add: tree_ok_def unit_tree_def new_node_def loc_ok_def)

lemma unit_tree_tiles:
  "GetTileAtLoc (V3 (f_of_int F32 1) (f_of_int F32 3) (f_of_int F32 2)) 2 (m_bounds unit_tree) = Some (OctTreeLoc 2 1 3 2)"
  "GetTileAtLoc (V3 (f_of_int F32 4) (f_of_int F32 3) (f_of_int F32 2)) 2 (m_bounds unit_tree) = Some (OctTreeLoc 2 4 3 2)"
  by code_simp+

theorem tree_add_point_witness:
  "tree_AddPoint (\<lambda>_. V3 (f_of_int F32 1) (f_of_int F32 3) (f_of_int F32 2)) 3 2 unit_tree 7 \<noteq> None \<and>
   tree_AddPoint (\<lambda>_. V3 (f_of_int F32 4) (f_of_int F32 3) (f_of_int F32 2)) 3 2 unit_tree 7 = None"
  using tree_add_point [where ploc = "\<lambda>_. V3 (f_of_int F32 1) (f_of_int F32 3) (f_of_int F32 2)",
      OF _ _ _ unit_tree_ok unit_tree_tiles(1), of 3]
    tree_add_point [where ploc = "\<lambda>_. V3 (f_of_int F32 4) (f_of_int F32 3) (f_of_int F32 2)",
      OF _ _ _ unit_tree_ok unit_tree_tiles(2), of 3 7]
  by (auto simp: IsValid_iff loc_ok_def)

text \<open>A tree of one level with two points in one cell.\<close>

definition pair_tree :: "nat octtree" where
  "pair_tree = \<lparr>m_topNode = OctNode (OctTreeLoc 0 0 0 0) False []
       ((new_children (OctTreeLoc 0 0 0 0))
         [3 := OctNode (OctTreeLoc 1 1 1 0) True [(OctTreeLoc 1 1 1 0, 7), (OctTreeLoc 1 1 1 0, 9)] []]),
     m_bounds = aabox_empty, m_ptCnt = 2\<rparr>"

lemma pair_tree_ok: "tree_ok 1 pair_tree"
  by (auto simp: tree_ok_def pair_tree_def new_children_def new_node_def loc_ok_def upt_rec
      inside_def IsChildOf_def GetChild_def Let_def drop_bit_eq_div shr32_def)

theorem leaf_nodes_partition_witness:
  "m_level (n_loc (hd (GetLeafNodes False (m_topNode pair_tree)))) = 1 \<and>
   (\<Sum>n\<in>#mset (GetLeafNodes False (m_topNode pair_tree)). mset (n_pts n)) =
     {#(OctTreeLoc 1 1 1 0, 7), (OctTreeLoc 1 1 1 0, 9)#}"
  using leaf_nodes_partition [OF pair_tree_ok]
  by (simp add: pair_tree_def new_children_def new_node_def upt_rec comp_def)

theorem consolidate_one_per_cell_witness:
  "image_mset fst (pts_of (ConsolidatePts isort (m_topNode pair_tree))) = {#OctTreeLoc 1 1 1 0#}"
proof -
  have "fst ` set_mset (pts_of (m_topNode pair_tree)) = {OctTreeLoc 1 1 1 0}"
    by (simp add: pair_tree_def new_children_def new_node_def upt_rec)
  then show ?thesis
    using consolidate_one_per_cell [OF isort.std_sort_axioms pair_tree_ok] by simp
qed

end
