(* ===== verification/Bytes.thy ===== *)
theory Bytes
  imports IeeeFloat
begin

text \<open>
  Objects as bytes, the way \<open>memcpy\<close> and binary streams see them: little-endian unsigned
  integers, and the IEEE bit patterns of \<open>float\<close> and \<open>double\<close>.
\<close>

subsection \<open>Little-endian integers\<close>

fun le_bytes :: "nat \<Rightarrow> nat \<Rightarrow> u8 list" where
  "le_bytes 0 n = []"
| "le_bytes (Suc k) n = word_of_nat (n mod 256) # le_bytes k (n div 256)"

fun of_le :: "u8 list \<Rightarrow> nat" where
  "of_le [] = 0"
| "of_le (b # bs) = unat b + 256 * of_le bs"

lemma length_le_bytes [simp]: "length (le_bytes k n) = k"
  by (induction k arbitrary: n) auto

lemma of_le_bytes: "of_le (le_bytes k n) = n mod 256 ^ k"
proof (induction k arbitrary: n)
  case (Suc k)
  have "unat (word_of_nat (n mod 256) :: u8) = n mod 256"
    by (simp add: unat_of_nat)
  then show ?case by (simp add: Suc mod_mult2_eq)
qed simp

lemma of_le_bytes_small: "n < 256 ^ k \<Longrightarrow> of_le (le_bytes k n) = n"
  by (simp add: of_le_bytes)

lemma of_le_less: "of_le bs < 256 ^ length bs"
proof (induction bs)
  case (Cons b bs)
  have "unat b < 256" using unsigned_less [of b] by simp
  then show ?case using Cons by simp
qed simp

lemma le_bytes_of_le: "le_bytes (length bs) (of_le bs) = bs"
proof (induction bs)
  case (Cons b bs)
  have "unat b < 256" using unsigned_less [of b] by simp
  then show ?case using Cons by simp
qed simp

text \<open>An array of \<open>k\<close>-byte elements, and its elements read back.\<close>

definition le_array :: "nat \<Rightarrow> nat list \<Rightarrow> u8 list" where
  "le_array k ns = concat (map (le_bytes k) ns)"

fun of_le_array :: "nat \<Rightarrow> nat \<Rightarrow> u8 list \<Rightarrow> nat list" where
  "of_le_array k 0 bs = []"
| "of_le_array k (Suc n) bs = of_le (take k bs) # of_le_array k n (drop k bs)"

lemma length_le_array [simp]: "length (le_array k ns) = k * length ns"
  by (induction ns) (auto simp: le_array_def)

lemma of_le_array_le_array:
  "\<forall>n \<in> set ns. n < 256 ^ k \<Longrightarrow> of_le_array k (length ns) (le_array k ns @ rest) = ns"
  by (induction ns) (auto simp: le_array_def of_le_bytes)

lemma length_of_le_array [simp]: "length (of_le_array k n bs) = n"
  by (induction n arbitrary: bs) auto

subsection \<open>Bit patterns of floating-point values\<close>

text \<open>Width of the exponent field: what remains beside the sign and the stored fraction.\<close>

definition fields :: "fmt \<Rightarrow> nat \<Rightarrow> bool \<Rightarrow> nat \<Rightarrow> nat \<Rightarrow> nat" where
  "fields F w s ex fr = (if s then 2 ^ (w + (fprec F - 1)) else 0) + ex * 2 ^ (fprec F - 1) + fr"

fun fp_bits :: "fmt \<Rightarrow> nat \<Rightarrow> fp \<Rightarrow> nat" where
  "fp_bits F w NaN = fields F w False (2 ^ w - 1) (2 ^ (fprec F - 2))"
| "fp_bits F w (Inf s) = fields F w s (2 ^ w - 1) 0"
| "fp_bits F w (Fin s q) =
     (if q = 0 then fields F w s 0 0
      else let e = fquantum F q; n = nat (floor (q / 2 powi e))
           in if n < 2 ^ (fprec F - 1) then fields F w s 0 n
              else fields F w s (nat (e - fqmin F + 1)) (n - 2 ^ (fprec F - 1)))"

definition bits_fp :: "fmt \<Rightarrow> nat \<Rightarrow> nat \<Rightarrow> fp" where
  "bits_fp F w b =
     (let fr = b mod 2 ^ (fprec F - 1); ex = b div 2 ^ (fprec F - 1) mod 2 ^ w;
          s = odd (b div 2 ^ (w + (fprec F - 1)))
      in if ex = 0 then Fin s (of_nat fr * 2 powi fqmin F)
         else if ex = 2 ^ w - 1 then if fr = 0 then Inf s else NaN
         else Fin s (of_nat (2 ^ (fprec F - 1) + fr) * 2 powi (int ex - 1 + fqmin F)))"

definition f32_bits :: "fp \<Rightarrow> nat" where "f32_bits = fp_bits F32 8"
definition f64_bits :: "fp \<Rightarrow> nat" where "f64_bits = fp_bits F64 11"
definition bits_f32 :: "nat \<Rightarrow> fp" where "bits_f32 = bits_fp F32 8"
definition bits_f64 :: "nat \<Rightarrow> fp" where "bits_f64 = bits_fp F64 11"

text \<open>The values of a format.\<close>

fun fp_ok :: "fmt \<Rightarrow> fp \<Rightarrow> bool" where
  "fp_ok F (Fin s q) \<longleftrightarrow> 0 \<le> q \<and> q \<le> ffmax F \<and> representable F q"
| "fp_ok F _ = True"

lemma fields_inverse:
  assumes "ex < 2 ^ w" and "fr < 2 ^ (fprec F - 1)"
  shows "fields F w s ex fr mod 2 ^ (fprec F - 1) = fr"
    and "fields F w s ex fr div 2 ^ (fprec F - 1) mod 2 ^ w = ex"
    and "odd (fields F w s ex fr div 2 ^ (w + (fprec F - 1))) = s"
    and "fields F w s ex fr < 2 ^ (w + (fprec F - 1) + 1)"
proof -
  let ?p = "2 ^ (fprec F - 1) :: nat"
  have f: "fields F w s ex fr = ((if s then 2 ^ w else 0) + ex) * ?p + fr"
    by (simp add: fields_def power_add add_mult_distrib)
  show "fields F w s ex fr mod ?p = fr" using assms(2) by (simp add: f)
  have d: "fields F w s ex fr div ?p = (if s then 2 ^ w else 0) + ex" using assms(2) by (simp add: f)
  show "fields F w s ex fr div ?p mod 2 ^ w = ex" using assms(1) unfolding d by simp
  have "fields F w s ex fr div 2 ^ (w + (fprec F - 1)) = fields F w s ex fr div ?p div 2 ^ w"
    by (metis add.commute div_mult2_eq power_add)
  then show "odd (fields F w s ex fr div 2 ^ (w + (fprec F - 1))) = s"
    unfolding d using assms(1) by (simp only:) simp
  have "((if s then 2 ^ w else 0) + ex) * ?p + fr < (2 * 2 ^ w) * ?p"
  proof -
    have "(if s then 2 ^ w else 0) + ex + 1 \<le> 2 * 2 ^ w" using assms(1) by simp
    then have "((if s then 2 ^ w else 0) + ex + 1) * ?p \<le> (2 * 2 ^ w) * ?p" by (rule mult_right_mono) simp
    then show ?thesis using assms(2) by (simp add: add_mult_distrib)
  qed
  also have "\<dots> \<le> 2 ^ (w + (fprec F - 1) + 1)"
    by (simp add: power_add)
  finally show "fields F w s ex fr < 2 ^ (w + (fprec F - 1) + 1)" by (simp add: f)
qed

lemma representable_normal:
  assumes "representable F q" and q0: "0 < q" and p: "0 < fprec F"
  shows "\<exists>n. q = of_nat n * 2 powi fquantum F q \<and> 0 < n \<and> n < 2 ^ fprec F \<and>
    (n < 2 ^ (fprec F - 1) \<longrightarrow> fquantum F q = fqmin F)"
proof -
  define e where "e = fquantum F q"
  have pe: "0 < (2::rat) powi e" by simp
  define n where "n = nat (rne (q / 2 powi e))"
  have "rnd F q = q" using rnd_exact [OF assms(1)] q0 by simp
  then have q1: "q = of_int (rne (q / 2 powi e)) * 2 powi e"
    using q0 by (simp add: rnd_def Let_def e_def)
  have "0 < (of_int (rne (q / 2 powi e)) :: rat)"
  proof (rule ccontr)
    assume "\<not> 0 < (of_int (rne (q / 2 powi e)) :: rat)"
    then have "of_int (rne (q / 2 powi e)) * 2 powi e \<le> (0 :: rat)"
      using pe by (intro mult_nonpos_nonneg) (simp_all only: not_less less_imp_le)
    then show False using q0 q1 by simp
  qed
  then have pos: "0 < rne (q / 2 powi e)" by (simp only: of_int_0_less_iff)
  have "(of_nat n :: rat) = of_int (rne (q / 2 powi e))" using pos by (simp add: n_def)
  then have q2: "q = of_nat n * 2 powi e" using q1 by (simp only:)
  have n0: "0 < n" using pos by (simp add: n_def)
  have "q < 2 powi (ilog2 q + 1)" using ilog2_bounds(2) [OF q0] .
  also have "\<dots> \<le> 2 powi (int (fprec F) + e)"
    by (rule power_int_increasing) (simp_all add: e_def fquantum_def)
  finally have "of_nat n * 2 powi e < (of_nat (2 ^ fprec F) :: rat) * 2 powi e"
    by (simp only: q2 [symmetric] power_int_add of_nat_power power_int_of_nat) (simp add: power_int_add)
  then have "(of_nat n :: rat) < of_nat (2 ^ fprec F)" using pe by (simp only: mult_less_cancel_right_pos)
  then have lt: "n < 2 ^ fprec F" by (simp only: of_nat_less_iff)
  have "2 ^ (fprec F - 1) \<le> n" if "e \<noteq> fqmin F"
  proof -
    have "e = ilog2 q - int (fprec F) + 1" using that by (simp add: e_def fquantum_def max_def split: if_splits)
    then have il: "ilog2 q = int (fprec F - 1) + e" using p by simp
    have "2 powi (int (fprec F - 1) + e) \<le> q" using ilog2_bounds(1) [OF q0] il by simp
    then have "(of_nat (2 ^ (fprec F - 1)) :: rat) * 2 powi e \<le> of_nat n * 2 powi e"
      by (simp add: q2 [symmetric] power_int_add)
    then have "(of_nat (2 ^ (fprec F - 1)) :: rat) \<le> of_nat n" using pe by (simp only: mult_le_cancel_right_pos)
    then show ?thesis by (simp only: of_nat_le_iff)
  qed
  then have "n < 2 ^ (fprec F - 1) \<longrightarrow> e = fqmin F" by fastforce
  then show ?thesis using q2 lt n0 unfolding e_def [symmetric] by blast
qed

lemma bits_fp_fields:
  assumes "ex < 2 ^ w" and "fr < 2 ^ (fprec F - 1)"
  shows "bits_fp F w (fields F w s ex fr) =
    (if ex = 0 then Fin s (of_nat fr * 2 powi fqmin F)
     else if ex = 2 ^ w - 1 then if fr = 0 then Inf s else NaN
     else Fin s (of_nat (2 ^ (fprec F - 1) + fr) * 2 powi (int ex - 1 + fqmin F)))"
  unfolding bits_fp_def Let_def fields_inverse [OF assms] ..

lemma bits_fp_bits:
  assumes ok: "fp_ok F x" and p: "2 \<le> fprec F" and w: "2 \<le> w"
    and top: "ffmax F < 2 powi (fqmin F + 2 ^ w - 3 + int (fprec F))"
  shows "bits_fp F w (fp_bits F w x) = x \<and> fp_bits F w x < 2 ^ (w + (fprec F - 1) + 1)"
proof -
  have w1: "(2::nat) ^ w - 1 < 2 ^ w" "(2::nat) ^ w - 1 \<noteq> 0" "(0::nat) < 2 ^ w"
    using w power_increasing [OF w, of "2::nat"] by auto
  have p1: "(2::nat) ^ (fprec F - 2) < 2 ^ (fprec F - 1)" using p by (intro power_strict_increasing) auto
  have p0: "(0::nat) < 2 ^ (fprec F - 1)" by simp
  have pp: "(2::nat) ^ fprec F = 2 * 2 ^ (fprec F - 1)" using p by (cases "fprec F") auto
  have form: "\<exists>s ex fr. fp_bits F w x = fields F w s ex fr \<and> ex < 2 ^ w \<and> fr < 2 ^ (fprec F - 1) \<and>
    (if ex = 0 then Fin s (of_nat fr * 2 powi fqmin F)
     else if ex = 2 ^ w - 1 then if fr = 0 then Inf s else NaN
     else Fin s (of_nat (2 ^ (fprec F - 1) + fr) * 2 powi (int ex - 1 + fqmin F))) = x"
  proof (cases x)
    case NaN
    show ?thesis by (rule exI [of _ False], rule exI [of _ "2 ^ w - 1"], rule exI [of _ "2 ^ (fprec F - 2)"])
        (use NaN w1 p1 in simp)
  next
    case (Inf s)
    show ?thesis by (rule exI [of _ s], rule exI [of _ "2 ^ w - 1"], rule exI [of _ 0]) (use Inf w1 in simp)
  next
    case (Fin s q)
    show ?thesis
    proof (cases "q = 0")
      case True
      show ?thesis by (rule exI [of _ s], rule exI [of _ 0], rule exI [of _ 0]) (use Fin True in simp)
    next
      case False
      then have q0: "0 < q" using ok Fin by simp
      define e where "e = fquantum F q"
      obtain n where n: "q = of_nat n * 2 powi e" "0 < n" "n < 2 ^ fprec F"
        "n < 2 ^ (fprec F - 1) \<longrightarrow> e = fqmin F"
        using representable_normal [of F q] ok Fin q0 p by (auto simp: e_def)
      have nn: "nat \<lfloor>q / 2 powi e\<rfloor> = n" by (simp add: n(1))
      have bits: "fp_bits F w x = (if n < 2 ^ (fprec F - 1) then fields F w s 0 n
          else fields F w s (nat (e - fqmin F + 1)) (n - 2 ^ (fprec F - 1)))"
        using Fin False by (simp only: fp_bits.simps Let_def e_def [symmetric] nn if_False)
      show ?thesis
      proof (cases "n < 2 ^ (fprec F - 1)")
        case True
        show ?thesis by (rule exI [of _ s], rule exI [of _ 0], rule exI [of _ n])
            (use Fin True n(1,4) bits in simp)
      next
        case big: False
        define fr where "fr = n - 2 ^ (fprec F - 1)"
        have fr: "fr < 2 ^ (fprec F - 1)" "2 ^ (fprec F - 1) + fr = n" using n(3) pp big by (simp_all add: fr_def)
        have emin: "fqmin F \<le> e" by (simp add: e_def fquantum_def)
        have "2 powi (int (fprec F - 1) + e) \<le> q"
        proof -
          have "(of_nat (2 ^ (fprec F - 1)) :: rat) \<le> of_nat n" using big by (simp only: of_nat_le_iff not_less)
          then show ?thesis by (simp add: n(1) power_int_add)
        qed
        also have "\<dots> < 2 powi (fqmin F + 2 ^ w - 3 + int (fprec F))" using top ok Fin by simp
        finally have "int (fprec F - 1) + e < fqmin F + 2 ^ w - 3 + int (fprec F)"
          by (meson linorder_not_less one_le_numeral power_int_increasing)
        then have e2: "e - fqmin F + 1 < 2 ^ w - 1" using p by simp
        define ex where "ex = nat (e - fqmin F + 1)"
        have "int ex < 2 ^ w - 1" using e2 emin by (simp add: ex_def)
        then have "int ex < int (2 ^ w - 1)" using w1(3) by (simp add: of_nat_diff)
        then have exlt: "ex < 2 ^ w - 1" by (simp only: of_nat_less_iff)
        have ex: "ex < 2 ^ w" "ex \<noteq> 2 ^ w - 1" using exlt by simp_all
        have ex': "ex \<noteq> 0" "int ex - 1 + fqmin F = e" using emin by (simp_all add: ex_def)
        show ?thesis by (rule exI [of _ s], rule exI [of _ ex], rule exI [of _ fr])
            (simp only: bits [unfolded Fin] big if_False ex ex' fr n(1) [symmetric] Fin ex_def [symmetric] fr_def [symmetric] simp_thms)
      qed
    qed
  qed
  then obtain s ex fr where f: "fp_bits F w x = fields F w s ex fr" "ex < 2 ^ w" "fr < 2 ^ (fprec F - 1)"
    "bits_fp F w (fields F w s ex fr) = x" using bits_fp_fields by metis
  then show ?thesis using fields_inverse(4) [OF f(2,3)] by simp
qed

lemma bits_f32_bits: "fp_ok F32 x \<Longrightarrow> bits_f32 (f32_bits x) = x \<and> f32_bits x < 256 ^ 4"
  unfolding bits_f32_def f32_bits_def using bits_fp_bits [of F32 x 8] by (simp add: F32_def)

lemma bits_f64_bits: "fp_ok F64 x \<Longrightarrow> bits_f64 (f64_bits x) = x \<and> f64_bits x < 256 ^ 8"
  unfolding bits_f64_def f64_bits_def using bits_fp_bits [of F64 x 11] by (simp add: F64_def)

end
