(* ===== verification/GmtlMat.thy ===== *)
theory GmtlMat
  imports Gmtl
begin

text \<open>
  Matrices and quaternions of the bundled math library (\<open>src/core/gmtl/Matrix.h\<close>,
  \<open>MatrixOps.h\<close>, \<open>Generate.h\<close>, \<open>QuatOps.h\<close>, \<open>Xforms.h\<close>): 4x4 matrices of floats in
  column order with the library's transform state, rotations from quaternions, translations,
  scales, products, and products with vectors. \<open>sin\<close> and \<open>cos\<close> of the C library are arguments
  of the operations that use them. The library's assertions are compiled out.
\<close>

abbreviation addf :: "fp \<Rightarrow> fp \<Rightarrow> fp" where "addf \<equiv> fadd F32"
abbreviation subf :: "fp \<Rightarrow> fp \<Rightarrow> fp" where "subf \<equiv> fsub F32"
abbreviation mulf :: "fp \<Rightarrow> fp \<Rightarrow> fp" where "mulf \<equiv> fmul F32"
abbreviation divf :: "fp \<Rightarrow> fp \<Rightarrow> fp" where "divf \<equiv> fdiv F32"

definition fone :: fp where
  "fone = Fin False 1"

text \<open>The transform states are bit flags.\<close>

record matrix =
  mData :: "fp list"
  mState :: nat

definition st_IDENTITY :: nat where "st_IDENTITY = 1"
definition st_TRANS :: nat where "st_TRANS = 2"
definition st_ORTHOGONAL :: nat where "st_ORTHOGONAL = 4"
definition st_AFFINE :: nat where "st_AFFINE = 16"
definition st_NON_UNISCALE :: nat where "st_NON_UNISCALE = 32"
definition st_FULL :: nat where "st_FULL = 64"
definition st_XFORM_ERROR :: nat where "st_XFORM_ERROR = 128"
definition st_AFFINE_NON_UNISCALE :: nat where "st_AFFINE_NON_UNISCALE = 48"

text \<open>Element access of a 4x4 matrix.\<close>

definition mat_at :: "matrix \<Rightarrow> nat \<Rightarrow> nat \<Rightarrow> fp" where
  "mat_at m row column = mData m ! (column * 4 + row)"

definition mat_upd :: "nat \<Rightarrow> nat \<Rightarrow> fp \<Rightarrow> matrix \<Rightarrow> matrix" where
  "mat_upd row column v m = m\<lparr>mData := (mData m)[column * 4 + row := v]\<rparr>"

text \<open>A matrix from a function of row and column.\<close>

definition mat_of :: "(nat \<Rightarrow> nat \<Rightarrow> fp) \<Rightarrow> fp list" where
  "mat_of f = map (\<lambda>i. f (i mod 4) (i div 4)) [0..<16]"

definition identity_matrix :: matrix where
  "identity_matrix = \<lparr>mData = mat_of (\<lambda>r c. if r = c then fone else fzero), mState = st_IDENTITY\<rparr>"

definition combineMatrixStates :: "nat \<Rightarrow> nat \<Rightarrow> nat" where
  "combineMatrixStates state1 state2 =
     (if state1 = st_IDENTITY then
        if state2 = st_XFORM_ERROR then state2 else if state2 = st_NON_UNISCALE then st_XFORM_ERROR else state2
      else if state1 = st_TRANS then
        if state2 = st_IDENTITY then state1 else if state2 = st_ORTHOGONAL then st_AFFINE
        else if state2 = st_NON_UNISCALE then st_XFORM_ERROR else state2
      else if state1 = st_ORTHOGONAL then
        if state2 = st_IDENTITY then state1 else if state2 = st_TRANS then st_AFFINE
        else if state2 = st_NON_UNISCALE then st_XFORM_ERROR else state2
      else if state1 = st_AFFINE then
        if state2 = st_IDENTITY \<or> state2 = st_TRANS \<or> state2 = st_ORTHOGONAL then state1
        else if state2 = st_NON_UNISCALE then st_XFORM_ERROR else state2
      else if state1 = st_AFFINE_NON_UNISCALE then
        if state2 = st_IDENTITY \<or> state2 = st_TRANS \<or> state2 = st_ORTHOGONAL \<or> state2 = st_AFFINE then state1
        else if state2 = st_NON_UNISCALE then st_XFORM_ERROR else state2
      else if state1 = st_FULL then
        if state2 = st_XFORM_ERROR then state2 else if state2 = st_NON_UNISCALE then st_XFORM_ERROR else state1
      else st_XFORM_ERROR)"

text \<open>The sums start from zero and run over the inner index upwards.\<close>

definition mult :: "matrix \<Rightarrow> matrix \<Rightarrow> matrix" where
  "mult lhs rhs = \<lparr>mData = mat_of (\<lambda>i j. fold (\<lambda>k acc. addf acc (mulf (mat_at lhs i k) (mat_at rhs k j))) [0..<4] fzero),
     mState = combineMatrixStates (mState lhs) (mState rhs)\<rparr>"

definition setTrans :: "vec3 \<Rightarrow> matrix \<Rightarrow> matrix" where
  "setTrans t m =
     (let m = mat_upd 0 3 (vx t) (mat_upd 1 3 (vy t) (mat_upd 2 3 (vz t) m))
      in m\<lparr>mState := (if mState m = st_ORTHOGONAL then st_AFFINE
                      else if mState m = st_IDENTITY then st_TRANS else mState m)\<rparr>)"

definition makeTrans :: "vec3 \<Rightarrow> matrix" where
  "makeTrans t = setTrans t identity_matrix"

definition setScale :: "vec3 \<Rightarrow> matrix \<Rightarrow> matrix" where
  "setScale s m =
     (mat_upd 0 0 (vx s) (mat_upd 1 1 (vy s) (mat_upd 2 2 (vz s) m)))\<lparr>mState := st_AFFINE_NON_UNISCALE\<rparr>"

definition makeScale :: "vec3 \<Rightarrow> matrix" where
  "makeScale s = setScale s identity_matrix"

text \<open>Matrix times vector: each row's sum starts from zero.\<close>

definition xform_row :: "matrix \<Rightarrow> nat \<Rightarrow> vec4 \<Rightarrow> fp" where
  "xform_row m r v = addf (addf (addf (addf fzero (mulf (mat_at m r 0) (wx v))) (mulf (mat_at m r 1) (wy v)))
     (mulf (mat_at m r 2) (wz v))) (mulf (mat_at m r 3) (ww v))"

definition xform_vec4 :: "matrix \<Rightarrow> vec4 \<Rightarrow> vec4" where
  "xform_vec4 m v = V4 (xform_row m 0 v) (xform_row m 1 v) (xform_row m 2 v) (xform_row m 3 v)"

text \<open>\<open>Math::isEqual\<close> with the tolerance of the partial transforms.\<close>

definition isEqualf :: "fp \<Rightarrow> fp \<Rightarrow> fp \<Rightarrow> bool" where
  "isEqualf a b tolerance = fle (ffabs (subf a b)) tolerance"

definition xform_divide :: "vec4 \<Rightarrow> vec3" where
  "xform_divide t =
     (if \<not> isEqualf (ww t) fzero (flit F32 (1 / 10000))
      then let w_coord_div = divf fone (ww t)
           in V3 (mulf (wx t) w_coord_div) (mulf (wy t) w_coord_div) (mulf (wz t) w_coord_div)
      else V3 (wx t) (wy t) (wz t))"

text \<open>A vector is completed with 0, a point with 1.\<close>

definition xform_vec3 :: "matrix \<Rightarrow> vec3 \<Rightarrow> vec3" where
  "xform_vec3 m v = xform_divide (xform_vec4 m (V4 (vx v) (vy v) (vz v) fzero))"

definition xform_point3 :: "matrix \<Rightarrow> vec3 \<Rightarrow> vec3" where
  "xform_point3 m p = xform_divide (xform_vec4 m (V4 (vx p) (vy p) (vz p) fone))"

subsection \<open>Quaternions\<close>

datatype quat = Quat (qx: fp) (qy: fp) (qz: fp) (qw: fp)

definition qmul :: "quat \<Rightarrow> quat \<Rightarrow> quat" where
  "qmul a b = Quat
     (subf (addf (addf (mulf (qw a) (qx b)) (mulf (qx a) (qw b))) (mulf (qy a) (qz b))) (mulf (qz a) (qy b)))
     (subf (addf (addf (mulf (qw a) (qy b)) (mulf (qy a) (qw b))) (mulf (qz a) (qx b))) (mulf (qx a) (qz b)))
     (subf (addf (addf (mulf (qw a) (qz b)) (mulf (qz a) (qw b))) (mulf (qx a) (qy b))) (mulf (qy a) (qx b)))
     (subf (subf (subf (mulf (qw a) (qw b)) (mulf (qx a) (qx b))) (mulf (qy a) (qy b))) (mulf (qz a) (qz b)))"

text \<open>\<open>set(Quat, AxisAngle)\<close>: an angle and an axis of unit length.\<close>

definition quat_of_axis :: "(fp \<Rightarrow> fp) \<Rightarrow> (fp \<Rightarrow> fp) \<Rightarrow> fp \<Rightarrow> vec3 \<Rightarrow> quat" where
  "quat_of_axis sinf cosf angle axis =
     (let half_angle = mulf angle (flit F32 (1 / 2)); sin_half_angle = sinf half_angle
      in Quat (mulf sin_half_angle (vx axis)) (mulf sin_half_angle (vy axis)) (mulf sin_half_angle (vz axis))
           (cosf half_angle))"

definition setRot :: "quat \<Rightarrow> matrix \<Rightarrow> matrix" where
  "setRot q m =
     (let xs = addf (qx q) (qx q); ys = addf (qy q) (qy q); zs = addf (qz q) (qz q);
          xx = mulf (qx q) xs; xy = mulf (qx q) ys; xz = mulf (qx q) zs;
          yy = mulf (qy q) ys; yz = mulf (qy q) zs; zz = mulf (qz q) zs;
          wx = mulf (qw q) xs; wy = mulf (qw q) ys; wz = mulf (qw q) zs;
          m = mat_upd 0 0 (subf fone (addf yy zz)) m;
          m = mat_upd 1 0 (addf xy wz) m;
          m = mat_upd 2 0 (subf xz wy) m;
          m = mat_upd 0 1 (subf xy wz) m;
          m = mat_upd 1 1 (subf fone (addf xx zz)) m;
          m = mat_upd 2 1 (addf yz wx) m;
          m = mat_upd 0 2 (addf xz wy) m;
          m = mat_upd 1 2 (subf yz wx) m;
          m = mat_upd 2 2 (subf fone (addf xx yy)) m
      in m\<lparr>mState := (if mState m = st_TRANS then st_AFFINE
                      else if mState m = st_IDENTITY then st_ORTHOGONAL else mState m)\<rparr>)"

definition makeRot :: "quat \<Rightarrow> matrix" where
  "makeRot q = setRot q identity_matrix"

end
