(* ===== verification/DepthProps.thy ===== *)
theory DepthProps
  imports Bytes GmtlMat
begin

text \<open>
  The frames the program passes around (\<open>src/core/DepthProps.h\<close>): a depth frame with its video
  image and depth values, and the properties of a face mesh, with their memory layouts.
\<close>

text \<open>A \<open>gmtl::Matrix44f\<close>: its sixteen floats in column order.\<close>

type_synonym mat44 = matrix

record depth_props =
  timestamp :: fp
  vidWidth :: u32
  vidHeight :: u32
  vidMode :: u32
  depthWidth :: u32
  depthHeight :: u32
  depthMode :: u32

record depth_data =
  props :: depth_props
  vidData :: "u8 list"
  depthData :: "fp list"
  dpts :: "vec4 list"
  alignMtx :: mat44

record face_props =
  ftimestamp :: fp
  viewMatf :: "fp list"
  wMatf :: "fp list"
  projMatf :: "fp list"

record ycrcb_data =
  yOffset :: int
  yRowBytes :: int
  cbCrOffset :: int
  cbCrRowBytes :: int

subsection \<open>Memory layout\<close>

definition u32_bytes :: "u32 \<Rightarrow> u8 list" where
  "u32_bytes w = le_bytes 4 (unat w)"

definition f32_array :: "fp list \<Rightarrow> u8 list" where
  "f32_array xs = le_array 4 (map f32_bits xs)"

definition of_f32_array :: "u8 list \<Rightarrow> fp list" where
  "of_f32_array bs = map bits_f32 (of_le_array 4 (length bs div 4) bs)"

definition i16_array :: "u16 list \<Rightarrow> u8 list" where
  "i16_array xs = le_array 2 (map unat xs)"

definition of_i16_array :: "u8 list \<Rightarrow> u16 list" where
  "of_i16_array bs = map word_of_nat (of_le_array 2 (length bs div 2) bs)"

text \<open>\<open>sizeof(DepthDataProps)\<close> is 32: a double and six 32-bit fields.\<close>

definition depth_props_bytes :: "depth_props \<Rightarrow> u8 list" where
  "depth_props_bytes p = le_bytes 8 (f64_bits (timestamp p)) @
     concat (map u32_bytes [vidWidth p, vidHeight p, vidMode p, depthWidth p, depthHeight p, depthMode p])"

definition depth_props_of :: "u8 list \<Rightarrow> depth_props" where
  "depth_props_of bs =
     (let ws = map word_of_nat (of_le_array 4 6 (drop 8 bs))
      in \<lparr>timestamp = bits_f64 (of_le (take 8 bs)), vidWidth = ws ! 0, vidHeight = ws ! 1, vidMode = ws ! 2,
          depthWidth = ws ! 3, depthHeight = ws ! 4, depthMode = ws ! 5\<rparr>)"

text \<open>\<open>sizeof(FaceDataProps)\<close> is 200: a double and three matrices.\<close>

definition face_props_bytes :: "face_props \<Rightarrow> u8 list" where
  "face_props_bytes p = le_bytes 8 (f64_bits (ftimestamp p)) @
     f32_array (viewMatf p) @ f32_array (wMatf p) @ f32_array (projMatf p)"

definition face_props_of :: "u8 list \<Rightarrow> face_props" where
  "face_props_of bs =
     \<lparr>ftimestamp = bits_f64 (of_le (take 8 bs)), viewMatf = of_f32_array (take 64 (drop 8 bs)),
      wMatf = of_f32_array (take 64 (drop 72 bs)), projMatf = of_f32_array (take 64 (drop 136 bs))\<rparr>"

definition floats_ok :: "fp list \<Rightarrow> bool" where
  "floats_ok xs \<longleftrightarrow> list_all (fp_ok F32) xs"

definition face_props_ok :: "face_props \<Rightarrow> bool" where
  "face_props_ok p \<longleftrightarrow> fp_ok F64 (ftimestamp p) \<and>
     floats_ok (viewMatf p) \<and> length (viewMatf p) = 16 \<and>
     floats_ok (wMatf p) \<and> length (wMatf p) = 16 \<and>
     floats_ok (projMatf p) \<and> length (projMatf p) = 16"

lemma length_f32_array [simp]: "length (f32_array xs) = 4 * length xs"
  by (simp add: f32_array_def)

lemma length_i16_array [simp]: "length (i16_array xs) = 2 * length xs"
  by (simp add: i16_array_def)

lemma of_f32_array_inverse:
  assumes "floats_ok xs"
  shows "of_f32_array (f32_array xs) = xs"
proof -
  have b: "bits_f32 (f32_bits x) = x \<and> f32_bits x < 256 ^ 4" if "x \<in> set xs" for x
    using bits_f32_bits that assms by (simp add: floats_ok_def list_all_iff)
  have "of_le_array 4 (length (map f32_bits xs)) (le_array 4 (map f32_bits xs) @ []) = map f32_bits xs"
    using b by (intro of_le_array_le_array) auto
  then show ?thesis using b
    by (simp add: of_f32_array_def f32_array_def comp_def map_idI)
qed

lemma of_i16_array_inverse: "of_i16_array (i16_array xs) = xs"
proof -
  have "unat x < 256 ^ 2" for x :: u16 using unsigned_less [of x] by simp
  then have "of_le_array 2 (length (map unat xs)) (le_array 2 (map unat xs) @ []) = map unat xs"
    by (intro of_le_array_le_array) auto
  then show ?thesis by (simp add: of_i16_array_def i16_array_def comp_def)
qed

lemma length_depth_props_bytes [simp]: "length (depth_props_bytes p) = 32"
  by (simp add: depth_props_bytes_def u32_bytes_def)

lemma depth_props_roundtrip:
  assumes "fp_ok F64 (timestamp p)"
  shows "depth_props_of (depth_props_bytes p) = p"
proof -
  let ?ws = "[vidWidth p, vidHeight p, vidMode p, depthWidth p, depthHeight p, depthMode p]"
  have "unat x < 256 ^ 4" for x :: u32 using unsigned_less [of x] by simp
  then have "of_le_array 4 (length (map unat ?ws)) (le_array 4 (map unat ?ws) @ []) = map unat ?ws"
    by (intro of_le_array_le_array) auto
  moreover have "concat (map u32_bytes ?ws) = le_array 4 (map unat ?ws)"
    by (simp add: le_array_def u32_bytes_def)
  ultimately have "of_le_array 4 6 (concat (map u32_bytes ?ws)) = map unat ?ws" by (simp add: numeral_eq_Suc)
  then show ?thesis using bits_f64_bits [OF assms]
    by (simp add: depth_props_of_def depth_props_bytes_def Let_def of_le_bytes)
qed

lemma length_face_props_bytes: "face_props_ok p \<Longrightarrow> length (face_props_bytes p) = 200"
  by (simp add: face_props_bytes_def face_props_ok_def)

lemma face_props_roundtrip:
  assumes "face_props_ok p"
  shows "face_props_of (face_props_bytes p) = p"
  using assms bits_f64_bits [of "ftimestamp p"]
  by (simp add: face_props_of_def face_props_bytes_def face_props_ok_def of_f32_array_inverse of_le_bytes)

end
