(* ===== verification/BlockFile.thy ===== *)
theory BlockFile
  imports DepthProps
begin

text \<open>
  The capture file: \<open>WriteFileData\<close>, \<open>WriteDepthDataToFile\<close> and \<open>WriteFaceDataToFile\<close> of
  \<open>src/core/Application.cpp\<close> write length-prefixed blocks, \<open>ReadNextBlock\<close> and
  \<open>ReadAllBlocks\<close> of \<open>src/win/map.cpp\<close> read them back. A \<open>std::fstream\<close> is its bytes, its read
  position and its state bits. \<open>memcpy\<close> over the end of an object, and the use of fields that
  were never written, are \<open>None\<close>; allocation is assumed to succeed.
\<close>

subsection \<open>Writing\<close>

text \<open>The static stream is opened (and truncated) by the first call; \<open>None\<close> is the state before.\<close>

definition WriteFileData :: "u8 list \<Rightarrow> u8 list option \<Rightarrow> u8 list option" where
  "WriteFileData data fs = Some ((case fs of None \<Rightarrow> [] | Some bs \<Rightarrow> bs) @ le_bytes 8 (length data) @ data)"

definition WriteDepthDataToFile :: "depth_data \<Rightarrow> u8 list option \<Rightarrow> u8 list option" where
  "WriteDepthDataToFile d fs =
     (let fs = WriteFileData (le_bytes 8 1234) fs;
          fs = WriteFileData (depth_props_bytes (props d)) fs;
          fs = WriteFileData (vidData d) fs
      in WriteFileData (f32_array (depthData d)) fs)"

definition WriteFaceDataToFile :: "face_props \<Rightarrow> fp list \<Rightarrow> u16 list \<Rightarrow> u8 list option \<Rightarrow> u8 list option" where
  "WriteFaceDataToFile p vertices indices fs =
     (let fs = WriteFileData (le_bytes 8 5678) fs;
          fs = WriteFileData (face_props_bytes p) fs;
          fs = WriteFileData (f32_array vertices) fs
      in WriteFileData (i16_array indices) fs)"

subsection \<open>Reading\<close>

record binfile =
  is_open :: bool
  f_bytes :: "u8 list"
  f_pos :: nat
  f_eof :: bool
  f_fail :: bool

definition closed_file :: binfile where
  "closed_file = \<lparr>is_open = False, f_bytes = [], f_pos = 0, f_eof = False, f_fail = False\<rparr>"

text \<open>\<open>std::fstream(path, binary | in)\<close>: opening a missing file sets \<open>failbit\<close>.\<close>

definition open_in :: "u8 list option \<Rightarrow> binfile" where
  "open_in disk = (case disk of
     None \<Rightarrow> closed_file\<lparr>f_fail := True\<rparr>
   | Some bs \<Rightarrow> \<lparr>is_open = True, f_bytes = bs, f_pos = 0, f_eof = False, f_fail = False\<rparr>)"

text \<open>\<open>istream::read\<close>: nothing on a stream that is not good; a short read sets both bits.\<close>

definition fs_read :: "nat \<Rightarrow> binfile \<Rightarrow> u8 list \<times> binfile" where
  "fs_read n f =
     (if f_eof f \<or> f_fail f then ([], f\<lparr>f_fail := True\<rparr>)
      else let got = take n (drop (f_pos f) (f_bytes f));
               f' = f\<lparr>f_pos := f_pos f + length got\<rparr>
           in (got, if length got < n then f'\<lparr>f_eof := True, f_fail := True\<rparr> else f'))"

text \<open>Reading into a buffer overwrites its first bytes.\<close>

definition overwrite :: "u8 list \<Rightarrow> u8 list \<Rightarrow> u8 list" where
  "overwrite got buf = got @ drop (length got) buf"

definition vresize :: "u8 list \<Rightarrow> nat \<Rightarrow> u8 list" where
  "vresize xs n = take n xs @ replicate (n - length xs) 0"

definition ReadNextBlock :: "u8 list option \<Rightarrow> u8 list \<Rightarrow> binfile \<Rightarrow> bool \<times> u8 list \<times> binfile" where
  "ReadNextBlock disk data f =
     (let f = (if is_open f then f else open_in disk);
          (hdr, f) = fs_read 8 f;
          sz = of_le (overwrite hdr (replicate 8 0));
          data = vresize data sz;
          (got, f) = fs_read sz f;
          data = overwrite got data
      in if f_eof f then (False, data, f\<lparr>f_eof := False, f_fail := False, f_pos := 0\<rparr>)
         else (True, data, f))"

record depth_frame =
  df_props :: depth_props
  df_vid :: "u8 list"
  df_depth :: "fp list"

record face_frame =
  ff_props :: face_props
  ff_vertices :: "fp list"
  ff_indices :: "u16 list"

text \<open>The body of the marker branches: the frame read, whether more data is expected, and the
  stream. \<open>memcpy(&df.props, ...)\<close> overflows above 32 bytes and leaves fields unset below.\<close>

definition read_depth_frame :: "u8 list option \<Rightarrow> u8 list \<Rightarrow> binfile \<Rightarrow> (bool \<times> depth_frame \<times> u8 list \<times> binfile) option" where
  "read_depth_frame disk data f =
     (let (_, data, f) = ReadNextBlock disk data f
      in if length data \<noteq> 32 then None
         else let p = depth_props_of data;
                  (m1, vid, f) = ReadNextBlock disk [] f;
                  (m2, ddata, f) = ReadNextBlock disk [] f
              in if length ddata mod 4 \<noteq> 0 then None
                 else Some (m1 \<and> m2, \<lparr>df_props = p, df_vid = vid, df_depth = of_f32_array ddata\<rparr>, data, f))"

definition read_face_frame :: "u8 list option \<Rightarrow> u8 list \<Rightarrow> binfile \<Rightarrow> (bool \<times> face_frame \<times> u8 list \<times> binfile) option" where
  "read_face_frame disk data f =
     (let (_, data, f) = ReadNextBlock disk data f
      in if length data < 200 then None
         else let p = face_props_of data;
                  (m1, vdata, f) = ReadNextBlock disk data f
              in if length vdata mod 4 \<noteq> 0 then None
                 else let (m2, idata, f) = ReadNextBlock disk vdata f
                      in if length idata mod 2 \<noteq> 0 then None
                         else Some (m1 \<and> m2, \<lparr>ff_props = p, ff_vertices = of_f32_array vdata,
                                    ff_indices = of_i16_array idata\<rparr>, idata, f))"

text \<open>The reading loop; \<open>fuel\<close> bounds its iterations: a loop that has not ended within them is
  \<open>Unfinished\<close>, an overflowing \<open>memcpy\<close> is \<open>Undefined\<close>. The call \<open>s_binfile.read(data, sz)\<close> in the body has \<open>sz = 0\<close>.\<close>

fun read_loop :: "u8 list option \<Rightarrow> nat \<Rightarrow> bool \<Rightarrow> u8 list \<Rightarrow> binfile \<Rightarrow> depth_frame list \<Rightarrow> face_frame list
    \<Rightarrow> (depth_frame list \<times> face_frame list \<times> binfile) loop_result" where
  "read_loop disk 0 moreData data f dfs ffs = Unfinished"
| "read_loop disk (Suc k) moreData data f dfs ffs =
     (if \<not> moreData then Returned (dfs, ffs, f)
      else let (ok, data, f) = ReadNextBlock disk data f
           in if \<not> ok then Returned (dfs, ffs, f)
              else let f = snd (fs_read 0 f)
                   in if length data = 8 \<and> of_le data = 1234 then
                        lbind (checked (read_depth_frame disk data f))
                          (\<lambda>(moreData, df, data, f). read_loop disk k moreData data f (dfs @ [df]) ffs)
                      else if length data = 8 \<and> of_le data = 5678 then
                        lbind (checked (read_face_frame disk data f))
                          (\<lambda>(moreData, ff, data, f). read_loop disk k moreData data f dfs (ffs @ [ff]))
                      else read_loop disk k moreData data f dfs ffs)"

record playback =
  depthFrames :: "depth_frame list"
  faceFrames :: "face_frame list"
  sStartTime :: fp
  sEndTime :: fp

definition std_min :: "fp \<Rightarrow> fp \<Rightarrow> fp" where
  "std_min a b = (if flt b a then b else a)"

definition std_max :: "fp \<Rightarrow> fp \<Rightarrow> fp" where
  "std_max a b = (if flt a b then b else a)"

definition df_lt :: "depth_frame \<Rightarrow> depth_frame \<Rightarrow> bool" where
  "df_lt l r = flt (timestamp (df_props l)) (timestamp (df_props r))"

definition ff_lt :: "face_frame \<Rightarrow> face_frame \<Rightarrow> bool" where
  "ff_lt l r = flt (ftimestamp (ff_props l)) (ftimestamp (ff_props r))"

definition ReadAllBlocks ::
  "((depth_frame \<Rightarrow> depth_frame \<Rightarrow> bool) \<Rightarrow> depth_frame list \<Rightarrow> depth_frame list)
   \<Rightarrow> ((face_frame \<Rightarrow> face_frame \<Rightarrow> bool) \<Rightarrow> face_frame list \<Rightarrow> face_frame list)
   \<Rightarrow> u8 list option \<Rightarrow> nat \<Rightarrow> playback loop_result" where
  "ReadAllBlocks srtd srtf disk fuel = lbind (read_loop disk fuel True [] closed_file [] []) (\<lambda>(dfs, ffs, f).
     let dfs = srtd df_lt dfs; ffs = srtf ff_lt ffs
     in if dfs = [] \<or> ffs = [] then Undefined
        else Returned \<lparr>depthFrames = dfs, faceFrames = ffs,
          sStartTime = std_min (timestamp (df_props (hd dfs))) (ftimestamp (ff_props (hd ffs))),
          sEndTime = std_max (timestamp (df_props (last dfs))) (ftimestamp (ff_props (last ffs)))\<rparr>)"

subsection \<open>Blocks\<close>

definition block :: "u8 list \<Rightarrow> u8 list" where
  "block d = le_bytes 8 (length d) @ d"

text \<open>An open stream in good state with \<open>rest\<close> left to read.\<close>

definition reading :: "u8 list \<Rightarrow> u8 list \<Rightarrow> binfile \<Rightarrow> bool" where
  "reading bs rest f \<longleftrightarrow> is_open f \<and> f_bytes f = bs \<and> \<not> f_eof f \<and> \<not> f_fail f \<and> drop (f_pos f) bs = rest"

lemma reading_fs_read:
  assumes "reading bs (d @ rest) f"
  shows "\<exists>f'. fs_read (length d) f = (d, f') \<and> reading bs rest f'"
proof -
  have dr: "drop (f_pos f) bs = d @ rest" "f_bytes f = bs" using assms by (simp_all add: reading_def)
  have "drop (length d + f_pos f) bs = rest" by (metis append_eq_conv_conj dr(1) drop_drop)
  then show ?thesis using assms dr by (auto simp: fs_read_def reading_def add.commute Let_def)
qed

lemma overwrite_full: "length got = length buf \<Longrightarrow> overwrite got buf = got"
  by (simp add: overwrite_def)

lemma length_vresize [simp]: "length (vresize xs n) = n"
  by (simp add: vresize_def)

lemma ReadNextBlock_block:
  assumes r: "reading bs (block d @ rest) f" and "length d < 2 ^ 64"
  shows "\<exists>f'. ReadNextBlock disk data f = (True, d, f') \<and> reading bs rest f'"
proof -
  have "reading bs (le_bytes 8 (length d) @ (d @ rest)) f" using r by (simp add: block_def)
  then obtain f1 where f1: "fs_read 8 f = (le_bytes 8 (length d), f1)" "reading bs (d @ rest) f1"
    using reading_fs_read by fastforce
  obtain f2 where f2: "fs_read (length d) f1 = (d, f2)" "reading bs rest f2"
    using reading_fs_read [OF f1(2)] by blast
  have n: "of_le (le_bytes 8 (length d)) = length d" using assms(2) by (intro of_le_bytes_small) simp
  have o: "is_open f" "\<not> f_eof f2" using r f2(2) by (simp_all add: reading_def)
  show ?thesis using f1 f2 o n
    by (simp add: ReadNextBlock_def overwrite_full)
qed

lemma ReadNextBlock_end:
  assumes "reading bs [] f"
  shows "fst (ReadNextBlock disk data f) = False"
proof -
  have "drop (f_pos f) (f_bytes f) = []" "is_open f" "\<not> f_eof f" "\<not> f_fail f"
    using assms by (simp_all add: reading_def)
  then have "fs_read 8 f = ([], f\<lparr>f_pos := f_pos f, f_eof := True, f_fail := True\<rparr>)"
    by (simp add: fs_read_def)
  then show ?thesis using \<open>is_open f\<close> by (simp add: ReadNextBlock_def Let_def fs_read_def split: prod.splits)
qed

lemma reading_read0: "reading bs rest f \<Longrightarrow> reading bs rest (snd (fs_read 0 f))"
  by (simp add: fs_read_def reading_def)

subsection \<open>Captures\<close>

datatype capture = CDepth depth_data | CFace face_props "fp list" "u16 list"

text \<open>The calls that write a capture, in order.\<close>

fun write_capture :: "capture \<Rightarrow> u8 list option \<Rightarrow> u8 list option" where
  "write_capture (CDepth d) fs = WriteDepthDataToFile d fs"
| "write_capture (CFace p vs is) fs = WriteFaceDataToFile p vs is fs"

fun capture_ok :: "capture \<Rightarrow> bool" where
  "capture_ok (CDepth d) \<longleftrightarrow> fp_ok F64 (timestamp (props d)) \<and> length (vidData d) < 2 ^ 61 \<and>
     floats_ok (depthData d) \<and> length (depthData d) < 2 ^ 61"
| "capture_ok (CFace p vs is) \<longleftrightarrow> face_props_ok p \<and> floats_ok vs \<and> length vs < 2 ^ 61 \<and> length is < 2 ^ 61"

fun depth_of :: "capture \<Rightarrow> depth_frame list" where
  "depth_of (CDepth d) = [\<lparr>df_props = props d, df_vid = vidData d, df_depth = depthData d\<rparr>]"
| "depth_of (CFace p vs is) = []"

fun face_of :: "capture \<Rightarrow> face_frame list" where
  "face_of (CDepth d) = []"
| "face_of (CFace p vs is) = [\<lparr>ff_props = p, ff_vertices = vs, ff_indices = is\<rparr>]"

fun capture_bytes :: "capture \<Rightarrow> u8 list" where
  "capture_bytes (CDepth d) = block (le_bytes 8 1234) @ block (depth_props_bytes (props d)) @
     block (vidData d) @ block (f32_array (depthData d))"
| "capture_bytes (CFace p vs is) = block (le_bytes 8 5678) @ block (face_props_bytes p) @
     block (f32_array vs) @ block (i16_array is)"

lemma write_capture_bytes:
  "write_capture c fs = Some ((case fs of None \<Rightarrow> [] | Some bs \<Rightarrow> bs) @ capture_bytes c)"
  by (cases c) (simp_all add: WriteDepthDataToFile_def WriteFaceDataToFile_def WriteFileData_def
      block_def Let_def)

lemma write_all_bytes:
  "cs \<noteq> [] \<Longrightarrow> fold write_capture cs fs = Some ((case fs of None \<Rightarrow> [] | Some bs \<Rightarrow> bs) @ concat (map capture_bytes cs))"
proof (induction cs arbitrary: fs)
  case (Cons c cs)
  then show ?case by (cases "cs = []") (simp_all add: write_capture_bytes)
qed simp

lemma read_depth_frame_ok:
  assumes r: "reading bs (block (depth_props_bytes (props d)) @ block (vidData d) @ block (f32_array (depthData d)) @ rest) f"
    and ok: "capture_ok (CDepth d)"
  shows "\<exists>dat f'. read_depth_frame disk data f =
    Some (True, \<lparr>df_props = props d, df_vid = vidData d, df_depth = depthData d\<rparr>, dat, f') \<and> reading bs rest f'"
proof -
  obtain f1 where f1: "ReadNextBlock disk data f = (True, depth_props_bytes (props d), f1)"
    "reading bs (block (vidData d) @ block (f32_array (depthData d)) @ rest) f1"
    using ReadNextBlock_block [OF r] by auto
  obtain f2 where f2: "ReadNextBlock disk [] f1 = (True, vidData d, f2)"
    "reading bs (block (f32_array (depthData d)) @ rest) f2"
    using ReadNextBlock_block [OF f1(2)] ok by fastforce
  obtain f3 where f3: "ReadNextBlock disk [] f2 = (True, f32_array (depthData d), f3)" "reading bs rest f3"
    using ReadNextBlock_block [OF f2(2)] ok by fastforce
  show ?thesis using f1 f2 f3 ok
    by (simp add: read_depth_frame_def depth_props_roundtrip of_f32_array_inverse)
qed

lemma read_face_frame_ok:
  assumes r: "reading bs (block (face_props_bytes p) @ block (f32_array vs) @ block (i16_array is) @ rest) f"
    and ok: "capture_ok (CFace p vs is)"
  shows "\<exists>dat f'. read_face_frame disk data f =
    Some (True, \<lparr>ff_props = p, ff_vertices = vs, ff_indices = is\<rparr>, dat, f') \<and> reading bs rest f'"
proof -
  have p: "length (face_props_bytes p) = 200" using ok by (simp add: length_face_props_bytes)
  obtain f1 where f1: "ReadNextBlock disk data f = (True, face_props_bytes p, f1)"
    "reading bs (block (f32_array vs) @ block (i16_array is) @ rest) f1"
    using ReadNextBlock_block [OF r] p by auto
  obtain f2 where f2: "ReadNextBlock disk (face_props_bytes p) f1 = (True, f32_array vs, f2)"
    "reading bs (block (i16_array is) @ rest) f2"
    using ReadNextBlock_block [OF f1(2)] ok by fastforce
  obtain f3 where f3: "ReadNextBlock disk (f32_array vs) f2 = (True, i16_array is, f3)" "reading bs rest f3"
    using ReadNextBlock_block [OF f2(2)] ok by fastforce
  show ?thesis using f1 f2 f3 ok p
    by (simp add: read_face_frame_def face_props_roundtrip of_f32_array_inverse of_i16_array_inverse)
qed

lemma read_loop_captures:
  assumes "\<forall>c \<in> set cs. capture_ok c"
  shows "reading bs (concat (map capture_bytes cs)) f \<Longrightarrow> length cs < k \<Longrightarrow>
    \<exists>f'. read_loop disk k True data f dfs ffs =
      Returned (dfs @ concat (map depth_of cs), ffs @ concat (map face_of cs), f')"
  using assms
proof (induction cs arbitrary: k f data dfs ffs)
  case Nil
  then obtain k' where "k = Suc k'" by (cases k) auto
  then show ?case using ReadNextBlock_end [of bs f disk data] Nil
    by (auto split: prod.splits)
next
  case (Cons c cs)
  obtain k' where k: "k = Suc k'" "length cs < k'" using Cons.prems(2) by (cases k) auto
  show ?case
  proof (cases c)
    case (CDepth d)
    obtain f1 where f1: "ReadNextBlock disk data f = (True, le_bytes 8 1234, f1)"
      "reading bs (block (depth_props_bytes (props d)) @ block (vidData d) @ block (f32_array (depthData d)) @ concat (map capture_bytes cs)) f1"
      using ReadNextBlock_block [of bs "le_bytes 8 1234"] Cons.prems(1) CDepth by fastforce
    obtain dat f2 where f2: "read_depth_frame disk (le_bytes 8 1234) (snd (fs_read 0 f1)) =
      Some (True, \<lparr>df_props = props d, df_vid = vidData d, df_depth = depthData d\<rparr>, dat, f2)"
      "reading bs (concat (map capture_bytes cs)) f2"
      using read_depth_frame_ok [OF reading_read0 [OF f1(2)]] Cons.prems(3) CDepth by fastforce
    show ?thesis
      using Cons.IH [OF f2(2) k(2), of dat "dfs @ depth_of (CDepth d)" ffs] Cons.prems(3) f1(1) f2(1) CDepth
      by (simp add: k(1) of_le_bytes_small)
  next
    case (CFace p vs "is")
    obtain f1 where f1: "ReadNextBlock disk data f = (True, le_bytes 8 5678, f1)"
      "reading bs (block (face_props_bytes p) @ block (f32_array vs) @ block (i16_array is) @ concat (map capture_bytes cs)) f1"
      using ReadNextBlock_block [of bs "le_bytes 8 5678"] Cons.prems(1) CFace by fastforce
    obtain dat f2 where f2: "read_face_frame disk (le_bytes 8 5678) (snd (fs_read 0 f1)) =
      Some (True, \<lparr>ff_props = p, ff_vertices = vs, ff_indices = is\<rparr>, dat, f2)"
      "reading bs (concat (map capture_bytes cs)) f2"
      using read_face_frame_ok [OF reading_read0 [OF f1(2)]] Cons.prems(3) CFace by fastforce
    show ?thesis
      using Cons.IH [OF f2(2) k(2), of dat dfs "ffs @ face_of (CFace p vs is)"] Cons.prems(3) f1(1) f2(1) CFace
      by (simp add: k(1) of_le_bytes_small)
  qed
qed

subsection \<open>Capture and playback\<close>

lemma open_reading: "reading bs bs (open_in (Some bs))"
  by (simp add: reading_def open_in_def)

lemma read_loop_open: "read_loop (Some bs) k True data closed_file dfs ffs =
    read_loop (Some bs) k True data (open_in (Some bs)) dfs ffs"
proof -
  have "ReadNextBlock (Some bs) data closed_file = ReadNextBlock (Some bs) data (open_in (Some bs))"
    by (simp add: ReadNextBlock_def closed_file_def open_in_def)
  then show ?thesis by (cases k) simp_all
qed

lemma not_flt_std_min:
  assumes "\<not> flt x a \<or> \<not> flt x b" and "a \<noteq> NaN" and "b \<noteq> NaN"
  shows "\<not> flt x (std_min a b)"
proof (cases "flt b a")
  case True
  then have "\<not> flt x b" using assms(1) flt_trans [of x b a] by blast
  then show ?thesis using True by (simp add: std_min_def)
next
  case False
  then have "\<not> flt x a" using assms flt_negtrans [of b x a] by blast
  then show ?thesis using False by (simp add: std_min_def)
qed

lemma not_flt_std_max:
  assumes "\<not> flt a x \<or> \<not> flt b x" and "a \<noteq> NaN" and "b \<noteq> NaN"
  shows "\<not> flt (std_max a b) x"
proof (cases "flt a b")
  case True
  then have "\<not> flt b x" using assms(1) flt_trans [of a b x] by blast
  then show ?thesis using True by (simp add: std_max_def)
next
  case False
  then have "\<not> flt a x" using assms flt_negtrans [of b a x] by blast
  then show ?thesis using False by (simp add: std_max_def)
qed

lemma capture_roundtrip_ok:
  assumes "cs \<noteq> []" and "\<forall>c \<in> set cs. capture_ok c" and "length cs < fuel"
  shows "\<exists>f. read_loop (fold write_capture cs None) fuel True [] closed_file [] [] =
    Returned (concat (map depth_of cs), concat (map face_of cs), f)"
proof -
  define bs where "bs = concat (map capture_bytes cs)"
  have w: "fold write_capture cs None = Some bs" using write_all_bytes [OF assms(1), of None] by (simp add: bs_def)
  have "reading bs (concat (map capture_bytes cs)) (open_in (Some bs))"
    using open_reading by (simp add: bs_def)
  from read_loop_captures [OF assms(2) this assms(3), of "Some bs" "[]" "[]" "[]"] show ?thesis
    unfolding w read_loop_open by simp
qed

text \<open>C1: for any sequence of depth and face frames of encodable sizes, written one after the
  other into a new capture file, the reading loop, given more iterations than frames, ends, and
  the depth frames and the face frames it has read are exactly the written ones, in the order
  they were written.\<close>

theorem capture_roundtrip:
  assumes "cs \<noteq> []" and "\<forall>c \<in> set cs. capture_ok c" and "length cs < fuel"
  shows "\<exists>f. read_loop (fold write_capture cs None) fuel True [] closed_file [] [] =
    Returned (concat (map depth_of cs), concat (map face_of cs), f)"
  using assms by (rule capture_roundtrip_ok)

text \<open>C30: for any sorting functions with the \<open>std::sort\<close> contract, reading a capture in which no
  timestamp is NaN gives the written depth frames and face frames, each rearranged into
  timestamp order, with a start time that no frame's timestamp is below and an end time that
  none is above; when the capture lacks depth frames or lacks face frames, the access to the
  first frame is out of bounds.\<close>

theorem read_all_blocks:
  assumes "std_sort srtd" and "std_sort srtf"
    and "cs \<noteq> []" and "\<forall>c \<in> set cs. capture_ok c" and "length cs < fuel"
    and "\<forall>d \<in> set (concat (map depth_of cs)). timestamp (df_props d) \<noteq> NaN"
    and "\<forall>d \<in> set (concat (map face_of cs)). ftimestamp (ff_props d) \<noteq> NaN"
  shows "if concat (map depth_of cs) = [] \<or> concat (map face_of cs) = []
    then ReadAllBlocks srtd srtf (fold write_capture cs None) fuel = Undefined
    else \<exists>p. ReadAllBlocks srtd srtf (fold write_capture cs None) fuel = Returned p \<and>
      mset (depthFrames p) = mset (concat (map depth_of cs)) \<and>
      mset (faceFrames p) = mset (concat (map face_of cs)) \<and>
      sorted_wrt (\<lambda>a b. \<not> df_lt b a) (depthFrames p) \<and>
      sorted_wrt (\<lambda>a b. \<not> ff_lt b a) (faceFrames p) \<and>
      (\<forall>d \<in> set (depthFrames p). \<not> flt (timestamp (df_props d)) (sStartTime p) \<and>
         \<not> flt (sEndTime p) (timestamp (df_props d))) \<and>
      (\<forall>d \<in> set (faceFrames p). \<not> flt (ftimestamp (ff_props d)) (sStartTime p) \<and>
         \<not> flt (sEndTime p) (ftimestamp (ff_props d)))"
proof -
  define ds fs where "ds = concat (map depth_of cs)" and "fs = concat (map face_of cs)"
  define sd sf where "sd = srtd df_lt ds" and "sf = srtf ff_lt fs"
  obtain f where f: "read_loop (fold write_capture cs None) fuel True [] closed_file [] [] = Returned (ds, fs, f)"
    using capture_roundtrip_ok [OF assms(3-5)] by (auto simp: ds_def fs_def)
  have ms: "mset sd = mset ds" "mset sf = mset fs"
    by (simp_all add: sd_def sf_def std_sort.srt_mset [OF assms(1)] std_sort.srt_mset [OF assms(2)])
  have st: "set sd = set ds" "set sf = set fs" using ms by (metis set_mset_mset)+
  have nn: "\<forall>d \<in> set sd. timestamp (df_props d) \<noteq> NaN" "\<forall>d \<in> set sf. ftimestamp (ff_props d) \<noteq> NaN"
    using assms(6,7) by (simp_all add: st ds_def fs_def)
  have srt: "sorted_wrt (\<lambda>a b. \<not> df_lt b a) sd" "sorted_wrt (\<lambda>a b. \<not> ff_lt b a) sf"
    unfolding sd_def sf_def using nn
    by (auto intro!: std_sort.srt_sorted [OF assms(1)] std_sort.srt_sorted [OF assms(2)] flt_strict_weak
        simp: df_lt_def [abs_def] ff_lt_def [abs_def] st)
  have ne: "sd = [] \<longleftrightarrow> ds = []" "sf = [] \<longleftrightarrow> fs = []" using ms by (metis mset_zero_iff)+
  have R: "ReadAllBlocks srtd srtf (fold write_capture cs None) fuel = (if sd = [] \<or> sf = [] then Undefined
     else Returned \<lparr>depthFrames = sd, faceFrames = sf,
       sStartTime = std_min (timestamp (df_props (hd sd))) (ftimestamp (ff_props (hd sf))),
       sEndTime = std_max (timestamp (df_props (last sd))) (ftimestamp (ff_props (last sf)))\<rparr>)"
    by (simp add: ReadAllBlocks_def f sd_def [symmetric] sf_def [symmetric] Let_def)
  show ?thesis
  proof (cases "ds = [] \<or> fs = []")
    case True
    then show ?thesis by (simp add: R ne ds_def [symmetric] fs_def [symmetric])
  next
    case False
    then have nsd: "sd \<noteq> []" "sf \<noteq> []" by (simp_all add: ne)
    have hd: "\<not> flt (timestamp (df_props d)) (timestamp (df_props (hd sd)))" if "d \<in> set sd" for d
      using that srt(1) nsd by (cases sd) (auto simp: df_lt_def)
    have hf: "\<not> flt (ftimestamp (ff_props d)) (ftimestamp (ff_props (hd sf)))" if "d \<in> set sf" for d
      using that srt(2) nsd by (cases sf) (auto simp: ff_lt_def)
    have ld: "\<not> flt (timestamp (df_props (last sd))) (timestamp (df_props d))" if "d \<in> set sd" for d
      using that srt(1) nsd by (induction sd) (auto simp: df_lt_def)
    have lf: "\<not> flt (ftimestamp (ff_props (last sf))) (ftimestamp (ff_props d))" if "d \<in> set sf" for d
      using that srt(2) nsd by (induction sf) (auto simp: ff_lt_def)
    have m: "timestamp (df_props (hd sd)) \<noteq> NaN" "ftimestamp (ff_props (hd sf)) \<noteq> NaN"
      "timestamp (df_props (last sd)) \<noteq> NaN" "ftimestamp (ff_props (last sf)) \<noteq> NaN"
      using nn nsd by simp_all
    note mn = not_flt_std_min and mx = not_flt_std_max
    define s e where "s = std_min (timestamp (df_props (hd sd))) (ftimestamp (ff_props (hd sf)))"
      and "e = std_max (timestamp (df_props (last sd))) (ftimestamp (ff_props (last sf)))"
    have "\<forall>d \<in> set sd. \<not> flt (timestamp (df_props d)) s \<and> \<not> flt e (timestamp (df_props d))"
      unfolding s_def e_def using hd ld m by (intro ballI conjI mn mx) simp_all
    moreover have "\<forall>d \<in> set sf. \<not> flt (ftimestamp (ff_props d)) s \<and> \<not> flt e (ftimestamp (ff_props d))"
      unfolding s_def e_def using hf lf m by (intro ballI conjI mn mx) simp_all
    moreover have "ReadAllBlocks srtd srtf (fold write_capture cs None) fuel =
        Returned \<lparr>depthFrames = sd, faceFrames = sf, sStartTime = s, sEndTime = e\<rparr>"
      using R nsd by (simp add: s_def e_def)
    moreover have "\<not> (concat (map depth_of cs) = [] \<or> concat (map face_of cs) = [])"
      using False unfolding ds_def fs_def .
    ultimately show ?thesis using ms srt unfolding ds_def fs_def
      by (simp del: concat_eq_Nil_conv)
  qed
qed

text \<open>C31: when the capture file does not exist, opening it only sets \<open>failbit\<close>, which
  \<open>ReadNextBlock\<close> does not look at: every call reports an empty block, and the loop of
  \<open>ReadAllBlocks\<close> is still running after any number of iterations. It neither returns nor
  reaches the accesses to the first frames, which would be undefined.\<close>

theorem read_missing_file: "ReadAllBlocks srtd srtf None fuel = Unfinished"
proof -
  have loop: "read_loop None k True [] f dfs ffs = Unfinished"
    if "f = closed_file \<or> f = closed_file\<lparr>f_fail := True\<rparr>" for k f dfs ffs
    using that
  proof (induction k arbitrary: f dfs ffs)
    case (Suc k)
    have "ReadNextBlock None [] f = (True, [], closed_file\<lparr>f_fail := True\<rparr>)"
      using Suc.prems by (auto simp: ReadNextBlock_def closed_file_def open_in_def fs_read_def
          overwrite_def vresize_def Let_def numeral_eq_Suc)
    moreover have "snd (fs_read 0 (closed_file\<lparr>f_fail := True\<rparr>)) = closed_file\<lparr>f_fail := True\<rparr>"
      by (simp add: fs_read_def closed_file_def)
    ultimately show ?case using Suc.IH by simp
  qed simp
  show ?thesis by (simp add: ReadAllBlocks_def loop)
qed

subsection \<open>A sample capture\<close>

definition sample_capture :: "capture list" where
  "sample_capture =
     [CFace \<lparr>ftimestamp = Fin False 3, viewMatf = replicate 16 fzero, wMatf = replicate 16 fzero, projMatf = replicate 16 NaN\<rparr>
        [Fin True 2] [5, 6],
      CDepth \<lparr>props = \<lparr>timestamp = Fin False 1, vidWidth = 2, vidHeight = 2, vidMode = 0, depthWidth = 1,
         depthHeight = 1, depthMode = 0\<rparr>, vidData = [1, 2, 3], depthData = [NaN, Inf True], dpts = [], alignMtx = identity_matrix\<rparr>]"

lemma fp_ok_small: "n < 2 ^ 24 \<Longrightarrow> fp_ok F32 (Fin s (of_nat n)) \<and> fp_ok F64 (Fin s (of_nat n))"
proof -
  assume n: "n < 2 ^ 24"
  have "representable F32 (of_int (int n))" "representable F64 (of_int (int n))"
    using n by (intro representable_int; simp)+
  moreover have "(of_nat n :: rat) \<le> of_nat (2 ^ 24)" using n by (subst of_nat_le_iff) simp
  ultimately show ?thesis by simp
qed

lemma sample_capture_ok: "\<forall>c \<in> set sample_capture. capture_ok c"
  using fp_ok_small [of 0] fp_ok_small [of 1] fp_ok_small [of 2] fp_ok_small [of 3]
  by (simp add: sample_capture_def face_props_ok_def floats_ok_def fzero_def list_all_iff)

theorem capture_roundtrip_witness:
  "\<exists>f. read_loop (fold write_capture sample_capture None) 3 True [] closed_file [] [] =
    Returned (concat (map depth_of sample_capture), concat (map face_of sample_capture), f)"
  by (rule capture_roundtrip) (use sample_capture_ok in \<open>simp_all add: sample_capture_def\<close>)

theorem read_all_blocks_witness:
  "\<exists>p. ReadAllBlocks isort isort (fold write_capture sample_capture None) 3 = Returned p \<and>
    length (depthFrames p) = 1 \<and> length (faceFrames p) = 1"
proof -
  have "\<exists>p. ReadAllBlocks isort isort (fold write_capture sample_capture None) 3 = Returned p \<and>
    mset (depthFrames p) = mset (concat (map depth_of sample_capture)) \<and>
    mset (faceFrames p) = mset (concat (map face_of sample_capture))"
    using read_all_blocks [OF isort.std_sort_axioms isort.std_sort_axioms _ sample_capture_ok, of 3]
    by (auto simp: sample_capture_def)
  moreover have "mset xs = mset ys \<Longrightarrow> length xs = length ys" for xs ys :: "'z list"
    by (metis size_mset)
  ultimately show ?thesis by (fastforce simp: sample_capture_def)
qed

end
