(* ===== verification/Network.thy ===== *)
theory Network
  imports Bytes
begin

text \<open>
  The TCP channel of \<open>src/core/Network.cpp\<close>: the client sends a message as its 64-bit length
  followed by chunks of 64 KiB, waiting for a reply after each write; the server session
  reassembles messages from whatever each asynchronous read delivers and answers every read.
  The sockets are asio's: a read completes with the bytes it received (none on an error) at the
  start of the session's buffer, and a model of the handler is given those bytes. \<open>NetLink\<close> joins client and
  session and has the threads of the server.
\<close>

subsection \<open>The session\<close>

record packet =
  m_bytesRead :: nat
  p_data :: "u8 list"

record session =
  s_data :: "u8 list"
  m_pCurPacket :: "packet option"
  s_onData :: "u8 list list"
  s_responses :: "nat list"

definition max_length :: nat where
  "max_length = 2 ^ 20"

definition new_session :: session where
  "new_session = \<lparr>s_data = replicate max_length 0, m_pCurPacket = None, s_onData = [], s_responses = []\<rparr>"

text \<open>A packet of the length that the first eight bytes of the buffer hold.\<close>

definition new_packet :: "u8 list \<Rightarrow> packet" where
  "new_packet buf = \<lparr>m_bytesRead = 0, p_data = replicate (of_le (take 8 buf)) 0\<rparr>"

text \<open>The loop of the read handler: \<open>bytesRemaining\<close> is a \<open>size_t\<close> and wraps; every copy starts
  at the start of the buffer. \<open>None\<close> is a copy beyond a buffer, or no end within \<open>fuel\<close>
  iterations.\<close>

fun read_handler :: "nat \<Rightarrow> session \<Rightarrow> u64 \<Rightarrow> session option" where
  "read_handler 0 s bytesRemaining = None"
| "read_handler (Suc k) s bytesRemaining =
     (if bytesRemaining = 0 then Some s
      else let (p, bytesRemaining) = (case m_pCurPacket s of
             None \<Rightarrow> (new_packet (s_data s), bytesRemaining - 8)
           | Some p \<Rightarrow> (p, bytesRemaining));
               s = s\<lparr>m_pCurPacket := Some p\<rparr>
      in if 0 < bytesRemaining then
           let packetRemaining = word_of_nat (length (p_data p)) - word_of_nat (m_bytesRead p);
               copyBytes = min bytesRemaining packetRemaining
           in do {
             src \<leftarrow> ablock (s_data s) 0 (unat copyBytes);
             dst \<leftarrow> ablit (p_data p) (m_bytesRead p) src;
             let p = \<lparr>m_bytesRead = m_bytesRead p + unat copyBytes, p_data = dst\<rparr>;
                 s = (if m_bytesRead p = length (p_data p)
                      then s\<lparr>m_pCurPacket := None, s_onData := s_onData s @ [p_data p]\<rparr>
                      else s\<lparr>m_pCurPacket := Some p\<rparr>)
             in read_handler k s (bytesRemaining - copyBytes) }
         else read_handler k s bytesRemaining)"

definition send_response :: "nat \<Rightarrow> session \<Rightarrow> session" where
  "send_response code s = s\<lparr>s_responses := s_responses s @ [code]\<rparr>"

text \<open>One completed read: the received bytes are at the start of the buffer, older bytes stay
  behind them. The handler answers and reads again, also after an error.\<close>

definition do_read :: "nat \<Rightarrow> u8 list \<Rightarrow> session \<Rightarrow> session option" where
  "do_read fuel received s = do {
     buf \<leftarrow> ablit (s_data s) 0 received;
     s \<leftarrow> (if 0 < length received then read_handler fuel (s\<lparr>s_data := buf\<rparr>) (word_of_nat (length received))
          else Some s);
     Some (send_response 1 s) }"

subsection \<open>The client\<close>

text \<open>The chunks of \<open>TcpClient::Send\<close>; \<open>bytesRemain\<close> is signed.\<close>

definition chunkSize :: nat where
  "chunkSize = 2 ^ 16"

function send_chunks :: "int \<Rightarrow> u8 list \<Rightarrow> u8 list list" where
  "send_chunks bytesRemain ptr =
     (if 0 < bytesRemain
      then take (nat (min (int chunkSize) bytesRemain)) ptr #
           send_chunks (bytesRemain - int chunkSize) (drop chunkSize ptr)
      else [])"
  by pat_completeness auto

termination
  by (relation "measure (\<lambda>(r, _). nat r)") (auto simp: chunkSize_def)

declare send_chunks.simps [simp del]

text \<open>The writes of one \<open>Send\<close>, each followed by the read of a reply.\<close>

definition Send :: "u8 list \<Rightarrow> u8 list list" where
  "Send data = le_bytes 8 (length data) # send_chunks (int (length data)) data"

text \<open>\<open>Client::SendData\<close>: nothing is sent without a connection, and the result is true anyway.\<close>

definition SendData :: "bool \<Rightarrow> u8 list \<Rightarrow> u8 list list \<times> bool" where
  "SendData hasClient data = (if hasClient then Send data else [], True)"

subsection \<open>The server\<close>

record tcp_server =
  sessions :: "session list"

datatype net_event = Accept bool | Received nat "u8 list"

text \<open>An accepted connection starts a session, a failed accept only accepts again; a read
  completes on one of the sessions, which are never removed.\<close>

inductive server_step :: "nat \<Rightarrow> tcp_server \<Rightarrow> net_event \<Rightarrow> tcp_server \<Rightarrow> bool" for fuel where
  accept_ok: "server_step fuel sv (Accept True) (sv\<lparr>sessions := sessions sv @ [new_session]\<rparr>)"
| accept_error: "server_step fuel sv (Accept False) sv"
| received: "i < length (sessions sv) \<Longrightarrow> do_read fuel bs (sessions sv ! i) = Some s \<Longrightarrow>
    server_step fuel sv (Received i bs) (sv\<lparr>sessions := (sessions sv)[i := s]\<rparr>)"

inductive_cases server_step_AcceptE: "server_step fuel sv (Accept ok) sv'"
inductive_cases server_step_ReceivedE: "server_step fuel sv (Received i bs) sv'"

inductive server_run :: "nat \<Rightarrow> net_event list \<Rightarrow> tcp_server \<Rightarrow> bool" for fuel where
  run_start: "server_run fuel [] \<lparr>sessions = []\<rparr>"
| run_step: "server_run fuel es sv \<Longrightarrow> server_step fuel sv e sv' \<Longrightarrow> server_run fuel (es @ [e]) sv'"

subsection \<open>Reassembly\<close>

text \<open>A session between messages, and one whose last message was empty and not yet delivered.\<close>

definition idle :: "session \<Rightarrow> bool" where
  "idle s \<longleftrightarrow> length (s_data s) = max_length \<and>
     (m_pCurPacket s = None \<or> m_pCurPacket s = Some \<lparr>m_bytesRead = 0, p_data = []\<rparr>)"

text \<open>The messages of a session: those delivered and the pending empty one.\<close>

definition messages :: "session \<Rightarrow> u8 list list" where
  "messages s = s_onData s @ (case m_pCurPacket s of None \<Rightarrow> [] | Some p \<Rightarrow> [p_data p])"

lemma ablit_full: "length ys \<le> length xs \<Longrightarrow> ablit xs 0 ys = Some (ys @ drop (length ys) xs)"
  by (simp add: ablit_def)

lemma unat_length: "n < 2 ^ 64 \<Longrightarrow> unat (word_of_nat n :: u64) = n"
  by (simp add: unat_of_nat)

text \<open>The header of a message, received alone.\<close>

lemma header_read:
  assumes "idle s" and n: "n < 2 ^ 64" and "4 \<le> fuel"
  shows "\<exists>s'. do_read fuel (le_bytes 8 n) s = Some s' \<and> length (s_data s') = max_length \<and>
    m_pCurPacket s' = Some \<lparr>m_bytesRead = 0, p_data = replicate n 0\<rparr> \<and> s_onData s' = messages s"
proof -
  have len: "length (s_data s) = max_length" using assms(1) by (simp add: idle_def)
  have le: "8 \<le> max_length" by (simp add: max_length_def)
  have np: "new_packet (le_bytes 8 n @ drop 8 (s_data s)) = \<lparr>m_bytesRead = 0, p_data = replicate n 0\<rparr>"
    using n by (simp add: new_packet_def of_le_bytes_small)
  have k: "fuel = Suc (Suc (Suc (Suc (fuel - 4))))" using assms(3) by simp
  have cases: "m_pCurPacket s = None \<or> m_pCurPacket s = Some \<lparr>m_bytesRead = 0, p_data = []\<rparr>"
    using assms(1) by (simp add: idle_def)
  then show ?thesis
    using len le np by (subst k) (auto simp: do_read_def ablit_full messages_def send_response_def ablock_def ablit_def)
qed

text \<open>A piece of a message, received alone, goes behind the pieces before it.\<close>

lemma payload_read:
  assumes "m_pCurPacket s = Some \<lparr>m_bytesRead = length got, p_data = d\<rparr>" and "take (length got) d = got"
    and "length (s_data s) = max_length" and "c \<noteq> []" and "length c \<le> max_length"
    and le: "length got + length c \<le> length d" and d64: "length d < 2 ^ 64" and "4 \<le> fuel"
  shows "\<exists>s'. do_read fuel c s = Some s' \<and> length (s_data s') = max_length \<and>
    (if length got + length c = length d
     then m_pCurPacket s' = None \<and> s_onData s' = s_onData s @ [got @ c]
     else (\<exists>d'. m_pCurPacket s' = Some \<lparr>m_bytesRead = length (got @ c), p_data = d'\<rparr> \<and>
       length d' = length d \<and> take (length (got @ c)) d' = got @ c) \<and> s_onData s' = s_onData s)"
proof -
  let ?r = "word_of_nat (length c) :: u64"
  have r: "unat ?r = length c" using le d64 by (intro unat_length) simp
  have r0: "?r \<noteq> 0" "0 < ?r" using r assms(4) by (auto simp: word_less_nat_alt)
  have rem: "word_of_nat (length d) - word_of_nat (length got) = (word_of_nat (length d - length got) :: u64)"
    using le by (simp add: of_nat_diff)
  have urem: "unat (word_of_nat (length d - length got) :: u64) = length d - length got"
    using d64 by (intro unat_length) simp
  have mn: "min ?r (word_of_nat (length d) - word_of_nat (length got)) = ?r"
    unfolding rem using le r urem by (intro min.absorb1) (simp only: word_le_nat_alt; linarith)
  have k: "fuel = Suc (Suc (fuel - 2))" using assms(8) by simp
  define d' where "d' = got @ c @ drop (length got + length c) d"
  have d': "ablit d (length got) c = Some d'" "length d' = length d" "take (length (got @ c)) d' = got @ c"
    using le assms(2) by (simp_all add: ablit_def d'_def)
  have len: "length (c @ drop (length c) (s_data s)) = max_length" using assms(3,5) by simp
  define s0 where "s0 = s\<lparr>s_data := c @ drop (length c) (s_data s)\<rparr>"
  have src: "ablock (s_data s0) 0 (unat ?r) = Some c" using r len by (simp add: s0_def ablock_def)
  have cur: "m_pCurPacket s0 = Some \<lparr>m_bytesRead = length got, p_data = d\<rparr>" using assms(1) by (simp add: s0_def)
  define p where "p = \<lparr>m_bytesRead = length got + length c, p_data = d'\<rparr>"
  define s1 where "s1 = (if length got + length c = length d
    then s0\<lparr>m_pCurPacket := None, s_onData := s_onData s @ [d']\<rparr> else s0\<lparr>m_pCurPacket := Some p\<rparr>)"
  have "read_handler (Suc (Suc (fuel - 2))) s0 ?r = Some s1"
    using r0 src cur d'(1,2) r by (simp add: mn Let_def s1_def p_def s0_def)
  then have "do_read fuel c s = Some (send_response 1 s1)"
    using assms(3-5) k by (simp add: do_read_def ablit_full s0_def [symmetric])
  moreover have "d' = got @ c" if "length got + length c = length d" using that by (simp add: d'_def)
  ultimately show ?thesis
    using len d'(2,3) by (auto simp: s1_def p_def s0_def send_response_def)
qed

text \<open>A message cut into non-empty pieces no longer than the buffer.\<close>

definition pieces_of :: "u8 list \<Rightarrow> u8 list list \<Rightarrow> bool" where
  "pieces_of msg cs \<longleftrightarrow> concat cs = msg \<and> (\<forall>c \<in> set cs. c \<noteq> [] \<and> length c \<le> max_length)"

lemma pieces_read:
  assumes "length (s_data s) = max_length"
    and "m_pCurPacket s = Some \<lparr>m_bytesRead = length got, p_data = d\<rparr>" and "take (length got) d = got"
    and "length got + length (concat cs) = length d" and "cs \<noteq> []"
    and "\<forall>c \<in> set cs. c \<noteq> [] \<and> length c \<le> max_length" and "length d < 2 ^ 64" and "4 \<le> fuel"
  shows "\<exists>s'. ofold (do_read fuel) cs s = Some s' \<and> length (s_data s') = max_length \<and>
    m_pCurPacket s' = None \<and> s_onData s' = s_onData s @ [got @ concat cs]"
  using assms
proof (induction cs arbitrary: s got d)
  case (Cons c cs)
  obtain s' where s': "do_read fuel c s = Some s'" "length (s_data s') = max_length"
    "if length got + length c = length d
     then m_pCurPacket s' = None \<and> s_onData s' = s_onData s @ [got @ c]
     else (\<exists>d'. m_pCurPacket s' = Some \<lparr>m_bytesRead = length (got @ c), p_data = d'\<rparr> \<and>
       length d' = length d \<and> take (length (got @ c)) d' = got @ c) \<and> s_onData s' = s_onData s"
    using payload_read [OF Cons.prems(2,3,1), of c fuel] Cons.prems(4,6,7,8) by auto
  show ?case
  proof (cases "cs = []")
    case True
    then show ?thesis using s' Cons.prems(4) by simp
  next
    case False
    then have "0 < length (hd cs) \<and> length (concat cs) = length (hd cs) + length (concat (tl cs))"
      using Cons.prems(6) by (cases cs) auto
    then have "length got + length c \<noteq> length d"
      using Cons.prems(4) by (simp flip: length_greater_0_conv)
    with s'(3) obtain d' where d': "m_pCurPacket s' = Some \<lparr>m_bytesRead = length (got @ c), p_data = d'\<rparr>"
      "length d' = length d" "take (length (got @ c)) d' = got @ c" "s_onData s' = s_onData s" by auto
    show ?thesis
      using Cons.IH [OF s'(2) d'(1,3)] Cons.prems(4,6,7,8) d'(2,4) s'(1) False by auto
  qed
qed simp

lemma message_read:
  assumes "idle s" and "length msg < 2 ^ 64" and "pieces_of msg cs" and "4 \<le> fuel"
  shows "\<exists>s'. ofold (do_read fuel) (le_bytes 8 (length msg) # cs) s = Some s' \<and> idle s' \<and>
    messages s' = messages s @ [msg]"
proof -
  obtain s1 where s1: "do_read fuel (le_bytes 8 (length msg)) s = Some s1" "length (s_data s1) = max_length"
    "m_pCurPacket s1 = Some \<lparr>m_bytesRead = length ([] :: u8 list), p_data = replicate (length msg) 0\<rparr>"
    "s_onData s1 = messages s"
    using header_read [OF assms(1,2,4)] by auto
  show ?thesis
  proof (cases "cs = []")
    case True
    then show ?thesis using s1 assms(3) by (simp add: pieces_of_def idle_def messages_def)
  next
    case False
    obtain s2 where "ofold (do_read fuel) cs s1 = Some s2" "length (s_data s2) = max_length"
      "m_pCurPacket s2 = None" "s_onData s2 = s_onData s1 @ [[] @ concat cs]"
      using pieces_read [OF s1(2,3), of cs fuel] assms(2-4) False by (auto simp: pieces_of_def)
    then show ?thesis using s1 assms(3) by (simp add: pieces_of_def idle_def messages_def)
  qed
qed

text \<open>What the client writes is a header and pieces of the message.\<close>

lemma send_chunks_pieces:
  "r = int (length ptr) \<Longrightarrow> pieces_of ptr (send_chunks r ptr)"
proof (induction r ptr rule: send_chunks.induct)
  case (1 r ptr)
  show ?case
  proof (cases "0 < r")
    case False
    then show ?thesis using 1(2) by (subst send_chunks.simps) (simp add: pieces_of_def)
  next
    case True
    define n where "n = nat (min (int chunkSize) r)"
    have n: "n \<le> chunkSize" "0 < n" "n \<le> length ptr" using True 1(2) by (auto simp: n_def chunkSize_def)
    have dr: "drop chunkSize ptr = drop n ptr" using 1(2) by (cases "chunkSize \<le> length ptr") (auto simp: n_def)
    have "pieces_of (drop n ptr) (send_chunks (r - int chunkSize) (drop n ptr))"
    proof (cases "chunkSize \<le> length ptr")
      case True
      then have "n = chunkSize" using 1(2) by (simp add: n_def)
      then show ?thesis using 1(1) [OF \<open>0 < r\<close>] 1(2) True by simp
    next
      case False
      then have "drop n ptr = []" "\<not> 0 < r - int chunkSize" using 1(2) by (simp_all add: n_def)
      then show ?thesis by (subst send_chunks.simps) (simp add: pieces_of_def)
    qed
    moreover have "length (take n ptr) \<le> max_length" using n(1) by (simp add: chunkSize_def max_length_def)
    ultimately show ?thesis using True n
      by (subst send_chunks.simps) (auto simp: pieces_of_def dr n_def [symmetric])
  qed
qed

subsection \<open>The channel\<close>

text \<open>What a message channel promises: the reads that carry one acceptable message take a
  receiver at rest to a receiver at rest that has one message more.\<close>

locale message_channel =
  fixes step :: "'w \<Rightarrow> 's \<Rightarrow> 's option"
    and carries :: "'m \<Rightarrow> 'w list \<Rightarrow> bool"
    and rest :: "'s \<Rightarrow> bool"
    and received :: "'s \<Rightarrow> 'm list"
  assumes channel_step: "carries m ws \<Longrightarrow> rest s \<Longrightarrow>
    \<exists>s'. ofold step ws s = Some s' \<and> rest s' \<and> received s' = received s @ [m]"
begin

lemma channel_all:
  "list_all2 carries ms wss \<Longrightarrow> rest s \<Longrightarrow>
   \<exists>s'. ofold step (concat wss) s = Some s' \<and> rest s' \<and> received s' = received s @ ms"
proof (induction ms wss arbitrary: s rule: list_all2_induct)
  case (Cons m ms ws wss)
  obtain s1 where s1: "ofold step ws s = Some s1" "rest s1" "received s1 = received s @ [m]"
    using channel_step [OF Cons.hyps(1) Cons.prems] by blast
  obtain s2 where "ofold step (concat wss) s1 = Some s2" "rest s2" "received s2 = received s1 @ ms"
    using Cons.IH [OF s1(2)] by blast
  then show ?case using s1 by (simp add: ofold_append)
qed simp

end

definition sent_as :: "u8 list \<Rightarrow> u8 list list \<Rightarrow> bool" where
  "sent_as msg ws \<longleftrightarrow> length msg < 2 ^ 63 \<and> (\<exists>cs. ws = le_bytes 8 (length msg) # cs \<and> pieces_of msg cs)"

text \<open>Four iterations are enough: a pending empty message, a header, the end.\<close>

interpretation tcp: message_channel "do_read (fuel + 4)" sent_as idle messages
  by unfold_locales (auto simp: sent_as_def intro!: message_read)

lemma Send_sent_as: "length msg < 2 ^ 63 \<Longrightarrow> sent_as msg (Send msg)"
  using send_chunks_pieces [of _ msg] by (auto simp: sent_as_def Send_def)

lemma read_handler_responses: "read_handler k s r = Some s' \<Longrightarrow> s_responses s' = s_responses s"
proof (induction k arbitrary: s r)
  case (Suc k)
  show ?case
  proof (cases "r = 0")
    case True
    then show ?thesis using Suc.prems by simp
  next
    case False
    define p where "p = (case m_pCurPacket s of None \<Rightarrow> new_packet (s_data s) | Some p \<Rightarrow> p)"
    define r' where "r' = (case m_pCurPacket s of None \<Rightarrow> r - 8 | Some p \<Rightarrow> r)"
    have "\<exists>s1 r1. read_handler k s1 r1 = Some s' \<and> s_responses s1 = s_responses s"
      using Suc.prems False
      by (cases "m_pCurPacket s") (auto simp: Let_def bind_eq_Some_conv split: if_splits)
    then show ?thesis using Suc.IH by metis
  qed
qed simp

lemma do_read_responses: "do_read k bs s = Some s' \<Longrightarrow> s_responses s' = s_responses s @ [1]"
  by (auto simp: do_read_def bind_eq_Some_conv send_response_def split: if_splits
      dest!: read_handler_responses)

lemma reads_responses:
  "ofold (do_read k) ws s = Some s' \<Longrightarrow> s_responses s' = s_responses s @ replicate (length ws) 1"
proof (induction ws arbitrary: s)
  case (Cons w ws)
  then show ?case by (auto simp: bind_eq_Some_conv do_read_responses)
qed simp

lemma idle_new_session: "idle new_session" "messages new_session = []" "s_responses new_session = []"
  by (simp_all add: idle_def new_session_def messages_def)

text \<open>When every write of the client arrives as one read, any sequence of messages the
  client sends is handed to the server's callback in order and unchanged: each header and each
  chunk is answered by one reply, as the client waits for, and a final empty message is the
  only one that stays pending until the next read.\<close>

lemma send_delivers:
  assumes "\<forall>m \<in> set ms. length m < 2 ^ 63" and "4 \<le> fuel"
  shows "\<exists>s. ofold (do_read fuel) (concat (map Send ms)) new_session = Some s \<and>
    s_onData s = (if ms \<noteq> [] \<and> last ms = [] then butlast ms else ms) \<and>
    s_responses s = replicate (length (concat (map Send ms))) 1"
proof -
  have "list_all2 sent_as ms (map Send ms)"
    using assms(1) by (simp add: list_all2_conv_all_nth Send_sent_as)
  then obtain s where s: "ofold (do_read fuel) (concat (map Send ms)) new_session = Some s" "idle s"
    "messages s = ms"
    using tcp.channel_all [of ms "map Send ms" new_session "fuel - 4"] assms(2) idle_new_session by auto
  have "m_pCurPacket s = None \<longleftrightarrow> \<not> (ms \<noteq> [] \<and> last ms = [])"
  proof (cases "ms \<noteq> [] \<and> last ms = []")
    case True
    then have ms: "ms = butlast ms @ [[]]" by (metis append_butlast_last_id)
    have "list_all2 sent_as (butlast ms) (map Send (butlast ms))"
      using assms(1) by (auto simp: list_all2_map2 list_all2_same in_set_butlastD intro!: Send_sent_as)
    then obtain s0 where s0: "ofold (do_read fuel) (concat (map Send (butlast ms))) new_session = Some s0" "idle s0"
      using tcp.channel_all [of "butlast ms" "map Send (butlast ms)" new_session "fuel - 4"] assms(2) idle_new_session
      by auto
    have "Send [] = [le_bytes 8 0]" by (simp add: Send_def send_chunks.simps)
    then have "concat (map Send ms) = concat (map Send (butlast ms)) @ [le_bytes 8 0]"
      by (subst ms) simp
    then have "do_read fuel (le_bytes 8 0) s0 = Some s" using s(1) s0(1)
      by (simp add: ofold_append bind_eq_Some_conv)
    then show ?thesis using header_read [OF s0(2), of 0 fuel] assms(2) True by auto
  next
    case False
    then show ?thesis using s(2,3) by (auto simp: idle_def messages_def)
  qed
  then have "s_onData s = (if ms \<noteq> [] \<and> last ms = [] then butlast ms else ms)"
    using s(2,3) by (auto simp: idle_def messages_def)
  then show ?thesis using s(1) reads_responses [OF s(1)] idle_new_session(3) by simp
qed

text \<open>When a header and the beginning of its message arrive in one read, the session copies
  from the start of its buffer again: a message that arrives whole with its header is delivered
  as the first bytes of header and message together, so the callback gets wrong bytes.\<close>

lemma coalesced_read:
  assumes "m_pCurPacket s = None" and len: "length (s_data s) = max_length"
    and "msg \<noteq> []" and "8 + length msg \<le> max_length" and "4 \<le> fuel"
  shows "\<exists>s'. do_read fuel (le_bytes 8 (length msg) @ msg) s = Some s' \<and>
    m_pCurPacket s' = None \<and> s_onData s' = s_onData s @ [take (length msg) (le_bytes 8 (length msg) @ msg)]"
proof -
  let ?n = "length msg" and ?ch = "le_bytes 8 (length msg) @ msg"
  have small: "max_length < 2 ^ 64" by (simp add: max_length_def)
  have n: "?n < 2 ^ 64" "8 + ?n < 2 ^ 64" using assms(4) small by simp_all
  define s0 where "s0 = s\<lparr>s_data := ?ch @ drop (8 + ?n) (s_data s)\<rparr>"
  have l: "length ?ch = 8 + ?n" by simp
  have buf: "ablit (s_data s) 0 ?ch = Some (s_data s0)"
    using assms(4) len by (simp add: ablit_full s0_def)
  have s0: "s\<lparr>s_data := s_data s0\<rparr> = s0" by (simp add: s0_def)
  have r: "word_of_nat (8 + ?n) - 8 = (word_of_nat ?n :: u64)" by simp
  have r0: "(word_of_nat (8 + ?n) :: u64) \<noteq> 0" "(0 :: u64) < word_of_nat ?n"
    using unat_length [OF n(1)] unat_length [OF n(2)] assms(3)
    by (metis add_is_0 length_0_conv unat_0, metis length_greater_0_conv unat_0 word_less_nat_alt)
  have np: "new_packet (s_data s0) = \<lparr>m_bytesRead = 0, p_data = replicate ?n 0\<rparr>"
    using n(1) by (simp add: new_packet_def s0_def of_le_bytes_small)
  have src: "ablock (s_data s0) 0 ?n = Some (take ?n ?ch)"
    using assms(4) len by (simp add: ablock_def s0_def)
  have dst: "ablit (replicate ?n 0) 0 (take ?n ?ch) = Some (take ?n ?ch)" by (simp add: ablit_def)
  define s1 where "s1 = s0\<lparr>m_pCurPacket := None, s_onData := s_onData s @ [take ?n ?ch]\<rparr>"
  have "read_handler (Suc (Suc (fuel - 2))) s0 (word_of_nat (8 + ?n)) = Some s1"
    using r0 np src dst unat_length [OF n(1)] r assms(1)
    by (simp add: s1_def Let_def s0_def del: of_nat_add)
  moreover have "fuel = Suc (Suc (fuel - 2))" using assms(5) by simp
  ultimately have "do_read fuel ?ch s = Some (send_response 1 s1)"
    unfolding do_read_def buf l using s0 assms(3) by (simp add: del: of_nat_add)
  then show ?thesis by (simp add: s1_def s0_def send_response_def)
qed

subsection \<open>Interleaved sessions\<close>

text \<open>The reads of one session among the events of the server.\<close>

fun reads_of :: "nat \<Rightarrow> net_event list \<Rightarrow> u8 list list" where
  "reads_of i [] = []"
| "reads_of i (Received j bs # es) = (if i = j then bs # reads_of i es else reads_of i es)"
| "reads_of i (Accept ok # es) = reads_of i es"

lemma reads_of_append: "reads_of i (es @ es') = reads_of i es @ reads_of i es'"
  by (induction i es rule: reads_of.induct) auto

lemma server_run_sessions:
  "server_run fuel es sv \<Longrightarrow>
   (\<forall>i < length (sessions sv). ofold (do_read fuel) (reads_of i es) new_session = Some (sessions sv ! i)) \<and>
   (\<forall>i \<ge> length (sessions sv). reads_of i es = [])"
proof (induction rule: server_run.induct)
  case (run_step es sv e sv')
  from run_step.hyps(2) run_step.IH show ?case
    by (cases rule: server_step.cases)
      (auto simp: reads_of_append nth_append ofold_append nth_list_update less_Suc_eq)
qed simp

text \<open>C33: however the server's events interleave, a session each of whose reads got exactly one
  write of a client that sent the messages \<open>ms\<close> has delivered exactly \<open>ms\<close>, except that an empty
  last message is still pending, whatever the other sessions received. (Reads that do not agree
  with the client's writes break this, see \<open>split_read_corrupts\<close>.)\<close>

theorem server_delivers:
  assumes "server_run fuel es sv" and "i < length (sessions sv)" and "4 \<le> fuel"
    and "reads_of i es = concat (map Send ms)" and "\<forall>m \<in> set ms. length m < 2 ^ 63"
  shows "s_onData (sessions sv ! i) = (if ms \<noteq> [] \<and> last ms = [] then butlast ms else ms) \<and>
    length (s_responses (sessions sv ! i)) = length (reads_of i es)"
proof -
  have "ofold (do_read fuel) (concat (map Send ms)) new_session = Some (sessions sv ! i)"
    using server_run_sessions [OF assms(1)] assms(2,4) by metis
  then show ?thesis using send_delivers [OF assms(5,3)] assms(4) by auto
qed

lemma server_run_reads:
  "server_run fuel es sv \<Longrightarrow> i < length (sessions sv) \<Longrightarrow> ofold (do_read fuel) bs (sessions sv ! i) = Some s \<Longrightarrow>
   server_run fuel (es @ map (Received i) bs) (sv\<lparr>sessions := (sessions sv)[i := s]\<rparr>)"
proof (induction bs arbitrary: es sv)
  case Nil
  then have "s = sessions sv ! i" by simp
  then have "sv\<lparr>sessions := (sessions sv)[i := s]\<rparr> = sv" by simp
  then show ?case using Nil(1) by simp
next
  case (Cons b bs)
  obtain s1 where s1: "do_read fuel b (sessions sv ! i) = Some s1" "ofold (do_read fuel) bs s1 = Some s"
    using Cons.prems(3) by (auto simp: bind_eq_Some_conv)
  have "server_run fuel (es @ [Received i b]) (sv\<lparr>sessions := (sessions sv)[i := s1]\<rparr>)"
    by (rule run_step [OF Cons.prems(1) received [OF Cons.prems(2) s1(1)]])
  from Cons.IH [OF this] show ?case using Cons.prems(2) s1(2) by simp
qed

lemma sample_server_run:
  "\<exists>sv es. server_run 4 es sv \<and> length (sessions sv) = 2 \<and> reads_of 1 es = concat (map Send [[65, 66]])"
proof -
  obtain s where s: "ofold (do_read 4) (concat (map Send [[65, 66]])) new_session = Some s"
    using send_delivers [of "[[65, 66]]" 4] by auto
  define sv where "sv = \<lparr>sessions = [new_session, new_session]\<rparr>"
  have "server_run 4 ([Accept True] @ [Accept True]) sv"
    using run_step [OF run_step [OF run_start accept_ok] accept_ok, of 4] by (simp add: sv_def)
  from server_run_reads [OF this, of 1 _ s] s
  have "server_run 4 ([Accept True, Accept True] @ map (Received 1) (concat (map Send [[65, 66]]))) (sv\<lparr>sessions := (sessions sv)[1 := s]\<rparr>)"
    by (simp add: sv_def)
  moreover have "reads_of 1 ([Accept True, Accept True] @ map (Received 1) ws) = ws" for ws
    by (induction ws) auto
  ultimately show ?thesis by (fastforce simp: sv_def)
qed

theorem server_delivers_witness:
  "\<exists>sv es. server_run 4 es sv \<and> s_onData (sessions sv ! 1) = [[65, 66]]"
proof -
  obtain sv es where "server_run 4 es sv" "length (sessions sv) = 2" "reads_of 1 es = concat (map Send [[65, 66]])"
    using sample_server_run by blast
  then show ?thesis using server_delivers [of 4 es sv 1 "[[65, 66]]"] by auto
qed

end
