(* ===== verification/NetLink.thy ===== *)
theory NetLink
  imports Network
begin

text \<open>
  The client of \<open>src/core/Network.cpp\<close> connected to a session of the server: the client waits for a
  reply after every write, the session answers every read, and the two directions of the connection are
  streams of bytes that keep no boundaries. How much a read takes is the choice of the network. When
  reads take what was written, writes never meet in the stream and all messages arrive; one read that
  takes part of a write is enough to break a later message. Then the start and the stop of the server with its
  two threads.
\<close>

subsection \<open>The connection\<close>

record tcp_client =
  m_ippaddr :: string
  s_open :: bool

text \<open>\<open>Client::Client\<close>: every address found overwrites the one before; \<open>toString\<close> is the mdns library's.\<close>

definition Client_new :: "('addr \<Rightarrow> string) \<Rightarrow> 'addr list \<Rightarrow> tcp_client option" where
  "Client_new toString addrs =
     (if 0 < length addrs
      then Some \<lparr>m_ippaddr = fold (\<lambda>a ipaddr. toString a) addrs [], s_open = False\<rparr>
      else None)"

datatype net_error = ConnectError

text \<open>\<open>asio::connect\<close> throws when no connection is made; \<open>reachable\<close> is its outcome for the address.\<close>

definition ConnectIfNeeded :: "(string \<Rightarrow> bool) \<Rightarrow> tcp_client \<Rightarrow> net_error + tcp_client" where
  "ConnectIfNeeded reachable c =
     (if \<not> s_open c then (if reachable (m_ippaddr c) then Inr (c\<lparr>s_open := True\<rparr>) else Inl ConnectError) else Inr c)"

text \<open>\<open>Client::SendData\<close> with the connection: the bytes written and the client afterwards, and the result.\<close>

definition Client_SendData ::
  "(string \<Rightarrow> bool) \<Rightarrow> tcp_client option \<Rightarrow> u8 list \<Rightarrow> net_error + (u8 list list \<times> tcp_client option \<times> bool)" where
  "Client_SendData reachable client data = (case client of
     None \<Rightarrow> Inr ([], None, True)
   | Some c \<Rightarrow> (case ConnectIfNeeded reachable c of Inl e \<Rightarrow> Inl e | Inr c \<Rightarrow> Inr (Send data, Some c, True)))"

lemma Client_last: "addrs \<noteq> [] \<Longrightarrow> Client_new toString addrs = Some \<lparr>m_ippaddr = toString (last addrs), s_open = False\<rparr>"
proof -
  assume "addrs \<noteq> []"
  then obtain xs a where "addrs = xs @ [a]" by (metis append_butlast_last_id)
  then show ?thesis by (simp add: Client_new_def)
qed

text \<open>The connection is made for the first message and kept; without a client the result is true as well.\<close>

lemma Client_SendData_cases:
  "Client_SendData reachable client data =
     (case client of None \<Rightarrow> Inr (fst (SendData False data), None, True)
      | Some c \<Rightarrow> if s_open c \<or> reachable (m_ippaddr c) then Inr (fst (SendData True data), Some (c\<lparr>s_open := True\<rparr>), True) else Inl ConnectError)"
  by (cases client) (auto simp: Client_SendData_def ConnectIfNeeded_def SendData_def)

subsection \<open>Client and session\<close>

text \<open>The writes still to come, whether the client waits for a reply, the bytes under way to the server
  and back, and the session.\<close>

record link =
  l_writes :: "u8 list list"
  l_waiting :: bool
  l_wire :: "u8 list"
  l_replies :: "u8 list"
  l_session :: session

definition link_new :: "u8 list list \<Rightarrow> link" where
  "link_new msgs = \<lparr>l_writes = concat (map Send msgs), l_waiting = False, l_wire = [], l_replies = [], l_session = new_session\<rparr>"

text \<open>A write of the client, its read of at most the eight bytes of a \<open>size_t\<close>, and a read of the server of at
  most its buffer, each of at least one byte.\<close>

datatype link_event = ClientWrite | ClientRead nat | ServerRead nat

fun link_step :: "nat \<Rightarrow> link_event \<Rightarrow> link \<Rightarrow> link option" where
  "link_step fuel ClientWrite l =
     (case l_writes l of [] \<Rightarrow> None
      | w # ws \<Rightarrow> if l_waiting l then None else Some (l\<lparr>l_writes := ws, l_waiting := True, l_wire := l_wire l @ w\<rparr>))"
| "link_step fuel (ClientRead n) l =
     (if l_waiting l \<and> 0 < n \<and> n \<le> 8 \<and> n \<le> length (l_replies l)
      then Some (l\<lparr>l_waiting := False, l_replies := drop n (l_replies l)\<rparr>) else None)"
| "link_step fuel (ServerRead n) l =
     (if 0 < n \<and> n \<le> max_length \<and> n \<le> length (l_wire l)
      then map_option (\<lambda>s. l\<lparr>l_wire := drop n (l_wire l), l_session := s,
          l_replies := l_replies l @ concat (map (le_bytes 8) (drop (length (s_responses (l_session l))) (s_responses s)))\<rparr>)
        (do_read fuel (take n (l_wire l)) (l_session l))
      else None)"

text \<open>A read that takes everything that is there, within its limit.\<close>

fun whole :: "link \<Rightarrow> link_event \<Rightarrow> bool" where
  "whole l ClientWrite = True"
| "whole l (ClientRead n) = (n = min 8 (length (l_replies l)))"
| "whole l (ServerRead n) = (n = min max_length (length (l_wire l)))"

definition whole_step :: "nat \<Rightarrow> link_event \<Rightarrow> link \<Rightarrow> link option" where
  "whole_step fuel ev l = (if whole l ev then link_step fuel ev l else None)"

subsection \<open>Whole reads\<close>

text \<open>Where the client is with respect to the writes it has made: the session has read all of them, or all
  but the last, which is alone on the wire; at most one reply is under way.\<close>

definition in_step :: "nat \<Rightarrow> u8 list list \<Rightarrow> link \<Rightarrow> bool" where
  "in_step fuel ws l \<longleftrightarrow> (\<exists>dn.
     (\<not> l_waiting l \<and> ws = dn @ l_writes l \<and> l_wire l = [] \<and> l_replies l = [] \<or>
      l_waiting l \<and> (\<exists>w. ws = dn @ w # l_writes l \<and> l_wire l = w) \<and> l_replies l = [] \<or>
      l_waiting l \<and> ws = dn @ l_writes l \<and> l_wire l = [] \<and> l_replies l = le_bytes 8 1) \<and>
     ofold (do_read fuel) dn new_session = Some (l_session l))"

lemma le8_one: "length (le_bytes 8 1) = 8"
  by simp

lemma whole_step_in_step:
  assumes "in_step fuel ws l" and "whole_step fuel ev l = Some l'" and "\<forall>w \<in> set ws. length w \<le> max_length"
  shows "in_step fuel ws l'"
proof -
  obtain dn where o: "ofold (do_read fuel) dn new_session = Some (l_session l)" and
    c: "\<not> l_waiting l \<and> ws = dn @ l_writes l \<and> l_wire l = [] \<and> l_replies l = [] \<or>
      l_waiting l \<and> (\<exists>w. ws = dn @ w # l_writes l \<and> l_wire l = w) \<and> l_replies l = [] \<or>
      l_waiting l \<and> ws = dn @ l_writes l \<and> l_wire l = [] \<and> l_replies l = le_bytes 8 1"
    using assms(1) unfolding in_step_def by blast
  show ?thesis
  proof (cases ev)
    case ClientWrite
    then show ?thesis using assms(2) c o
      by (intro in_step_def [THEN iffD2] exI [of _ dn]) (auto simp: whole_step_def split: list.splits if_splits)
  next
    case (ClientRead n)
    then show ?thesis using assms(2) c o
      by (intro in_step_def [THEN iffD2] exI [of _ dn]) (auto simp: whole_step_def split: if_splits)
  next
    case (ServerRead n)
    then obtain w where w: "ws = dn @ w # l_writes l" "l_wire l = w" "l_replies l = []" "l_waiting l"
      using assms(2) c by (auto simp: whole_step_def split: if_splits)
    then have n: "n = length w" using assms(2,3) ServerRead by (auto simp: whole_step_def split: if_splits)
    then obtain s where s: "do_read fuel w (l_session l) = Some s" "l' = l\<lparr>l_wire := [], l_session := s,
        l_replies := concat (map (le_bytes 8) (drop (length (s_responses (l_session l))) (s_responses s)))\<rparr>"
      using assms(2) ServerRead w by (auto simp: whole_step_def split: if_splits)
    have "s_responses s = s_responses (l_session l) @ [1]" by (rule do_read_responses [OF s(1)])
    then have "l_replies l' = le_bytes 8 1" using s(2) by simp
    moreover have "ofold (do_read fuel) (dn @ [w]) new_session = Some s" using o s(1) by (simp add: ofold_append)
    ultimately show ?thesis using w s(2) by (intro in_step_def [THEN iffD2] exI [of _ "dn @ [w]"]) simp
  qed
qed

text \<open>Every event uses up one of what is left: three for each write, two once it is made, one once it is read.\<close>

definition left :: "link \<Rightarrow> nat" where
  "left l = 3 * length (l_writes l) + (if \<not> l_waiting l then 0 else if l_replies l = [] then 2 else 1)"

lemma whole_step_left:
  assumes "in_step fuel ws l" and "whole_step fuel ev l = Some l'"
  shows "Suc (left l') = left l"
proof (cases ev)
  case ClientWrite
  then show ?thesis using assms
    by (auto simp: whole_step_def left_def in_step_def split: list.splits if_splits)
next
  case (ClientRead n)
  then show ?thesis using assms(2) by (auto simp: whole_step_def left_def split: if_splits)
next
  case (ServerRead n)
  then obtain s where s: "do_read fuel (take n (l_wire l)) (l_session l) = Some s" "l_wire l \<noteq> []" "l' = l\<lparr>l_wire := drop n (l_wire l), l_session := s,
      l_replies := l_replies l @ concat (map (le_bytes 8) (drop (length (s_responses (l_session l))) (s_responses s)))\<rparr>"
    using assms(2) by (auto simp: whole_step_def split: if_splits)
  then have "l_waiting l" "l_replies l = []" using assms(1) by (auto simp: in_step_def)
  moreover have "le_bytes 8 1 \<noteq> []" using le8_one by (metis list.size(3) zero_neq_numeral)
  ultimately show ?thesis using s(3) do_read_responses [OF s(1)] by (simp add: left_def)
qed

lemma Send_writes:
  assumes "w \<in> set (concat (map Send msgs))"
  shows "w \<noteq> [] \<and> length w \<le> max_length"
proof -
  obtain m where m: "w \<in> set (Send m)" using assms by auto
  have "le_bytes 8 (length m) \<noteq> []" by (metis length_le_bytes list.size(3) zero_neq_numeral)
  then show ?thesis using m send_chunks_pieces [of "int (length m)" m] by (auto simp: Send_def pieces_of_def max_length_def)
qed

lemma whole_step_enabled:
  assumes "in_step fuel ws l" and "ofold (do_read fuel) ws new_session = Some s" and "\<forall>w \<in> set ws. w \<noteq> [] \<and> length w \<le> max_length"
    and "left l \<noteq> 0"
  shows "\<exists>ev l'. whole_step fuel ev l = Some l'"
proof -
  obtain dn where o: "ofold (do_read fuel) dn new_session = Some (l_session l)" and
    c: "\<not> l_waiting l \<and> ws = dn @ l_writes l \<and> l_wire l = [] \<and> l_replies l = [] \<or>
      l_waiting l \<and> (\<exists>w. ws = dn @ w # l_writes l \<and> l_wire l = w) \<and> l_replies l = [] \<or>
      l_waiting l \<and> ws = dn @ l_writes l \<and> l_wire l = [] \<and> l_replies l = le_bytes 8 1"
    using assms(1) unfolding in_step_def by blast
  from c consider "\<not> l_waiting l" "l_writes l \<noteq> []" | w where "l_waiting l" "ws = dn @ w # l_writes l" "l_wire l = w"
    | "l_waiting l" "l_replies l = le_bytes 8 1"
    using assms(4) by (auto simp: left_def)
  then show ?thesis
  proof cases
    case 1
    then show ?thesis by (intro exI [of _ ClientWrite]) (auto simp: whole_step_def split: list.split)
  next
    case 2
    then have "do_read fuel w (l_session l) \<noteq> None" using assms(2) o by (auto simp: ofold_append bind_eq_Some_conv)
    then show ?thesis using 2 assms(3) by (intro exI [of _ "ServerRead (length w)"]) (auto simp: whole_step_def)
  next
    case 3
    then show ?thesis by (intro exI [of _ "ClientRead 8"]) (simp add: whole_step_def)
  qed
qed

text \<open>C15: As long as every read takes all that has arrived, the client's waiting keeps its writes apart: at any
  time the bytes under way are none or one write. Some event is always possible until, after exactly three
  events for each write, the client has finished and the server's callback has got all messages in order. The
  exception is an empty last message: its header has arrived, but the callback, which the next read would
  call, has not got it.\<close>

theorem lockstep_delivers:
  assumes "\<forall>m \<in> set msgs. length m < 2 ^ 63" and "4 \<le> fuel" and "ofold (whole_step fuel) evs (link_new msgs) = Some l"
  shows "(l_wire l = [] \<or> l_wire l \<in> set (concat (map Send msgs))) \<and> length evs \<le> 3 * length (concat (map Send msgs)) \<and>
    (if length evs < 3 * length (concat (map Send msgs)) then \<exists>ev l'. whole_step fuel ev l = Some l'
     else l_writes l = [] \<and> \<not> l_waiting l \<and> s_onData (l_session l) = (if msgs \<noteq> [] \<and> last msgs = [] then butlast msgs else msgs))"
proof -
  define ws where "ws = concat (map Send msgs)"
  have w: "\<forall>w \<in> set ws. w \<noteq> [] \<and> length w \<le> max_length" using Send_writes by (simp add: ws_def)
  obtain s where s: "ofold (do_read fuel) ws new_session = Some s"
    "s_onData s = (if msgs \<noteq> [] \<and> last msgs = [] then butlast msgs else msgs)"
    using send_delivers [OF assms(1,2)] unfolding ws_def by blast
  have "in_step fuel ws l \<and> left l + length evs = 3 * length ws"
    using assms(3)
  proof (induction evs arbitrary: l rule: rev_induct)
    case Nil
    then show ?case by (auto simp: in_step_def link_new_def left_def ws_def intro!: exI [of _ "[]"])
  next
    case (snoc ev evs)
    then obtain k where k: "ofold (whole_step fuel) evs (link_new msgs) = Some k" "whole_step fuel ev k = Some l"
      by (auto simp: ofold_append bind_eq_Some_conv)
    then show ?case using snoc.IH [OF k(1)] whole_step_in_step [OF _ k(2)] whole_step_left [OF _ k(2)] w by fastforce
  qed
  then have i: "in_step fuel ws l" and n: "left l + length evs = 3 * length ws" by simp_all
  have "l_wire l = [] \<or> l_wire l \<in> set ws" using i by (auto simp: in_step_def)
  moreover have "\<exists>ev l'. whole_step fuel ev l = Some l'" if "length evs < 3 * length ws"
    using whole_step_enabled [OF i s(1) w] that n by auto
  moreover have "l_writes l = [] \<and> \<not> l_waiting l \<and> l_session l = s" if "\<not> length evs < 3 * length ws"
  proof -
    have "left l = 0" using that n by simp
    then have "l_writes l = []" "\<not> l_waiting l" by (auto simp: left_def split: if_splits)
    then show ?thesis using i s(1) by (auto simp: in_step_def)
  qed
  ultimately show ?thesis using n s(2) unfolding ws_def by auto
qed

lemma lockstep_delivers_witness:
  "\<exists>l. ofold (whole_step 4) [ClientWrite] (link_new [[65]]) = Some l \<and> l_wire l \<in> set (concat (map Send [[65]])) \<and>
     (\<exists>ev l'. whole_step 4 ev l = Some l')"
proof -
  have w: "concat (map Send [[65]]) = [le_bytes 8 1, [65]]"
    by (simp add: Send_def send_chunks.simps chunkSize_def)
  define l where "l = (link_new [[65]])\<lparr>l_writes := [[65]], l_waiting := True, l_wire := le_bytes 8 1\<rparr>"
  have o: "ofold (whole_step 4) [ClientWrite] (link_new [[65]]) = Some l"
    using w by (simp add: whole_step_def link_new_def l_def)
  have "l_wire l \<noteq> []" unfolding l_def by (simp flip: length_greater_0_conv)
  then show ?thesis using lockstep_delivers [OF _ _ o] o w by auto
qed

subsection \<open>A split read\<close>

lemma Send_small: "m \<noteq> [] \<Longrightarrow> length m \<le> chunkSize \<Longrightarrow> Send m = [le_bytes 8 (length m), m]"
  by (simp add: Send_def send_chunks.simps [of _ m] send_chunks.simps [of _ "[]"])

text \<open>The steps on a link that is written out.\<close>

lemma link_steps:
  "link_step fuel ClientWrite \<lparr>l_writes = w # ws, l_waiting = False, l_wire = v, l_replies = r, l_session = s\<rparr> =
     Some \<lparr>l_writes = ws, l_waiting = True, l_wire = v @ w, l_replies = r, l_session = s\<rparr>"
  "link_step fuel (ClientRead 8) \<lparr>l_writes = ws, l_waiting = True, l_wire = v, l_replies = le_bytes 8 n @ r, l_session = s\<rparr> =
     Some \<lparr>l_writes = ws, l_waiting = False, l_wire = v, l_replies = r, l_session = s\<rparr>"
  by simp_all

lemma server_read:
  assumes "do_read fuel c s = Some s'" and "c \<noteq> []" and "length c \<le> max_length" and "n = length c"
  shows "link_step fuel (ServerRead n) \<lparr>l_writes = ws, l_waiting = wt, l_wire = c @ v, l_replies = r, l_session = s\<rparr> =
    Some \<lparr>l_writes = ws, l_waiting = wt, l_wire = v, l_replies = r @ le_bytes 8 1, l_session = s'\<rparr>"
  using assms do_read_responses [OF assms(1)] by simp

text \<open>C16: One read that takes only a part of a write is enough: it is answered by a reply of its own, so the client is one
  reply ahead, and the header and the content of the next message can meet in the stream. Then the
  callback gets the header's bytes in place of that message, while the client ends as if all were well.\<close>

theorem split_read_corrupts:
  assumes "a \<noteq> []" and "b \<noteq> []" and "length (a @ b) \<le> chunkSize" and "m \<noteq> []" and "length m \<le> chunkSize" and "4 \<le> fuel"
  shows "\<exists>l. ofold (link_step fuel)
      [ClientWrite, ServerRead 8, ClientRead 8, ClientWrite, ServerRead (length a), ClientRead 8, ServerRead (length b),
       ClientWrite, ClientRead 8, ClientWrite, ServerRead (8 + length m), ClientRead 8] (link_new [a @ b, m]) = Some l \<and>
    l_writes l = [] \<and> \<not> l_waiting l \<and> s_onData (l_session l) = [a @ b, take (length m) (le_bytes 8 (length m) @ m)]"
proof -
  let ?h = "le_bytes 8 (length (a @ b))" and ?k = "le_bytes 8 (length m)" and ?r = "le_bytes 8 1"
  have big: "chunkSize < 2 ^ 64" "chunkSize \<le> max_length" "8 + chunkSize \<le> max_length" by (simp_all add: chunkSize_def max_length_def)
  have ne: "?h \<noteq> []" "?k \<noteq> []" by (simp_all flip: length_greater_0_conv)
  have lens: "length a \<le> max_length" "length b \<le> max_length" "8 + length m \<le> max_length" "8 \<le> max_length" using assms(3,5) big by simp_all
  obtain s1 where s1: "do_read fuel ?h new_session = Some s1" "length (s_data s1) = max_length"
    "m_pCurPacket s1 = Some \<lparr>m_bytesRead = length ([] :: u8 list), p_data = replicate (length (a @ b)) 0\<rparr>" "s_onData s1 = []"
    using header_read [of new_session "length (a @ b)" fuel] assms(3,6) big idle_new_session by auto
  obtain s2 d where s2: "do_read fuel a s1 = Some s2" "length (s_data s2) = max_length"
    "m_pCurPacket s2 = Some \<lparr>m_bytesRead = length a, p_data = d\<rparr>" "length d = length (a @ b)" "take (length a) d = a" "s_onData s2 = []"
    using payload_read [OF s1(3) _ s1(2), of a fuel] assms(1-3,6) big lens s1(4) by auto
  obtain s3 where s3: "do_read fuel b s2 = Some s3" "length (s_data s3) = max_length" "m_pCurPacket s3 = None" "s_onData s3 = [a @ b]"
    using payload_read [OF s2(3,5,2), of b fuel] assms(2,3,6) big lens s2(4,6) by auto
  obtain s4 where s4: "do_read fuel (?k @ m) s3 = Some s4" "s_onData s4 = [a @ b, take (length m) (?k @ m)]"
    using coalesced_read [OF s3(3,2) assms(4) lens(3) assms(6)] s3(4) by auto
  have w: "concat (map Send [a @ b, m]) = [?h, a @ b, ?k, m]" using Send_small [of "a @ b"] Send_small [of m] assms by simp
  let ?L = "\<lambda>ws wt v r s. \<lparr>l_writes = ws, l_waiting = wt, l_wire = v, l_replies = r, l_session = s\<rparr>"
  note read1 = server_read [OF s1(1) ne(1), where n = 8 and v = "[]"] and read2 = server_read [OF s2(1) assms(1) lens(1) refl, where v = b]
    and read3 = server_read [OF s3(1) assms(2) lens(2) refl, where v = "[]"]
  have read4: "link_step fuel (ServerRead (8 + length m)) (?L ws wt (?k @ m) r s3) = Some (?L ws wt [] (r @ ?r) s4)" for ws wt r
    by (rule server_read [OF s4(1), where v = "[]", unfolded append_Nil2]) (use assms(4) lens(3) in \<open>simp_all del: le_bytes.simps\<close>)
  have start: "link_new [a @ b, m] = ?L [?h, a @ b, ?k, m] False [] [] new_session" unfolding link_new_def w ..
  have "ofold (link_step fuel) [ClientWrite, ServerRead 8, ClientRead 8, ClientWrite, ServerRead (length a), ClientRead 8, ServerRead (length b)]
      (link_new [a @ b, m]) = Some (?L [?k, m] False [] ?r s3)"
    using read1 read2 read3 lens(4) link_steps(2) [where r = "[]"] by (simp add: start link_steps(1) del: link_step.simps)
  moreover have "ofold (link_step fuel) [ClientWrite, ClientRead 8, ClientWrite, ServerRead (8 + length m), ClientRead 8] (?L [?k, m] False [] ?r s3) =
      Some (?L [] False [] [] s4)"
    using link_steps(2) [where r = "[]"] by (simp add: read4 link_steps(1) del: link_step.simps One_nat_def)
  ultimately have "ofold (link_step fuel) ([ClientWrite, ServerRead 8, ClientRead 8, ClientWrite, ServerRead (length a), ClientRead 8, ServerRead (length b)] @
      [ClientWrite, ClientRead 8, ClientWrite, ServerRead (8 + length m), ClientRead 8]) (link_new [a @ b, m]) = Some (?L [] False [] [] s4)"
    by (simp only: ofold_append bind.bind_lunit)
  then show ?thesis unfolding append.simps using s4(2) by (intro exI [of _ "?L [] False [] [] s4"]) (simp only: link.simps simp_thms)
qed

lemma split_read_corrupts_witness:
  "\<exists>evs l. ofold (link_step 4) evs (link_new [[65, 66], [67]]) = Some l \<and> l_writes l = [] \<and> \<not> l_waiting l \<and>
     s_onData (l_session l) = [[65, 66], [1]]"
proof -
  have "take 1 (le_bytes 8 1 @ [67]) = [1]" by code_simp
  moreover obtain evs l where "ofold (link_step 4) evs (link_new [[65] @ [66], [67]]) = Some l" "l_writes l = []" "\<not> l_waiting l"
    "s_onData (l_session l) = [[65] @ [66], take (length [67 :: u8]) (le_bytes 8 (length [67 :: u8]) @ [67])]"
    using split_read_corrupts [of "[65]" "[66]" "[67]" 4] by (fastforce simp: chunkSize_def simp del: link_step.simps ofold.simps)
  ultimately show ?thesis by (intro exI [of _ evs] exI [of _ l]) simp
qed

subsection \<open>Starting and stopping the server\<close>

text \<open>The members of \<open>Server\<close> are initialised in the order of their declaration, \<open>m_onData\<close> last; the destructor
  follows. The two threads run in between.\<close>

datatype server_op = MakeContext | StartMdns | StartTcp | SetOnData | StopContext | JoinTcp | MdnsShutdown | JoinMdns

text \<open>A thread that runs has taken its copy of \<open>m_onData\<close>, which was set or not.\<close>

datatype thread = NotStarted | Started | Running bool | Ended

record server =
  sv_todo :: "server_op list"
  sv_stopped :: bool
  sv_shutdown :: bool
  sv_onData :: bool
  sv_tcp :: thread
  sv_mdns :: thread

definition Server_new :: server where
  "Server_new = \<lparr>sv_todo = [MakeContext, StartMdns, StartTcp, SetOnData] @ [StopContext, JoinTcp, MdnsShutdown, JoinMdns],
     sv_stopped = False, sv_shutdown = False, sv_onData = False, sv_tcp = NotStarted, sv_mdns = NotStarted\<rparr>"

fun owner_op :: "server_op \<Rightarrow> server \<Rightarrow> server option" where
  "owner_op MakeContext s = Some s"
| "owner_op StartMdns s = Some (s\<lparr>sv_mdns := Running True\<rparr>)"
| "owner_op StartTcp s = Some (s\<lparr>sv_tcp := Started\<rparr>)"
| "owner_op SetOnData s = Some (s\<lparr>sv_onData := True\<rparr>)"
| "owner_op StopContext s = Some (s\<lparr>sv_stopped := True\<rparr>)"
| "owner_op JoinTcp s = (if sv_tcp s = Ended then Some s else None)"
| "owner_op MdnsShutdown s = Some (s\<lparr>sv_shutdown := True\<rparr>)"
| "owner_op JoinMdns s = (if sv_mdns s = Ended then Some s else None)"

text \<open>The next operation of the owner; the thread of the sockets starts to serve, or ends at once when WinSock does
  not start, or ends after the context was stopped, also when that was before \<open>run\<close>; the mdns
  thread ends at once when it has no sockets, or after its shutdown.\<close>

datatype server_event = OwnerStep | TcpServes | TcpFails | TcpEnds | MdnsFails | MdnsEnds

fun thread_step :: "server_event \<Rightarrow> server \<Rightarrow> server option" where
  "thread_step OwnerStep s = (case sv_todo s of [] \<Rightarrow> None | x # xs \<Rightarrow> owner_op x (s\<lparr>sv_todo := xs\<rparr>))"
| "thread_step TcpServes s = (if sv_tcp s = Started then Some (s\<lparr>sv_tcp := Running (sv_onData s)\<rparr>) else None)"
| "thread_step TcpFails s = (if sv_tcp s = Started then Some (s\<lparr>sv_tcp := Ended\<rparr>) else None)"
| "thread_step TcpEnds s = (case sv_tcp s of Running b \<Rightarrow> if sv_stopped s then Some (s\<lparr>sv_tcp := Ended\<rparr>) else None | _ \<Rightarrow> None)"
| "thread_step MdnsFails s = (case sv_mdns s of Running b \<Rightarrow> Some (s\<lparr>sv_mdns := Ended\<rparr>) | _ \<Rightarrow> None)"
| "thread_step MdnsEnds s = (case sv_mdns s of Running b \<Rightarrow> if sv_shutdown s then Some (s\<lparr>sv_mdns := Ended\<rparr>) else None | _ \<Rightarrow> None)"

text \<open>The server may run with a callback that was not set when the thread took it.\<close>

lemma server_start_race:
  "\<exists>s. ofold thread_step [OwnerStep, OwnerStep, OwnerStep, TcpServes, OwnerStep] Server_new = Some s \<and> sv_onData s \<and> sv_tcp s = Running False"
  by (simp add: Server_new_def)

text \<open>The state when the owner has done the first \<open>k\<close> of its operations.\<close>

definition server_at :: "nat \<Rightarrow> server \<Rightarrow> bool" where
  "server_at k s \<longleftrightarrow> sv_todo s = drop k (sv_todo Server_new) \<and> (sv_stopped s \<longleftrightarrow> 5 \<le> k) \<and> (sv_shutdown s \<longleftrightarrow> 7 \<le> k) \<and>
     (sv_tcp s = NotStarted \<longleftrightarrow> k < 3) \<and> (sv_mdns s = NotStarted \<longleftrightarrow> k < 2) \<and> sv_mdns s \<noteq> Started"

lemma Server_new_at: "server_at 0 Server_new"
  by (simp add: server_at_def Server_new_def)

lemma drop_ops:
  assumes "drop k (sv_todo Server_new) = x # xs"
  shows "k = 0 \<and> x = MakeContext \<or> k = 1 \<and> x = StartMdns \<or> k = 2 \<and> x = StartTcp \<or> k = 3 \<and> x = SetOnData \<or> k = 4 \<and> x = StopContext \<or>
    k = 5 \<and> x = JoinTcp \<or> k = 6 \<and> x = MdnsShutdown \<or> k = 7 \<and> x = JoinMdns"
proof -
  have l: "length (sv_todo Server_new) = 8" by (simp add: Server_new_def)
  have "k < length (sv_todo Server_new)" using assms by (cases "k < length (sv_todo Server_new)") auto
  then have "x = sv_todo Server_new ! k" using assms by (metis Cons_nth_drop_Suc list.inject)
  moreover have "k = 0 \<or> k = 1 \<or> k = 2 \<or> k = 3 \<or> k = 4 \<or> k = 5 \<or> k = 6 \<or> k = 7" using \<open>k < length _\<close> l by arith
  ultimately show ?thesis by (elim disjE) (simp_all add: Server_new_def)
qed

lemma server_at_thread:
  assumes "server_at k s" and "thread_step ev s = Some s'" and "ev \<noteq> OwnerStep"
  shows "server_at k s'"
proof (cases ev)
  case TcpEnds
  then show ?thesis using assms(1,2) by (cases "sv_tcp s") (auto simp: server_at_def split: if_splits)
next
  case MdnsFails
  then show ?thesis using assms(1,2) by (cases "sv_mdns s") (auto simp: server_at_def)
next
  case MdnsEnds
  then show ?thesis using assms(1,2) by (cases "sv_mdns s") (auto simp: server_at_def split: if_splits)
qed (use assms in \<open>auto simp: server_at_def split: if_splits\<close>)

lemma server_at_step:
  assumes "server_at k s" and "thread_step ev s = Some s'"
  shows "server_at k s' \<or> server_at (Suc k) s'"
proof (cases "ev = OwnerStep")
  case True
  then obtain x xs where x: "sv_todo s = x # xs" "owner_op x (s\<lparr>sv_todo := xs\<rparr>) = Some s'"
    using assms(2) by (auto split: list.splits)
  have d: "drop k (sv_todo Server_new) = x # xs" using assms(1) x(1) by (simp add: server_at_def)
  then have "xs = drop (Suc k) (sv_todo Server_new)" by (metis drop_Suc list.sel(3) tl_drop)
  then have "server_at (Suc k) s'" using drop_ops [OF d]
    by (elim disjE) (use assms(1) x(2) in \<open>auto simp: server_at_def split: if_splits\<close>)
  then show ?thesis ..
next
  case False
  then show ?thesis using server_at_thread [OF assms] by blast
qed

text \<open>Until the destructor is done the owner or a thread can always go on: stopping does not deadlock.\<close>

lemma server_never_stuck:
  assumes "ofold thread_step evs Server_new = Some s" and "sv_todo s \<noteq> []"
  shows "\<exists>ev s'. thread_step ev s = Some s'"
proof -
  have "\<exists>k. server_at k s"
    by (rule ofold_invariant [OF assms(1), of "\<lambda>s. \<exists>k. server_at k s"]) (use Server_new_at server_at_step in blast)+
  then obtain k where k: "sv_todo s = drop k (sv_todo Server_new)" "sv_stopped s \<longleftrightarrow> 5 \<le> k" "sv_shutdown s \<longleftrightarrow> 7 \<le> k"
    "sv_tcp s = NotStarted \<longleftrightarrow> k < 3" "sv_mdns s = NotStarted \<longleftrightarrow> k < 2" "sv_mdns s \<noteq> Started"
    unfolding server_at_def by blast
  obtain x xs where x: "sv_todo s = x # xs" using assms(2) by (cases "sv_todo s") auto
  show ?thesis
  proof (cases "owner_op x (s\<lparr>sv_todo := xs\<rparr>) = None")
    case False
    then show ?thesis using x by (intro exI [of _ OwnerStep]) auto
  next
    case True
    then consider "x = JoinTcp" "sv_tcp s \<noteq> Ended" | "x = JoinMdns" "sv_mdns s \<noteq> Ended" by (cases x) (auto split: if_splits)
    then show ?thesis
    proof cases
      case 1
      then have "k = 5" using drop_ops [of k x xs] k(1) x by auto
      then consider "sv_tcp s = Started" | b where "sv_tcp s = Running b" using k(4) 1(2) by (cases "sv_tcp s") auto
      then show ?thesis
      proof cases
        case 1
        then show ?thesis by (intro exI [of _ TcpServes]) simp
      next
        case 2
        then show ?thesis using k(2) \<open>k = 5\<close> by (intro exI [of _ TcpEnds]) simp
      qed
    next
      case 2
      then have "k = 7" using drop_ops [of k x xs] k(1) x by auto
      then obtain b where "sv_mdns s = Running b" using k(5,6) 2(2) by (cases "sv_mdns s") auto
      then show ?thesis using k(3) \<open>k = 7\<close> by (intro exI [of _ MdnsEnds]) simp
    qed
  qed
qed

end
