(* ===== verification/Mesh.thy ===== *)
theory Mesh
  imports GmtlMat
begin

text \<open>
  Vertex and index data, \<open>src/core/Mesh.cpp\<close> and \<open>src/core/Mesh.h\<close>: the cube table, the list of
  cubes around points, the grid, the quad and the points of the voxel view, and the owner
  \<open>bgfxh\<close> of a GPU handle (\<open>src/core/StdIncludes.h\<close>). The renderer is not part of the program:
  what a mesh hands to it is the vertex and index lists, and a handle is whatever its creating
  function, an argument, returns.
\<close>

subsection \<open>Owned GPU handles\<close>

text \<open>A \<open>bgfxh\<close> holds a handle; the valid handles it destroys are recorded in order. \<open>valid\<close> is
  \<open>bgfx::isValid\<close> and \<open>bad\<close> is \<open>BGFX_INVALID_HANDLE\<close>.\<close>

record 'h owner =
  own_t :: 'h
  destroyed :: "'h list"

definition bgfxh_new :: "'h \<Rightarrow> 'h owner" where
  "bgfxh_new bad = \<lparr>own_t = bad, destroyed = []\<rparr>"

definition bgfxh_free :: "('h \<Rightarrow> bool) \<Rightarrow> 'h \<Rightarrow> 'h owner \<Rightarrow> 'h owner" where
  "bgfxh_free valid bad b =
     (if valid (own_t b) then \<lparr>own_t = bad, destroyed = destroyed b @ [own_t b]\<rparr> else b)"

definition bgfxh_assign :: "('h \<Rightarrow> bool) \<Rightarrow> 'h \<Rightarrow> 'h \<Rightarrow> 'h owner \<Rightarrow> 'h owner" where
  "bgfxh_assign valid bad rhs b = (bgfxh_free valid bad b)\<lparr>own_t := rhs\<rparr>"

text \<open>A life of the owner: constructed, assigned or freed any number of times, destructed.\<close>

datatype 'h owner_op = Assign 'h | Free

definition owner_step :: "('h \<Rightarrow> bool) \<Rightarrow> 'h \<Rightarrow> 'h owner_op \<Rightarrow> 'h owner \<Rightarrow> 'h owner" where
  "owner_step valid bad op b = (case op of Assign h \<Rightarrow> bgfxh_assign valid bad h b | Free \<Rightarrow> bgfxh_free valid bad b)"

definition owner_life :: "('h \<Rightarrow> bool) \<Rightarrow> 'h \<Rightarrow> 'h owner_op list \<Rightarrow> 'h owner" where
  "owner_life valid bad ops = bgfxh_free valid bad (fold (owner_step valid bad) ops (bgfxh_new bad))"

definition assigned :: "('h \<Rightarrow> bool) \<Rightarrow> 'h owner_op list \<Rightarrow> 'h list" where
  "assigned valid ops = concat (map (\<lambda>op. case op of Assign h \<Rightarrow> if valid h then [h] else [] | Free \<Rightarrow> []) ops)"

definition owned :: "('h \<Rightarrow> bool) \<Rightarrow> 'h owner \<Rightarrow> 'h list" where
  "owned valid b = destroyed b @ (if valid (own_t b) then [own_t b] else [])"

lemma owned_step: "\<not> valid bad \<Longrightarrow> owned valid (owner_step valid bad op b) = owned valid b @ assigned valid [op]"
  by (cases op) (auto simp: owned_def owner_step_def bgfxh_assign_def bgfxh_free_def assigned_def)

lemma owned_run: "\<not> valid bad \<Longrightarrow> owned valid (fold (owner_step valid bad) ops b) = owned valid b @ assigned valid ops"
proof (induction ops arbitrary: b)
  case (Cons op ops)
  then show ?case by (simp add: owned_step) (simp add: assigned_def)
qed (simp add: assigned_def)

text \<open>Over the life of an owner every valid handle given to it is destroyed exactly once, in
  the order given.\<close>

lemma owner_destroys_all:
  assumes "\<not> valid bad"
  shows "destroyed (owner_life valid bad ops) = assigned valid ops"
  using owned_run [of valid bad ops "bgfxh_new bad"] assms
  by (auto simp: owner_life_def bgfxh_free_def bgfxh_new_def owned_def split: if_splits)

subsection \<open>Vertices\<close>

datatype pos_texcoord_vertex = PTV (pm_x: fp) (pm_y: fp) (pm_z: fp) (pm_u: fp) (pm_v: fp)

record pos_texcoord_nrm_vertex =
  m_x :: fp
  m_y :: fp
  m_z :: fp
  m_u :: fp
  m_v :: fp
  m_nx :: fp
  m_ny :: fp
  m_nz :: fp

datatype voxel_vertex = VoxelVertex (vv_x: fp) (vv_y: fp) (vv_z: fp) (vv_d: fp)

text \<open>A mesh drawn with an index list: buffers exist after the first \<open>init\<close> only. \<open>create\<close> stands
  for the two calls that upload the data.\<close>

record ('v, 'b) static_mesh =
  isInit :: bool
  vertices :: "'v list"
  indices :: "nat list"
  buffers :: "'b option"

definition mesh_init :: "('v list \<Rightarrow> nat list \<Rightarrow> 'b) \<Rightarrow> 'v list \<Rightarrow> nat list \<Rightarrow> ('v, 'b) static_mesh \<Rightarrow> ('v, 'b) static_mesh" where
  "mesh_init create vs is m =
     (if isInit m then m
      else m\<lparr>isInit := True, vertices := vs, indices := is, buffers := Some (create vs is)\<rparr>)"

definition fq :: "int \<Rightarrow> fp" where
  "fq n = f_of_int F32 n"

text \<open>The cube: position, texture coordinate, normal.\<close>

definition s_cubeTable :: "(int \<times> int \<times> int \<times> int \<times> int \<times> int \<times> int \<times> int) list" where
  "s_cubeTable = [
     (-1, 1, 1, 0, 1, 0, 0, 1), (1, 1, 1, 1, 1, 0, 0, 1),
     (-1, -1, 1, 0, 0, 0, 0, 1), (1, -1, 1, 1, 0, 0, 0, 1),
     (-1, 1, -1, 0, 1, 0, 0, -1), (1, 1, -1, 1, 1, 0, 0, -1),
     (-1, -1, -1, 0, 0, 0, 0, -1), (1, -1, -1, 1, 0, 0, 0, -1),
     (-1, 1, 1, 0, 1, -1, 0, 0), (-1, 1, -1, 1, 1, -1, 0, 0),
     (-1, -1, 1, 0, 0, -1, 0, 0), (-1, -1, -1, 1, 0, -1, 0, 0),
     (1, 1, 1, 0, 1, 1, 0, 0), (1, -1, 1, 1, 1, 1, 0, 0),
     (1, 1, -1, 0, 0, 1, 0, 0), (1, -1, -1, 1, 0, 1, 0, 0),
     (-1, 1, 1, 0, 1, 0, 1, 0), (1, 1, 1, 1, 1, 0, 1, 0),
     (-1, 1, -1, 0, 0, 0, 1, 0), (1, 1, -1, 1, 0, 0, 1, 0),
     (-1, -1, 1, 0, 1, 0, -1, 0), (-1, -1, -1, 1, 1, 0, -1, 0),
     (1, -1, 1, 0, 0, 0, -1, 0), (1, -1, -1, 1, 0, 0, -1, 0)]"

definition s_cubeVertices :: "pos_texcoord_nrm_vertex list" where
  "s_cubeVertices = map (\<lambda>(x, y, z, u, v, nx, ny, nz). \<lparr>m_x = fq x, m_y = fq y, m_z = fq z, m_u = fq u, m_v = fq v,
     m_nx = fq nx, m_ny = fq ny, m_nz = fq nz\<rparr>) s_cubeTable"

definition s_cubeIndices :: "nat list" where
  "s_cubeIndices = [0, 1, 2, 1, 3, 2, 4, 6, 5, 5, 6, 7, 8, 10, 9, 9, 10, 11,
     12, 14, 13, 14, 15, 13, 16, 18, 17, 18, 19, 17, 20, 22, 21, 21, 22, 23]"

definition Cube_init :: "(pos_texcoord_nrm_vertex list \<Rightarrow> nat list \<Rightarrow> 'b) \<Rightarrow> (pos_texcoord_nrm_vertex, 'b) static_mesh \<Rightarrow> (pos_texcoord_nrm_vertex, 'b) static_mesh" where
  "Cube_init create = mesh_init create s_cubeVertices s_cubeIndices"

definition s_quadVertices :: "pos_texcoord_vertex list" where
  "s_quadVertices =
    [PTV (fq (-1)) (fq 1) (fq 0) (fq 0) (fq 1), PTV (fq 1) (fq 1) (fq 0) (fq 1) (fq 1),
     PTV (fq (-1)) (fq (-1)) (fq 0) (fq 0) (fq 0), PTV (fq 1) (fq (-1)) (fq 0) (fq 1) (fq 0)]"

definition s_quadIndices :: "nat list" where
  "s_quadIndices = [0, 1, 2, 1, 3, 2]"

definition Quad_init :: "(pos_texcoord_vertex list \<Rightarrow> nat list \<Rightarrow> 'b) \<Rightarrow> (pos_texcoord_vertex, 'b) static_mesh \<Rightarrow> (pos_texcoord_vertex, 'b) static_mesh" where
  "Quad_init create = mesh_init create s_quadVertices s_quadIndices"

text \<open>The grid: vertices row by row, and the index triples in the order of the loops, which run
  over columns first.\<close>

definition grid_size :: nat where
  "grid_size = 16"

definition grid_vertex :: "nat \<Rightarrow> nat \<Rightarrow> pos_texcoord_vertex" where
  "grid_vertex x y =
     (let t = (\<lambda>k. divf (fq (int k)) (fq (int (grid_size - 1)))); c = (\<lambda>k. subf (mulf (t k) (fq 2)) (fq 1))
      in PTV (c x) (fq 0) (c y) (t x) (t y))"

definition grid_cell :: "nat \<Rightarrow> nat \<Rightarrow> nat list" where
  "grid_cell x y =
     (if x < grid_size - 1 \<and> y < grid_size - 1
      then let idx = y * grid_size + x
           in [idx + 1, idx + grid_size, idx, idx + grid_size + 1, idx + grid_size, idx + 1]
      else [])"

definition Grid_vertices :: "pos_texcoord_vertex list" where
  "Grid_vertices = fold (\<lambda>(x, y) vs. vs[y * grid_size + x := grid_vertex x y]) (pairs grid_size grid_size)
     (replicate (grid_size * grid_size) (PTV fzero fzero fzero fzero fzero))"

definition Grid_indices :: "nat list" where
  "Grid_indices = concat (map (\<lambda>(x, y). grid_cell x y) (pairs grid_size grid_size))"

definition Grid_init :: "(pos_texcoord_vertex list \<Rightarrow> nat list \<Rightarrow> 'b) \<Rightarrow> (pos_texcoord_vertex, 'b) static_mesh \<Rightarrow> (pos_texcoord_vertex, 'b) static_mesh" where
  "Grid_init create = mesh_init create Grid_vertices Grid_indices"

subsection \<open>Cube lists and voxels\<close>

record cube_list =
  cl_vertices :: "pos_texcoord_nrm_vertex list"
  cl_indices :: "u32 list"

definition place_vertex :: "fp \<Rightarrow> vec3 \<Rightarrow> pos_texcoord_nrm_vertex \<Rightarrow> pos_texcoord_nrm_vertex" where
  "place_vertex cubeSize pt v =
     v\<lparr>m_x := addf (mulf (m_x v) cubeSize) (vx pt), m_y := addf (mulf (m_y v) cubeSize) (vy pt),
       m_z := addf (mulf (m_z v) cubeSize) (vz pt)\<rparr>"

definition add_cube :: "fp \<Rightarrow> vec3 \<Rightarrow> cube_list \<Rightarrow> cube_list" where
  "add_cube cubeSize pt c =
     (let offset = word_of_nat (length (cl_vertices c)) :: u32
      in \<lparr>cl_vertices = cl_vertices c @ map (place_vertex cubeSize pt) s_cubeVertices,
          cl_indices = cl_indices c @ map (\<lambda>i. word_of_nat i + offset) s_cubeIndices\<rparr>)"

definition CubeList_Create :: "vec3 list \<Rightarrow> fp \<Rightarrow> cube_list \<Rightarrow> cube_list" where
  "CubeList_Create pts cubeSize c = fold (add_cube cubeSize) pts c"

record vox_cube =
  pvertices :: "voxel_vertex list"
  verticesSize :: nat
  memsize :: nat

definition VoxCube_Create :: "vec4 list \<Rightarrow> vox_cube" where
  "VoxCube_Create pts = \<lparr>pvertices = map (\<lambda>p. VoxelVertex (wx p) (wy p) (wz p) (ww p)) pts,
     verticesSize = length pts, memsize = length pts * 16\<rparr>"

text \<open>\<open>Use\<close> uploads the voxels once.\<close>

definition VoxCube_Use :: "('h \<Rightarrow> bool) \<Rightarrow> 'h \<Rightarrow> (voxel_vertex list \<Rightarrow> 'h) \<Rightarrow> vox_cube \<Rightarrow> 'h owner \<Rightarrow> 'h owner" where
  "VoxCube_Use valid bad create v b =
     (if valid (own_t b) then b else bgfxh_assign valid bad (create (pvertices v)) b)"


subsection \<open>Triangles\<close>

text \<open>The triangles of an index list.\<close>

fun triangles :: "'i list \<Rightarrow> ('i \<times> 'i \<times> 'i) list" where
  "triangles (a # b # c # is) = (a, b, c) # triangles is"
| "triangles is = []"

text \<open>For a triangle of the cube table: the cross product of its edges as an integer vector,
  times the normal stored at a corner.\<close>

definition cube_winding :: "nat \<times> nat \<times> nat \<Rightarrow> int" where
  "cube_winding = (\<lambda>(a, b, c).
     case (s_cubeTable ! a, s_cubeTable ! b, s_cubeTable ! c) of
       ((ax, ay, az, _, _, nx, ny, nz), (bx, by, bz, _), (cx, cy, cz, _)) \<Rightarrow>
         ((by - ay) * (cz - az) - (bz - az) * (cy - ay)) * nx +
         ((bz - az) * (cx - ax) - (bx - ax) * (cz - az)) * ny +
         ((bx - ax) * (cy - ay) - (by - ay) * (cx - ax)) * nz)"

text \<open>The three corners of a triangle have the same stored normal.\<close>

definition cube_normal :: "nat \<Rightarrow> int \<times> int \<times> int" where
  "cube_normal a = (case s_cubeTable ! a of (_, _, _, _, _, n) \<Rightarrow> n)"

lemma length_cube [simp]: "length s_cubeVertices = 24" "length s_cubeIndices = 36"
  by (simp_all add: s_cubeVertices_def s_cubeTable_def s_cubeIndices_def)

text \<open>The cube is closed and consistently wound: it has twelve triangles, two per stored face
  normal, all indices are inside the vertex table, the corners of a triangle share their normal,
  and every triangle is clockwise seen from outside and covers half its face.\<close>

theorem cube_winding_consistent:
  "length (triangles s_cubeIndices) = 12 \<and> list_all (\<lambda>i. i < length s_cubeVertices) s_cubeIndices \<and>
   list_all (\<lambda>(a, b, c). cube_normal a = cube_normal b \<and> cube_normal b = cube_normal c \<and> cube_winding (a, b, c) = -4)
     (triangles s_cubeIndices) \<and>
   list_all (\<lambda>n. length (filter (\<lambda>(a, _, _). cube_normal a = n) (triangles s_cubeIndices)) = 2)
     [(0, 0, 1), (0, 0, -1), (-1, 0, 0), (1, 0, 0), (0, 1, 0), (0, -1, 0)]"
  unfolding length_cube by code_simp

text \<open>The signed area, doubled, of a grid triangle in cells.\<close>

definition grid_winding :: "nat \<times> nat \<times> nat \<Rightarrow> int" where
  "grid_winding = (\<lambda>(a, b, c).
     let px = (\<lambda>i. int (i mod grid_size)); py = (\<lambda>i. int (i div grid_size))
     in (px b - px a) * (py c - py a) - (py b - py a) * (px c - px a))"

lemma triangles_append: "length xs mod 3 = 0 \<Longrightarrow> triangles (xs @ ys) = triangles xs @ triangles ys"
proof (induction xs rule: triangles.induct)
  case (1 a b c "is")
  then show ?case by (simp add: mod_Suc split: if_splits)
qed auto

lemma triangles_concat:
  "\<forall>xs \<in> set xss. length xs mod 3 = 0 \<Longrightarrow> triangles (concat xss) = concat (map triangles xss)"
  by (induction xss) (simp_all add: triangles_append)

lemma grid_cell_length: "length (grid_cell x y) mod 3 = 0"
  by (simp add: grid_cell_def Let_def)

lemma grid_triangles: "triangles Grid_indices = concat (map (\<lambda>(x, y). triangles (grid_cell x y)) (pairs grid_size grid_size))"
proof -
  have "\<forall>xs \<in> set (map (\<lambda>(x, y). grid_cell x y) (pairs grid_size grid_size)). length xs mod 3 = 0"
    using grid_cell_length by auto
  then show ?thesis unfolding Grid_indices_def by (simp add: triangles_concat comp_def case_prod_unfold)
qed

lemma grid_cell_triangles:
  "triangles (grid_cell x y) = (if x < 15 \<and> y < 15
     then [(y * 16 + x + 1, y * 16 + x + 16, y * 16 + x), (y * 16 + x + 17, y * 16 + x + 16, y * 16 + x + 1)] else [])"
  by (simp add: grid_cell_def grid_size_def Let_def)

lemma grid_coords: "x < 16 \<Longrightarrow> (y * 16 + x) mod 16 = x \<and> (y * 16 + x) div 16 = (y :: nat)"
  by simp

lemma grid_cell_winding:
  assumes "x < 15" and "t \<in> set (triangles (grid_cell x y))"
  shows "grid_winding t = 1"
proof -
  have "(y * 16 + x + 1) mod 16 = x + 1" "(y * 16 + x + 1) div 16 = y" using assms(1) grid_coords [of "x + 1" y] by (simp_all add: algebra_simps)
  moreover have "(y * 16 + x + 16) mod 16 = x" "(y * 16 + x + 16) div 16 = y + 1"
    using assms(1) grid_coords [of x "y + 1"] by (simp_all add: algebra_simps)
  moreover have "(y * 16 + x + 17) mod 16 = x + 1" "(y * 16 + x + 17) div 16 = y + 1"
    using assms(1) grid_coords [of "x + 1" "y + 1"] by (simp_all add: algebra_simps)
  moreover have "(y * 16 + x) mod 16 = x" "(y * 16 + x) div 16 = y" using assms(1) by simp_all
  ultimately show ?thesis
    using assms by (auto simp: grid_cell_triangles grid_winding_def grid_size_def Let_def split: if_splits)
qed

lemma fold_update_nth:
  assumes "inj_on k (set ps)" and "distinct ps" and "\<forall>p \<in> set ps. k p < length vs"
  shows "\<forall>p \<in> set ps. fold (\<lambda>p vs. vs[k p := f p]) ps vs ! k p = f p"
  using assms
proof (induction ps rule: rev_induct)
  case (snoc q ps)
  have l: "length (fold (\<lambda>p vs. vs[k p := f p]) ps vs) = length vs" for ps
    by (induction ps arbitrary: vs) simp_all
  have "k q \<noteq> k p" if "p \<in> set ps" for p using inj_onD [OF snoc.prems(1), of p q] snoc.prems(2) that by fastforce
  moreover have "\<forall>p \<in> set ps. fold (\<lambda>p vs. vs[k p := f p]) ps vs ! k p = f p"
    using snoc.prems by (intro snoc.IH) (auto intro: inj_on_subset)
  ultimately show ?case using snoc.prems(3) by (auto simp: l nth_list_update)
qed simp

lemma distinct_pairs: "distinct (pairs h w)"
proof -
  have "card (set (pairs h w)) = length (pairs h w)"
    unfolding set_pairs length_pairs by simp
  then show ?thesis by (rule card_distinct)
qed

lemma Grid_vertices_nth: "x < grid_size \<Longrightarrow> y < grid_size \<Longrightarrow> Grid_vertices ! (y * grid_size + x) = grid_vertex x y"
proof -
  assume xy: "x < grid_size" "y < grid_size"
  define k where "k = (\<lambda>(x :: nat, y). y * grid_size + x)"
  have "\<forall>p \<in> set (pairs grid_size grid_size). fold (\<lambda>p vs. vs[k p := case_prod grid_vertex p]) (pairs grid_size grid_size)
      (replicate (grid_size * grid_size) (PTV fzero fzero fzero fzero fzero)) ! k p = case_prod grid_vertex p"
  proof (rule fold_update_nth [OF _ distinct_pairs])
    show "inj_on k (set (pairs grid_size grid_size))"
    proof (rule inj_onI)
      fix p q assume pq: "p \<in> set (pairs grid_size grid_size)" "q \<in> set (pairs grid_size grid_size)" "k p = k q"
      then have "fst p < 16" "fst q < 16" unfolding set_pairs by (auto simp: grid_size_def)
      moreover have "snd p * 16 + fst p = snd q * 16 + fst q" using pq(3) by (auto simp: k_def grid_size_def split: prod.splits)
      ultimately have "snd p = snd q \<and> fst p = fst q"
        using grid_coords [of "fst p" "snd p"] grid_coords [of "fst q" "snd q"] by metis
      then show "p = q" by (simp add: prod_eq_iff)
    qed
    show "\<forall>p \<in> set (pairs grid_size grid_size).
        k p < length (replicate (grid_size * grid_size) (PTV fzero fzero fzero fzero fzero))"
      unfolding set_pairs by (auto simp: k_def row_index)
  qed
  moreover have "(x, y) \<in> set (pairs grid_size grid_size)" unfolding set_pairs using xy by simp
  ultimately show ?thesis unfolding Grid_vertices_def by (auto simp: k_def case_prod_unfold)
qed

lemma length_concat_pairs:
  "length (concat (map (\<lambda>p. if P p then [f p, g p] else []) ps)) = 2 * length (filter P ps)"
  by (induction ps) simp_all

lemma grid_triangle_count: "length (triangles Grid_indices) = 2 * (15 * 15)"
proof -
  have s: "set (filter (\<lambda>p. fst p < 15 \<and> snd p < 15) (pairs grid_size grid_size)) = {0..<15} \<times> {0..<15}"
    unfolding set_filter set_pairs by (auto simp: grid_size_def)
  have "length (filter (\<lambda>p. fst p < 15 \<and> snd p < 15) (pairs grid_size grid_size)) = card ({0..<15 :: nat} \<times> {0..<15 :: nat})"
    unfolding s [symmetric] by (rule distinct_card [symmetric]) (rule distinct_filter [OF distinct_pairs])
  then show ?thesis
    unfolding grid_triangles case_prod_unfold grid_cell_triangles length_concat_pairs by simp
qed

text \<open>The grid's vertex of row \<open>y\<close> and column \<open>x\<close> is at index \<open>16 y + x\<close>; every cell has exactly
  two triangles, all of one orientation and each half a cell, with indices inside the vertices.\<close>

lemma grid_mesh:
  "list_all (\<lambda>(x, y). Grid_vertices ! (y * 16 + x) = grid_vertex x y) (pairs 16 16) \<and>
   list_all (\<lambda>(a, b, c). max a (max b c) < 256 \<and> grid_winding (a, b, c) = 1) (triangles Grid_indices) \<and>
   length (triangles Grid_indices) = 2 * (15 * 15)"
proof -
  have "list_all (\<lambda>(x, y). Grid_vertices ! (y * 16 + x) = grid_vertex x y) (pairs 16 16)"
    unfolding list_all_iff set_pairs using Grid_vertices_nth by (auto simp: grid_size_def)
  moreover have "list_all (\<lambda>(a, b, c). max a (max b c) < 256 \<and> grid_winding (a, b, c) = 1) (triangles Grid_indices)"
  proof -
    have "max a (max b c) < 256 \<and> grid_winding (a, b, c) = 1"
      if t: "(a, b, c) \<in> set (triangles (grid_cell x y))" for x y a b c
    proof -
      have xy: "x < 15" "y < 15" using t by (auto simp: grid_cell_triangles split: if_splits)
      then have "max a (max b c) < 256" using t by (auto simp: grid_cell_triangles)
      then show ?thesis using grid_cell_winding [OF xy(1) t] by simp
    qed
    then show ?thesis unfolding grid_triangles list_all_iff by fastforce
  qed
  ultimately show ?thesis using grid_triangle_count by blast
qed


subsection \<open>Cube lists\<close>

lemma CubeList_snoc: "CubeList_Create (pts @ [pt]) sz c = add_cube sz pt (CubeList_Create pts sz c)"
  by (simp add: CubeList_Create_def)

lemma CubeList_length:
  "length (cl_vertices (CubeList_Create pts sz c)) = length (cl_vertices c) + 24 * length pts \<and>
   length (cl_indices (CubeList_Create pts sz c)) = length (cl_indices c) + 36 * length pts"
  by (induction pts rule: rev_induct) (simp_all add: CubeList_snoc add_cube_def Let_def, simp add: CubeList_Create_def)

lemma cube_table_bound: "j < 36 \<Longrightarrow> s_cubeIndices ! j < 24"
proof -
  have "list_all (\<lambda>i. i < 24) s_cubeIndices" by code_simp
  then show "j < 36 \<Longrightarrow> s_cubeIndices ! j < 24" by (simp add: list_all_length)
qed

lemma CubeList_cubes:
  assumes "24 * length pts < 2 ^ 32" and "k < length pts"
  shows "(\<forall>j < 24. cl_vertices (CubeList_Create pts sz \<lparr>cl_vertices = [], cl_indices = []\<rparr>) ! (24 * k + j) =
      place_vertex sz (pts ! k) (s_cubeVertices ! j)) \<and>
    (\<forall>j < 36. unat (cl_indices (CubeList_Create pts sz \<lparr>cl_vertices = [], cl_indices = []\<rparr>) ! (36 * k + j)) =
      24 * k + s_cubeIndices ! j)"
  using assms
proof (induction pts rule: rev_induct)
  case (snoc pt pts)
  define c where "c = CubeList_Create pts sz \<lparr>cl_vertices = [], cl_indices = []\<rparr>"
  have l: "length (cl_vertices c) = 24 * length pts" "length (cl_indices c) = 36 * length pts"
    using CubeList_length [of pts sz] by (simp_all add: c_def)
  have s: "CubeList_Create (pts @ [pt]) sz \<lparr>cl_vertices = [], cl_indices = []\<rparr> = add_cube sz pt c"
    by (simp add: CubeList_snoc c_def)
  show ?case
  proof (cases "k < length pts")
    case True
    then have IH: "\<forall>j < 24. cl_vertices c ! (24 * k + j) = place_vertex sz (pts ! k) (s_cubeVertices ! j)"
      "\<forall>j < 36. unat (cl_indices c ! (36 * k + j)) = 24 * k + s_cubeIndices ! j"
      using snoc.IH snoc.prems by (simp_all add: c_def)
    have "24 * k + j < 24 * length pts" if "j < 24" for j using True that by simp
    moreover have "36 * k + j < 36 * length pts" if "j < 36" for j using True that by simp
    ultimately show ?thesis using IH True unfolding s by (simp add: add_cube_def Let_def nth_append l)
  next
    case False
    then have k: "k = length pts" using snoc.prems(2) by simp
    have "unat ((word_of_nat (s_cubeIndices ! j) :: u32) + word_of_nat (24 * length pts)) = 24 * length pts + s_cubeIndices ! j"
      if "j < 36" for j
    proof -
      have "s_cubeIndices ! j + 24 * length pts < 2 ^ 32" using cube_table_bound [OF that] snoc.prems(1) by simp
      then have "unat (word_of_nat (s_cubeIndices ! j + 24 * length pts) :: u32) = s_cubeIndices ! j + 24 * length pts"
        by (simp only: unat_of_nat) (simp add: take_bit_nat_eq_self)
      then show ?thesis by (simp only: of_nat_add)
    qed
    then show ?thesis unfolding s by (simp add: add_cube_def Let_def nth_append l k)
  qed
qed simp

text \<open>C24: A cube list made of \<open>n\<close> points has 24 vertices and 36 indices per point; as long as the
  vertices number less than \<open>2 ^ 32\<close>, the indices of the k-th cube address exactly its own
  24 vertices, which are the table's vertices scaled and moved to the k-th point.\<close>

theorem cube_list_indices:
  assumes "24 * length pts < 2 ^ 32" and "k < length pts"
  shows "length (cl_vertices (CubeList_Create pts sz \<lparr>cl_vertices = [], cl_indices = []\<rparr>)) = 24 * length pts \<and>
    length (cl_indices (CubeList_Create pts sz \<lparr>cl_vertices = [], cl_indices = []\<rparr>)) = 36 * length pts \<and>
    (\<forall>j < 24. cl_vertices (CubeList_Create pts sz \<lparr>cl_vertices = [], cl_indices = []\<rparr>) ! (24 * k + j) =
      place_vertex sz (pts ! k) (s_cubeVertices ! j)) \<and>
    (\<forall>j < 36. unat (cl_indices (CubeList_Create pts sz \<lparr>cl_vertices = [], cl_indices = []\<rparr>) ! (36 * k + j)) =
      24 * k + s_cubeIndices ! j \<and> 24 * k + s_cubeIndices ! j < 24 * length pts)"
proof -
  have "24 * k + s_cubeIndices ! j < 24 * length pts" if "j < 36" for j
    using cube_table_bound [OF that] assms(2) by simp
  then show ?thesis using CubeList_cubes [OF assms, of sz] CubeList_length [of pts sz] by simp
qed

lemma cube_list_indices_witness:
  "unat (cl_indices (CubeList_Create [vzero, vzero] fone \<lparr>cl_vertices = [], cl_indices = []\<rparr>) ! 39) = 25"
  using conjunct2 [OF conjunct2 [OF conjunct2 [OF cube_list_indices [of "[vzero, vzero]" 1 fone]]]]
  by (auto dest!: spec [of _ 3] simp: s_cubeIndices_def)

end
