(* ===== verification/OctGrid.thy ===== *)
theory OctGrid
  imports SqPrelude
begin

text \<open>
  The dense voxel grid \<open>Grid<D, C, T>\<close> of \<open>src/core/OctGrid.h\<close> for \<open>D = 3\<close>: the side \<open>C\<close> is a power
  of two, the data are allocated on first use and filled with the empty value. \<open>e\<close> is that
  value, and an access outside the allocation is undefined (\<open>None\<close>).
\<close>

fun Log2C :: "nat \<Rightarrow> nat" where
  "Log2C n = (if n < 2 then 0 else 1 + Log2C (n div 2))"

declare Log2C.simps [simp del]

definition IsPower2C :: "nat \<Rightarrow> bool" where
  "IsPower2C v \<longleftrightarrow> v \<noteq> 0 \<and> v AND (v - 1) = 0"

definition GRIDSIZE :: "nat \<Rightarrow> nat" where
  "GRIDSIZE C = C ^ 3"

record 'v grid =
  grid_data :: "'v list option"

definition Grid_new :: "'v grid" where
  "Grid_new = \<lparr>grid_data = None\<rparr>"

definition EnsureData :: "'v \<Rightarrow> nat \<Rightarrow> 'v grid \<Rightarrow> 'v grid" where
  "EnsureData e C g = (case grid_data g of None \<Rightarrow> g\<lparr>grid_data := Some (replicate (GRIDSIZE C) e)\<rparr> | Some _ \<Rightarrow> g)"

definition SetAllValues :: "'v \<Rightarrow> nat \<Rightarrow> 'v \<Rightarrow> 'v grid \<Rightarrow> 'v grid" where
  "SetAllValues e C v g = (EnsureData e C g)\<lparr>grid_data := Some (replicate (GRIDSIZE C) v)\<rparr>"

definition Grid_of :: "'v \<Rightarrow> nat \<Rightarrow> 'v \<Rightarrow> 'v grid" where
  "Grid_of e C v = SetAllValues e C v \<lparr>grid_data = Some (replicate (GRIDSIZE C) e)\<rparr>"

text \<open>The code compares the bytes of two values with \<open>memcmp\<close>; here values are equal or not, so the type of the
  values has to have one representation of each and no padding.\<close>

definition ValIsEmpty :: "'v \<Rightarrow> 'v \<Rightarrow> bool" where
  "ValIsEmpty e v \<longleftrightarrow> v = e"

definition HasVal :: "'v \<Rightarrow> 'v \<Rightarrow> bool" where
  "HasVal e v \<longleftrightarrow> v \<noteq> e"

definition IsEmpty :: "'v \<Rightarrow> 'v grid \<Rightarrow> bool" where
  "IsEmpty e g \<longleftrightarrow> (case grid_data g of None \<Rightarrow> True | Some d \<Rightarrow> list_all (ValIsEmpty e) d)"

definition Clear :: "'v grid \<Rightarrow> 'v grid" where
  "Clear g = g\<lparr>grid_data := None\<rparr>"

definition IDX :: "nat \<Rightarrow> u32 \<Rightarrow> u32 \<Rightarrow> u32 \<Rightarrow> u32" where
  "IDX C x y z = (z * of_nat C * of_nat C) + (y * of_nat C) + x"

definition XYZ :: "nat \<Rightarrow> u32 \<Rightarrow> u32 \<times> u32 \<times> u32" where
  "XYZ C idx = (let CS = Log2C C in
     (idx AND (of_nat C - 1), drop_bit CS idx AND (of_nat C - 1), drop_bit (CS * 2) idx AND (of_nat C - 1)))"

text \<open>\<open>operator[]\<close>, and \<open>Val\<close> as a read and as a write.\<close>

definition grid_at :: "'v \<Rightarrow> nat \<Rightarrow> int \<Rightarrow> 'v grid \<Rightarrow> ('v \<times> 'v grid) option" where
  "grid_at e C X g =
     (let g = EnsureData e C g in do { v \<leftarrow> iget (the (grid_data g)) X; Some (v, g) })"

definition Val_get :: "'v \<Rightarrow> nat \<Rightarrow> u32 \<Rightarrow> u32 \<Rightarrow> u32 \<Rightarrow> 'v grid \<Rightarrow> ('v \<times> 'v grid) option" where
  "Val_get e C X Y Z g =
     (let g = EnsureData e C g in do { v \<leftarrow> aget (the (grid_data g)) (unat (IDX C X Y Z)); Some (v, g) })"

definition Val_set :: "'v \<Rightarrow> nat \<Rightarrow> u32 \<Rightarrow> u32 \<Rightarrow> u32 \<Rightarrow> 'v \<Rightarrow> 'v grid \<Rightarrow> 'v grid option" where
  "Val_set e C X Y Z v g =
     (let g = EnsureData e C g in do { d \<leftarrow> aset (the (grid_data g)) (unat (IDX C X Y Z)) v; Some (g\<lparr>grid_data := Some d\<rparr>) })"

subsection \<open>Indices\<close>

lemma Log2C_power [simp]: "Log2C (2 ^ k) = k"
proof (induction k)
  case 0
  show ?case by (simp add: Log2C.simps)
next
  case (Suc k)
  have "\<not> (2 :: nat) ^ Suc k < 2" by (simp add: not_less)
  then show ?case using Suc by (subst Log2C.simps) simp
qed

definition in_grid :: "nat \<Rightarrow> u32 \<times> u32 \<times> u32 \<Rightarrow> bool" where
  "in_grid k = (\<lambda>(x, y, z). unat x < 2 ^ k \<and> unat y < 2 ^ k \<and> unat z < 2 ^ k)"

lemma cell_bound:
  fixes c x y z :: nat
  assumes "x < c" "y < c" "z < c"
  shows "z * c * c + y * c + x < c ^ 3"
proof -
  have "y * c + x < c * c" using row_index [OF assms(1,2)] by simp
  then have "z * (c * c) + (y * c + x) < c * (c * c)" using row_index [of "y * c + x" "c * c" z c] assms(3) by simp
  then show ?thesis by (simp add: power3_eq_cube mult.assoc)
qed

lemma unat_IDX:
  assumes "3 * k \<le> 32" and "in_grid k (x, y, z)"
  shows "unat (IDX (2 ^ k) x y z) = unat z * 2 ^ k * 2 ^ k + unat y * 2 ^ k + unat x"
    and "unat (IDX (2 ^ k) x y z) < GRIDSIZE (2 ^ k)"
proof -
  define n where "n = unat z * 2 ^ k * 2 ^ k + unat y * 2 ^ k + unat x"
  have "n < (2 ^ k) ^ 3" using assms(2) by (auto simp: n_def in_grid_def intro!: cell_bound)
  also have "\<dots> = (2 :: nat) ^ (3 * k)" by (simp add: power_mult [symmetric] mult.commute)
  finally have n: "n < 2 ^ (3 * k)" .
  also have "(2 :: nat) ^ (3 * k) \<le> 2 ^ 32" using assms(1) by (intro power_increasing) simp_all
  finally have "unat (word_of_nat n :: u32) = n" by (simp add: unat_of_nat take_bit_nat_eq_self)
  moreover have "IDX (2 ^ k) x y z = word_of_nat n"
    by (simp add: IDX_def n_def)
  ultimately show u: "unat (IDX (2 ^ k) x y z) = n" by simp
  then show "unat (IDX (2 ^ k) x y z) < GRIDSIZE (2 ^ k)"
    using n by (simp add: GRIDSIZE_def power_mult [symmetric] mult.commute)
qed

lemma mask_word: "(of_nat (2 ^ k) - 1 :: u32) = mask k"
  by (simp add: mask_eq_exp_minus_1)

lemma XYZ_power: "XYZ (2 ^ k) idx = (take_bit k idx, take_bit k (drop_bit k idx), take_bit k (drop_bit (k * 2) idx))"
  unfolding XYZ_def Let_def Log2C_power mask_word by (simp add: take_bit_eq_mask)

lemma unat_take_bit: "unat (take_bit k (w :: u32)) = unat w mod 2 ^ k"
  unfolding unsigned_take_bit_eq by (rule take_bit_eq_mod)

lemma digits:
  fixes c x y z :: nat
  assumes "x < c" "y < c" "z < c"
  shows "(z * c * c + y * c + x) mod c = x" "(z * c * c + y * c + x) div c mod c = y"
    "(z * c * c + y * c + x) div (c * c) mod c = z"
proof -
  have e: "z * c * c + y * c + x = (z * c + y) * c + x" by (simp add: algebra_simps)
  show "(z * c * c + y * c + x) mod c = x" using assms(1) by (simp add: e)
  have d: "(z * c * c + y * c + x) div c = z * c + y" using assms(1) by (simp add: e)
  show "(z * c * c + y * c + x) div c mod c = y" using assms(2) by (simp add: d)
  show "(z * c * c + y * c + x) div (c * c) mod c = z"
    using assms(2,3) by (simp add: div_mult2_eq d)
qed

lemma XYZ_IDX:
  assumes "3 * k \<le> 32" and "in_grid k (x, y, z)"
  shows "XYZ (2 ^ k) (IDX (2 ^ k) x y z) = (x, y, z)"
proof -
  have b: "unat x < 2 ^ k" "unat y < 2 ^ k" "unat z < 2 ^ k" using assms(2) by (simp_all add: in_grid_def)
  have p: "(2 :: nat) ^ (k * 2) = 2 ^ k * 2 ^ k" by (simp add: power_add [symmetric] mult_2_right)
  show ?thesis
    unfolding XYZ_power using digits [OF b] unat_IDX(1) [OF assms]
    by (auto simp: word_unat_eq_iff unat_take_bit unat_drop_bit p)
qed

text \<open>Cell indices are a bijection: for a side of \<open>2 ^ k\<close> with \<open>3 k \<le> 32\<close>, \<open>XYZ\<close> inverts \<open>IDX\<close>
  on the cells of the grid, whose indices are below \<open>GRIDSIZE\<close>, and \<open>IDX\<close> inverts \<open>XYZ\<close> on the
  indices below \<open>GRIDSIZE\<close>, whose cells are in the grid.\<close>

theorem grid_index_roundtrip:
  assumes "3 * k \<le> 32"
  shows "(in_grid k (x, y, z) \<longrightarrow> XYZ (2 ^ k) (IDX (2 ^ k) x y z) = (x, y, z) \<and> unat (IDX (2 ^ k) x y z) < GRIDSIZE (2 ^ k)) \<and>
    (unat i < GRIDSIZE (2 ^ k) \<longrightarrow> in_grid k (XYZ (2 ^ k) i) \<and> (case XYZ (2 ^ k) i of (a, b, c) \<Rightarrow> IDX (2 ^ k) a b c = i))"
proof -
  obtain a b c where abc: "XYZ (2 ^ k) i = (a, b, c)" by (cases "XYZ (2 ^ k) i")
  have g: "in_grid k (a, b, c)"
    using abc unfolding XYZ_power by (auto simp: in_grid_def unat_take_bit)
  have p: "(2 :: nat) ^ (k * 2) = 2 ^ k * 2 ^ k" by (simp add: power_add [symmetric] mult_2_right)
  have "IDX (2 ^ k) a b c = i" if i: "unat i < GRIDSIZE (2 ^ k)"
  proof -
    define n where "n = unat i"
    have u: "unat a = n mod 2 ^ k" "unat b = n div 2 ^ k mod 2 ^ k" "unat c = n div (2 ^ k * 2 ^ k) mod 2 ^ k"
      using abc unfolding XYZ_power by (auto simp: unat_take_bit unat_drop_bit p n_def)
    have "n div (2 ^ k * 2 ^ k) < 2 ^ k"
      using i by (simp add: n_def GRIDSIZE_def power3_eq_cube less_mult_imp_div_less mult.assoc)
    then have "unat c = n div 2 ^ k div 2 ^ k" by (simp add: u div_mult2_eq)
    then have "unat c * 2 ^ k * 2 ^ k + unat b * 2 ^ k + unat a = n"
      using u(1,2) mod_div_mult_eq [of "n div 2 ^ k" "2 ^ k"] mod_div_mult_eq [of n "2 ^ k"]
      by (metis add.commute distrib_right)
    then show ?thesis using unat_IDX(1) [OF assms g] by (simp add: word_unat_eq_iff n_def)
  qed
  then show ?thesis using XYZ_IDX [OF assms] unat_IDX(2) [OF assms] g abc by auto
qed

subsection \<open>Values\<close>

definition grid_wf :: "nat \<Rightarrow> 'v grid \<Rightarrow> bool" where
  "grid_wf C g \<longleftrightarrow> (\<forall>d. grid_data g = Some d \<longrightarrow> length d = GRIDSIZE C)"

text \<open>The abstract contents: the value of a cell, empty while nothing is allocated.\<close>

definition grid_abs :: "'v \<Rightarrow> 'v grid \<Rightarrow> nat \<Rightarrow> 'v" where
  "grid_abs e g i = (case grid_data g of None \<Rightarrow> e | Some d \<Rightarrow> d ! i)"

lemma EnsureData_facts:
  assumes "grid_wf C g"
  shows "\<exists>d. grid_data (EnsureData e C g) = Some d \<and> length d = GRIDSIZE C \<and> (\<forall>i < GRIDSIZE C. d ! i = grid_abs e g i)"
  using assms by (cases "grid_data g") (auto simp: EnsureData_def grid_wf_def grid_abs_def)

text \<open>C23: The grid implements a function from cells to values: a fresh grid is empty everywhere,
  a read gives the abstract value of its cell and changes none, a write changes exactly its
  cell, and \<open>IsEmpty\<close> says that every cell is empty, allocated or not.\<close>

theorem grid_refines_map:
  assumes wf: "grid_wf (2 ^ k) g" and k: "3 * k \<le> 32" and c: "in_grid k (x, y, z)"
  shows "grid_abs e Grid_new = (\<lambda>_. e) \<and>
    (\<exists>g'. Val_get e (2 ^ k) x y z g = Some (grid_abs e g (unat (IDX (2 ^ k) x y z)), g') \<and> grid_wf (2 ^ k) g' \<and>
      (\<forall>i < GRIDSIZE (2 ^ k). grid_abs e g' i = grid_abs e g i)) \<and>
    (\<exists>g'. Val_set e (2 ^ k) x y z v g = Some g' \<and> grid_wf (2 ^ k) g' \<and>
      (\<forall>i < GRIDSIZE (2 ^ k). grid_abs e g' i = (if i = unat (IDX (2 ^ k) x y z) then v else grid_abs e g i))) \<and>
    (IsEmpty e g \<longleftrightarrow> (\<forall>i < GRIDSIZE (2 ^ k). grid_abs e g i = e))"
proof -
  define i where "i = unat (IDX (2 ^ k) x y z)"
  have i: "i < GRIDSIZE (2 ^ k)" using unat_IDX(2) [OF k c] by (simp add: i_def)
  define g' where "g' = EnsureData e (2 ^ k) g"
  obtain d where d: "grid_data g' = Some d" "length d = GRIDSIZE (2 ^ k)" "\<forall>i < GRIDSIZE (2 ^ k). d ! i = grid_abs e g i"
    using EnsureData_facts [OF wf, of e] by (auto simp: g'_def)
  have "Val_get e (2 ^ k) x y z g = Some (grid_abs e g i, g')"
    using d i by (simp add: Val_get_def Let_def g'_def [symmetric] i_def [symmetric] aget_def)
  moreover have "grid_wf (2 ^ k) g' \<and> (\<forall>i < GRIDSIZE (2 ^ k). grid_abs e g' i = grid_abs e g i)"
    using d by (simp add: grid_wf_def) (simp add: grid_abs_def)
  moreover have "Val_set e (2 ^ k) x y z v g = Some (g'\<lparr>grid_data := Some (d[i := v])\<rparr>)"
    using d i by (simp add: Val_set_def Let_def g'_def [symmetric] i_def [symmetric] aset_def)
  moreover have "grid_wf (2 ^ k) (g'\<lparr>grid_data := Some (d[i := v])\<rparr>) \<and>
      (\<forall>j < GRIDSIZE (2 ^ k). grid_abs e (g'\<lparr>grid_data := Some (d[i := v])\<rparr>) j = (if j = i then v else grid_abs e g j))"
    using d by (simp add: grid_wf_def) (simp add: grid_abs_def nth_list_update)
  moreover have "IsEmpty e g \<longleftrightarrow> (\<forall>i < GRIDSIZE (2 ^ k). grid_abs e g i = e)"
    using wf by (cases "grid_data g") (auto simp: IsEmpty_def grid_wf_def grid_abs_def ValIsEmpty_def list_all_length)
  ultimately show ?thesis by (auto simp: i_def grid_abs_def Grid_new_def)
qed

lemma grid_refines_map_witness:
  "\<exists>g'. Val_set (0 :: nat) (2 ^ 4) 1 2 3 7 Grid_new = Some g' \<and> grid_abs 0 g' (unat (IDX (2 ^ 4) 1 2 3)) = 7"
  using grid_refines_map [of 4 "Grid_new :: nat grid" 1 2 3 0 7] unat_IDX(2) [of 4 1 2 3]
  by (auto simp: grid_wf_def Grid_new_def in_grid_def)

end
