(* ===== verification/GmtlInv.thy ===== *)
theory GmtlInv
  imports GmtlMat Bytes
begin

text \<open>
  The rest of the math library the camera needs: projection matrices
  (\<open>src/core/gmtl/Generate.h\<close>), rotation of a vector by a quaternion (\<open>Xforms.h\<close>), transposition
  and the inversion that is chosen by the transform state (\<open>MatrixOps.h\<close>). \<open>tan\<close> of the C
  library is an argument.
\<close>

subsection \<open>Generators\<close>

text \<open>\<open>Matrix::set\<close> takes the elements row by row.\<close>

definition mat_set :: "fp list \<Rightarrow> matrix" where
  "mat_set rows = \<lparr>mData = mat_of (\<lambda>r c. rows ! (r * 4 + c)), mState = st_FULL\<rparr>"

definition PI :: fp where
  "PI = flit F32 (314159265358979323846 / 10 ^ 20)"

definition two :: fp where
  "two = Fin False 2"

definition setFrustum :: "fp \<Rightarrow> fp \<Rightarrow> fp \<Rightarrow> fp \<Rightarrow> fp \<Rightarrow> fp \<Rightarrow> matrix" where
  "setFrustum left tp right bottom nr fr = \<lparr>mData =
     [divf (mulf two nr) (subf right left), fzero, fzero, fzero,
      fzero, divf (mulf two nr) (subf tp bottom), fzero, fzero,
      divf (addf right left) (subf right left), divf (addf tp bottom) (subf tp bottom), divf (fneg (addf fr nr)) (subf fr nr), fneg fone,
      fzero, fzero, divf (fneg (mulf (mulf two fr) nr)) (subf fr nr), fzero], mState = st_FULL\<rparr>"

text \<open>\<open>setOrtho\<close> leaves the transform state as it is.\<close>

definition setOrtho :: "fp \<Rightarrow> fp \<Rightarrow> fp \<Rightarrow> fp \<Rightarrow> fp \<Rightarrow> fp \<Rightarrow> matrix \<Rightarrow> matrix" where
  "setOrtho left tp right bottom nr fr m =
     (let rl_inv = divf fone (subf right left); tb_inv = divf fone (subf tp bottom); nf_inv = divf fone (subf fr nr)
      in m\<lparr>mData :=
        [mulf two rl_inv, fzero, fzero, fzero,
         fzero, mulf two tb_inv, fzero, fzero,
         fzero, fzero, mulf (fneg two) nf_inv, fzero,
         mulf (fneg (addf right left)) rl_inv, mulf (fneg (addf tp bottom)) tb_inv, mulf (fneg (addf fr nr)) nf_inv, fone]\<rparr>)"

definition deg2Rad :: "fp \<Rightarrow> fp" where
  "deg2Rad v = mulf v (fcvt F32 (fdiv F64 PI (f_of_int F64 180)))"

definition setPerspective :: "(fp \<Rightarrow> fp) \<Rightarrow> fp \<Rightarrow> fp \<Rightarrow> fp \<Rightarrow> fp \<Rightarrow> matrix" where
  "setPerspective tanf fovy aspect nr fr =
     (let theta = deg2Rad (mulf fovy (flit F32 (1 / 2))); tangentTheta = tanf theta;
          tp = mulf tangentTheta nr; right = mulf tp aspect
      in setFrustum (fneg right) tp right (fneg tp) nr fr)"

subsection \<open>Rotating a vector\<close>

definition xform_quat :: "quat \<Rightarrow> vec3 \<Rightarrow> vec3" where
  "xform_quat rot v =
     (let cx = fneg (qx rot); cy = fneg (qy rot); cz = fneg (qz rot); cw = qw rot;
          px = vx v; py = vy v; pz = vz v; pw = fzero;
          tx = subf (addf (addf (mulf pw cx) (mulf px cw)) (mulf py cz)) (mulf pz cy);
          ty = subf (addf (addf (mulf pw cy) (mulf py cw)) (mulf pz cx)) (mulf px cz);
          tz = subf (addf (addf (mulf pw cz) (mulf pz cw)) (mulf px cy)) (mulf py cx);
          tw = subf (subf (subf (mulf pw cw) (mulf px cx)) (mulf py cy)) (mulf pz cz)
      in V3 (subf (addf (addf (mulf (qw rot) tx) (mulf (qx rot) tw)) (mulf (qy rot) tz)) (mulf (qz rot) ty))
            (subf (addf (addf (mulf (qw rot) ty) (mulf (qy rot) tw)) (mulf (qz rot) tx)) (mulf (qx rot) tz))
            (subf (addf (addf (mulf (qw rot) tz) (mulf (qz rot) tw)) (mulf (qx rot) ty)) (mulf (qy rot) tx)))"

subsection \<open>Inversion\<close>

definition transpose_mat :: "matrix \<Rightarrow> matrix" where
  "transpose_mat m = m\<lparr>mData := mat_of (\<lambda>r c. mat_at m c r)\<rparr>"

definition invertTrans :: "matrix \<Rightarrow> matrix" where
  "invertTrans src = fold (\<lambda>x m. mat_upd x 3 (fneg (mat_at m x 3)) m) [0..<3] src"

definition invertOrthogonal :: "matrix \<Rightarrow> matrix" where
  "invertOrthogonal src = src\<lparr>mData := mat_of (\<lambda>i j. mat_at src j i)\<rparr>"

text \<open>The inverse of the squared scale of a row, unless it is next to zero.\<close>

definition inv_eps :: "fp \<Rightarrow> fp" where
  "inv_eps l = (if flt (flit F32 (1 / 10 ^ 8)) (ffabs l) then divf fone l else l)"

definition scale_row :: "nat \<Rightarrow> fp \<Rightarrow> matrix \<Rightarrow> matrix" where
  "scale_row x l m = fold (\<lambda>y m. mat_upd x y (mulf (mat_at m x y) l) m) [0..<3] m"

definition row_lengthSquared :: "matrix \<Rightarrow> nat \<Rightarrow> fp" where
  "row_lengthSquared m x = vlengthSquared (V3 (mat_at m x 0) (mat_at m x 1) (mat_at m x 2))"

definition invertAffine :: "matrix \<Rightarrow> matrix \<Rightarrow> matrix" where
  "invertAffine result src =
     (let m = fold (\<lambda>(x, y) m. mat_upd x y (mat_at src y x) m) (pairs 3 3) result;
          m = (if (mState src) AND st_NON_UNISCALE \<noteq> 0 then
                 scale_row 2 (inv_eps (row_lengthSquared m 2))
                   (scale_row 1 (inv_eps (row_lengthSquared m 1))
                     (scale_row 0 (inv_eps (row_lengthSquared m 0)) m))
               else m);
          m = mat_upd 3 0 fzero (mat_upd 3 1 fzero (mat_upd 3 2 fzero m));
          tx = mat_at src 0 3; ty = mat_at src 1 3; tz = mat_at src 2 3;
          tw = (if flt (flit F32 (1 / 10 ^ 8)) (ffabs (mat_at src 3 3)) then divf fone (mat_at src 3 3) else fzero);
          m = fold (\<lambda>x m. mat_upd x 3
                (mulf (fneg (addf (addf (mulf (mat_at m x 0) tx) (mulf (mat_at m x 1) ty)) (mulf (mat_at m x 2) tz))) tw) m) [0..<3] m
      in (mat_upd 3 3 tw m)\<lparr>mState := mState src\<rparr>)"

text \<open>Gauss-Jordan with full pivoting on the 4x8 working matrix. \<open>row\<close> and \<open>col\<close> mark what was
  chosen; without an eligible element the pivot stays at (0, 0).\<close>

definition wat :: "fp list \<Rightarrow> nat \<Rightarrow> nat \<Rightarrow> fp" where
  "wat m i j = m ! (i * 8 + j)"

definition choose_pivot :: "fp list \<Rightarrow> bool list \<Rightarrow> bool list \<Rightarrow> nat \<times> nat" where
  "choose_pivot m row col = snd (fold (\<lambda>(i, j) (max_m, rc).
       if row ! i \<or> col ! j then (max_m, rc)
       else let tmp_m = ffabs (wat m i j) in if flt max_m tmp_m then (tmp_m, (i, j)) else (max_m, rc))
     (pairs 4 4) (fzero, (0, 0)))"

definition normalize_pivot_row :: "nat \<Rightarrow> nat \<Rightarrow> fp list \<Rightarrow> fp list" where
  "normalize_pivot_row r c m =
     (let pivot = wat m r c
      in fold (\<lambda>j m. m[r * 8 + j := (if j = c then fone else divf (wat m r j) pivot)]) [0..<8] m)"

definition reduce_row :: "nat \<Rightarrow> nat \<Rightarrow> nat \<Rightarrow> fp list \<Rightarrow> fp list" where
  "reduce_row r c i m =
     (let fac = wat m i c
      in fold (\<lambda>j m. m[i * 8 + j := (if j = c then fzero else subf (wat m i j) (mulf fac (wat m r j)))]) [0..<8] m)"

record inv_state =
  work :: "fp list"
  used_row :: "bool list"
  used_col :: "bool list"
  pivots :: "(nat \<times> nat) list"

definition pivot_step :: "inv_state \<Rightarrow> inv_state option" where
  "pivot_step s =
     (let (r, c) = choose_pivot (work s) (used_row s) (used_col s); m = work s
      in if fle (ffabs (wat m r c)) (flit F64 (1 / 10 ^ 20)) then None
         else let m = normalize_pivot_row r c m;
                  m = fold (\<lambda>i m. if i = r then m else reduce_row r c i m) [0..<4] m
              in Some \<lparr>work = m, used_row = (used_row s)[r := True], used_col = (used_col s)[c := True],
                   pivots = pivots s @ [(r, c)]\<rparr>)"

text \<open>At the end row \<open>i\<close> of the inverse is the right half of the last row whose pivot column is \<open>i\<close>;
  without one, the marker 1 that \<open>row[i]\<close> or the 0 it started with would be used as the index.\<close>

definition inverse_row :: "inv_state \<Rightarrow> nat \<Rightarrow> nat" where
  "inverse_row s i = fold (\<lambda>(r, c) acc. if c = i then r else acc) (pivots s) (if used_row s ! i then 1 else 0)"

definition invertFull_orig :: "matrix \<Rightarrow> matrix \<Rightarrow> matrix" where
  "invertFull_orig result src =
     (let m = map (\<lambda>(i, j). if j < 4 then mData src ! (i * 4 + j) else if j = i + 4 then fone else fzero) (pairs 4 8)
      in case ofold (\<lambda>_. pivot_step) [0..<4] \<lparr>work = m, used_row = replicate 4 False, used_col = replicate 4 False, pivots = []\<rparr> of
           None \<Rightarrow> result\<lparr>mState := mState result OR st_XFORM_ERROR\<rparr>
         | Some s \<Rightarrow> result\<lparr>mData := map (\<lambda>(i, j). wat (work s) (inverse_row s i) (j + 4)) (pairs 4 4), mState := mState src\<rparr>)"

definition invert_mat :: "matrix \<Rightarrow> matrix \<Rightarrow> matrix" where
  "invert_mat result src =
     (if mState src = st_IDENTITY then src
      else if mState src = st_TRANS then invertTrans src
      else if mState src = st_ORTHOGONAL then invertOrthogonal src
      else if mState src = st_AFFINE \<or> mState src = st_AFFINE_NON_UNISCALE then invertAffine result src
      else invertFull_orig result src)"

subsection \<open>Finite floats\<close>

text \<open>A finite float of the format, its products with one and zero, and its sums.\<close>

definition fin_ok :: "fp \<Rightarrow> bool" where
  "fin_ok x \<longleftrightarrow> fp_ok F32 x \<and> x \<noteq> NaN \<and> \<not> isinf x"

lemma fin_ok_ex: "fin_ok x \<Longrightarrow> \<exists>s q. x = Fin s q \<and> 0 \<le> q \<and> (\<forall>t. fround F32 t q = Fin t q)"
  using fround_exact [of F32] by (cases x) (auto simp: fin_ok_def)

text \<open>A sum that starts from zero is never a negative zero.\<close>

definition plus0 :: "fp \<Rightarrow> fp" where
  "plus0 x = addf fzero x"

lemma fin_ok_arith:
  assumes "fin_ok x"
  shows "mulf fone x = x" "mulf x fone = x" "mulf (fneg x) fone = fneg x" "\<exists>s. mulf fzero x = Fin s 0" "\<exists>s. mulf x fzero = Fin s 0"
    "addf (plus0 x) (Fin t 0) = plus0 x" "addf (plus0 x) (fneg x) = fzero"
proof -
  obtain s q where x: "x = Fin s q" "0 \<le> q" "\<forall>t. fround F32 t q = Fin t q" using fin_ok_ex [OF assms] by blast
  show "mulf fone x = x" "mulf x fone = x" "mulf (fneg x) fone = fneg x" "\<exists>s. mulf fzero x = Fin s 0" "\<exists>s. mulf x fzero = Fin s 0"
    using x by (simp_all add: fone_def fzero_def)
  have p: "plus0 x = (if q = 0 then fzero else Fin s q)"
    using x by (cases s) (auto simp: plus0_def fzero_def Let_def sval_def)
  show "addf (plus0 x) (Fin t 0) = plus0 x"
    unfolding p using x(2,3) by (cases s) (auto simp: fzero_def Let_def sval_def)
  show "addf (plus0 x) (fneg x) = fzero"
    unfolding p using x(2) unfolding x(1) by (auto simp: fzero_def Let_def sval_def)
qed

lemma fround_one: "fround F32 s 1 = Fin s 1"
  by (rule fround_exact) (use representable_int [of 1 F32] in \<open>simp_all\<close>)

lemma plus0_zero [simp]: "addf fzero (Fin s 0) = fzero" "addf fzero fone = fone" "addf fone (Fin s 0) = fone" "mulf fone fone = fone"
  "mulf fzero fzero = fzero" "mulf fzero fone = fzero" "mulf fone fzero = fzero" "addf fzero fzero = fzero" "addf fone fzero = fone"
  by (simp_all add: fzero_def fone_def fround_one Let_def sval_def)

lemma plus0_simps: "plus0 (Fin s 0) = fzero" "plus0 fone = fone" "plus0 fzero = fzero"
  by (simp_all add: plus0_def)

lemma fin_ok_fneg [simp]: "fin_ok (fneg x) \<longleftrightarrow> fin_ok x"
  by (cases x) (simp_all add: fin_ok_def)

lemma inv_trans_mult:
  assumes "fin_ok a" "fin_ok b" "fin_ok c"
  shows "mult (invert_mat m (makeTrans (V3 a b c))) (makeTrans (V3 a b c)) = identity_matrix\<lparr>mState := st_TRANS\<rparr>"
proof -
  have u: "[0..<16] = [0,1,2,3,4,5,6,7,8,9,10,11,12,13,14,15::nat]" "[0..<4] = [0,1,2,3::nat]" "[0..<3] = [0,1,2::nat]" by code_simp+
  have z: "(\<exists>s. mulf fzero x = Fin s 0) \<and> (\<exists>s. mulf x fzero = Fin s 0)" if "fin_ok x" for x using fin_ok_arith(4,5) [OF that] by blast
  obtain s1 s2 s3 s4 s5 s6 where m: "mulf fzero a = Fin s1 0" "mulf fzero b = Fin s2 0" "mulf fzero c = Fin s3 0"
    "mulf (fneg a) fzero = Fin s4 0" "mulf (fneg b) fzero = Fin s5 0" "mulf (fneg c) fzero = Fin s6 0"
    using z [of a] z [of b] z [of c] z [of "fneg a"] z [of "fneg b"] z [of "fneg c"] assms by auto
  show ?thesis
    apply (simp add: makeTrans_def setTrans_def identity_matrix_def mat_of_def u mat_upd_def st_IDENTITY_def st_ORTHOGONAL_def st_TRANS_def st_NON_UNISCALE_def st_XFORM_ERROR_def invert_mat_def invertTrans_def mat_at_def mult_def combineMatrixStates_def)
    apply (simp add: fin_ok_arith assms m plus0_simps flip: plus0_def)
    done
qed
text \<open>Inverting a translation is exact: for finite offsets the inverse times the translation is the
  identity in float arithmetic, marked as a translation.\<close>

lemma invert_translation:
  assumes "fin_ok a" and "fin_ok b" and "fin_ok c"
  shows "mult (invert_mat m (makeTrans (V3 a b c))) (makeTrans (V3 a b c)) = identity_matrix\<lparr>mState := st_TRANS\<rparr>"
  using assms by (rule inv_trans_mult)

end
