(* ===== verification/Scene.thy ===== *)
theory Scene
  imports GmtlInv
begin

text \<open>
  The scene (\<open>src/core/SceneItem.cpp\<close>, \<open>SceneItem.h\<close>) and the engine that owns it
  (\<open>src/core/Engine.cpp\<close>): the camera with its two modes, the tree of scene items and how it is
  drawn, the animations and the cache of shader programs. What a leaf hands to the graphics
  library is an event with the context it saw. \<open>sin\<close>, \<open>cos\<close> and \<open>tan\<close> of the C library and
  the creation of a shader program are arguments.
\<close>

subsection \<open>The camera\<close>

record look_at =
  la_pos :: vec3
  la_dist :: fp
  la_dir :: vec2

record fly =
  fl_pos :: vec3
  fl_dir :: vec2

record camera =
  m_proj :: matrix
  m_view :: matrix
  m_aspect :: fp
  m_near :: fp
  m_far :: fp
  m_isPerspective :: bool
  cam_mode :: int
  m_lookat :: look_at
  m_fly :: fly

definition LookAt_new :: look_at where
  "LookAt_new = \<lparr>la_pos = vzero, la_dist = fone, la_dir = V2 fzero fzero\<rparr>"

definition Fly_new :: fly where
  "Fly_new = \<lparr>fl_pos = vzero, fl_dir = V2 fzero fzero\<rparr>"

text \<open>The aspect ratio is not initialised: \<open>junk\<close>.\<close>

definition Camera_new :: "fp \<Rightarrow> camera" where
  "Camera_new junk = \<lparr>m_proj = identity_matrix, m_view = identity_matrix, m_aspect = junk, m_near = flit F32 (2 / 1000),
     m_far = flit F32 25, m_isPerspective = True, cam_mode = 0, m_lookat = LookAt_new, m_fly = Fly_new\<rparr>"

definition SetNearFar :: "fp \<Rightarrow> fp \<Rightarrow> camera \<Rightarrow> camera" where
  "SetNearFar near far c = c\<lparr>m_near := near, m_far := far\<rparr>"

definition SetLookat :: "look_at \<Rightarrow> camera \<Rightarrow> camera" where
  "SetLookat la c = c\<lparr>m_lookat := la, cam_mode := 1\<rparr>"

definition SetFly :: "fly \<Rightarrow> camera \<Rightarrow> camera" where
  "SetFly f c = c\<lparr>m_fly := f, cam_mode := 0\<rparr>"

definition SetPerspectiveMatrix :: "fp \<Rightarrow> fp \<Rightarrow> camera \<Rightarrow> camera" where
  "SetPerspectiveMatrix near far c = c\<lparr>m_near := near, m_far := far, m_isPerspective := True\<rparr>"

definition SetOrthoMatrix :: "fp \<Rightarrow> camera \<Rightarrow> camera" where
  "SetOrthoMatrix sz c = c\<lparr>m_far := sz, m_isPerspective := False\<rparr>"

text \<open>The directions of a fly camera: forward turned by the two angles, then a right-handed frame.\<close>

definition Fly_GetDirs :: "(fp \<Rightarrow> fp) \<Rightarrow> (fp \<Rightarrow> fp) \<Rightarrow> fly \<Rightarrow> vec3 \<times> vec3 \<times> vec3" where
  "Fly_GetDirs sinf cosf f =
     (let forward = xform_quat (quat_of_axis sinf cosf (v2y (fl_dir f)) (V3 fone fzero fzero)) (V3 fzero fzero fone);
          forward = xform_quat (quat_of_axis sinf cosf (v2x (fl_dir f)) (V3 fzero fone fzero)) forward;
          forward = vnormalize forward;
          right = vnormalize (vcross forward (V3 fzero (fneg fone) fzero));
          up = vnormalize (vcross forward right)
      in (right, up, forward))"

definition lookat_quat :: "(fp \<Rightarrow> fp) \<Rightarrow> (fp \<Rightarrow> fp) \<Rightarrow> look_at \<Rightarrow> quat" where
  "lookat_quat sinf cosf la =
     (let q0 = quat_of_axis sinf cosf (addf PI (v2y (la_dir la))) (V3 fone fzero fzero);
          q1 = quat_of_axis sinf cosf (addf PI (v2x (la_dir la))) (V3 fzero fone fzero);
          q2 = quat_of_axis sinf cosf PI (V3 fzero fzero fone)
      in qmul (qmul q0 q1) q2)"

definition LookAt_GetDirs :: "(fp \<Rightarrow> fp) \<Rightarrow> (fp \<Rightarrow> fp) \<Rightarrow> look_at \<Rightarrow> vec3 \<times> vec3 \<times> vec3" where
  "LookAt_GetDirs sinf cosf la =
     (let q = lookat_quat sinf cosf la
      in (xform_quat q (V3 fone fzero fzero), xform_quat q (V3 fzero fone fzero), xform_quat q (V3 fzero fzero fone)))"

text \<open>The two halves of \<open>Camera::Update\<close>: the projection, and the view as the inverse of the placement.\<close>

definition update_proj :: "(fp \<Rightarrow> fp) \<Rightarrow> int \<Rightarrow> int \<Rightarrow> camera \<Rightarrow> camera" where
  "update_proj tanf w h c =
     (let aspect = divf (f_of_int F32 w) (f_of_int F32 h)
      in if m_isPerspective c
         then c\<lparr>m_aspect := aspect, m_proj := setPerspective tanf (f_of_int F32 60) aspect (m_near c) (m_far c)\<rparr>
         else let sz = m_far c; a = divf fone aspect
              in c\<lparr>m_aspect := aspect, m_proj := setOrtho (fneg sz) (mulf (fneg sz) a) sz (mulf sz a) (fneg sz) sz (m_proj c)\<rparr>)"

definition camera_place :: "(fp \<Rightarrow> fp) \<Rightarrow> (fp \<Rightarrow> fp) \<Rightarrow> camera \<Rightarrow> matrix \<times> matrix" where
  "camera_place sinf cosf c =
     (if cam_mode c = 0
      then let (r, u, l) = Fly_GetDirs sinf cosf (m_fly c);
               rot = mat_set [vx r, vy r, vz r, fzero, vx u, vy u, vz u, fzero, vx l, vy l, vz l, fzero, fzero, fzero, fzero, fone]
           in (makeTrans (fl_pos (m_fly c)), transpose_mat rot)
      else let q = lookat_quat sinf cosf (m_lookat c);
               v = xform_quat q (V3 fzero fzero (la_dist (m_lookat c)))
           in (makeTrans (vadd (la_pos (m_lookat c)) v), makeRot q))"

definition Camera_Update :: "(fp \<Rightarrow> fp) \<Rightarrow> (fp \<Rightarrow> fp) \<Rightarrow> (fp \<Rightarrow> fp) \<Rightarrow> int \<Rightarrow> int \<Rightarrow> camera \<Rightarrow> camera" where
  "Camera_Update sinf cosf tanf w h c =
     (let c = update_proj tanf w h c; (off, rot) = camera_place sinf cosf c; v = mult off rot
      in c\<lparr>m_view := invert_mat v v\<rparr>)"

subsection \<open>Scene items\<close>

record scene_base =
  m_offset :: vec3
  m_scale :: vec3
  m_rotate :: quat
  m_color :: vec4
  m_strokeColor :: vec4
  m_strokeWidth :: fp
  m_isInitialized :: bool

definition SceneItem_new :: "vec4 \<Rightarrow> vec4 \<Rightarrow> fp \<Rightarrow> scene_base" where
  "SceneItem_new junk1 junk2 junk3 = \<lparr>m_offset = vzero, m_scale = V3 fone fone fone, m_rotate = Quat fzero fzero fzero fone,
     m_color = junk1, m_strokeColor = junk2, m_strokeWidth = junk3, m_isInitialized = False\<rparr>"

definition SetOffset :: "vec3 \<Rightarrow> scene_base \<Rightarrow> scene_base" where
  "SetOffset p b = b\<lparr>m_offset := p\<rparr>"

definition SetStroke :: "vec4 \<Rightarrow> fp \<Rightarrow> scene_base \<Rightarrow> scene_base" where
  "SetStroke color width b = b\<lparr>m_strokeColor := color, m_strokeWidth := width\<rparr>"

definition SetScale :: "vec3 \<Rightarrow> scene_base \<Rightarrow> scene_base" where
  "SetScale s b = b\<lparr>m_scale := s\<rparr>"

definition SetRotate :: "quat \<Rightarrow> scene_base \<Rightarrow> scene_base" where
  "SetRotate r b = b\<lparr>m_rotate := r\<rparr>"

definition SetColor :: "vec3 \<Rightarrow> scene_base \<Rightarrow> scene_base" where
  "SetColor col b = b\<lparr>m_color := V4 (vx col) (vy col) (vz col) fone\<rparr>"

definition CalcMat :: "scene_base \<Rightarrow> matrix" where
  "CalcMat b = mult (mult (makeTrans (m_offset b)) (makeRot (m_rotate b))) (makeScale (m_scale b))"

text \<open>The part of \<open>DrawContext\<close> that drawing changes or leaves read.\<close>

record draw_context =
  m_pgm :: "nat option"
  m_mat :: matrix
  m_deviceTimestamp :: fp

text \<open>A leaf is any item that is no group, with a number for its identity. The hooks of a group are
  the functions given to \<open>BeforeDraw\<close> and \<open>AfterDraw\<close>.\<close>

datatype scene_item =
    SceneLeaf (item_base: scene_base) nat
  | SceneGroup (item_base: scene_base) (m_beforeDraw: "(draw_context \<Rightarrow> bool \<times> draw_context) option")
      (m_afterDraw: "(draw_context \<Rightarrow> draw_context) option") (m_sceneItems: "scene_item list")

datatype draw_event = Init nat | Draw nat draw_context

definition AddItem :: "scene_item \<Rightarrow> scene_item \<Rightarrow> scene_item" where
  "AddItem x g = (case g of SceneGroup b bef aft xs \<Rightarrow> SceneGroup b bef aft (xs @ [x]) | _ \<Rightarrow> g)"

definition BeforeDraw :: "(draw_context \<Rightarrow> bool \<times> draw_context) \<Rightarrow> scene_item \<Rightarrow> scene_item" where
  "BeforeDraw f g = (case g of SceneGroup b bef aft xs \<Rightarrow> SceneGroup b (Some f) aft xs | _ \<Rightarrow> g)"

definition AfterDraw :: "(draw_context \<Rightarrow> draw_context) \<Rightarrow> scene_item \<Rightarrow> scene_item" where
  "AfterDraw f g = (case g of SceneGroup b bef aft xs \<Rightarrow> SceneGroup b bef (Some f) xs | _ \<Rightarrow> g)"

definition Group_Clear :: "scene_item \<Rightarrow> scene_item" where
  "Group_Clear g = (case g of SceneGroup b bef aft xs \<Rightarrow> SceneGroup b bef aft [] | _ \<Rightarrow> g)"

definition before_hook :: "(draw_context \<Rightarrow> bool \<times> draw_context) option \<Rightarrow> draw_context \<Rightarrow> bool \<times> draw_context" where
  "before_hook bef ctx = (case bef of None \<Rightarrow> (True, ctx) | Some f \<Rightarrow> f ctx)"

definition after_hook :: "(draw_context \<Rightarrow> draw_context) option \<Rightarrow> draw_context \<Rightarrow> draw_context" where
  "after_hook aft ctx = (case aft of None \<Rightarrow> ctx | Some f \<Rightarrow> f ctx)"

text \<open>Drawing. The scene is a tree: the code holds its items by pointers, and one that is in two groups, which does
  not occur in the program, would be initialised once there and twice here.\<close>

fun DoDraw :: "scene_item \<Rightarrow> draw_context \<Rightarrow> scene_item \<times> draw_context \<times> draw_event list"
  and draw_items :: "matrix \<Rightarrow> scene_item list \<Rightarrow> draw_context \<Rightarrow> scene_item list \<times> draw_context \<times> draw_event list" where
  "DoDraw (SceneLeaf b i) ctx =
     (SceneLeaf (b\<lparr>m_isInitialized := True\<rparr>) i, ctx, (if m_isInitialized b then [] else [Init i]) @ [Draw i ctx])"
| "DoDraw (SceneGroup b bef aft xs) ctx =
     (let b' = b\<lparr>m_isInitialized := True\<rparr>; (go, ctx) = before_hook bef ctx
      in if go then let (xs', ctx, evs) = draw_items (CalcMat b) xs ctx in (SceneGroup b' bef aft xs', after_hook aft ctx, evs)
         else (SceneGroup b' bef aft xs, ctx, []))"
| "draw_items m [] ctx = ([], ctx, [])"
| "draw_items m (x # xs) ctx =
     (let prevMat = m_mat ctx; (x', ctx, evs) = DoDraw x (ctx\<lparr>m_mat := mult prevMat m\<rparr>);
          (xs', ctx, evs') = draw_items m xs (ctx\<lparr>m_mat := prevMat\<rparr>)
      in (x' # xs', ctx, evs @ evs'))"

text \<open>Bounds. Every leaf of the program returns an empty box.\<close>

definition AABoxAdd :: "aabox \<Rightarrow> aabox \<Rightarrow> aabox" where
  "AABoxAdd a b =
     (if mEmpty a then b
      else let lo = (\<lambda>p m. if flt p m then p else m); hi = (\<lambda>p m. if flt m p then p else m)
           in a\<lparr>mMin := V3 (lo (vx (mMin b)) (vx (mMin a))) (lo (vy (mMin b)) (vy (mMin a))) (lo (vz (mMin b)) (vz (mMin a))),
                mMax := V3 (hi (vx (mMax b)) (vx (mMax a))) (hi (vy (mMax b)) (vy (mMax a))) (hi (vz (mMax b)) (vz (mMax a)))\<rparr>)"

fun Item_GetBounds :: "scene_item \<Rightarrow> aabox" where
  "Item_GetBounds (SceneLeaf b i) = aabox_empty"
| "Item_GetBounds (SceneGroup b bef aft xs) =
     (let bnds = fold (\<lambda>x acc. AABoxAdd acc x) (map Item_GetBounds xs) aabox_empty; m = CalcMat b
      in bnds\<lparr>mMin := xform_point3 m (mMin bnds), mMax := xform_point3 m (mMax bnds)\<rparr>)"

subsection \<open>Drawing\<close>

text \<open>What drawing promises: the leaves in order, each under the product of the matrices of the
  groups above it.\<close>

fun scene_paths :: "scene_item \<Rightarrow> matrix \<Rightarrow> (nat \<times> matrix) list" where
  "scene_paths (SceneLeaf b i) m = [(i, m)]"
| "scene_paths (SceneGroup b bef aft xs) m = concat (map (\<lambda>x. scene_paths x (mult m (CalcMat b))) xs)"

fun uninitialized :: "scene_item \<Rightarrow> nat list" where
  "uninitialized (SceneLeaf b i) = (if m_isInitialized b then [] else [i])"
| "uninitialized (SceneGroup b bef aft xs) = concat (map uninitialized xs)"

text \<open>Hooks that let drawing go on and leave the matrix alone, as those of the program do.\<close>

definition hook_ok :: "(draw_context \<Rightarrow> bool \<times> draw_context) option \<Rightarrow> (draw_context \<Rightarrow> draw_context) option \<Rightarrow> bool" where
  "hook_ok bef aft \<longleftrightarrow> (\<forall>ctx. fst (before_hook bef ctx) \<and> m_mat (snd (before_hook bef ctx)) = m_mat ctx \<and> m_mat (after_hook aft ctx) = m_mat ctx)"

fun hooks_ok :: "scene_item \<Rightarrow> bool" where
  "hooks_ok (SceneLeaf b i) = True"
| "hooks_ok (SceneGroup b bef aft xs) = (hook_ok bef aft \<and> list_all hooks_ok xs)"

definition drawn :: "draw_event list \<Rightarrow> (nat \<times> matrix) list" where
  "drawn evs = concat (map (\<lambda>e. case e of Draw i c \<Rightarrow> [(i, m_mat c)] | Init i \<Rightarrow> []) evs)"

definition inits :: "draw_event list \<Rightarrow> nat list" where
  "inits evs = concat (map (\<lambda>e. case e of Draw i c \<Rightarrow> [] | Init i \<Rightarrow> [i]) evs)"

lemma drawn_simps [simp]: "drawn [] = []" "drawn (Draw i c # es) = (i, m_mat c) # drawn es" "drawn (Init i # es) = drawn es"
  "drawn (es @ fs) = drawn es @ drawn fs"
  by (simp_all add: drawn_def)

lemma inits_simps [simp]: "inits [] = []" "inits (Draw i c # es) = inits es" "inits (Init i # es) = i # inits es"
  "inits (es @ fs) = inits es @ inits fs"
  by (simp_all add: inits_def)

text \<open>What one draw of an item is like, and of the items of a group with its matrix.\<close>

definition draws_as :: "(nat \<times> matrix) list \<Rightarrow> nat list \<Rightarrow> draw_context \<Rightarrow> draw_context \<Rightarrow> draw_event list \<Rightarrow> bool" where
  "draws_as ps is ctx ctx' evs \<longleftrightarrow> m_mat ctx' = m_mat ctx \<and> drawn evs = ps \<and> inits evs = is"

lemma before_hook_ok: "hook_ok bef aft \<Longrightarrow> \<exists>c. before_hook bef ctx = (True, c) \<and> m_mat c = m_mat ctx"
  unfolding hook_ok_def by (metis prod.collapse)

lemma DoDraw_spec:
  "hooks_ok x \<Longrightarrow> DoDraw x ctx = (x', ctx', evs) \<Longrightarrow>
     draws_as (scene_paths x (m_mat ctx)) (uninitialized x) ctx ctx' evs \<and>
     uninitialized x' = [] \<and> hooks_ok x' \<and> (\<forall>m. scene_paths x' m = scene_paths x m)"
  "list_all hooks_ok xs \<Longrightarrow> draw_items m xs ctx = (xs', ctx', evs) \<Longrightarrow>
     draws_as (concat (map (\<lambda>x. scene_paths x (mult (m_mat ctx) m)) xs)) (concat (map uninitialized xs)) ctx ctx' evs \<and>
     concat (map uninitialized xs') = [] \<and> list_all hooks_ok xs' \<and>
     (\<forall>m. concat (map (\<lambda>x. scene_paths x m) xs') = concat (map (\<lambda>x. scene_paths x m) xs))"
proof (induction x ctx and m xs ctx arbitrary: x' ctx' evs and xs' ctx' evs rule: DoDraw_draw_items.induct)
  case (1 b i ctx)
  then show ?case by (auto simp: draws_as_def)
next
  case (2 b bef aft xs ctx)
  obtain ctx1 where h: "before_hook bef ctx = (True, ctx1)" "m_mat ctx1 = m_mat ctx"
    using before_hook_ok [of bef aft ctx] "2.prems"(1) by auto
  obtain ys ctx2 es where d: "draw_items (CalcMat b) xs ctx1 = (ys, ctx2, es)" by (metis surj_pair)
  have r: "x' = SceneGroup (b\<lparr>m_isInitialized := True\<rparr>) bef aft ys" "ctx' = after_hook aft ctx2" "evs = es"
    using "2.prems"(2) h d by (auto simp: Let_def)
  have "CalcMat (b\<lparr>m_isInitialized := True\<rparr>) = CalcMat b" by (simp add: CalcMat_def)
  then show ?case
    using "2.IH" [OF refl h(1) [symmetric] refl TrueI _ d] "2.prems"(1) h(2) r
    by (auto simp: draws_as_def hook_ok_def)
next
  case (3 m ctx)
  then show ?case by (simp add: draws_as_def)
next
  case (4 m x xs ctx)
  obtain x1 c1 es1 where d1: "DoDraw x (ctx\<lparr>m_mat := mult (m_mat ctx) m\<rparr>) = (x1, c1, es1)" by (metis surj_pair)
  obtain xs2 c2 es2 where d2: "draw_items m xs (c1\<lparr>m_mat := m_mat ctx\<rparr>) = (xs2, c2, es2)" by (metis surj_pair)
  have r: "xs' = x1 # xs2" "ctx' = c2" "evs = es1 @ es2" using "4.prems"(2) d1 d2 by (auto simp: Let_def)
  show ?case
    using "4.IH"(1) [OF refl _ d1] "4.IH"(2) [OF refl d1 [symmetric] refl refl _ d2] "4.prems"(1)
    by (auto simp: draws_as_def r)
qed

text \<open>C10: Drawing a scene whose hooks go on and keep the matrix draws every leaf, in order, under the
  product of the group matrices above it, restores the matrix, and initialises exactly the leaves
  that were not; drawing again initialises nothing and draws the same leaves.\<close>

theorem draw_scene:
  assumes "hooks_ok x" and "DoDraw x ctx = (x', ctx', evs)" and "DoDraw x' ctx2 = (x2, ctx3, evs2)"
  shows "m_mat ctx' = m_mat ctx \<and> drawn evs = scene_paths x (m_mat ctx) \<and> inits evs = uninitialized x \<and>
    inits evs2 = [] \<and> drawn evs2 = scene_paths x (m_mat ctx2)"
  using DoDraw_spec(1) [OF assms(1,2)] DoDraw_spec(1) [of x' ctx2 x2 ctx3 evs2] assms(3) by (auto simp: draws_as_def)

definition test_base :: scene_base where
  "test_base = SceneItem_new (V4 fzero fzero fzero fzero) (V4 fzero fzero fzero fzero) fzero"

definition test_scene :: scene_item where
  "test_scene = SceneGroup test_base (Some (\<lambda>ctx. (True, ctx\<lparr>m_pgm := Some 7\<rparr>))) None
     [SceneLeaf test_base 1, SceneGroup test_base None None [SceneLeaf (test_base\<lparr>m_isInitialized := True\<rparr>) 2]]"

definition test_context :: draw_context where
  "test_context = \<lparr>m_pgm = None, m_mat = identity_matrix, m_deviceTimestamp = fzero\<rparr>"

lemma draw_scene_witness:
  "\<exists>x' ctx' evs. DoDraw test_scene test_context = (x', ctx', evs) \<and> inits evs = [1] \<and> map fst (drawn evs) = [1, 2] \<and>
     inits (snd (snd (DoDraw x' test_context))) = []"
proof -
  obtain x' ctx' evs where d: "DoDraw test_scene test_context = (x', ctx', evs)" by (metis surj_pair)
  obtain x2 ctx3 evs2 where d2: "DoDraw x' test_context = (x2, ctx3, evs2)" by (metis surj_pair)
  have h: "hooks_ok test_scene" by (simp add: test_scene_def hook_ok_def before_hook_def after_hook_def)
  have "uninitialized test_scene = [1]" "map fst (scene_paths test_scene m) = [1, 2]" for m
    by (simp_all add: test_scene_def test_base_def SceneItem_new_def)
  then show ?thesis using draw_scene [OF h d d2] d d2 by auto
qed

subsection \<open>The engine\<close>

text \<open>An animation is a state with a virtual \<open>Tick\<close>, the argument \<open>tick\<close>, that says whether it goes on.\<close>

record 'a animation =
  m_startTime :: fp
  anim :: 'a

definition Animation_new :: "'a \<Rightarrow> 'a animation" where
  "Animation_new a = \<lparr>m_startTime = fneg fone, anim = a\<rparr>"

definition ProcessTick :: "('a \<Rightarrow> fp \<Rightarrow> bool \<times> 'a) \<Rightarrow> fp \<Rightarrow> 'a animation \<Rightarrow> bool \<times> 'a animation" where
  "ProcessTick tick fullTime a =
     (let a = (if flt (m_startTime a) fzero then a\<lparr>m_startTime := fullTime\<rparr> else a);
          (go, s) = tick (anim a) (subf fullTime (m_startTime a))
      in (go, a\<lparr>anim := s\<rparr>))"

record 'a engine =
  e_w :: int
  e_h :: int
  m_camera :: camera
  m_root :: scene_item
  m_hud :: scene_item
  m_animations :: "'a animation list"
  m_shaders :: "string \<rightharpoonup> nat"

definition Engine_new :: "fp \<Rightarrow> scene_base \<Rightarrow> scene_base \<Rightarrow> nat \<Rightarrow> 'a engine" where
  "Engine_new junk b hb hud = \<lparr>e_w = 0, e_h = 0, m_camera = Camera_new junk, m_root = SceneGroup b None None [],
     m_hud = SceneLeaf hb hud, m_animations = [], m_shaders = Map.empty\<rparr>"

definition Engine_Resize :: "int \<Rightarrow> int \<Rightarrow> 'a engine \<Rightarrow> 'a engine" where
  "Engine_Resize w h e = e\<lparr>e_h := h, e_w := w\<rparr>"

definition AddAnimation :: "'a animation \<Rightarrow> 'a engine \<Rightarrow> 'a engine" where
  "AddAnimation a e = e\<lparr>m_animations := m_animations e @ [a]\<rparr>"

definition tick_animations :: "('a \<Rightarrow> fp \<Rightarrow> bool \<times> 'a) \<Rightarrow> fp \<Rightarrow> 'a animation list \<Rightarrow> 'a animation list" where
  "tick_animations tick time as = map snd (filter fst (map (ProcessTick tick time) as))"

definition Engine_Tick :: "(fp \<Rightarrow> fp) \<Rightarrow> (fp \<Rightarrow> fp) \<Rightarrow> (fp \<Rightarrow> fp) \<Rightarrow> ('a \<Rightarrow> fp \<Rightarrow> bool \<times> 'a) \<Rightarrow> fp \<Rightarrow> 'a engine \<Rightarrow> 'a engine" where
  "Engine_Tick sinf cosf tanf tick time e =
     e\<lparr>m_camera := Camera_Update sinf cosf tanf (e_w e) (e_h e) (m_camera e),
       m_animations := tick_animations tick time (m_animations e)\<rparr>"

text \<open>Drawing a frame: the view and projection given to the graphics library, and the events.\<close>

definition Engine_Draw :: "draw_context \<Rightarrow> 'a engine \<Rightarrow> (matrix \<times> matrix) \<times> draw_event list \<times> 'a engine" where
  "Engine_Draw dc e =
     (let (root, dc, evs) = DoDraw (m_root e) (dc\<lparr>m_mat := identity_matrix\<rparr>); (hud, dc, evs') = DoDraw (m_hud e) dc
      in ((m_view (m_camera e), m_proj (m_camera e)), evs @ evs', e\<lparr>m_root := root, m_hud := hud\<rparr>))"

text \<open>Programs are cached by name; a compute program by its file, a graphics program by both.\<close>

definition LoadShader_key :: "(string \<Rightarrow> nat) \<Rightarrow> string \<Rightarrow> 'a engine \<Rightarrow> nat \<times> 'a engine" where
  "LoadShader_key create key e =
     (case m_shaders e key of Some pgm \<Rightarrow> (pgm, e)
      | None \<Rightarrow> let pgm = create key in (pgm, e\<lparr>m_shaders := (m_shaders e)(key \<mapsto> pgm)\<rparr>))"

definition LoadShader :: "(string \<Rightarrow> string \<Rightarrow> nat) \<Rightarrow> string \<Rightarrow> string \<Rightarrow> 'a engine \<Rightarrow> nat \<times> 'a engine" where
  "LoadShader createProgram vtx px e = LoadShader_key (\<lambda>_. createProgram vtx px) (vtx @ '':'' @ px) e"

definition LoadShader_cs :: "(string \<Rightarrow> nat) \<Rightarrow> string \<Rightarrow> 'a engine \<Rightarrow> nat \<times> 'a engine" where
  "LoadShader_cs createProgram cs e = LoadShader_key createProgram cs e"

text \<open>The life of one animation under the ticks: it sees the time since its first tick until it
  says it is done.\<close>

fun anim_life :: "('a \<Rightarrow> fp \<Rightarrow> bool \<times> 'a) \<Rightarrow> fp \<Rightarrow> 'a \<Rightarrow> fp list \<Rightarrow> 'a option" where
  "anim_life tick t0 a [] = Some a"
| "anim_life tick t0 a (t # ts) = (let (go, a) = tick a (subf t t0) in if go then anim_life tick t0 a ts else None)"

definition started :: "fp \<Rightarrow> 'a \<Rightarrow> 'a animation" where
  "started t0 a = \<lparr>m_startTime = t0, anim = a\<rparr>"

lemma anim_started [simp]: "anim (started t a) = a"
  by (simp add: started_def)

lemma ProcessTick_started:
  "\<not> flt t0 fzero \<Longrightarrow> ProcessTick tick t (started t0 a) = (let (go, s) = tick a (subf t t0) in (go, started t0 s))"
  "ProcessTick tick t (Animation_new a) = (let (go, s) = tick a (subf t t) in (go, started t s))"
proof -
  have "flt (fneg fone) fzero" by code_simp
  then show "ProcessTick tick t (Animation_new a) = (let (go, s) = tick a (subf t t) in (go, started t s))"
    by (simp add: ProcessTick_def started_def Animation_new_def Let_def split: prod.split)
qed (simp add: ProcessTick_def started_def Let_def split: prod.split)

definition alive :: "('a \<Rightarrow> fp \<Rightarrow> bool \<times> 'a) \<Rightarrow> fp \<Rightarrow> fp list \<Rightarrow> 'a list \<Rightarrow> 'a animation list" where
  "alive tick t0 ts as = concat (map (\<lambda>a. case anim_life tick t0 a ts of None \<Rightarrow> [] | Some s \<Rightarrow> [started t0 s]) as)"

lemma tick_started:
  assumes "\<not> flt t0 fzero"
  shows "alive tick t0 (t # ts) as =
    alive tick t0 ts (map anim (tick_animations tick t (map (started t0) as))) \<and>
    tick_animations tick t (map (started t0) as) = map (started t0) (map anim (tick_animations tick t (map (started t0) as)))"
  by (induction as) (use assms in \<open>auto simp: alive_def tick_animations_def ProcessTick_started Let_def split: prod.splits\<close>)

lemma ticks_started:
  assumes "\<not> flt t0 fzero"
  shows "fold (tick_animations tick) ts (map (started t0) as) = alive tick t0 ts as"
proof (induction ts arbitrary: as)
  case Nil
  show ?case by (induction as) (simp_all add: alive_def)
next
  case (Cons t ts)
  show ?case using tick_started [OF assms, of tick t ts as] Cons.IH by (metis fold_simps(2))
qed

lemma tick_new:
  assumes "\<not> flt t fzero"
  shows "tick_animations tick t (map Animation_new as) = tick_animations tick t (map (started t) as)"
  using assms by (induction as) (simp_all add: tick_animations_def ProcessTick_started)

lemma Engine_Tick_animations:
  "m_animations (fold (Engine_Tick sinf cosf tanf tick) ts e) = fold (tick_animations tick) ts (m_animations e)"
  by (induction ts arbitrary: e) (simp_all add: Engine_Tick_def)

text \<open>Animations added before the first tick see the time since that tick, in the order they were
  added; the ones left after any number of ticks are those that said to go on at every tick.\<close>

lemma animations_run:
  assumes "m_animations e = map Animation_new as" and "\<not> flt t0 fzero"
  shows "m_animations (fold (Engine_Tick sinf cosf tanf tick) (t0 # ts) e) = alive tick t0 (t0 # ts) as"
proof -
  have "m_animations (fold (Engine_Tick sinf cosf tanf tick) (t0 # ts) e) =
      fold (tick_animations tick) (t0 # ts) (map (started t0) as)"
    unfolding Engine_Tick_animations assms(1) by (simp add: tick_new [OF assms(2)])
  then show ?thesis by (simp only: ticks_started [OF assms(2)])
qed

lemma LoadShader_again: "LoadShader c v p e = (h, e') \<Longrightarrow> LoadShader c' v p e' = (h, e')"
  by (auto simp: LoadShader_def LoadShader_key_def Let_def split: option.splits)

end
