(* ===== verification/DepthPts.thy ===== *)
theory DepthPts
  imports DepthProps
begin

text \<open>
  Depth images, \<open>src/core/DepthPts.cpp\<close>: the colour of a pixel, the point cloud of a depth image,
  the depth pyramid that fills missing depths, the packing of depths into the planes of a YUV
  video frame and back, and the error measure. Images are lists in row order; widths and heights
  are natural numbers (the program passes unsigned sizes). A pointer into a buffer is the rest of
  the buffer from there, an access beyond it is \<open>None\<close>, as is a conversion to \<open>uint8_t\<close> of a
  value that does not fit.
\<close>

definition u8_to_f :: "u8 \<Rightarrow> fp" where
  "u8_to_f b = f_of_int F32 (uint b)"

definition nat_to_f :: "nat \<Rightarrow> fp" where
  "nat_to_f n = f_of_int F32 (int n)"

definition fINF :: fp where
  "fINF = Inf False"

definition f255 :: fp where
  "f255 = f_of_int F32 255"

subsection \<open>Colours\<close>

datatype RGBt = RGBt (rR: u8) (rG: u8) (rB: u8)

text \<open>\<open>mData\<close> of the 3x3 matrix, in column order.\<close>

definition matyuv :: "fp list" where
  "matyuv = [fone, fone, fone,
     fzero, flit F32 (- 18732 / 100000), flit F32 (18556 / 10000),
     flit F32 (157481 / 100000), flit F32 (- 46813 / 100000), fzero]"

definition mat3_row :: "fp list \<Rightarrow> nat \<Rightarrow> vec3 \<Rightarrow> fp" where
  "mat3_row m r v = addf (addf (addf fzero (mulf (m ! r) (vx v))) (mulf (m ! (3 + r)) (vy v))) (mulf (m ! (6 + r)) (vz v))"

definition GetRGBVal :: "int \<Rightarrow> int \<Rightarrow> u8 list \<Rightarrow> u8 list \<Rightarrow> int \<Rightarrow> RGBt option" where
  "GetRGBVal ix iy yData uvData yPitch = do {
     yVal \<leftarrow> iget yData (iy * yPitch + ix);
     let uvy = iy div 2; uvx = ix AND 0xFFFE
     in do {
       uVal \<leftarrow> iget uvData (uvy * yPitch + uvx);
       vVal \<leftarrow> iget uvData (uvy * yPitch + uvx + 1);
       let half = flit F32 (1 / 2);
           yuv = V3 (divf (u8_to_f yVal) f255) (subf (divf (u8_to_f uVal) f255) half)
                    (subf (divf (u8_to_f vVal) f255) half);
           rgb = V3 (mat3_row matyuv 0 yuv) (mat3_row matyuv 1 yuv) (mat3_row matyuv 2 yuv)
       in do {
         r \<leftarrow> f_to_u8 (mulf (vz rgb) f255);
         g \<leftarrow> f_to_u8 (mulf (vy rgb) f255);
         b \<leftarrow> f_to_u8 (mulf (vx rgb) f255);
         Some (RGBt r g b) } } }"

text \<open>\<open>rgbt.R + rgbt.G * 256.0 + rgbt.B * 256.0 * 256.0\<close>, a double expression stored in a float.\<close>

definition pack_rgb :: "RGBt \<Rightarrow> fp" where
  "pack_rgb c =
     (let d = f_of_int F64; s = d 256
      in fcvt F32 (fadd F64 (fadd F64 (d (uint (rR c))) (fmul F64 (d (uint (rG c))) s))
                   (fmul F64 (fmul F64 (d (uint (rB c))) s) s)))"

subsection \<open>Point clouds\<close>

text \<open>The rotation that both functions apply, for the \<open>sin\<close> and \<open>cos\<close> of the C library.\<close>

definition pi_f :: fp where
  "pi_f = flit F32 (314159265358979323846 / 100000000000000000000)"

definition depth_rotation :: "(fp \<Rightarrow> fp) \<Rightarrow> (fp \<Rightarrow> fp) \<Rightarrow> matrix" where
  "depth_rotation sinf cosf = makeRot (qmul (quat_of_axis sinf cosf pi_f (V3 fzero fone fzero))
     (quat_of_axis sinf cosf (mulf (fneg pi_f) (flit F32 (1 / 2))) (V3 fzero fzero fone)))"

text \<open>The camera constants at the front of the depth array: scale and offset per axis.\<close>

definition depth_intrinsics :: "fp list \<Rightarrow> nat \<Rightarrow> nat \<Rightarrow> (fp \<times> fp \<times> fp \<times> fp) option" where
  "depth_intrinsics floatArray dwidth dheight = do {
     a9 \<leftarrow> aget floatArray 9; a10 \<leftarrow> aget floatArray 10; a0 \<leftarrow> aget floatArray 0;
     a4 \<leftarrow> aget floatArray 4; a6 \<leftarrow> aget floatArray 6; a7 \<leftarrow> aget floatArray 7;
     let ratioX = divf a9 (nat_to_f dwidth); ratioY = divf a10 (nat_to_f dheight)
     in Some (divf a0 ratioX, divf a4 ratioY, divf a6 ratioX, divf a7 ratioY) }"

definition model_pos :: "matrix \<Rightarrow> fp \<Rightarrow> fp \<Rightarrow> fp \<Rightarrow> fp \<Rightarrow> nat \<Rightarrow> nat \<Rightarrow> fp \<Rightarrow> vec4" where
  "model_pos mt xScl yScl xOff yOff x y depthVal =
     xform_vec4 mt (V4 (divf (mulf (subf (nat_to_f x) xOff) depthVal) xScl)
                       (divf (mulf (subf (nat_to_f y) yOff) depthVal) yScl) depthVal fone)"

text \<open>The header of the image is normalised in place, so that its luma plane starts at offset 0;
  the returned header is what is left in the caller's buffer.\<close>

definition normalise_yuv :: "ycrcb_data \<Rightarrow> ycrcb_data" where
  "normalise_yuv h = h\<lparr>cbCrOffset := cbCrOffset h - yOffset h, yOffset := 0\<rparr>"

definition GetDepthPointsWithColor ::
  "matrix \<Rightarrow> fp list \<Rightarrow> ycrcb_data \<Rightarrow> u8 list \<Rightarrow> nat \<Rightarrow> nat \<Rightarrow> vec4 list \<Rightarrow> nat \<Rightarrow> nat \<Rightarrow> fp
   \<Rightarrow> (ycrcb_data \<times> vec4 list) option" where
  "GetDepthPointsWithColor mt floatArray hdr ydata vWidth vHeight outPts dwidth dheight maxdist = do {
     (xScl, yScl, xOff, yOff) \<leftarrow> depth_intrinsics floatArray dwidth dheight;
     let hdr = normalise_yuv hdr; yPitch = yRowBytes hdr
     in do {
       (if 0 \<le> cbCrOffset hdr then Some () else None);
       let uvData = drop (nat (cbCrOffset hdr)) ydata; depthArray = drop 16 floatArray
       in do {
         pos \<leftarrow> omap (\<lambda>(y, x). do {
             depthVal \<leftarrow> aget depthArray (y * dwidth + x);
             rgbt \<leftarrow> GetRGBVal (int (x * vWidth div dwidth)) (int (y * vHeight div dheight)) ydata uvData yPitch;
             let v = pack_rgb rgbt
             in if \<not> isnan depthVal \<and> flt depthVal maxdist
                then let p = model_pos mt xScl yScl xOff yOff x y depthVal in Some (V4 (wx p) (wy p) (wz p) v)
                else Some (V4 fINF fINF fINF v) }) (pairs dheight dwidth);
         Some (hdr, outPts @ pos) } } }"

definition GetDepthPoints :: "matrix \<Rightarrow> fp list \<Rightarrow> vec3 list \<Rightarrow> nat \<Rightarrow> nat \<Rightarrow> fp \<Rightarrow> vec3 list option" where
  "GetDepthPoints mt floatArray outPts dwidth dheight maxdist = do {
     (xScl, yScl, xOff, yOff) \<leftarrow> depth_intrinsics floatArray dwidth dheight;
     let xOff = addf xOff (f_of_int F32 30); depthArray = drop 16 floatArray
     in do {
       pos \<leftarrow> omap (\<lambda>(y, x). do {
           depthVal \<leftarrow> aget depthArray (y * dwidth + x);
           if \<not> isnan depthVal \<and> flt depthVal maxdist
           then let p = model_pos mt xScl yScl xOff yOff x y depthVal in Some (V3 (wx p) (wy p) (wz p))
           else Some (V3 fINF fINF fINF) }) (pairs dheight dwidth);
       Some (outPts @ pos) } }"

subsection \<open>The depth pyramid\<close>

text \<open>The mean of the values that are not NaN, NaN when there are none.\<close>

definition lod_avg :: "fp list \<Rightarrow> fp" where
  "lod_avg v =
     (let (vf, t) = fold (\<lambda>d (vf, t). if \<not> isnan d then (addf vf d, addf t fone) else (vf, t)) v (fzero, fzero)
      in if flt fzero t then divf vf t else NaN)"

definition quad_at :: "'a list \<Rightarrow> nat \<Rightarrow> nat \<Rightarrow> nat \<Rightarrow> 'a list option" where
  "quad_at src w y x = do {
     a \<leftarrow> aget src (y * w + x); b \<leftarrow> aget src (y * w + x + 1);
     c \<leftarrow> aget src ((y + 1) * w + x); d \<leftarrow> aget src ((y + 1) * w + x + 1);
     Some [a, b, c, d] }"

text \<open>One level: \<open>dptr\<close> is the offset of the level in the output, and the source is the inverse
  image for the first level and the level before otherwise (\<open>dsrc = dptr\<close>).\<close>

definition lod_source :: "fp list \<Rightarrow> fp list \<Rightarrow> nat option \<Rightarrow> fp list" where
  "lod_source dinv out dsrc = (case dsrc of None \<Rightarrow> dinv | Some off \<Rightarrow> drop off out)"

definition lod_level :: "fp list \<Rightarrow> nat option \<Rightarrow> nat \<Rightarrow> nat \<Rightarrow> nat \<Rightarrow> nat \<Rightarrow> fp list \<Rightarrow> fp list option" where
  "lod_level dinv dsrc dsw dw dh dptr out =
     ofold (\<lambda>(y, x) out. do {
       v \<leftarrow> quad_at (lod_source dinv out dsrc) dsw (y * 2) (x * 2);
       aset out (dptr + y * dw + x) (lod_avg v) }) (pairs dh dw) out"

function lod_levels :: "fp list \<Rightarrow> nat option \<Rightarrow> nat \<Rightarrow> nat \<Rightarrow> nat \<Rightarrow> nat \<Rightarrow> fp list \<Rightarrow> (nat \<times> fp list) option" where
  "lod_levels dinv dsrc dsw dw dh dptr out =
     (if 16 \<le> dw then do {
        out \<leftarrow> lod_level dinv dsrc dsw dw dh dptr out;
        lod_levels dinv (Some dptr) (dsw div 2) (dw div 2) (dh div 2) (dptr + dw * dh) out }
      else Some (dptr, out))"
  by pat_completeness auto

termination
  by (relation "measure (\<lambda>(dinv, dsrc, dsw, dw, dh, dptr, out). dw)") auto

declare lod_levels.simps [simp del]

definition DepthBuildLods :: "fp list \<Rightarrow> fp list \<Rightarrow> nat \<Rightarrow> nat \<Rightarrow> fp list option" where
  "DepthBuildLods dbuf outpts dwidth dheight = do {
     src \<leftarrow> ablock dbuf 0 (dwidth * dheight);
     let dinv = map (\<lambda>d. if isnan d \<or> isinf d then NaN else divf fone d) src
     in do {
       (dptr, out) \<leftarrow> lod_levels dinv None dwidth (dwidth div 2) (dheight div 2) 0 outpts;
       ofold (\<lambda>i out. do {
         d \<leftarrow> aget out i;
         aset out i (if \<not> isnan d then divf fone d else NaN) }) [0..<dptr] out } }"

definition DepthFillEmpty :: "fp list \<Rightarrow> fp list \<Rightarrow> nat \<Rightarrow> nat \<Rightarrow> fp list option" where
  "DepthFillEmpty lod1 lod0 depthWidth0 depthHeight0 =
     ofold (\<lambda>(y, x) lod0. do {
       d \<leftarrow> aget lod0 (y * depthWidth0 + x);
       if isnan d then do {
         e \<leftarrow> aget lod1 (y div 2 * (depthWidth0 div 2) + x div 2);
         aset lod0 (y * depthWidth0 + x) e }
       else Some lod0 }) (pairs depthHeight0 depthWidth0) lod0"

subsection \<open>Depth as YUV planes\<close>

text \<open>The sizes of the pyramid levels that the encoder allocates.\<close>

function lod_sizes :: "nat \<Rightarrow> nat \<Rightarrow> (nat \<times> nat) list" where
  "lod_sizes dw dh = (if 16 \<le> dw then (dw div 2, dh div 2) # lod_sizes (dw div 2) (dh div 2) else [])"
  by pat_completeness auto

termination
  by (relation "measure fst") auto

declare lod_sizes.simps [simp del]

definition lod_offset :: "(nat \<times> nat) list \<Rightarrow> nat \<Rightarrow> nat" where
  "lod_offset sizes i = sum_list (map (\<lambda>(w, h). w * h) (take i sizes))"

text \<open>Filling the levels from the smallest to the largest, then the image. \<open>lodSizes.size() - 1\<close>
  wraps when there is no level, and the first index of the loop is then -1. Each call writes the
  larger level only, so reading the smaller one from the buffer before the call is the same.\<close>

definition fill_levels :: "fp list \<Rightarrow> fp list \<Rightarrow> nat \<Rightarrow> nat \<Rightarrow> (fp list \<times> fp list) option" where
  "fill_levels lods data width height =
     (let sizes = lod_sizes width height
      in if sizes = [] then None
         else do {
           lods \<leftarrow> ofold (\<lambda>lodIdx lods.
             let idx1 = length sizes - lodIdx - 1;
                 o1 = lod_offset sizes idx1; o0 = lod_offset sizes (idx1 - 1);
                 (lodwidth, lodheight) = sizes ! (idx1 - 1)
             in do {
               lod0 \<leftarrow> DepthFillEmpty (drop o1 lods) (drop o0 lods) lodwidth lodheight;
               Some (take o0 lods @ lod0) }) [0..<length sizes - 1] lods;
           data \<leftarrow> DepthFillEmpty lods data width height;
           Some (lods, data) })"

text \<open>The encoding of a block of two by two depths: a byte for each, and the mean fractions of the
  first integer part met and of the others.\<close>

record enc_state =
  e_y :: "u8 list"
  u_yval :: int
  u_remavg :: fp
  u_remtot :: fp
  v_remavg :: fp
  v_remtot :: fp

definition enc_step :: "fp \<Rightarrow> fp \<Rightarrow> enc_state \<Rightarrow> enc_state option" where
  "enc_step scalar v e =
     (if isnan v \<or> isinf v then Some (e\<lparr>e_y := e_y e @ [255]\<rparr>)
      else let sv = mulf v scalar; rem = fmod1 sv
           in do {
             y \<leftarrow> f_to_u8 sv;
             Some (if u_yval e < 0 \<or> u_yval e = uint y
                   then e\<lparr>e_y := e_y e @ [y], u_remavg := addf (u_remavg e) rem,
                          u_remtot := addf (u_remtot e) fone, u_yval := uint y\<rparr>
                   else e\<lparr>e_y := e_y e @ [y], v_remavg := addf (v_remavg e) rem,
                          v_remtot := addf (v_remtot e) fone\<rparr>) })"

definition enc_start :: enc_state where
  "enc_start = \<lparr>e_y = [], u_yval = -1, u_remavg = fzero, u_remtot = fzero, v_remavg = fzero, v_remtot = fzero\<rparr>"

definition enc_fraction :: "fp \<Rightarrow> fp \<Rightarrow> u8 option" where
  "enc_fraction remavg remtot =
     (if flt fzero remtot then f_to_u8 (mulf (divf remavg remtot) f255) else Some 0)"

definition enc_quad :: "fp \<Rightarrow> fp list \<Rightarrow> (u8 list \<times> u8 \<times> u8) option" where
  "enc_quad scalar v = do {
     e \<leftarrow> ofold (enc_step scalar) v enc_start;
     u \<leftarrow> enc_fraction (u_remavg e) (u_remtot e);
     v \<leftarrow> enc_fraction (v_remavg e) (v_remtot e);
     Some (e_y e, u, v) }"

record yuv_planes =
  ydata :: "u8 list"
  udata :: "u8 list"
  vdata :: "u8 list"

definition aset_quad :: "'a list \<Rightarrow> nat \<Rightarrow> nat \<Rightarrow> nat \<Rightarrow> 'a list \<Rightarrow> 'a list option" where
  "aset_quad out w y x q = do {
     out \<leftarrow> aset out (y * w + x) (q ! 0); out \<leftarrow> aset out (y * w + x + 1) (q ! 1);
     out \<leftarrow> aset out ((y + 1) * w + x) (q ! 2); aset out ((y + 1) * w + x + 1) (q ! 3) }"

definition enc_block :: "fp \<Rightarrow> nat \<Rightarrow> fp list \<Rightarrow> nat \<times> nat \<Rightarrow> yuv_planes \<Rightarrow> yuv_planes option" where
  "enc_block scalar width data = (\<lambda>(y, x) p. do {
     q \<leftarrow> quad_at data width y x;
     (ys, u, v) \<leftarrow> enc_quad scalar q;
     yd \<leftarrow> aset_quad (ydata p) width y x ys;
     ud \<leftarrow> aset (udata p) (y div 2 * (width div 2) + x div 2) u;
     vd \<leftarrow> aset (vdata p) (y div 2 * (width div 2) + x div 2) v;
     Some \<lparr>ydata = yd, udata = ud, vdata = vd\<rparr> })"

definition ConvertDepthToYUV :: "fp list \<Rightarrow> nat \<Rightarrow> nat \<Rightarrow> fp \<Rightarrow> yuv_planes \<Rightarrow> (fp list \<times> yuv_planes) option" where
  "ConvertDepthToYUV data width height maxDepth p = do {
     let size = sum_list (map (\<lambda>(w, h). w * h) (lod_sizes width height))
     in do {
       lods \<leftarrow> DepthBuildLods data (replicate size fzero) width height;
       (lods, data) \<leftarrow> fill_levels lods data width height;
       p \<leftarrow> ofold (enc_block (divf (f_of_int F32 254) maxDepth) width data) (pairs_by 2 height 2 width) p;
       Some (data, p) } }"

text \<open>Decoding a block.\<close>

definition dec_step :: "fp \<Rightarrow> fp \<Rightarrow> fp \<Rightarrow> u8 \<Rightarrow> int \<times> fp list \<Rightarrow> int \<times> fp list" where
  "dec_step scalar u_rem v_rem y s = (case s of (yval, out) \<Rightarrow>
     if y = 255 then (yval, out @ [NaN])
     else let hit = yval < 0 \<or> yval = uint y;
              rem = (if hit then u_rem else v_rem);
              sv = addf (u8_to_f y) rem
          in (if hit then uint y else yval, out @ [mulf sv scalar]))"

definition dec_quad :: "fp \<Rightarrow> u8 list \<Rightarrow> u8 \<Rightarrow> u8 \<Rightarrow> fp list" where
  "dec_quad scalar ys u v =
     snd (fold (dec_step scalar (divf (u8_to_f u) f255) (divf (u8_to_f v) f255)) ys (-1, []))"

definition dec_block :: "fp \<Rightarrow> nat \<Rightarrow> yuv_planes \<Rightarrow> nat \<times> nat \<Rightarrow> fp list \<Rightarrow> fp list option" where
  "dec_block scalar width p = (\<lambda>(y, x) out. do {
     ys \<leftarrow> quad_at (ydata p) width y x;
     u \<leftarrow> aget (udata p) (y div 2 * (width div 2) + x div 2);
     v \<leftarrow> aget (vdata p) (y div 2 * (width div 2) + x div 2);
     aset_quad out width y x (dec_quad scalar ys u v) })"

definition ConvertYUVToDepth :: "yuv_planes \<Rightarrow> nat \<Rightarrow> nat \<Rightarrow> fp \<Rightarrow> fp list \<Rightarrow> fp list option" where
  "ConvertYUVToDepth p width height maxDepth out =
     ofold (dec_block (divf maxDepth (f_of_int F32 254)) width p) (pairs_by 2 height 2 width) out"

subsection \<open>The error measure\<close>

fun depth_error_loop :: "fp list \<Rightarrow> fp list \<Rightarrow> fp \<Rightarrow> fp \<Rightarrow> fp \<Rightarrow> (fp \<times> fp \<times> fp) option" where
  "depth_error_loop [] d2 totalErr maxErr totalCnt = Some (totalErr, maxErr, totalCnt)"
| "depth_error_loop (a # d1) d2 totalErr maxErr totalCnt =
     (if \<not> isnan a \<and> \<not> isinf a
      then case d2 of [] \<Rightarrow> None
        | b # d2 \<Rightarrow> let diff = subf a b; diff = mulf diff diff
            in depth_error_loop d1 d2 (addf totalErr diff) (if flt maxErr diff then diff else maxErr) (addf totalCnt fone)
      else depth_error_loop d1 (drop 1 d2) totalErr maxErr totalCnt)"

definition CalcDepthError :: "fp list \<Rightarrow> fp list \<Rightarrow> (fp \<times> fp) option" where
  "CalcDepthError d1 d2 = do {
     (totalErr, maxErr, totalCnt) \<leftarrow> depth_error_loop d1 d2 fzero fzero fzero;
     Some (fsqrt F32 (divf totalErr totalCnt), fsqrt F32 maxErr) }"

subsection \<open>Rounding of small sums\<close>

lemma fround_between:
  assumes "of_nat m \<le> q" and "q \<le> of_nat n" and "n < 2 ^ 24"
  shows "\<exists>c. fround F32 False q = Fin False c \<and> of_nat m \<le> c \<and> c \<le> of_nat n"
proof -
  have q0: "0 \<le> q" using assms(1) by (meson of_nat_0_le_iff order_trans)
  have "(of_nat m :: rat) \<le> of_nat n" using assms(1,2) by linarith
  then have mn: "m \<le> n" by (simp only: of_nat_le_iff)
  have r: "representable F32 (of_int (int m))" "representable F32 (of_int (int n))"
    using mn assms(3) by (intro representable_int; simp)+
  have hi: "rnd F32 q \<le> of_nat n" using rnd_le_representable [OF q0, of "of_nat n" F32] r(2) assms(2) by simp
  have "rnd F32 (of_nat m) \<le> rnd F32 q" using assms(1) by (intro rnd_mono) simp_all
  then have lo: "of_nat m \<le> rnd F32 q" using rnd_exact [of F32 "of_nat m"] r(1) by simp
  have "(of_nat n :: rat) \<le> of_nat (2 ^ 24)" using assms(3) by (simp only: of_nat_le_iff less_imp_le)
  then have "\<not> ffmax F32 < rnd F32 q" using hi by simp
  then show ?thesis using lo hi by (simp add: fround_def Let_def)
qed

lemma addf_between:
  assumes "0 \<le> a" and "0 \<le> b" and "of_nat m \<le> a + b" and "a + b \<le> of_nat n" and "n < 2 ^ 24"
  shows "\<exists>c. addf (Fin False a) (Fin False b) = Fin False c \<and> of_nat m \<le> c \<and> c \<le> of_nat n"
proof (cases "a + b = 0")
  case True
  then show ?thesis using assms by (auto simp: sval_def intro!: exI [of _ 0])
next
  case False
  then have "addf (Fin False a) (Fin False b) = fround F32 False (a + b)"
    using assms(1,2) by (simp add: sval_def Let_def)
  then show ?thesis using fround_between [OF assms(3-5)] by simp
qed

lemma nat_to_f_exact: "n < 2 ^ 24 \<Longrightarrow> nat_to_f n = Fin False (of_nat n)"
  unfolding nat_to_f_def by (subst f_of_int_exact) simp_all

lemma unat_u8: "unat (b :: u8) < 256"
  using unsigned_less [of b, where 'a = nat] by simp

lemma u8_to_f_exact: "unat b = n \<Longrightarrow> u8_to_f b = Fin False (of_nat n)"
proof -
  assume n: "unat b = n"
  then have "u8_to_f b = nat_to_f n" unfolding u8_to_f_def nat_to_f_def uint_nat by simp
  then show ?thesis using nat_to_f_exact [of n] unat_u8 [of b] n by simp
qed

lemma f255_exact: "f255 = Fin False 255"
  by (simp add: f255_def f_of_int_exact)

text \<open>A byte divided by 255 is between 0 and 1.\<close>

lemma byte_fraction: "\<exists>r. divf (u8_to_f b) f255 = Fin False r \<and> 0 \<le> r \<and> r \<le> 1"
proof -
  define n where "n = unat b"
  have "n \<le> 255" using unat_u8 [of b] by (simp add: n_def)
  then have "(of_nat n :: rat) / 255 \<le> of_nat 1" by (simp add: divide_le_eq)
  then have "\<exists>c. fround F32 False (of_nat n / 255) = Fin False c \<and> of_nat 0 \<le> c \<and> c \<le> of_nat 1"
    by (intro fround_between) simp_all
  then show ?thesis by (simp add: u8_to_f_exact [OF n_def [symmetric]] f255_exact)
qed

subsection \<open>Encoding and decoding a block\<close>

text \<open>A depth that the encoder accepts: not a number, infinite, or within the range of a byte
  below 255 after scaling; \<open>level\<close> is its integer part.\<close>

definition depth_in_range :: "fp \<Rightarrow> fp \<Rightarrow> bool" where
  "depth_in_range scalar d \<longleftrightarrow> isnan d \<or> isinf d \<or>
     (case mulf d scalar of Fin s q \<Rightarrow> \<not> s \<and> 0 \<le> q \<and> q < 255 | _ \<Rightarrow> False)"

definition depth_level :: "fp \<Rightarrow> fp \<Rightarrow> nat" where
  "depth_level scalar d = (case mulf d scalar of Fin s q \<Rightarrow> nat (floor q) | _ \<Rightarrow> 0)"

definition enc_byte :: "fp \<Rightarrow> fp \<Rightarrow> u8" where
  "enc_byte scalar d = (if isnan d \<or> isinf d then 255 else word_of_nat (depth_level scalar d))"

definition sums_ok :: "nat \<Rightarrow> fp \<Rightarrow> fp \<Rightarrow> bool" where
  "sums_ok n avg tot \<longleftrightarrow> (\<exists>a k. avg = Fin False a \<and> tot = Fin False (of_nat k) \<and> 0 \<le> a \<and> a \<le> of_nat k \<and> k \<le> n)"

lemma sums_ok_step:
  assumes "sums_ok n avg tot" and "Suc n < 2 ^ 24" and "0 \<le> r" and "r < 1"
  shows "sums_ok (Suc n) (addf avg (Fin False r)) (addf tot fone)"
proof -
  obtain a k where k: "avg = Fin False a" "tot = Fin False (of_nat k)" "0 \<le> a" "a \<le> of_nat k" "k \<le> n"
    using assms(1) by (auto simp: sums_ok_def)
  obtain c where c: "addf avg (Fin False r) = Fin False c" "of_nat 0 \<le> c" "c \<le> of_nat (Suc k)"
    using addf_between [of a r 0 "Suc k"] k assms by auto
  obtain d where d: "addf tot fone = Fin False d" "of_nat (Suc k) \<le> d" "d \<le> of_nat (Suc k)"
    using addf_between [of "of_nat k" 1 "Suc k" "Suc k"] k assms(2) by (auto simp: fone_def)
  show ?thesis using c d k(5) unfolding sums_ok_def by (intro exI [of _ c] exI [of _ "Suc k"]) auto
qed

lemma sums_ok_mono: "sums_ok n a t \<Longrightarrow> n \<le> n' \<Longrightarrow> sums_ok n' a t"
  unfolding sums_ok_def by (elim exE conjE, rule exI, rule exI) (auto intro: order_trans)

lemma enc_fraction_total:
  assumes "sums_ok n avg tot" and "n < 2 ^ 24"
  shows "\<exists>u. enc_fraction avg tot = Some u"
proof -
  obtain a k where k: "avg = Fin False a" "tot = Fin False (of_nat k)" "0 \<le> a" "a \<le> of_nat k"
    using assms(1) by (auto simp: sums_ok_def)
  show ?thesis
  proof (cases "k = 0")
    case False
    then have "a / of_nat k \<le> of_nat 1" using k(4) by (simp add: divide_le_eq)
    then obtain c where c: "divf avg tot = Fin False c" "of_nat 0 \<le> c" "c \<le> of_nat 1"
      using fround_between [of 0 "a / of_nat k" 1] k False by auto
    then have "c * 255 \<le> of_nat 255" by simp
    then obtain d where d: "mulf (divf avg tot) f255 = Fin False d" "of_nat 0 \<le> d" "d \<le> of_nat 255"
      using fround_between [of 0 "c * 255" 255] c by (auto simp: f255_exact)
    then have "floor d \<le> 255" by (simp add: floor_le_iff)
    then show ?thesis using d False k(2) by (auto simp: enc_fraction_def f_to_u8_def fzero_def sval_def)
  qed (simp add: enc_fraction_def k fzero_def sval_def)
qed

lemma enc_step_ok:
  assumes "depth_in_range scalar d" and "sums_ok n (u_remavg e) (u_remtot e)"
    and "sums_ok n (v_remavg e) (v_remtot e)" and "Suc n < 2 ^ 24"
  shows "\<exists>e'. enc_step scalar d e = Some e' \<and> e_y e' = e_y e @ [enc_byte scalar d] \<and>
    sums_ok (Suc n) (u_remavg e') (u_remtot e') \<and> sums_ok (Suc n) (v_remavg e') (v_remtot e')"
proof (cases "isnan d \<or> isinf d")
  case True
  then show ?thesis using assms(2,3) by (auto simp: enc_step_def enc_byte_def intro: sums_ok_mono)
next
  case False
  then obtain q where q: "mulf d scalar = Fin False q" "0 \<le> q" "q < 255"
    using assms(1) by (auto simp: depth_in_range_def split: fp.splits)
  have fl: "0 \<le> floor q" "floor q < 255" using q by (simp_all add: floor_less_iff)
  then have y: "f_to_u8 (Fin False q) = Some (enc_byte scalar d)"
    using False q(1) by (simp add: f_to_u8_def enc_byte_def depth_level_def)
  have r: "0 \<le> q - of_int (floor q)" "q - of_int (floor q) < 1" by linarith+
  note su = sums_ok_step [OF assms(2,4) r] and sv = sums_ok_step [OF assms(3,4) r]
  show ?thesis using False su sv sums_ok_mono [OF assms(2), of "Suc n"] sums_ok_mono [OF assms(3), of "Suc n"]
    by (simp add: enc_step_def q(1) y Let_def)
qed

lemma enc_steps_ok:
  "\<forall>d \<in> set v. depth_in_range scalar d \<Longrightarrow> sums_ok n (u_remavg e) (u_remtot e) \<Longrightarrow>
   sums_ok n (v_remavg e) (v_remtot e) \<Longrightarrow> n + length v < 2 ^ 24 \<Longrightarrow>
   \<exists>e'. ofold (enc_step scalar) v e = Some e' \<and> e_y e' = e_y e @ map (enc_byte scalar) v \<and>
     sums_ok (n + length v) (u_remavg e') (u_remtot e') \<and> sums_ok (n + length v) (v_remavg e') (v_remtot e')"
proof (induction v arbitrary: n e)
  case (Cons d v)
  obtain e' where e': "enc_step scalar d e = Some e'" "e_y e' = e_y e @ [enc_byte scalar d]"
    "sums_ok (Suc n) (u_remavg e') (u_remtot e')" "sums_ok (Suc n) (v_remavg e') (v_remtot e')"
    using enc_step_ok [of scalar d n e] Cons.prems by auto
  show ?case using Cons.IH [OF _ e'(3,4)] Cons.prems(1,4) e'(1,2) by auto
qed simp

lemma enc_quad_ok:
  assumes "\<forall>d \<in> set v. depth_in_range scalar d" and "length v = 4"
  shows "\<exists>a b. enc_quad scalar v = Some (map (enc_byte scalar) v, a, b)"
proof -
  have z: "sums_ok 0 fzero fzero" unfolding sums_ok_def by (intro exI [of _ 0] exI [of _ "0 :: nat"]) (simp add: fzero_def)
  obtain e' where e': "ofold (enc_step scalar) v enc_start = Some e'" "e_y e' = map (enc_byte scalar) v"
    "sums_ok 4 (u_remavg e') (u_remtot e')" "sums_ok 4 (v_remavg e') (v_remtot e')"
    using enc_steps_ok [OF assms(1), of 0 enc_start] z assms(2) by (auto simp: enc_start_def)
  then show ?thesis using enc_fraction_total [OF e'(3)] enc_fraction_total [OF e'(4)]
    by (auto simp: enc_quad_def)
qed

text \<open>What decoding makes of the byte of a depth, whatever the fraction bytes are.\<close>

definition decodes_to :: "fp \<Rightarrow> u8 \<Rightarrow> fp \<Rightarrow> bool" where
  "decodes_to scalar y d \<longleftrightarrow> (if y = 255 then d = NaN
     else \<exists>q. d = mulf (Fin False q) scalar \<and> of_nat (unat y) \<le> q \<and> q \<le> of_nat (Suc (unat y)))"

lemma dec_steps_ok:
  "list_all2 (decodes_to scalar) ys' out \<Longrightarrow>
   list_all2 (decodes_to scalar) (ys' @ ys)
     (snd (fold (dec_step scalar (divf (u8_to_f u) f255) (divf (u8_to_f v) f255)) ys (yv, out)))"
proof (induction ys arbitrary: ys' out yv)
  case (Cons y ys)
  obtain yv' d where st: "dec_step scalar (divf (u8_to_f u) f255) (divf (u8_to_f v) f255) y (yv, out) = (yv', out @ [d])"
    "decodes_to scalar y d"
  proof (cases "y = 255")
    case True
    then show ?thesis using that by (simp add: dec_step_def decodes_to_def)
  next
    case False
    define hit where "hit \<longleftrightarrow> yv < 0 \<or> yv = uint y"
    define rem where "rem = (if hit then divf (u8_to_f u) f255 else divf (u8_to_f v) f255)"
    obtain r where r: "rem = Fin False r" "0 \<le> r" "r \<le> 1"
      using byte_fraction [of u] byte_fraction [of v] by (cases hit) (auto simp: rem_def)
    define n where "n = unat y"
    have n: "n < 256" unfolding n_def by (rule unat_u8)
    have "\<exists>c. addf (Fin False (of_nat n)) (Fin False r) = Fin False c \<and> of_nat n \<le> c \<and> c \<le> of_nat (Suc n)"
      using r n by (intro addf_between) simp_all
    then obtain c where c: "addf (u8_to_f y) rem = Fin False c" "of_nat n \<le> c" "c \<le> of_nat (Suc n)"
      unfolding u8_to_f_exact [OF n_def [symmetric]] r(1) by blast
    have "dec_step scalar (divf (u8_to_f u) f255) (divf (u8_to_f v) f255) y (yv, out) =
      (if hit then uint y else yv, out @ [mulf (addf (u8_to_f y) rem) scalar])"
      using False by (simp add: dec_step_def hit_def rem_def)
    moreover have "decodes_to scalar y (mulf (addf (u8_to_f y) rem) scalar)"
      using False c unfolding decodes_to_def n_def [symmetric] by auto
    ultimately show ?thesis using that by blast
  qed
  have "list_all2 (decodes_to scalar) (ys' @ [y]) (out @ [d])" using Cons.prems st(2) by (simp add: list_all2_appendI)
  from Cons.IH [OF this, of yv'] show ?case by (simp add: st(1))
qed simp

lemma dec_quad_ok: "list_all2 (decodes_to scalar) ys (dec_quad scalar ys u v)"
  using dec_steps_ok [of scalar "[]" "[]"] by (simp add: dec_quad_def)

subsection \<open>Encoding and decoding an image\<close>

definition block_cells :: "nat \<Rightarrow> nat \<times> nat \<Rightarrow> nat set" where
  "block_cells w = (\<lambda>(y, x). {y * w + x, y * w + x + 1, (y + 1) * w + x, (y + 1) * w + x + 1})"

text \<open>The blocks of an image of even size cover it.\<close>

lemma blocks_cover:
  assumes "even w" and "even h" and "i < h * w"
  shows "\<exists>b \<in> set (pairs_by 2 h 2 w). i \<in> block_cells w b"
proof -
  define Y X where "Y = i div w" and "X = i mod w"
  have w0: "0 < w" using assms(3) by (cases w) auto
  have i: "i = Y * w + X" "X < w" "Y < h"
    using assms(3) w0 by (simp_all add: Y_def X_def less_mult_imp_div_less)
  define y x where "y = 2 * (Y div 2)" and "x = 2 * (X div 2)"
  have yx: "even y" "even x" "y < h" "x < w" "Y = y \<or> Y = y + 1" "X = x \<or> X = x + 1"
    using i by (auto simp: y_def x_def)
  then have "i \<in> block_cells w (y, x)" using i(1) by (auto simp: block_cells_def)
  then show ?thesis using yx by (auto simp: set_pairs_by2)
qed

lemma block_inside:
  assumes "even w" and "even h" and "(y, x) \<in> set (pairs_by 2 h 2 w)"
  shows "y + 1 < h" and "x + 1 < w" and "\<And>i. i \<in> block_cells w (y, x) \<Longrightarrow> i < h * w"
    and "y div 2 * (w div 2) + x div 2 < (h div 2) * (w div 2)"
proof -
  show yx: "y + 1 < h" "x + 1 < w" using assms by (auto simp: set_pairs_by2 elim!: evenE)
  show "i < h * w" if "i \<in> block_cells w (y, x)" for i
    using that yx row_index [of x w y h] row_index [of "x + 1" w y h]
      row_index [of x w "y + 1" h] row_index [of "x + 1" w "y + 1" h] by (auto simp: block_cells_def)
  show "y div 2 * (w div 2) + x div 2 < (h div 2) * (w div 2)"
    using yx by (intro row_index) auto
qed

lemma aset_quad_Some:
  assumes "x + 1 < w" and "length q = 4"
  shows "aset_quad out w y x q = Some out' \<Longrightarrow> length out' = length out \<and>
    out' ! (y * w + x) = q ! 0 \<and> out' ! (y * w + x + 1) = q ! 1 \<and>
    out' ! ((y + 1) * w + x) = q ! 2 \<and> out' ! ((y + 1) * w + x + 1) = q ! 3 \<and>
    (\<forall>i. i \<notin> block_cells w (y, x) \<longrightarrow> out' ! i = out ! i)"
  using assms by (auto simp: aset_quad_def bind_eq_Some_conv block_cells_def nth_list_update)

lemma aset_quad_total:
  assumes "\<forall>i \<in> block_cells w (y, x). i < length out"
  shows "\<exists>out'. aset_quad out w y x q = Some out' \<and> length out' = length out"
  using assms by (auto simp: aset_quad_def block_cells_def aset_def)

lemma quad_at_total:
  assumes "\<forall>i \<in> block_cells w (y, x). i < length src"
  shows "quad_at src w y x = Some [src ! (y * w + x), src ! (y * w + x + 1), src ! ((y + 1) * w + x), src ! ((y + 1) * w + x + 1)]"
  using assms by (auto simp: quad_at_def block_cells_def aget_def)

text \<open>Buffers of the sizes the program allocates.\<close>

definition planes_ok :: "nat \<Rightarrow> nat \<Rightarrow> yuv_planes \<Rightarrow> bool" where
  "planes_ok w h p \<longleftrightarrow> length (ydata p) = h * w \<and> length (udata p) = (h div 2) * (w div 2) \<and>
     length (vdata p) = (h div 2) * (w div 2)"

lemma enc_block_ok:
  assumes ev: "even w" "even h" and b: "(y, x) \<in> set (pairs_by 2 h 2 w)"
    and d: "length data = h * w" "\<forall>d \<in> set data. depth_in_range scalar d" and p: "planes_ok w h p"
  shows "\<exists>p'. enc_block scalar w data (y, x) p = Some p' \<and> planes_ok w h p' \<and>
    (\<forall>i \<in> block_cells w (y, x). ydata p' ! i = enc_byte scalar (data ! i)) \<and>
    (\<forall>i. i \<notin> block_cells w (y, x) \<longrightarrow> ydata p' ! i = ydata p ! i)"
proof -
  note bi = block_inside [OF ev b]
  define q where "q = [data ! (y * w + x), data ! (y * w + x + 1), data ! ((y + 1) * w + x), data ! ((y + 1) * w + x + 1)]"
  have q: "quad_at data w y x = Some q"
    unfolding q_def using bi(3) d(1) by (intro quad_at_total) simp
  have "\<forall>i \<in> block_cells w (y, x). data ! i \<in> set data" using bi(3) d(1) by simp
  then have "set q \<subseteq> set data" by (simp add: q_def block_cells_def)
  then have inr: "\<forall>d \<in> set q. depth_in_range scalar d" using d(2) by blast
  have l4: "length q = 4" by (simp add: q_def)
  obtain u v where e: "enc_quad scalar q = Some (map (enc_byte scalar) q, u, v)"
    using enc_quad_ok [OF inr l4] by blast
  obtain yd where yd: "aset_quad (ydata p) w y x (map (enc_byte scalar) q) = Some yd" "length yd = h * w"
    using aset_quad_total [of w y x "ydata p"] bi(3) p by (auto simp: planes_ok_def)
  have S: "enc_block scalar w data (y, x) p = Some \<lparr>ydata = yd,
      udata = (udata p)[y div 2 * (w div 2) + x div 2 := u], vdata = (vdata p)[y div 2 * (w div 2) + x div 2 := v]\<rparr>"
    using q e yd(1) bi(4) p by (simp add: enc_block_def planes_ok_def aset_def)
  have "length (map (enc_byte scalar) q) = 4" using l4 by simp
  from aset_quad_Some [OF bi(2) this yd(1)] show ?thesis
    unfolding S using yd(2) p by (simp add: planes_ok_def block_cells_def q_def)
qed

lemma enc_image_ok:
  assumes ev: "even w" "even h" and d: "length data = h * w" "\<forall>d \<in> set data. depth_in_range scalar d"
    and p: "planes_ok w h p"
  shows "\<exists>p'. ofold (enc_block scalar w data) (pairs_by 2 h 2 w) p = Some p' \<and> planes_ok w h p' \<and>
    (\<forall>i < h * w. ydata p' ! i = enc_byte scalar (data ! i))"
proof -
  obtain p' where p': "ofold (enc_block scalar w data) (pairs_by 2 h 2 w) p = Some p'" "planes_ok w h p'"
    "\<forall>i \<in> \<Union> (block_cells w ` set (pairs_by 2 h 2 w)). ydata p' ! i = enc_byte scalar (data ! i)"
    using ofold_writes [of "planes_ok w h" p "pairs_by 2 h 2 w" "enc_block scalar w data" "block_cells w"
        "\<lambda>i b. b = enc_byte scalar (data ! i)" "\<lambda>p i. ydata p ! i"] p enc_block_ok [OF ev _ d] by fastforce
  then show ?thesis using blocks_cover [OF ev] by blast
qed

lemma dec_block_ok:
  assumes ev: "even w" "even h" and b: "(y, x) \<in> set (pairs_by 2 h 2 w)"
    and p: "planes_ok w h p" and out: "length out = h * w"
  shows "\<exists>out'. dec_block scalar w p (y, x) out = Some out' \<and> length out' = h * w \<and>
    (\<forall>i \<in> block_cells w (y, x). decodes_to scalar (ydata p ! i) (out' ! i)) \<and>
    (\<forall>i. i \<notin> block_cells w (y, x) \<longrightarrow> out' ! i = out ! i)"
proof -
  note bi = block_inside [OF ev b]
  define q where "q = [ydata p ! (y * w + x), ydata p ! (y * w + x + 1), ydata p ! ((y + 1) * w + x), ydata p ! ((y + 1) * w + x + 1)]"
  have q: "quad_at (ydata p) w y x = Some q"
    unfolding q_def using bi(3) p by (intro quad_at_total) (simp add: planes_ok_def)
  define u v where "u = udata p ! (y div 2 * (w div 2) + x div 2)" and "v = vdata p ! (y div 2 * (w div 2) + x div 2)"
  define ds where "ds = dec_quad scalar q u v"
  have ds: "list_all2 (decodes_to scalar) q ds" unfolding ds_def by (rule dec_quad_ok)
  then have l4: "length ds = 4" by (simp add: list_all2_lengthD [symmetric] q_def)
  have el: "decodes_to scalar (q ! k) (ds ! k)" if "k < 4" for k
    using ds that by (simp add: list_all2_conv_all_nth q_def)
  obtain out' where o: "aset_quad out w y x ds = Some out'" "length out' = h * w"
    using aset_quad_total [of w y x out] bi(3) out by auto
  have S: "dec_block scalar w p (y, x) out = Some out'"
    using q o(1) bi(4) p by (simp add: dec_block_def planes_ok_def aget_def u_def v_def ds_def)
  from aset_quad_Some [OF bi(2) l4 o(1)] show ?thesis
    unfolding S using o(2) el [of 0] el [of 1] el [of 2] el [of 3] by (simp add: block_cells_def q_def)
qed

lemma dec_image_ok:
  assumes ev: "even w" "even h" and p: "planes_ok w h p" and out: "length out = h * w"
  shows "\<exists>out'. ConvertYUVToDepth p w h maxDepth out = Some out' \<and> length out' = h * w \<and>
    (\<forall>i < h * w. decodes_to (divf maxDepth (f_of_int F32 254)) (ydata p ! i) (out' ! i))"
proof -
  let ?s = "divf maxDepth (f_of_int F32 254)"
  obtain out' where od: "ofold (dec_block ?s w p) (pairs_by 2 h 2 w) out = Some out'" "length out' = h * w"
    "\<forall>i \<in> \<Union> (block_cells w ` set (pairs_by 2 h 2 w)). decodes_to ?s (ydata p ! i) (out' ! i)"
    using ofold_writes [of "\<lambda>bf. length bf = h * w" out "pairs_by 2 h 2 w" "dec_block ?s w p" "block_cells w"
        "\<lambda>i d. decodes_to ?s (ydata p ! i) d" "\<lambda>bf i. bf ! i"] out dec_block_ok [OF ev _ p] by fastforce
  then show ?thesis unfolding ConvertYUVToDepth_def using blocks_cover [OF ev] by blast
qed

subsection \<open>What can be in the pyramid\<close>

text \<open>
  The depths the encoder is meant for: invalid (NaN), infinite, or from 0 to 10. An inverse depth in
  the pyramid is then NaN, infinite or at least \<open>409 / 4096\<close>, which is a float below the float nearest
  to \<open>1 / 10\<close>, and a depth that fills a hole is at most \<open>1283 / 128\<close>.
\<close>

definition depth_ok :: "fp \<Rightarrow> bool" where
  "depth_ok d \<longleftrightarrow> isnan d \<or> isinf d \<or> (\<exists>q. d = Fin False q \<and> 0 \<le> q \<and> q \<le> 10)"

definition inv_ok :: "fp \<Rightarrow> bool" where
  "inv_ok v \<longleftrightarrow> v = NaN \<or> v = Inf False \<or> (\<exists>q. v = Fin False q \<and> 409 / 4096 \<le> q)"

definition fill_ok :: "fp \<Rightarrow> bool" where
  "fill_ok v \<longleftrightarrow> (\<exists>q. v = Fin False q \<and> 0 \<le> q \<and> q \<le> 1283 / 128)"

lemma fround_at_least:
  assumes "representable F32 m" and "0 \<le> m" and "m \<le> q"
  shows "fround F32 False q = Inf False \<or> (\<exists>c. fround F32 False q = Fin False c \<and> m \<le> c)"
proof -
  have "m \<le> rnd F32 q" using rnd_mono [OF assms(2,3), of F32] rnd_exact [OF assms(1,2)] by simp
  then show ?thesis by (auto simp: fround_def Let_def)
qed

lemma fround_le:
  assumes "representable F32 m" and "0 \<le> q" and "q \<le> m" and "m \<le> ffmax F32"
  shows "\<exists>c. fround F32 False q = Fin False c \<and> 0 \<le> c \<and> c \<le> m"
proof -
  have "rnd F32 q \<le> m" by (rule rnd_le_representable [OF assms(2,3,1)]) simp
  then show ?thesis using assms(4) rnd_nonneg [OF assms(2)] by (auto simp: fround_def Let_def)
qed

lemma representable_scaled: "k < 2 ^ 24 \<Longrightarrow> j \<le> 100 \<Longrightarrow> representable F32 (of_nat k / 2 ^ j)"
  unfolding representable_def
  by (intro exI [of _ "int k"] exI [of _ "- int j"]) (simp add: power_int_minus divide_inverse)

lemma inv_ok_divf:
  assumes "depth_ok d"
  shows "inv_ok (if isnan d \<or> isinf d then NaN else divf fone d)"
proof (cases "isnan d \<or> isinf d")
  case False
  then obtain q where q: "d = Fin False q" "0 \<le> q" "q \<le> 10" using assms by (auto simp: depth_ok_def)
  have r: "representable F32 (409 / 4096)" using representable_scaled [of 409 12] by simp
  have "409 / 4096 \<le> 1 / q" if "q \<noteq> 0" using q that by (simp add: field_simps)
  then show ?thesis using False q fround_at_least [OF r, of "1 / q"] by (auto simp: fone_def inv_ok_def)
qed (simp add: inv_ok_def)

lemma fill_ok_divf:
  assumes "inv_ok v" and "\<not> isnan v"
  shows "fill_ok (divf fone v)"
proof (cases v)
  case (Fin s q)
  then have q: "\<not> s" "409 / 4096 \<le> q" using assms by (auto simp: inv_ok_def)
  have r: "representable F32 (1283 / 128)" using representable_scaled [of 1283 7] by simp
  have "1 / q \<le> 1283 / 128" using q(2) by (simp add: field_simps)
  then have "\<exists>c. fround F32 False (1 / q) = Fin False c \<and> 0 \<le> c \<and> c \<le> 1283 / 128"
    using q by (intro fround_le [OF r]) simp_all
  then show ?thesis using Fin q by (auto simp: fone_def fill_ok_def)
qed (use assms in \<open>auto simp: inv_ok_def fone_def fill_ok_def\<close>)

text \<open>The sum of \<open>k\<close> inverse depths.\<close>

definition inv_sum :: "nat \<Rightarrow> fp \<Rightarrow> bool" where
  "inv_sum k v \<longleftrightarrow> v = Inf False \<and> 0 < k \<or> (\<exists>q. v = Fin False q \<and> of_nat (k * 409) / 4096 \<le> q)"

lemma inv_sum_add:
  assumes "inv_sum k a" and "inv_ok v" and "\<not> isnan v" and "k < 4"
  shows "inv_sum (Suc k) (addf a v)"
proof (cases "a = Inf False \<or> v = Inf False")
  case True
  then show ?thesis using assms(1-3) by (cases a; cases v) (auto simp: inv_sum_def inv_ok_def)
next
  case False
  then obtain p q where pq: "a = Fin False p" "of_nat (k * 409) / 4096 \<le> p" "v = Fin False q" "409 / 4096 \<le> q"
    using assms(1-3) by (auto simp: inv_sum_def inv_ok_def)
  have m: "(0 :: rat) \<le> of_nat (k * 409) / 4096" by simp
  then have p0: "0 \<le> p" using pq(2) by linarith
  have "of_nat (Suc k * 409) / 4096 \<le> p + q" using pq(2,4) by (simp add: add_divide_distrib)
  moreover have "representable F32 (of_nat (Suc k * 409) / 2 ^ 12)"
    by (rule representable_scaled) (use assms(4) in simp_all)
  ultimately have "fround F32 False (p + q) = Inf False \<or>
      (\<exists>c. fround F32 False (p + q) = Fin False c \<and> of_nat (Suc k * 409) / 4096 \<le> c)"
    by (intro fround_at_least) simp_all
  moreover have "addf a v = fround F32 False (p + q)" using pq p0 by (simp add: sval_def Let_def)
  ultimately show ?thesis by (auto simp: inv_sum_def)
qed

lemma inv_ok_mean:
  assumes "inv_sum k a" and "0 < k" and "k \<le> 4"
  shows "inv_ok (divf a (Fin False (of_nat k)))"
proof (cases a)
  case (Fin s q)
  then have q: "\<not> s" "of_nat (k * 409) / 4096 \<le> q" using assms(1) by (auto simp: inv_sum_def)
  have r: "representable F32 (409 / 4096)" using representable_scaled [of 409 12] by simp
  have "409 / 4096 \<le> q / of_nat k" using q(2) assms(2) by (simp add: field_simps)
  from fround_at_least [OF r _ this] show ?thesis using Fin q(1) assms(2) by (auto simp: inv_ok_def)
qed (use assms in \<open>auto simp: inv_sum_def inv_ok_def\<close>)

lemma lod_avg_ok:
  assumes "\<forall>v \<in> set vs. inv_ok v" and "length vs \<le> 4"
  shows "inv_ok (lod_avg vs)"
proof -
  have sum: "\<exists>k \<le> j + length xs. inv_sum k (fst r) \<and> snd r = Fin False (of_nat k)"
    if "r = fold (\<lambda>d (vf, t). if \<not> isnan d then (addf vf d, addf t fone) else (vf, t)) xs s"
      "\<forall>v \<in> set xs. inv_ok v" "k \<le> j" "j + length xs \<le> 4" "inv_sum k (fst s)" "snd s = Fin False (of_nat k)" for xs r s k j
    using that
  proof (induction xs arbitrary: s k j)
    case (Cons v xs)
    show ?case
    proof (cases "isnan v")
      case True
      have "\<exists>k \<le> j + length xs. inv_sum k (fst r) \<and> snd r = Fin False (of_nat k)"
        by (rule Cons.IH [of s k]) (use Cons.prems True in \<open>simp_all add: case_prod_beta\<close>)
      then show ?thesis by (auto intro: le_SucI)
    next
      case False
      have "inv_sum (Suc k) (addf (fst s) v)" by (rule inv_sum_add) (use Cons.prems False in simp_all)
      moreover have "addf (Fin False (of_nat k)) fone = Fin False (of_nat (Suc k))"
        using addf_between [of "of_nat k" 1 "Suc k" "Suc k"] Cons.prems by (auto simp: fone_def)
      ultimately have "\<exists>k \<le> Suc j + length xs. inv_sum k (fst r) \<and> snd r = Fin False (of_nat k)"
        by (intro Cons.IH [of "(addf (fst s) v, addf (snd s) fone)" "Suc k"])
          (use Cons.prems False in \<open>simp_all add: case_prod_beta\<close>)
      then show ?thesis by simp
    qed
  qed auto
  define r where "r = fold (\<lambda>d (vf, t). if \<not> isnan d then (addf vf d, addf t fone) else (vf, t)) vs (fzero, fzero)"
  have "inv_sum 0 fzero" by (simp add: inv_sum_def fzero_def)
  then obtain k where k: "k \<le> 4" "inv_sum k (fst r)" "snd r = Fin False (of_nat k)"
    using sum [OF r_def assms(1), of 0 0] assms(2) by (auto simp: fzero_def)
  have "lod_avg vs = (if flt fzero (snd r) then divf (fst r) (snd r) else NaN)"
    by (simp add: lod_avg_def r_def case_prod_beta)
  then show ?thesis using k inv_ok_mean [OF k(2)] by (cases "k = 0") (auto simp: inv_ok_def fzero_def sval_def)
qed

subsection \<open>Building and filling the pyramid\<close>

text \<open>The cells that the pyramid loop writes from a level of the given size on.\<close>

function lod_total :: "nat \<Rightarrow> nat \<Rightarrow> nat" where
  "lod_total dw dh = (if 16 \<le> dw then dw * dh + lod_total (dw div 2) (dh div 2) else 0)"
  by pat_completeness auto

termination
  by (relation "measure fst") auto

declare lod_total.simps [simp del]

text \<open>
  A level reads cells of the image or of an earlier level and writes its own; when the cells it reads
  are inverse depths, so are those it writes.
\<close>

definition source_before :: "nat option \<Rightarrow> nat \<Rightarrow> nat \<Rightarrow> bool" where
  "source_before dsrc n dptr \<longleftrightarrow> (case dsrc of None \<Rightarrow> True | Some off \<Rightarrow> off + n \<le> dptr)"

lemma lod_level_ok:
  assumes src: "hs * dsw \<le> length (lod_source dinv out dsrc)" and "dw = dsw div 2" and "dh = hs div 2"
    and len: "dptr + dw * dh \<le> length out" and before: "source_before dsrc (hs * dsw) dptr"
  shows "\<exists>out'. lod_level dinv dsrc dsw dw dh dptr out = Some out' \<and> length out' = length out \<and>
    (\<forall>i. i < dptr \<or> dptr + dw * dh \<le> i \<longrightarrow> out' ! i = out ! i) \<and>
    ((\<forall>i < hs * dsw. inv_ok (lod_source dinv out dsrc ! i)) \<longrightarrow> (\<forall>i < dw * dh. inv_ok (out' ! (dptr + i))))"
proof -
  let ?S = "\<lambda>a. lod_source dinv a dsrc"
  define P where "P a \<longleftrightarrow> length a = length out \<and> (\<forall>i < dptr. a ! i = out ! i)" for a
  define R where "R v \<longleftrightarrow> (\<forall>i < hs * dsw. inv_ok (?S out ! i)) \<longrightarrow> inv_ok v" for v
  define W where "W p = {dptr + fst p * dw + snd p}" for p
  define f where "f = (\<lambda>(y, x) out. do {
       v \<leftarrow> quad_at (?S out) dsw (y * 2) (x * 2);
       aset out (dptr + y * dw + x) (lod_avg v) })"
  have step: "\<exists>b. f p a = Some b \<and> P b \<and> (\<forall>i \<in> W p. R (b ! i)) \<and> (\<forall>i. i \<notin> W p \<longrightarrow> b ! i = a ! i)"
    if p: "p \<in> set (pairs dh dw)" and a: "P a" for p a
  proof -
    obtain y x where yx: "p = (y, x)" "y < dh" "x < dw" using p unfolding set_pairs by auto
    have in2: "y * 2 + 1 < hs" "x * 2 + 1 < dsw" using yx assms(2,3) by auto
    have cells: "\<forall>i \<in> block_cells dsw (y * 2, x * 2). i < hs * dsw"
      using in2 row_index [of "x * 2" dsw "y * 2" hs] row_index [of "x * 2 + 1" dsw "y * 2" hs]
        row_index [of "x * 2" dsw "y * 2 + 1" hs] row_index [of "x * 2 + 1" dsw "y * 2 + 1" hs]
      by (auto simp: block_cells_def)
    have same: "length (?S a) = length (?S out)" "\<forall>i < hs * dsw. ?S a ! i = ?S out ! i"
      using a before src by (auto simp: lod_source_def P_def source_before_def split: option.splits)
    have "\<forall>i \<in> block_cells dsw (y * 2, x * 2). i < length (?S a)" using cells src same(1) by auto
    from quad_at_total [OF this] obtain v where v: "quad_at (?S a) dsw (y * 2) (x * 2) = Some v" "length v = 4"
      "set v = (!) (?S a) ` block_cells dsw (y * 2, x * 2)" by (auto simp: block_cells_def)
    have "R (lod_avg v)" unfolding R_def
    proof
      assume "\<forall>i < hs * dsw. inv_ok (?S out ! i)"
      then have "\<forall>c \<in> set v. inv_ok c" using v(3) same(2) cells by auto
      then show "inv_ok (lod_avg v)" using v(2) by (intro lod_avg_ok) simp_all
    qed
    moreover have "y * dw + x < dh * dw" by (rule row_index [OF yx(3,2)])
    then have "dptr + y * dw + x < length a" "dptr \<le> dptr + y * dw + x"
      using len a by (simp_all add: P_def mult.commute)
    ultimately show ?thesis using v(1) a yx(1) by (auto simp: f_def W_def P_def)
  qed
  have P0: "P out" by (simp add: P_def)
  obtain t where t: "ofold f (pairs dh dw) out = Some t" "P t" "\<forall>i \<in> \<Union> (W ` set (pairs dh dw)). R (t ! i)"
    "\<forall>i. i \<notin> \<Union> (W ` set (pairs dh dw)) \<longrightarrow> t ! i = out ! i"
    using ofold_writes [where f = f and xs = "pairs dh dw" and P = P and R = "\<lambda>_. R" and obs = "\<lambda>b i. b ! i" and W = W, OF P0 step] by blast
  have in_W: "dptr + i \<in> \<Union> (W ` set (pairs dh dw))" if "i < dw * dh" for i
  proof -
    have "0 < dw" using that by (cases dw) auto
    then have "(i div dw, i mod dw) \<in> set (pairs dh dw)" unfolding set_pairs using that
      by (simp add: less_mult_imp_div_less mult.commute)
    moreover have "dptr + i \<in> W (i div dw, i mod dw)" by (simp add: W_def)
    ultimately show ?thesis by blast
  qed
  have W_lt: "dptr \<le> i \<and> i < dptr + dw * dh" if "i \<in> \<Union> (W ` set (pairs dh dw))" for i
    using that row_index [of _ dw _ dh] unfolding set_pairs by (auto simp: W_def mult.commute [of dw] add.assoc)
  have "\<forall>i. i < dptr \<or> dptr + dw * dh \<le> i \<longrightarrow> t ! i = out ! i" using t(4) W_lt by (metis linorder_not_le)
  moreover have "inv_ok (t ! (dptr + i))" if "\<forall>i < hs * dsw. inv_ok (?S out ! i)" "i < dw * dh" for i
  proof -
    have "R (t ! (dptr + i))" using t(3) in_W [OF that(2)] by blast
    then show ?thesis using that(1) by (simp add: R_def)
  qed
  moreover have "length t = length out" using t(2) by (simp add: P_def)
  ultimately show ?thesis using t(1) unfolding lod_level_def f_def [symmetric] by blast
qed

lemma lod_levels_ok:
  "hs * dsw \<le> length (lod_source dinv out dsrc) \<Longrightarrow> dw = dsw div 2 \<Longrightarrow> dh = hs div 2 \<Longrightarrow>
   dptr + lod_total dw dh \<le> length out \<Longrightarrow> source_before dsrc (hs * dsw) dptr \<Longrightarrow>
   \<exists>out'. lod_levels dinv dsrc dsw dw dh dptr out = Some (dptr + lod_total dw dh, out') \<and>
     length out' = length out \<and> (\<forall>i. i < dptr \<or> dptr + lod_total dw dh \<le> i \<longrightarrow> out' ! i = out ! i) \<and>
     ((\<forall>i < hs * dsw. inv_ok (lod_source dinv out dsrc ! i)) \<longrightarrow> (\<forall>i < lod_total dw dh. inv_ok (out' ! (dptr + i))))"
proof (induction dinv dsrc dsw dw dh dptr out arbitrary: hs rule: lod_levels.induct)
  case (1 dinv dsrc dsw dw dh dptr out)
  show ?case
  proof (cases "16 \<le> dw")
    case False
    then show ?thesis by (simp add: lod_levels.simps lod_total.simps)
  next
    case True
    define n where "n = lod_total (dw div 2) (dh div 2)"
    have t: "lod_total dw dh = dw * dh + n" using True by (subst lod_total.simps) (simp add: n_def)
    have len: "dptr + dw * dh \<le> length out" using 1(5) t by simp
    obtain o1 where o1: "lod_level dinv dsrc dsw dw dh dptr out = Some o1" "length o1 = length out"
      "\<forall>i. i < dptr \<or> dptr + dw * dh \<le> i \<longrightarrow> o1 ! i = out ! i"
      "(\<forall>i < hs * dsw. inv_ok (lod_source dinv out dsrc ! i)) \<longrightarrow> (\<forall>i < dw * dh. inv_ok (o1 ! (dptr + i)))"
      using lod_level_ok [OF 1(2-4) len 1(6)] by blast
    have "\<exists>out'. lod_levels dinv (Some dptr) (dsw div 2) (dw div 2) (dh div 2) (dptr + dw * dh) o1 =
        Some (dptr + dw * dh + lod_total (dw div 2) (dh div 2), out') \<and> length out' = length o1 \<and>
        (\<forall>i. i < dptr + dw * dh \<or> dptr + dw * dh + lod_total (dw div 2) (dh div 2) \<le> i \<longrightarrow> out' ! i = o1 ! i) \<and>
        ((\<forall>i < dh * (dsw div 2). inv_ok (lod_source dinv o1 (Some dptr) ! i)) \<longrightarrow>
          (\<forall>i < lod_total (dw div 2) (dh div 2). inv_ok (out' ! (dptr + dw * dh + i))))"
      by (rule 1(1) [OF True, of o1 dh])
        (use 1(3,5) t o1(1,2) len in \<open>simp_all add: lod_source_def source_before_def mult.commute n_def le_diff_conv2\<close>)
    then obtain out' where o2: "lod_levels dinv (Some dptr) (dsw div 2) (dw div 2) (dh div 2) (dptr + dw * dh) o1 =
        Some (dptr + dw * dh + n, out')" "length out' = length o1"
      "\<forall>i. i < dptr + dw * dh \<or> dptr + dw * dh + n \<le> i \<longrightarrow> out' ! i = o1 ! i"
      "(\<forall>i < dw * dh. inv_ok (o1 ! (dptr + i))) \<longrightarrow> (\<forall>i < n. inv_ok (out' ! (dptr + dw * dh + i)))"
      using 1(3) o1(2) len by (auto simp: n_def lod_source_def mult.commute)
    have "inv_ok (out' ! (dptr + i))"
      if "\<forall>i < hs * dsw. inv_ok (lod_source dinv out dsrc ! i)" "i < dw * dh + n" for i
    proof (cases "i < dw * dh")
      case True
      then show ?thesis using o1(4) o2(3) that(1) by simp
    next
      case False
      then show ?thesis using o1(4) o2(4) that le_Suc_ex [of "dw * dh" i] by (auto simp: add.assoc)
    qed
    moreover have "\<forall>i. i < dptr \<or> dptr + (dw * dh + n) \<le> i \<longrightarrow> out' ! i = out ! i"
      using o1(3) o2(3) by (simp add: add.assoc)
    ultimately show ?thesis using o1(1,2) o2(1,2) unfolding t
      by (subst lod_levels.simps) (simp add: True add.assoc)
  qed
qed

lemma sum_list_append_take: "lod_offset sizes (length sizes) = sum_list (map (\<lambda>(w, h). w * h) sizes)"
  by (simp add: lod_offset_def)

lemma lod_offset_Suc: "i < length sizes \<Longrightarrow> lod_offset sizes (Suc i) = lod_offset sizes i + (case sizes ! i of (w, h) \<Rightarrow> w * h)"
  by (simp add: lod_offset_def take_Suc_conv_app_nth)

lemma lod_offset_mono: "i \<le> j \<Longrightarrow> lod_offset sizes i \<le> lod_offset sizes j"
proof (induction j)
  case (Suc j)
  have "lod_offset sizes j \<le> lod_offset sizes (Suc j)"
    by (cases "j < length sizes") (simp_all add: lod_offset_Suc, simp add: lod_offset_def)
  then show ?case using Suc by (cases "i = Suc j") auto
qed simp

lemma lod_offset_le: "lod_offset sizes i \<le> lod_offset sizes (length sizes)"
  by (cases "i \<le> length sizes") (simp_all add: lod_offset_mono, simp add: lod_offset_def)

lemma lod_sizes_nth:
  "i < length (lod_sizes w h) \<Longrightarrow> lod_sizes w h ! i = (w div 2 ^ Suc i, h div 2 ^ Suc i)"
proof (induction w h arbitrary: i rule: lod_sizes.induct)
  case (1 w h)
  show ?case
  proof (cases "16 \<le> w")
    case True
    then show ?thesis using 1 by (cases i) (auto simp: lod_sizes.simps [of w h] div_mult2_eq [symmetric])
  next
    case False
    then show ?thesis using 1(2) by (simp add: lod_sizes.simps [of w h])
  qed
qed

lemma lod_total_offset:
  "16 \<le> w \<Longrightarrow> lod_offset (lod_sizes w h) (length (lod_sizes w h) - 1) = lod_total (w div 2) (h div 2)"
proof (induction w h rule: lod_sizes.induct)
  case (1 w h)
  have s: "lod_sizes w h = (w div 2, h div 2) # lod_sizes (w div 2) (h div 2)"
    using 1(2) by (simp add: lod_sizes.simps [of w h])
  show ?case
  proof (cases "16 \<le> w div 2")
    case True
    have ne: "lod_sizes (w div 2) (h div 2) \<noteq> []" using True by (simp add: lod_sizes.simps [of "w div 2"])
    have "lod_offset (lod_sizes w h) (length (lod_sizes w h) - 1) =
        w div 2 * (h div 2) + lod_offset (lod_sizes (w div 2) (h div 2)) (length (lod_sizes (w div 2) (h div 2)) - 1)"
      using ne by (simp add: s lod_offset_def take_Cons')
    then show ?thesis using 1(1) [OF 1(2) True] True by (simp add: lod_total.simps [of "w div 2"])
  next
    case False
    then show ?thesis by (simp add: s lod_sizes.simps [of "w div 2"] lod_total.simps lod_offset_def)
  qed
qed

text \<open>A loop that replaces the first cells of a buffer one by one.\<close>

lemma ofold_replace:
  "n \<le> length out \<Longrightarrow> ofold (\<lambda>i out. do { d \<leftarrow> aget out i; aset out i (g d) }) [0..<n] out =
    Some (map g (take n out) @ drop n out)"
proof (induction n)
  case (Suc n)
  define xs where "xs = map g (take n out) @ drop n out"
  have n: "n < length xs" "xs ! n = out ! n" using Suc.prems by (simp_all add: xs_def nth_append)
  have "xs[n := g (out ! n)] = map g (take (Suc n) out) @ drop (Suc n) out"
    using Suc.prems by (simp add: xs_def list_update_append take_Suc_conv_app_nth Cons_nth_drop_Suc [symmetric])
  then show ?case using Suc n by (simp add: ofold_append xs_def [symmetric] aget_def aset_def)
qed simp

text \<open>Building the pyramid leaves the smallest level, narrower than 16, as it was.\<close>

lemma DepthBuildLods_ok:
  assumes w: "16 \<le> w" and d: "h * w \<le> length dbuf" and out: "length out = sum_list (map (\<lambda>(w, h). w * h) (lod_sizes w h))"
  shows "\<exists>lods. DepthBuildLods dbuf out w h = Some lods \<and> length lods = length out \<and>
    (\<forall>i \<ge> lod_offset (lod_sizes w h) (length (lod_sizes w h) - 1). lods ! i = out ! i) \<and>
    ((\<forall>i < h * w. depth_ok (dbuf ! i)) \<longrightarrow>
      (\<forall>i < lod_offset (lod_sizes w h) (length (lod_sizes w h) - 1). isnan (lods ! i) \<or> fill_ok (lods ! i)))"
proof -
  let ?z = "lod_sizes w h"
  define dinv where "dinv = map (\<lambda>d. if isnan d \<or> isinf d then NaN else divf fone d) (take (h * w) dbuf)"
  define n where "n = lod_total (w div 2) (h div 2)"
  have ne: "?z \<noteq> []" using w by (simp add: lod_sizes.simps [of w])
  have tot: "lod_offset ?z (length ?z - 1) = n" unfolding n_def by (rule lod_total_offset [OF w])
  have le: "n \<le> length out"
    using lod_offset_mono [of "length ?z - 1" "length ?z" ?z] by (simp add: out tot [symmetric] sum_list_append_take)
  obtain o1 where o1: "lod_levels dinv None w (w div 2) (h div 2) 0 out = Some (n, o1)" "length o1 = length out"
    "\<forall>i \<ge> n. o1 ! i = out ! i" "(\<forall>i < h * w. inv_ok (dinv ! i)) \<longrightarrow> (\<forall>i < n. inv_ok (o1 ! i))"
    using lod_levels_ok [of h w dinv out None "w div 2" "h div 2" 0] d le
    by (auto simp: lod_source_def dinv_def source_before_def n_def)
  define g where "g d = (if \<not> isnan d then divf fone d else NaN)" for d
  define t where "t = map g (take n o1) @ drop n o1"
  have "DepthBuildLods dbuf out w h = Some t"
    using o1(1) d ofold_replace [of n o1 g] le o1(2)
    by (simp add: DepthBuildLods_def ablock_def dinv_def mult.commute g_def t_def)
  moreover have "isnan (t ! i) \<or> fill_ok (t ! i)" if "\<forall>i < h * w. depth_ok (dbuf ! i)" "i < n" for i
  proof -
    have "dinv ! i = (if isnan (dbuf ! i) \<or> isinf (dbuf ! i) then NaN else divf fone (dbuf ! i))" if "i < h * w" for i
      using that d by (simp add: dinv_def)
    then have "\<forall>i < h * w. inv_ok (dinv ! i)" using that(1) inv_ok_divf by metis
    then have "inv_ok (o1 ! i)" using o1(4) that(2) by simp
    then show ?thesis using that(2) le o1(2) fill_ok_divf by (simp add: t_def nth_append g_def)
  qed
  moreover have "length t = length out" "\<forall>i \<ge> n. t ! i = out ! i"
    using le o1(2,3) by (auto simp: t_def nth_append)
  ultimately show ?thesis unfolding tot by blast
qed

text \<open>Filling an image from one of half the size.\<close>

definition half_index :: "nat \<Rightarrow> nat \<Rightarrow> nat" where
  "half_index w i = i div w div 2 * (w div 2) + i mod w div 2"

lemma DepthFillEmpty_ok:
  assumes "even w" and "even h" and l0: "h * w \<le> length lod0" and l1: "(h div 2) * (w div 2) \<le> length lod1"
  shows "\<exists>out. DepthFillEmpty lod1 lod0 w h = Some out \<and> length out = length lod0 \<and>
    (\<forall>i < h * w. out ! i = (if isnan (lod0 ! i) then lod1 ! half_index w i else lod0 ! i)) \<and>
    (\<forall>i \<ge> h * w. out ! i = lod0 ! i)"
proof -
  define P where "P a \<longleftrightarrow> length a = length lod0 \<and>
    (\<forall>i < h * w. a ! i = lod0 ! i \<or> isnan (lod0 ! i) \<and> a ! i = lod1 ! half_index w i)" for a
  define R where "R i v \<longleftrightarrow> v = (if isnan (lod0 ! i) then lod1 ! half_index w i else lod0 ! i)" for i v
  define f where "f = (\<lambda>(y, x) lod0. do { d \<leftarrow> aget lod0 (y * w + x);
       if isnan d then do { e \<leftarrow> aget lod1 (y div 2 * (w div 2) + x div 2); aset lod0 (y * w + x) e }
       else Some lod0 })"
  have step: "\<exists>b. f p a = Some b \<and> P b \<and> (\<forall>i \<in> {fst p * w + snd p}. R i (b ! i)) \<and>
      (\<forall>i. i \<notin> {fst p * w + snd p} \<longrightarrow> b ! i = a ! i)"
    if p: "p \<in> set (pairs h w)" and a: "P a" for p a
  proof -
    obtain y x where yx: "p = (y, x)" "y < h" "x < w" using p unfolding set_pairs by auto
    define i where "i = y * w + x"
    have i: "i < h * w" unfolding i_def by (rule row_index [OF yx(3,2)])
    have hi: "y div 2 * (w div 2) + x div 2 = half_index w i" using yx by (simp add: half_index_def i_def)
    have "y div 2 < h div 2" "x div 2 < w div 2" using yx assms(1,2) by (auto elim!: evenE)
    then have h1: "half_index w i < length lod1" using row_index [of "x div 2" "w div 2" "y div 2" "h div 2"] l1 by (simp add: hi)
    have la: "i < length a" using i l0 a by (simp add: P_def)
    have fp: "f p a = (if isnan (a ! i) then Some (a[i := lod1 ! half_index w i]) else Some a)"
      using la h1 by (simp add: f_def yx(1) hi i_def [symmetric] aget_def aset_def)
    show ?thesis
    proof (cases "isnan (a ! i)")
      case True
      then have nn: "isnan (lod0 ! i)" using a i by (auto simp: P_def)
      have "P (a[i := lod1 ! half_index w i])" using a nn i l0 by (auto simp: P_def nth_list_update)
      then show ?thesis using True fp nn la yx(1) by (simp add: R_def i_def [symmetric])
    next
      case False
      then have "R i (a ! i)" using a i by (auto simp: P_def R_def)
      then show ?thesis using False fp a yx(1) by (simp add: i_def [symmetric])
    qed
  qed
  have P0: "P lod0" by (simp add: P_def)
  obtain out where o: "ofold f (pairs h w) lod0 = Some out" "P out"
    "\<forall>i \<in> \<Union> ((\<lambda>p. {fst p * w + snd p}) ` set (pairs h w)). R i (out ! i)"
    "\<forall>i. i \<notin> \<Union> ((\<lambda>p. {fst p * w + snd p}) ` set (pairs h w)) \<longrightarrow> out ! i = lod0 ! i"
    using ofold_writes [where P = P and R = R and obs = "\<lambda>b i. b ! i" and W = "\<lambda>p. {fst p * w + snd p}", OF P0 step]
    by blast
  have cov: "i \<in> \<Union> ((\<lambda>p. {fst p * w + snd p}) ` set (pairs h w)) \<longleftrightarrow> i < h * w" for i
  proof
    assume "i \<in> \<Union> ((\<lambda>p. {fst p * w + snd p}) ` set (pairs h w))"
    then show "i < h * w" unfolding set_pairs using row_index by auto
  next
    assume i: "i < h * w"
    then have "0 < w" by (cases w) auto
    then have "(i div w, i mod w) \<in> set (pairs h w)" unfolding set_pairs using i by (simp add: less_mult_imp_div_less)
    then show "i \<in> \<Union> ((\<lambda>p. {fst p * w + snd p}) ` set (pairs h w))" by force
  qed
  have "DepthFillEmpty lod1 lod0 w h = Some out" using o(1) by (simp add: DepthFillEmpty_def f_def)
  moreover have "\<forall>i < h * w. R i (out ! i)" "\<forall>i \<ge> h * w. out ! i = lod0 ! i"
    using o(3) cov by blast (use o(4) [unfolded cov] in auto)
  ultimately show ?thesis using o(2) by (auto simp: P_def R_def)
qed

lemma half_index_less: "i < h * w \<Longrightarrow> even w \<Longrightarrow> even h \<Longrightarrow> half_index w i < (h div 2) * (w div 2)"
proof -
  assume i: "i < h * w" and ev: "even w" "even h"
  have w0: "0 < w" using i by (cases w) auto
  have "i mod w < w" "i div w < h" using i w0 by (simp_all add: less_mult_imp_div_less)
  then have "i mod w div 2 < w div 2" "i div w div 2 < h div 2" using ev by (auto elim!: evenE)
  then show ?thesis unfolding half_index_def by (rule row_index)
qed

text \<open>Sizes whose halves stay even down to the smallest level.\<close>

definition pyramid_ok :: "nat \<Rightarrow> nat \<Rightarrow> bool" where
  "pyramid_ok w h \<longleftrightarrow> 16 \<le> w \<and> 2 ^ length (lod_sizes w h) dvd w \<and> 2 ^ length (lod_sizes w h) dvd h"

lemma dvd_div_even: "2 ^ n dvd w \<Longrightarrow> i < n \<Longrightarrow> even (w div 2 ^ i :: nat)"
proof -
  assume d: "2 ^ n dvd w" and i: "i < n"
  have "2 ^ Suc i dvd w" using d i by (meson Suc_leI le_imp_power_dvd dvd_trans)
  then obtain k where "w = 2 ^ Suc i * k" by blast
  then show ?thesis by simp
qed

lemma fill_levels_ok:
  assumes ok: "pyramid_ok w h" and len: "length lods = sum_list (map (\<lambda>(w, h). w * h) (lod_sizes w h))"
    and top: "\<forall>i \<ge> lod_offset (lod_sizes w h) (length (lod_sizes w h) - 1). i < length lods \<longrightarrow> \<not> isnan (lods ! i)"
    and data: "length data = h * w"
  shows "\<exists>lods' data'. fill_levels lods data w h = Some (lods', data') \<and> length data' = h * w \<and>
    (\<forall>i < h * w. \<not> isnan (data' ! i) \<and> (\<not> isnan (data ! i) \<longrightarrow> data' ! i = data ! i)) \<and>
    ((\<forall>v \<in> set lods. isnan v \<or> fill_ok v) \<longrightarrow> (\<forall>i < h * w. isnan (data ! i) \<longrightarrow> fill_ok (data' ! i)))"
proof -
  let ?z = "lod_sizes w h" and ?n = "length (lod_sizes w h)"
  have ne: "?z \<noteq> []" using ok by (simp add: pyramid_ok_def lod_sizes.simps [of w])
  define step where "step = (\<lambda>lodIdx lods.
     let idx1 = length ?z - lodIdx - 1; o1 = lod_offset ?z idx1; o0 = lod_offset ?z (idx1 - 1);
         (lodwidth, lodheight) = ?z ! (idx1 - 1)
     in do { lod0 \<leftarrow> DepthFillEmpty (drop o1 lods) (drop o0 lods) lodwidth lodheight; Some (take o0 lods @ lod0) })"
  have off_le: "lod_offset ?z i \<le> length lods" for i
    unfolding len sum_list_append_take [symmetric] by (rule lod_offset_le)
  have loop: "k \<le> ?n - 1 \<Longrightarrow> \<exists>l. ofold step [0..<k] lods = Some l \<and> length l = length lods \<and>
      (\<forall>i \<ge> lod_offset ?z (?n - 1 - k). i < length l \<longrightarrow> \<not> isnan (l ! i)) \<and> set l \<subseteq> set lods" for k
  proof (induction k)
    case 0
    then show ?case using top by simp
  next
    case (Suc k)
    then obtain l where l: "ofold step [0..<k] lods = Some l" "length l = length lods"
      "\<forall>i \<ge> lod_offset ?z (?n - 1 - k). i < length l \<longrightarrow> \<not> isnan (l ! i)" "set l \<subseteq> set lods" by auto
    define j where "j = ?n - 1 - Suc k"
    have j: "?n - k - 1 = Suc j" "Suc j < ?n" "?n - 1 - k = Suc j"
      "?n - Suc (Suc k) = j" using Suc.prems ne by (auto simp: j_def)
    define lw lh where "lw = w div 2 ^ Suc j" and "lh = h div 2 ^ Suc j"
    have zj: "?z ! j = (lw, lh)" unfolding lw_def lh_def by (rule lod_sizes_nth) (use j(2) in simp)
    have zj1: "?z ! Suc j = (lw div 2, lh div 2)"
      using lod_sizes_nth [OF j(2)] unfolding lw_def lh_def
      by (simp only: div_mult2_eq [symmetric] power_Suc2 [of _ "Suc j"])
    define o0 o1 where "o0 = lod_offset ?z j" and "o1 = lod_offset ?z (Suc j)"
    have oo: "o1 = o0 + lw * lh" "lod_offset ?z (Suc (Suc j)) = o1 + lw div 2 * (lh div 2)"
      using j(2) by (simp_all add: o0_def o1_def lod_offset_Suc zj zj1)
    have le: "o0 + lh * lw \<le> length l" "o1 + (lh div 2) * (lw div 2) \<le> length l"
      using off_le [of "Suc j"] off_le [of "Suc (Suc j)"] oo l(2) by (simp_all add: o1_def mult.commute)
    have ev: "even lw" "even lh"
      unfolding lw_def lh_def using ok j(2) by (auto simp: pyramid_ok_def intro: dvd_div_even simp del: power_Suc)
    obtain lod0 where f: "DepthFillEmpty (drop o1 l) (drop o0 l) lw lh = Some lod0" "length lod0 = length (drop o0 l)"
      "\<forall>i < lh * lw. lod0 ! i = (if isnan (drop o0 l ! i) then drop o1 l ! half_index lw i else drop o0 l ! i)"
      "\<forall>i \<ge> lh * lw. lod0 ! i = drop o0 l ! i"
    proof -
      have "lh * lw \<le> length (drop o0 l)" "(lh div 2) * (lw div 2) \<le> length (drop o1 l)"
        using le by simp_all
      from DepthFillEmpty_ok [OF ev this] show thesis using that by blast
    qed
    define l' where "l' = take o0 l @ lod0"
    have st: "step k l = Some l'" using j(1,4) zj f(1) by (simp add: step_def o0_def o1_def l'_def)
    have l'len: "length l' = length lods" using f(2) le(1) l(2) by (simp add: l'_def)
    have "\<not> isnan (l' ! i)" if "o0 \<le> i" "i < length l'" for i
    proof -
      have li: "l' ! i = lod0 ! (i - o0)" using that le(1) by (simp add: l'_def nth_append)
      show ?thesis
      proof (cases "i - o0 < lh * lw")
        case True
        have "half_index lw (i - o0) < (lh div 2) * (lw div 2)" by (rule half_index_less [OF True ev])
        then have "\<not> isnan (drop o1 l ! half_index lw (i - o0))"
          using l(3) le(2) j(3) by (simp add: o1_def)
        then show ?thesis using f(3) True li by simp
      next
        case False
        then have "o1 \<le> i" using oo(1) that(1) by (simp add: mult.commute)
        then have "\<not> isnan (l ! i)" using l(2,3) j(3) that(2) l'len by (simp add: o1_def)
        then show ?thesis using f(4) False li that le(1) by simp
      qed
    qed
    moreover have "lod0 ! i \<in> set l" if "i < length lod0" for i
    proof (cases "i < lh * lw")
      case True
      have "half_index lw i < length (drop o1 l)"
        using half_index_less [OF True ev] le(2) by simp
      then have "drop o1 l ! half_index lw i \<in> set l" by (metis in_set_dropD nth_mem)
      moreover have "drop o0 l ! i \<in> set l" using that f(2) by (metis in_set_dropD nth_mem)
      ultimately show ?thesis using f(3) True by simp
    next
      case False
      then show ?thesis using f(2,4) that by (metis in_set_dropD linorder_not_less nth_mem)
    qed
    then have "set lod0 \<subseteq> set l" by (metis in_set_conv_nth subsetI)
    then have "set l' \<subseteq> set lods" using l(4) by (auto simp: l'_def dest!: in_set_takeD)
    ultimately show ?case using l(1) st l'len by (auto simp: ofold_append j(4) o0_def)
  qed
  obtain l where l: "ofold step [0..<?n - 1] lods = Some l" "length l = length lods" "\<forall>i < length l. \<not> isnan (l ! i)"
    "set l \<subseteq> set lods"
    using loop [of "?n - 1"] by (auto simp: lod_offset_def)
  have z0: "?z ! 0 = (w div 2, h div 2)" using lod_sizes_nth [of 0 w h] ne by simp
  have "lod_offset ?z (Suc 0) = w div 2 * (h div 2)" using ne z0 by (cases ?z) (simp_all add: lod_offset_def)
  then have le: "(h div 2) * (w div 2) \<le> length l" using off_le [of "Suc 0"] l(2) by (simp add: mult.commute)
  have ev: "even w" "even h"
    using dvd_div_even [of ?n w 0] dvd_div_even [of ?n h 0] ok ne by (simp_all add: pyramid_ok_def)
  obtain data' where d: "DepthFillEmpty l data w h = Some data'" "length data' = length data"
    "\<forall>i < h * w. data' ! i = (if isnan (data ! i) then l ! half_index w i else data ! i)"
    using DepthFillEmpty_ok [OF ev, of data l] le data by auto
  have "\<not> isnan (data' ! i)" if "i < h * w" for i
    using d(3) that l(3) half_index_less [OF that ev] le by simp
  moreover have "fill_ok (data' ! i)" if "\<forall>v \<in> set lods. isnan v \<or> fill_ok v" "i < h * w" "isnan (data ! i)" for i
  proof -
    have "half_index w i < length l" using half_index_less [OF that(2) ev] le by simp
    then show ?thesis using d(3) that l(3,4) by (metis nth_mem subsetD)
  qed
  moreover have "fill_levels lods data w h = Some (l, data')"
    using l(1) d(1) ne by (simp add: fill_levels_def step_def)
  ultimately show ?thesis using d(2,3) data by auto
qed

lemma depth_fill_values:
  assumes "pyramid_ok w h" and "length data = h * w"
  shows "\<exists>lods lods' data'.
    DepthBuildLods data (replicate (sum_list (map (\<lambda>(w, h). w * h) (lod_sizes w h))) fzero) w h = Some lods \<and>
    fill_levels lods data w h = Some (lods', data') \<and> length data' = h * w \<and>
    (\<forall>i < h * w. \<not> isnan (data' ! i) \<and> (\<not> isnan (data ! i) \<longrightarrow> data' ! i = data ! i)) \<and>
    ((\<forall>d \<in> set data. depth_ok d) \<longrightarrow> (\<forall>i < h * w. isnan (data ! i) \<longrightarrow> fill_ok (data' ! i)))"
proof -
  let ?out = "replicate (sum_list (map (\<lambda>(w, h). w * h) (lod_sizes w h))) fzero"
  let ?top = "lod_offset (lod_sizes w h) (length (lod_sizes w h) - 1)"
  obtain lods where l: "DepthBuildLods data ?out w h = Some lods" "length lods = length ?out"
    "\<forall>i \<ge> ?top. lods ! i = ?out ! i"
    "(\<forall>i < h * w. depth_ok (data ! i)) \<longrightarrow> (\<forall>i < ?top. isnan (lods ! i) \<or> fill_ok (lods ! i))"
    using DepthBuildLods_ok [of w h data ?out] assms by (auto simp: pyramid_ok_def)
  have "fill_ok fzero" by (simp add: fill_ok_def fzero_def)
  then have "isnan (lods ! i) \<or> fill_ok (lods ! i)" if "\<forall>d \<in> set data. depth_ok d" "i < length lods" for i
    using l(2-4) that assms(2) by (cases "i < ?top") (simp_all add: linorder_not_less)
  then have v: "\<forall>v \<in> set lods. isnan v \<or> fill_ok v" if "\<forall>d \<in> set data. depth_ok d"
    using that by (metis in_set_conv_nth)
  have "\<exists>lods' data'. fill_levels lods data w h = Some (lods', data') \<and> length data' = h * w \<and>
    (\<forall>i < h * w. \<not> isnan (data' ! i) \<and> (\<not> isnan (data ! i) \<longrightarrow> data' ! i = data ! i)) \<and>
    ((\<forall>v \<in> set lods. isnan v \<or> fill_ok v) \<longrightarrow> (\<forall>i < h * w. isnan (data ! i) \<longrightarrow> fill_ok (data' ! i)))"
    using l assms by (intro fill_levels_ok) (auto simp: fzero_def)
  then show ?thesis using l(1) v by blast
qed

text \<open>C18: for an image whose sides stay even down the pyramid, building the pyramid and filling
  from it succeeds without leaving any buffer; afterwards no depth is NaN, and every depth that
  was a number is unchanged.\<close>

theorem depth_fill:
  assumes "pyramid_ok w h" and "length data = h * w"
  shows "\<exists>lods lods' data'.
    DepthBuildLods data (replicate (sum_list (map (\<lambda>(w, h). w * h) (lod_sizes w h))) fzero) w h = Some lods \<and>
    fill_levels lods data w h = Some (lods', data') \<and> length data' = h * w \<and>
    (\<forall>i < h * w. \<not> isnan (data' ! i) \<and> (\<not> isnan (data ! i) \<longrightarrow> data' ! i = data ! i))"
  using depth_fill_values [OF assms] by blast

lemma depth_yuv_roundtrip_ok:
  assumes "even w" and "even h" and "planes_ok w h p" and "length out = h * w"
    and "DepthBuildLods data (replicate (sum_list (map (\<lambda>(w, h). w * h) (lod_sizes w h))) fzero) w h = Some lods"
    and "fill_levels lods data w h = Some (lods', data')" and "length data' = h * w"
    and "\<forall>d \<in> set data'. depth_in_range (divf (f_of_int F32 254) maxDepth) d"
  shows "\<exists>p' out'. ConvertDepthToYUV data w h maxDepth p = Some (data', p') \<and>
    ConvertYUVToDepth p' w h maxDepth out = Some out' \<and> length out' = h * w \<and>
    (\<forall>i < h * w. if isnan (data' ! i) \<or> isinf (data' ! i) then out' ! i = NaN
      else \<exists>q. out' ! i = mulf (Fin False q) (divf maxDepth (f_of_int F32 254)) \<and>
        of_nat (depth_level (divf (f_of_int F32 254) maxDepth) (data' ! i)) \<le> q \<and>
        q \<le> of_nat (Suc (depth_level (divf (f_of_int F32 254) maxDepth) (data' ! i))))"
proof -
  let ?s = "divf (f_of_int F32 254) maxDepth"
  obtain p' where p': "ofold (enc_block ?s w data') (pairs_by 2 h 2 w) p = Some p'" "planes_ok w h p'"
    "\<forall>i < h * w. ydata p' ! i = enc_byte ?s (data' ! i)"
    using enc_image_ok [OF assms(1,2,7,8,3)] by blast
  have C: "ConvertDepthToYUV data w h maxDepth p = Some (data', p')"
    using assms(5,6) p'(1) by (simp add: ConvertDepthToYUV_def)
  obtain out' where o: "ConvertYUVToDepth p' w h maxDepth out = Some out'" "length out' = h * w"
    "\<forall>i < h * w. decodes_to (divf maxDepth (f_of_int F32 254)) (ydata p' ! i) (out' ! i)"
    using dec_image_ok [OF assms(1,2) p'(2) assms(4)] by blast
  have "if isnan (data' ! i) \<or> isinf (data' ! i) then out' ! i = NaN
      else \<exists>q. out' ! i = mulf (Fin False q) (divf maxDepth (f_of_int F32 254)) \<and>
        of_nat (depth_level ?s (data' ! i)) \<le> q \<and> q \<le> of_nat (Suc (depth_level ?s (data' ! i)))"
    if i: "i < h * w" for i
  proof (cases "isnan (data' ! i) \<or> isinf (data' ! i)")
    case True
    then show ?thesis using o(3) p'(3) i by (auto simp: enc_byte_def decodes_to_def)
  next
    case False
    define n where "n = depth_level ?s (data' ! i)"
    have "depth_in_range ?s (data' ! i)" using assms(7,8) i by simp
    then obtain q where "mulf (data' ! i) ?s = Fin False q" "0 \<le> q" "q < 255"
      using False by (auto simp: depth_in_range_def split: fp.splits)
    then have n: "n < 255" by (simp add: n_def depth_level_def nat_less_iff floor_less_iff)
    then have u: "unat (word_of_nat n :: u8) = n" by (simp add: unat_of_nat)
    then have "(word_of_nat n :: u8) \<noteq> 255" using n by auto
    moreover have "decodes_to (divf maxDepth (f_of_int F32 254)) (word_of_nat n) (out' ! i)"
      using o(3) p'(3) i False by (auto simp: enc_byte_def n_def)
    ultimately show ?thesis using False unfolding decodes_to_def u n_def [symmetric] by simp
  qed
  then show ?thesis using C o(1,2) by blast
qed

text \<open>
  What comes back for a depth \<open>d\<close>, for the largest depth 10 that the program encodes with: NaN
  for an infinite one, otherwise \<open>q\<close> steps of \<open>10 / 254\<close>, where \<open>q\<close> is within one step of the
  scaled depth, or just in the encoder's range when \<open>d\<close> is NaN and its hole has been filled.
\<close>

definition decoded_depth :: "fp \<Rightarrow> fp \<Rightarrow> bool" where
  "decoded_depth d v \<longleftrightarrow> (if isinf d then v = NaN
     else \<exists>q. v = mulf (Fin False q) (divf (f_of_int F32 10) (f_of_int F32 254)) \<and>
       (if isnan d then 0 \<le> q \<and> q \<le> 255
        else of_nat (depth_level (divf (f_of_int F32 254) (f_of_int F32 10)) d) \<le> q \<and>
             q \<le> of_nat (Suc (depth_level (divf (f_of_int F32 254) (f_of_int F32 10)) d))))"

lemma scale_bounds: "\<exists>c. divf (f_of_int F32 254) (f_of_int F32 10) = Fin False c \<and> 0 \<le> c \<and> c \<le> 407 / 16"
proof -
  have r: "representable F32 (407 / 16)" using representable_scaled [of 407 4] by simp
  have "\<exists>c. fround F32 False (254 / 10) = Fin False c \<and> 0 \<le> c \<and> c \<le> 407 / 16"
    by (rule fround_le [OF r]) simp_all
  then show ?thesis by (simp add: f_of_int_exact)
qed

lemma depth_in_range_10:
  assumes "0 \<le> q" and "q \<le> 1283 / 128"
  shows "\<exists>c. mulf (Fin False q) (divf (f_of_int F32 254) (f_of_int F32 10)) = Fin False c \<and> 0 \<le> c \<and> c < 255"
proof -
  obtain c where c: "divf (f_of_int F32 254) (f_of_int F32 10) = Fin False c" "0 \<le> c" "c \<le> 407 / 16"
    using scale_bounds by blast
  have r: "representable F32 (522181 / 2048)" using representable_scaled [of 522181 11] by simp
  have "q * c \<le> (1283 / 128) * (407 / 16)" using assms c by (intro mult_mono) simp_all
  then have "\<exists>d. fround F32 False (q * c) = Fin False d \<and> 0 \<le> d \<and> d \<le> 522181 / 2048"
    using assms(1) c(2) by (intro fround_le [OF r]) simp_all
  then show ?thesis by (auto simp: c(1))
qed

lemma depth_roundtrip_10:
  assumes "pyramid_ok w h" and "length data = h * w" and "\<forall>d \<in> set data. depth_ok d"
    and "planes_ok w h p" and "length out = h * w"
  shows "\<exists>filled p' out'. ConvertDepthToYUV data w h (f_of_int F32 10) p = Some (filled, p') \<and>
    ConvertYUVToDepth p' w h (f_of_int F32 10) out = Some out' \<and> length out' = h * w \<and>
    (\<forall>i < h * w. decoded_depth (data ! i) (out' ! i))"
proof -
  let ?s = "divf (f_of_int F32 254) (f_of_int F32 10)"
  obtain lods lods' data' where l:
    "DepthBuildLods data (replicate (sum_list (map (\<lambda>(w, h). w * h) (lod_sizes w h))) fzero) w h = Some lods"
    "fill_levels lods data w h = Some (lods', data')" "length data' = h * w"
    "\<forall>i < h * w. \<not> isnan (data' ! i) \<and> (\<not> isnan (data ! i) \<longrightarrow> data' ! i = data ! i)"
    "\<forall>i < h * w. isnan (data ! i) \<longrightarrow> fill_ok (data' ! i)"
    using depth_fill_values [OF assms(1,2)] assms(3) by blast
  have ne: "0 < length (lod_sizes w h)" using assms(1) by (simp add: pyramid_ok_def lod_sizes.simps [of w])
  have ev: "even w" "even h"
    using dvd_div_even [of "length (lod_sizes w h)" w 0] dvd_div_even [of "length (lod_sizes w h)" h 0] assms(1) ne
    by (simp_all add: pyramid_ok_def)
  have val: "isinf (data' ! i) \<and> data' ! i = data ! i \<or> (\<exists>q. data' ! i = Fin False q \<and> 0 \<le> q \<and> q \<le> 1283 / 128)"
    if i: "i < h * w" for i
  proof (cases "isnan (data ! i)")
    case True
    then show ?thesis using l(5) i by (auto simp: fill_ok_def)
  next
    case False
    moreover have "depth_ok (data ! i)" using assms(2,3) i by simp
    ultimately show ?thesis using l(4) i by (auto simp: depth_ok_def)
  qed
  have "depth_in_range ?s (data' ! i)" if i: "i < h * w" for i
    using val [OF i]
  proof (elim disjE exE conjE)
    fix q assume q: "data' ! i = Fin False q" "0 \<le> q" "q \<le> 1283 / 128"
    show ?thesis using depth_in_range_10 [OF q(2,3)] q(1) by (auto simp: depth_in_range_def)
  qed (simp add: depth_in_range_def)
  then have r: "\<forall>d \<in> set data'. depth_in_range ?s d" using l(3) by (metis in_set_conv_nth)
  obtain p' out' where o: "ConvertDepthToYUV data w h (f_of_int F32 10) p = Some (data', p')"
    "ConvertYUVToDepth p' w h (f_of_int F32 10) out = Some out'" "length out' = h * w"
    "\<forall>i < h * w. if isnan (data' ! i) \<or> isinf (data' ! i) then out' ! i = NaN
      else \<exists>q. out' ! i = mulf (Fin False q) (divf (f_of_int F32 10) (f_of_int F32 254)) \<and>
        of_nat (depth_level ?s (data' ! i)) \<le> q \<and> q \<le> of_nat (Suc (depth_level ?s (data' ! i)))"
    using depth_yuv_roundtrip_ok [OF ev assms(4,5) l(1-3) r] by blast
  have "decoded_depth (data ! i) (out' ! i)" if i: "i < h * w" for i
  proof (cases "isnan (data ! i)")
    case True
    then obtain q where q: "data' ! i = Fin False q" "0 \<le> q" "q \<le> 1283 / 128" using l(5) i by (auto simp: fill_ok_def)
    obtain c where "mulf (data' ! i) ?s = Fin False c" "0 \<le> c" "c < 255" using depth_in_range_10 [OF q(2,3)] q(1) by auto
    then have n: "depth_level ?s (data' ! i) < 255" by (simp add: depth_level_def nat_less_iff floor_less_iff)
    obtain k where k: "out' ! i = mulf (Fin False k) (divf (f_of_int F32 10) (f_of_int F32 254))"
      "of_nat (depth_level ?s (data' ! i)) \<le> k" "k \<le> of_nat (Suc (depth_level ?s (data' ! i)))"
      using o(4) [rule_format, OF i] l(4) i q(1) by auto
    have "(of_nat (Suc (depth_level ?s (data' ! i))) :: rat) \<le> of_nat 255" using n by (subst of_nat_le_iff) simp
    then have "k \<le> 255" using k(3) by simp
    moreover have "0 \<le> k" using k(2) by (meson of_nat_0_le_iff order_trans)
    moreover have "\<not> isinf (data ! i)" using True by (cases "data ! i") simp_all
    ultimately show ?thesis using True k(1) by (auto simp: decoded_depth_def)
  next
    case False
    then show ?thesis using o(4) l(4) i by (auto simp: decoded_depth_def)
  qed
  then show ?thesis using o(1-3) by blast
qed

text \<open>C5: Take an image whose sides stay even down the pyramid, with depths that are NaN, infinite or
  from 0 to 10. Encoding it for the largest depth 10 succeeds, and so does decoding the planes; every
  infinite depth comes back as NaN, every other depth to within one step of \<open>10 / 254\<close> of itself, and a
  NaN depth, whose hole the encoder fills, comes back as some number of steps up to 255, never as NaN.
\<close>

theorem depth_yuv_roundtrip:
  assumes "pyramid_ok w h" and "length data = h * w" and "\<forall>d \<in> set data. depth_ok d"
    and "planes_ok w h p" and "length out = h * w"
  shows "\<exists>filled p' out'. ConvertDepthToYUV data w h (f_of_int F32 10) p = Some (filled, p') \<and>
    ConvertYUVToDepth p' w h (f_of_int F32 10) out = Some out' \<and> length out' = h * w \<and>
    (\<forall>i < h * w. decoded_depth (data ! i) (out' ! i))"
  by (rule depth_roundtrip_10 [OF assms])

text \<open>An image narrower than 16 has no pyramid level, and the encoder's first access to the
  level offsets is out of bounds whatever the image holds.\<close>

theorem convert_narrow_image:
  assumes "w < 16"
  shows "ConvertDepthToYUV data w h maxDepth p = None"
proof -
  have "lod_sizes w h = []" using assms by (simp add: lod_sizes.simps [of w])
  then show ?thesis
    by (cases "DepthBuildLods data (replicate 0 fzero) w h") (simp_all add: ConvertDepthToYUV_def fill_levels_def)
qed

lemma pyramid_16_2: "pyramid_ok 16 2"
  by (simp add: pyramid_ok_def lod_sizes.simps [of 16] lod_sizes.simps [of 8])

theorem depth_fill_witness:
  "\<exists>lods lods' data'. fill_levels lods (replicate 32 NaN) 16 2 = Some (lods', data') \<and> \<not> isnan (data' ! 31)"
proof -
  obtain lods lods' data' where "fill_levels lods (replicate 32 NaN) 16 2 = Some (lods', data')"
    "\<forall>i < 2 * 16. \<not> isnan (data' ! i) \<and> (\<not> isnan (replicate 32 NaN ! i) \<longrightarrow> data' ! i = replicate 32 NaN ! i)"
    using depth_fill [OF pyramid_16_2, of "replicate 32 NaN"] by auto
  moreover from this(2) have "\<not> isnan (data' ! 31)" by simp
  ultimately show ?thesis by blast
qed

theorem depth_yuv_roundtrip_witness:
  "\<exists>filled p' out' q. ConvertDepthToYUV (NaN # Inf False # replicate 30 (Fin False 5)) 16 2 (f_of_int F32 10)
      \<lparr>ydata = replicate 32 0, udata = replicate 8 0, vdata = replicate 8 0\<rparr> = Some (filled, p') \<and>
    ConvertYUVToDepth p' 16 2 (f_of_int F32 10) (replicate 32 fzero) = Some out' \<and> out' ! 1 = NaN \<and>
    out' ! 0 = mulf (Fin False q) (divf (f_of_int F32 10) (f_of_int F32 254)) \<and> 0 \<le> q \<and> q \<le> 255"
proof -
  have d: "\<forall>d \<in> set (NaN # Inf False # replicate 30 (Fin False 5)). depth_ok d" by (simp add: depth_ok_def)
  have l: "length (NaN # Inf False # replicate 30 (Fin False 5)) = 2 * 16" "length (replicate 32 fzero) = 2 * 16" by simp_all
  have p: "planes_ok 16 2 \<lparr>ydata = replicate 32 0, udata = replicate 8 0, vdata = replicate 8 0\<rparr>" by (simp add: planes_ok_def)
  obtain filled p' out' where o: "ConvertDepthToYUV (NaN # Inf False # replicate 30 (Fin False 5)) 16 2 (f_of_int F32 10)
      \<lparr>ydata = replicate 32 0, udata = replicate 8 0, vdata = replicate 8 0\<rparr> = Some (filled, p')"
    "ConvertYUVToDepth p' 16 2 (f_of_int F32 10) (replicate 32 fzero) = Some out'"
    "\<forall>i < 2 * 16. decoded_depth ((NaN # Inf False # replicate 30 (Fin False 5)) ! i) (out' ! i)"
    using depth_yuv_roundtrip [OF pyramid_16_2 l(1) d p l(2)] by blast
  then show ?thesis using o(3) [rule_format, of 0] o(3) [rule_format, of 1] by (auto simp: decoded_depth_def)
qed

subsection \<open>The error measure of equal images\<close>

lemma depth_error_same:
  "length d + n < 2 ^ 24 \<Longrightarrow> \<exists>k. depth_error_loop d d fzero fzero (nat_to_f n) = Some (fzero, fzero, nat_to_f (n + k)) \<and>
     k = length (filter (\<lambda>x. \<not> isnan x \<and> \<not> isinf x) d)"
proof (induction d arbitrary: n)
  case (Cons a d)
  show ?case
  proof (cases "isnan a \<or> isinf a")
    case True
    then show ?thesis using Cons.IH [of n] Cons.prems by auto
  next
    case False
    then obtain s q where a: "a = Fin s q" by (cases a) auto
    have diff: "subf a a = fzero" using fsub_self [of F32 a] by (simp add: a fsub_def fzero_def sval_def)
    have z: "mulf fzero fzero = fzero" "addf fzero fzero = fzero" by (simp_all add: fzero_def sval_def)
    have "\<exists>c. addf (Fin False (of_nat n)) (Fin False 1) = Fin False c \<and> of_nat (Suc n) \<le> c \<and> c \<le> of_nat (Suc n)"
      by (rule addf_between) (use Cons.prems in simp_all)
    then have "addf (nat_to_f n) fone = nat_to_f (Suc n)"
      using Cons.prems by (auto simp: nat_to_f_exact fone_def)
    then show ?thesis using False Cons.IH [of "Suc n"] Cons.prems by (simp add: diff z)
  qed
qed (simp add: nat_to_f_def)

text \<open>Comparing an image with itself gives zero average and zero maximal error when it has
  a finite depth, and a NaN average when it has none, for images of fewer than \<open>2 ^ 24\<close> cells.\<close>

theorem depth_error_self:
  assumes "length d < 2 ^ 24"
  shows "CalcDepthError d d = Some (if \<exists>x \<in> set d. \<not> isnan x \<and> \<not> isinf x then fzero else NaN, fzero)"
proof -
  define k where "k = length (filter (\<lambda>x. \<not> isnan x \<and> \<not> isinf x) d)"
  have z: "fzero = nat_to_f 0" using nat_to_f_exact [of 0] by (simp add: fzero_def)
  have l: "depth_error_loop d d fzero fzero fzero = Some (fzero, fzero, nat_to_f k)"
    using depth_error_same [of d 0] assms z by (auto simp: k_def)
  have "k \<le> length d" by (simp add: k_def)
  then have n: "nat_to_f k = Fin False (of_nat k)" using assms by (intro nat_to_f_exact) simp
  have k0: "k = 0 \<longleftrightarrow> \<not> (\<exists>x \<in> set d. \<not> isnan x \<and> \<not> isinf x)"
    by (auto simp: k_def filter_empty_conv)
  show ?thesis
  proof (cases "k = 0")
    case True
    then show ?thesis using k0 unfolding CalcDepthError_def l n by (simp add: fzero_def)
  next
    case False
    then show ?thesis using k0 unfolding CalcDepthError_def l n by (simp add: fzero_def)
  qed
qed

end
