(* ===== verification/DepthPlanes.thy ===== *)
theory DepthPlanes
  imports DepthPts
begin

text \<open>
  Planes in a depth image, \<open>src/core/DepthPlanes.cpp\<close>: \<open>Tile::Process\<close> splits the image into
  rectangles whose points lie near a plane, \<open>PopulateNeighbors\<close> links rectangles that share a
  side by sweeping over their corners, \<open>FindConnected\<close> collects coplanar neighbours, and
  \<open>DepthMakePlanes\<close> turns the groups into triangles. Results live in a list and a
  \<open>Result*\<close> is an index of it; \<open>std::sort\<close> is an argument. C++ \<open>int\<close>s are integers.
\<close>

subsection \<open>Rectangles, buffers and results\<close>

datatype side = Top | Left | Right | Bottom

definition side_num :: "side \<Rightarrow> nat" where
  "side_num s = (case s of Top \<Rightarrow> 0 | Left \<Rightarrow> 1 | Right \<Rightarrow> 2 | Bottom \<Rightarrow> 3)"

text \<open>\<open>(Side)(3 - edge)\<close>.\<close>

definition opposite :: "side \<Rightarrow> side" where
  "opposite s = (case s of Top \<Rightarrow> Bottom | Left \<Rightarrow> Right | Right \<Rightarrow> Left | Bottom \<Rightarrow> Top)"

lemma opposite_num: "side_num (opposite s) = 3 - side_num s"
  by (cases s) (simp_all add: opposite_def side_num_def)

lemma opposite_opposite [simp]: "opposite (opposite s) = s"
  by (cases s) (simp_all add: opposite_def)

datatype rect = Rect (rx: int) (ry: int) (rw: int) (rh: int)

definition GetUniqueId :: "rect \<Rightarrow> u64" where
  "GetUniqueId r = push_bit 30 (word_of_int (rx r)) OR push_bit 20 (word_of_int (ry r)) OR
     push_bit 10 (word_of_int (rw r)) OR word_of_int (rh r)"

definition rect_Right :: "rect \<Rightarrow> int" where
  "rect_Right r = rx r + rw r"

definition rect_Bottom :: "rect \<Rightarrow> int" where
  "rect_Bottom r = ry r + rh r"

record buffer =
  depthPths :: "vec4 list"
  b_width :: int
  b_height :: int

definition v3_of :: "vec4 \<Rightarrow> vec3" where
  "v3_of v = V3 (wx v) (wy v) (wz v)"

record result =
  res_r :: rect
  res_q :: "vec4 list"
  maxDistFound :: fp
  res_normal :: vec3
  res_pt0 :: vec4
  isPicked :: bool
  neighbors :: "(nat \<times> side) list"
  visitCnt :: int
  shouldRemove :: bool

record plane_constants =
  g_mindist :: fp
  g_splitThreshold :: fp
  g_MinDPVal :: fp
  g_maxCoverage :: fp

definition default_constants :: plane_constants where
  "default_constants = \<lparr>g_mindist = flit F32 (1 / 20), g_splitThreshold = flit F32 (1 / 400),
     g_MinDPVal = flit F32 (9 / 10), g_maxCoverage = f_of_int F32 20\<rparr>"

definition SetPlaneConstants :: "fp \<Rightarrow> fp \<Rightarrow> fp \<Rightarrow> fp \<Rightarrow> plane_constants \<Rightarrow> plane_constants" where
  "SetPlaneConstants minDist splitThreshold minDPVal maxCoverage g =
     g\<lparr>g_mindist := minDist, g_splitThreshold := splitThreshold, g_MinDPVal := minDPVal, g_maxCoverage := maxCoverage\<rparr>"

definition pt_IsValid :: "vec4 \<Rightarrow> bool" where
  "pt_IsValid v \<longleftrightarrow> \<not> isinf (wx v) \<and> (\<not> feq (wx v) fzero \<or> \<not> feq (wy v) fzero \<or> \<not> feq (wz v) fzero)"

subsection \<open>Splitting into tiles\<close>

definition GetPt :: "buffer \<Rightarrow> rect \<Rightarrow> int \<Rightarrow> int \<Rightarrow> vec4 option" where
  "GetPt b r x y =
     (let py = min (b_height b - 1) (y + ry r); px = min (b_width b - 1) (x + rx r)
      in iget (depthPths b) (py * b_width b + px))"

text \<open>A scan over positions that stops at the first valid point.\<close>

fun scan :: "buffer \<Rightarrow> rect \<Rightarrow> (int \<times> int) list \<Rightarrow> vec4 option option" where
  "scan b r [] = Some None"
| "scan b r ((y, x) # ps) = do { pt \<leftarrow> GetPt b r x y; if pt_IsValid pt then Some (Some pt) else scan b r ps }"

definition scan_order :: "int list \<Rightarrow> int list \<Rightarrow> (int \<times> int) list" where
  "scan_order ys xs = concat (map (\<lambda>y. map (Pair y) xs) ys)"

text \<open>The distances of the valid points to the plane, until one is too far.\<close>

fun dist_scan :: "plane_constants \<Rightarrow> buffer \<Rightarrow> rect \<Rightarrow> vec4 \<Rightarrow> vec3 \<Rightarrow> (int \<times> int) list \<Rightarrow> fp \<Rightarrow> fp \<Rightarrow> (bool \<times> fp \<times> fp) option" where
  "dist_scan g b r planePt nrm [] maxDist numPts = Some (False, maxDist, numPts)"
| "dist_scan g b r planePt nrm ((y, x) # ps) maxDist numPts = do {
     pt \<leftarrow> GetPt b r x y;
     if pt_IsValid pt then
       let dp = ffabs (vdot (v3_of (wsub pt planePt)) nrm)
       in if flt (g_mindist g) dp then Some (True, addf maxDist dp, addf numPts fone)
          else dist_scan g b r planePt nrm ps (addf maxDist dp) (addf numPts fone)
     else dist_scan g b r planePt nrm ps maxDist numPts }"

definition tile_normal :: "vec4 \<Rightarrow> vec4 \<Rightarrow> vec4 \<Rightarrow> vec4 \<Rightarrow> vec3" where
  "tile_normal ptl ptr pbl pbr =
     (let vec1 = v3_of (wsub pbr ptr); vec2 = v3_of (wsub ptr ptl); vec3 = v3_of (wsub pbl ptl);
          nrm1 = vcross vec1 vec2
      in if feq (vlength nrm1) fzero
         then let nrm1 = vcross vec1 vec3 in if feq (vlength nrm1) fzero then vcross vec2 vec3 else nrm1
         else nrm1)"

definition split_rects :: "rect \<Rightarrow> rect list" where
  "split_rects r =
     (if rh r < rw r
      then [Rect (rx r) (ry r) (rw r - rw r div 2) (rh r), Rect (rx r + rw r div 2) (ry r) (rw r div 2) (rh r)]
      else [Rect (rx r) (ry r) (rw r) (rh r div 2), Rect (rx r) (ry r + rh r div 2) (rw r) (rh r div 2)])"

definition new_result :: "rect \<Rightarrow> vec4 list \<Rightarrow> fp \<Rightarrow> vec3 \<Rightarrow> vec4 \<Rightarrow> result" where
  "new_result r q d n p = \<lparr>res_r = r, res_q = q, maxDistFound = d, res_normal = n, res_pt0 = p,
     isPicked = False, neighbors = [], visitCnt = 0, shouldRemove = False\<rparr>"

text \<open>\<open>Tile::Process\<close>: the returned flag and the results with those of the tile appended;
  \<open>fuel\<close> bounds the depth of the recursion.\<close>

fun Process :: "plane_constants \<Rightarrow> buffer \<Rightarrow> nat \<Rightarrow> rect \<Rightarrow> result list \<Rightarrow> (bool \<times> result list) option" where
  "Process g b 0 r quads = None"
| "Process g b (Suc k) r quads =
     (let up = [0..rh r]; right = [0..rw r]
      in do {
        ptl \<leftarrow> scan b r (scan_order up right);
        ptr \<leftarrow> scan b r (scan_order up (rev right));
        pbl \<leftarrow> scan b r (scan_order (rev up) right);
        pbr \<leftarrow> scan b r (scan_order (rev up) (rev right));
        case (ptl, ptr, pbl, pbr) of
          (Some ptl, Some ptr, Some pbl, Some pbr) \<Rightarrow>
            let nrm1 = tile_normal ptl ptr pbl pbr
            in if feq (vlength nrm1) fzero then Some (False, quads)
               else let nrm1 = vnormalize nrm1
                    in do {
                      (split, maxDist, numPts) \<leftarrow> dist_scan g b r ptl nrm1 (scan_order up right) fzero fzero;
                      let maxDist = divf maxDist numPts; split = (split \<or> flt (g_splitThreshold g) maxDist)
                      in if split then do {
                           quads \<leftarrow> ofold (\<lambda>r' quads. do { (_, quads) \<leftarrow> Process g b k r' quads; Some quads }) (split_rects r) quads;
                           Some (True, quads) }
                         else Some (True, quads @ [new_result r [ptl, ptr, pbl, pbr] maxDist nrm1 ptl]) }
        | _ \<Rightarrow> Some (False, quads) })"

subsection \<open>Neighbours\<close>

datatype break_type = Start | End

record tile_break =
  xyVal :: int
  tb_start :: break_type
  tb_edge :: side
  pTile :: nat

definition break_num :: "break_type \<Rightarrow> nat" where
  "break_num s = (case s of Start \<Rightarrow> 0 | End \<Rightarrow> 1)"

definition tb_lt :: "tile_break \<Rightarrow> tile_break \<Rightarrow> bool" where
  "tb_lt a b =
     (if xyVal a \<noteq> xyVal b then xyVal a < xyVal b
      else if tb_start a \<noteq> tb_start b then break_num (tb_start a) < break_num (tb_start b)
      else side_num (tb_edge a) < side_num (tb_edge b))"

text \<open>The bucket of a map for a key, in insertion order, and the keys in the map's order. The
  loops that sort the buckets sort copies and change nothing.\<close>

definition bucket :: "(rect \<Rightarrow> int) \<Rightarrow> result list \<Rightarrow> int \<Rightarrow> nat list" where
  "bucket f rs k = filter (\<lambda>i. f (res_r (rs ! i)) = k) [0..<length rs]"

definition bucket_keys :: "(rect \<Rightarrow> int) \<Rightarrow> result list \<Rightarrow> int list" where
  "bucket_keys f rs = sorted_list_of_set ((\<lambda>r. f (res_r r)) ` set rs)"

definition tile_breaks :: "(rect \<Rightarrow> int) \<Rightarrow> (rect \<Rightarrow> int) \<Rightarrow> side \<Rightarrow> result list \<Rightarrow> nat list \<Rightarrow> tile_break list" where
  "tile_breaks lo hi edge rs is = concat (map (\<lambda>i.
     [\<lparr>xyVal = lo (res_r (rs ! i)), tb_start = Start, tb_edge = edge, pTile = i\<rparr>,
      \<lparr>xyVal = hi (res_r (rs ! i)), tb_start = End, tb_edge = edge, pTile = i\<rparr>]) is)"

definition add_neighbor :: "nat \<Rightarrow> nat \<times> side \<Rightarrow> result list \<Rightarrow> result list" where
  "add_neighbor i n rs = rs[i := (rs ! i)\<lparr>neighbors := neighbors (rs ! i) @ [n]\<rparr>]"

text \<open>One break of the sweep: the current tile per edge, and the results.\<close>

definition sweep_step :: "tile_break \<Rightarrow> (side \<Rightarrow> nat option) \<times> result list \<Rightarrow> (side \<Rightarrow> nat option) \<times> result list" where
  "sweep_step tb s = (case s of (cur, rs) \<Rightarrow>
     if tb_start tb = Start then
       let cur = cur(tb_edge tb := Some (pTile tb))
       in case cur (opposite (tb_edge tb)) of
            None \<Rightarrow> (cur, rs)
          | Some u \<Rightarrow> (cur, add_neighbor (pTile tb) (u, tb_edge tb)
                              (add_neighbor u (pTile tb, opposite (tb_edge tb)) rs))
     else (cur(tb_edge tb := None), rs))"

definition sweep :: "(tile_break list \<Rightarrow> tile_break list) \<Rightarrow> (rect \<Rightarrow> int) \<Rightarrow> (rect \<Rightarrow> int) \<Rightarrow> (rect \<Rightarrow> int) \<Rightarrow> (rect \<Rightarrow> int)
    \<Rightarrow> side \<Rightarrow> int \<Rightarrow> result list \<Rightarrow> result list" where
  "sweep srt near far lo hi edge k rs =
     (if bucket far rs k = [] then rs
      else snd (fold sweep_step
        (srt (tile_breaks lo hi edge rs (bucket near rs k) @ tile_breaks lo hi (opposite edge) rs (bucket far rs k)))
        (Map.empty, rs)))"

definition PopulateNeighbors :: "((tile_break \<Rightarrow> tile_break \<Rightarrow> bool) \<Rightarrow> tile_break list \<Rightarrow> tile_break list) \<Rightarrow> result list \<Rightarrow> result list" where
  "PopulateNeighbors srt rs =
     (let rs = fold (sweep (srt tb_lt) rx rect_Right ry rect_Bottom Right) (bucket_keys rx rs) rs
      in fold (sweep (srt tb_lt) ry rect_Bottom rx rect_Right Bottom) (bucket_keys ry rs) rs)"

subsection \<open>Connected tiles\<close>

definition coplanar :: "plane_constants \<Rightarrow> result \<Rightarrow> result \<Rightarrow> bool" where
  "coplanar g t other =
     (let dotNrm = vdot (res_normal t) (res_normal other)
      in (flt dotNrm (fneg (g_MinDPVal g)) \<or> flt (g_MinDPVal g) dotNrm) \<and>
         flt (vdot (v3_of (wsub (res_pt0 t) (res_pt0 other))) (res_normal t)) (g_mindist g))"

text \<open>The recursion marks tiles as visited; \<open>fuel\<close> bounds its depth.\<close>

fun FindConnected :: "plane_constants \<Rightarrow> nat \<Rightarrow> int \<Rightarrow> nat \<Rightarrow> result list \<times> nat list \<Rightarrow> (result list \<times> nat list) option" where
  "FindConnected g 0 visitIdx i s = None"
| "FindConnected g (Suc k) visitIdx i (rs, outTiles) = do {
     t \<leftarrow> aget rs i;
     if visitCnt t = visitIdx then Some (rs, outTiles)
     else ofold (\<lambda>(j, side) (rs, outTiles). do {
         t \<leftarrow> aget rs i; other \<leftarrow> aget rs j;
         if coplanar g t other then FindConnected g k visitIdx j (rs, outTiles) else Some (rs, outTiles) })
       (neighbors t) (rs[i := t\<lparr>visitCnt := visitIdx\<rparr>], outTiles @ [i]) }"

subsection \<open>Colours\<close>

definition d256 :: fp where
  "d256 = f_of_int F64 256"

definition unpackColor :: "fp \<Rightarrow> vec3" where
  "unpackColor f =
     (let c2 = fcvt F32 (ffloor (fdiv F64 f (fmul F64 d256 d256)));
          c1 = fcvt F32 (ffloor (fdiv F64 (fsub F64 f (fmul F64 (fmul F64 c2 d256) d256)) d256));
          c0 = fcvt F32 (ffloor (fsub F64 (fsub F64 f (fmul F64 (fmul F64 c2 d256) d256)) (fmul F64 c1 d256)))
      in V3 c0 c1 c2)"

definition f256 :: fp where
  "f256 = f_of_int F32 256"

definition PackColor :: "vec3 \<Rightarrow> fp" where
  "PackColor c = addf (addf (ffloor (vx c)) (mulf (ffloor (vy c)) f256)) (mulf (mulf (ffloor (vz c)) f256) f256)"

subsection \<open>The mesh\<close>

text \<open>The sum of squares is an \<open>int\<close> in the code, which overflows from sides of 46341 on; here it is not
  bounded, and nothing below depends on its value.\<close>

definition int_diag :: "int \<Rightarrow> int \<Rightarrow> fp" where
  "int_diag w h = fsqrt F64 (f_of_int F64 (w * w + h * h))"

text \<open>The longest of the six distances between the corners, squared.\<close>

definition longest_diag2 :: "vec4 list \<Rightarrow> fp" where
  "longest_diag2 pts = fold (\<lambda>(i, j) m. let l = vlengthSquared (v3_of (wsub (pts ! i) (pts ! j))) in if flt m l then l else m)
     [(0, 1), (0, 2), (0, 3), (1, 2), (1, 3), (2, 3)] fzero"

definition coverage :: "fp \<Rightarrow> result \<Rightarrow> fp" where
  "coverage fullDiagonal res =
     (let longestDiag = fsqrt F32 (longest_diag2 (res_q res));
          rectDiag = fcvt F32 (fdiv F64 (int_diag (rw (res_r res)) (rh (res_r res))) fullDiagonal)
      in ffabs (divf longestDiag rectDiag))"

fun make_groups :: "plane_constants \<Rightarrow> nat \<Rightarrow> nat list \<Rightarrow> result list \<Rightarrow> (result list \<times> nat list list) option" where
  "make_groups g fuel [] rs = Some (rs, [])"
| "make_groups g fuel (i # is) rs = do {
     t \<leftarrow> aget rs i;
     if visitCnt t = 1 then make_groups g fuel is rs
     else do {
       (rs, out) \<leftarrow> FindConnected g fuel 1 i (rs, []);
       (rs, outs) \<leftarrow> make_groups g fuel is rs;
       Some (rs, out # outs) } }"

definition avg_color :: "vec4 list \<Rightarrow> fp" where
  "avg_color q =
     (let add = (\<lambda>a b. V3 (addf (vx a) (vx b)) (addf (vy a) (vy b)) (addf (vz a) (vz b)));
          avg = fold (\<lambda>p a. add a (unpackColor (ww p))) q vzero
      in PackColor (vscale avg (flit F32 (1 / 4))))"

definition tri_indices :: "nat list" where
  "tri_indices = [0, 1, 2, 1, 3, 2]"

definition tile_vertices :: "result \<Rightarrow> vec3 list" where
  "tile_vertices res = map (\<lambda>i. v3_of (res_q res ! i)) tri_indices"

definition tile_texcoords :: "result \<Rightarrow> vec3 list" where
  "tile_texcoords res = map (\<lambda>_. if isPicked res then V3 fone fone fone else V3 (avg_color (res_q res)) fzero fzero) tri_indices"

definition DepthMakePlanes ::
  "plane_constants \<Rightarrow> ((tile_break \<Rightarrow> tile_break \<Rightarrow> bool) \<Rightarrow> tile_break list \<Rightarrow> tile_break list) \<Rightarrow> nat
   \<Rightarrow> vec4 list \<Rightarrow> int \<Rightarrow> int \<Rightarrow> (vec3 list \<times> vec3 list) option" where
  "DepthMakePlanes g srt fuel vals depthw depthh = do {
     (_, tiles) \<leftarrow> Process g \<lparr>depthPths = vals, b_width = depthw, b_height = depthh\<rparr> fuel (Rect 0 0 depthw depthh) [];
     let fullDiagonal = fcvt F32 (int_diag depthw depthh);
         tiles = filter (\<lambda>t. \<not> flt (g_maxCoverage g) (coverage fullDiagonal t)) tiles;
         tiles = PopulateNeighbors srt tiles
     in do {
       (tiles, groups) \<leftarrow> make_groups g (Suc (length tiles)) [0..<length tiles] tiles;
       let order = concat groups
       in Some (concat (map (\<lambda>i. tile_vertices (tiles ! i)) order), concat (map (\<lambda>i. tile_texcoords (tiles ! i)) order)) } }"

subsection \<open>Splitting ends\<close>

text \<open>Values that are zero or NaN, and vectors of them: a rectangle of one row has its corner
  scans meet, so two of its three direction vectors are such and it is never split.\<close>

definition fzn :: "fp \<Rightarrow> bool" where
  "fzn x \<longleftrightarrow> x = NaN \<or> (\<exists>s. x = Fin s 0)"

definition vzn :: "vec3 \<Rightarrow> bool" where
  "vzn v \<longleftrightarrow> fzn (vx v) \<and> fzn (vy v) \<and> fzn (vz v)"

lemma fzn_sub_self: "fzn (fsub F x x)"
  using fsub_self [of F x] by (auto simp: fzn_def)

lemma fzn_mul: "fzn x \<or> fzn y \<Longrightarrow> fzn (fmul F32 x y)"
  by (cases x; cases y) (auto simp: fzn_def)

lemma sval_zero [simp]: "sval s 0 = 0"
  by (simp add: sval_def)

lemma fzn_add: "fzn x \<Longrightarrow> fzn y \<Longrightarrow> fzn (fadd F32 x y)"
  by (auto simp: fzn_def Let_def)

lemma fzn_sub: "fzn x \<Longrightarrow> fzn y \<Longrightarrow> fzn (fsub F32 x y)"
  by (auto simp: fzn_def fsub_def Let_def)

lemma vzn_self: "vzn (v3_of (wsub p p))"
  by (simp add: vzn_def v3_of_def wsub_def fzn_sub_self)

lemma vzn_cross: "vzn a \<or> vzn b \<Longrightarrow> vzn (vcross a b)"
  by (auto simp: vzn_def vcross_def intro!: fzn_sub fzn_mul)

lemma vzn_length: "vzn v \<Longrightarrow> vlength v = NaN \<or> feq (vlength v) fzero"
proof -
  assume "vzn v"
  then have "fzn (vlengthSquared v)"
    by (auto simp: vlengthSquared_def vdot_def vzn_def intro!: fzn_add fzn_mul)
  then show ?thesis by (auto simp: vlength_def fzn_def feq_zero_iff fzero_def)
qed

lemma one_row_normal: "vzn (tile_normal ptl ptr ptl ptr)"
  by (auto simp: tile_normal_def Let_def intro!: vzn_cross vzn_self)

lemma vnormalize_nan: "vlength v = NaN \<Longrightarrow> vhasnan (vnormalize v)"
  by (simp add: vnormalize_def vdivs_def vhasnan_def)

text \<open>With a NaN normal no point is ever too far.\<close>

lemma dist_scan_nan:
  assumes "vhasnan nrm" and "m = NaN \<or> (m = fzero \<and> n = fzero)"
    and "\<forall>(y, x) \<in> set ps. GetPt b r x y \<noteq> None"
  shows "\<exists>m' n'. dist_scan g b r p nrm ps m n = Some (False, m', n') \<and> divf m' n' = NaN"
  using assms(2,3)
proof (induction ps arbitrary: m n)
  case Nil
  then show ?case by (auto simp: fzero_def)
next
  case (Cons a ps)
  obtain y x where a: "a = (y, x)" by (cases a)
  from Cons.prems(2) obtain pt where pt: "GetPt b r x y = Some pt" by (auto simp: a)
  have nan: "vdot (v3_of (wsub pt p)) nrm = NaN" by (rule vdot_nan) (simp add: assms(1))
  show ?case
  proof (cases "pt_IsValid pt")
    case True
    then show ?thesis using Cons.IH [of NaN "addf n fone"] Cons.prems(2) by (simp add: a pt nan)
  next
    case False
    then show ?thesis using Cons.IH [OF Cons.prems(1)] Cons.prems(2) by (simp add: a pt)
  qed
qed

text \<open>A point buffer of the announced size, and a rectangle that starts inside.\<close>

definition buffer_ok :: "buffer \<Rightarrow> bool" where
  "buffer_ok b \<longleftrightarrow> 0 < b_width b \<and> 0 < b_height b \<and> int (length (depthPths b)) = b_width b * b_height b"

definition rect_ok :: "rect \<Rightarrow> bool" where
  "rect_ok r \<longleftrightarrow> 0 \<le> rx r \<and> 0 \<le> ry r \<and> 0 \<le> rw r \<and> 0 \<le> rh r"

definition inside :: "rect \<Rightarrow> rect \<Rightarrow> bool" where
  "inside t r \<longleftrightarrow> rx r \<le> rx t \<and> rect_Right t \<le> rect_Right r \<and> ry r \<le> ry t \<and> rect_Bottom t \<le> rect_Bottom r"

lemma GetPt_total:
  assumes b: "buffer_ok b" and r: "rect_ok r" and xy: "0 \<le> x" "0 \<le> y"
  shows "\<exists>pt. GetPt b r x y = Some pt \<and> pt \<in> set (depthPths b)"
proof -
  define py px where "py = min (b_height b - 1) (y + ry r)" and "px = min (b_width b - 1) (x + rx r)"
  have p: "0 \<le> py" "py \<le> b_height b - 1" "0 \<le> px" "px < b_width b"
    using b r xy by (auto simp: py_def px_def buffer_ok_def rect_ok_def)
  have "py * b_width b \<le> (b_height b - 1) * b_width b"
    using p b by (intro mult_right_mono) (auto simp: buffer_ok_def)
  then have "py * b_width b + px < int (length (depthPths b))"
    using p b by (simp add: buffer_ok_def algebra_simps)
  moreover have "0 \<le> py * b_width b + px" using p b by (simp add: buffer_ok_def)
  ultimately show ?thesis
    by (simp add: GetPt_def iget_def py_def [symmetric] px_def [symmetric] aget_def Let_def)
qed

lemma scan_total:
  assumes "\<forall>(y, x) \<in> set ps. \<exists>pt. GetPt b r x y = Some pt \<and> pt \<in> set (depthPths b)"
  shows "\<exists>o'. scan b r ps = Some o' \<and> (\<forall>pt. o' = Some pt \<longrightarrow> pt_IsValid pt \<and> pt \<in> set (depthPths b))"
  using assms
proof (induction ps)
  case (Cons a ps)
  obtain y x where a: "a = (y, x)" by (cases a)
  from Cons.prems obtain pt where pt: "GetPt b r x y = Some pt" "pt \<in> set (depthPths b)" by (auto simp: a)
  show ?case using Cons.IH Cons.prems by (cases "pt_IsValid pt") (auto simp: a pt)
qed simp

text \<open>What the distance loop establishes when it does not ask for a split.\<close>

lemma dist_scan_total:
  assumes "\<forall>(y, x) \<in> set ps. GetPt b r x y \<noteq> None"
  shows "\<exists>s m' n'. dist_scan g b r p nrm ps m n = Some (s, m', n') \<and>
    (\<not> s \<longrightarrow> (\<forall>(y, x) \<in> set ps. \<forall>pt. GetPt b r x y = Some pt \<longrightarrow> pt_IsValid pt \<longrightarrow>
      \<not> flt (g_mindist g) (ffabs (vdot (v3_of (wsub pt p)) nrm))))"
  using assms
proof (induction ps arbitrary: m n)
  case (Cons a ps)
  obtain y x where a: "a = (y, x)" by (cases a)
  from Cons.prems obtain pt where pt: "GetPt b r x y = Some pt" by (auto simp: a)
  define dp where "dp = ffabs (vdot (v3_of (wsub pt p)) nrm)"
  have IH: "\<exists>s m' n'. dist_scan g b r p nrm ps m n = Some (s, m', n') \<and>
    (\<not> s \<longrightarrow> (\<forall>(y, x) \<in> set ps. \<forall>pt. GetPt b r x y = Some pt \<longrightarrow> pt_IsValid pt \<longrightarrow>
      \<not> flt (g_mindist g) (ffabs (vdot (v3_of (wsub pt p)) nrm))))" for m n
    by (rule Cons.IH) (use Cons.prems in auto)
  show ?case
  proof (cases "pt_IsValid pt \<and> flt (g_mindist g) dp")
    case True
    then have "dist_scan g b r p nrm (a # ps) m n = Some (True, addf m dp, addf n fone)"
      by (simp add: a pt Let_def dp_def [symmetric])
    then show ?thesis by blast
  next
    case False
    define m1 n1 where "m1 = (if pt_IsValid pt then addf m dp else m)" and "n1 = (if pt_IsValid pt then addf n fone else n)"
    have "dist_scan g b r p nrm (a # ps) m n = dist_scan g b r p nrm ps m1 n1"
      using False by (simp add: a pt Let_def dp_def m1_def n1_def)
    then show ?thesis using IH [of m1 n1] False by (simp add: a pt dp_def)
  qed
qed (simp, rule exI [of _ False], simp)

text \<open>What a tile promises: its corners are valid points of the buffer, no valid point of
  its rectangle is too far from its plane, and the average distance is under the threshold.\<close>

definition planar_tile :: "plane_constants \<Rightarrow> buffer \<Rightarrow> result \<Rightarrow> bool" where
  "planar_tile g b t \<longleftrightarrow> length (res_q t) = 4 \<and> (\<forall>p \<in> set (res_q t). pt_IsValid p \<and> p \<in> set (depthPths b)) \<and>
     \<not> flt (g_splitThreshold g) (maxDistFound t) \<and>
     (\<forall>y \<in> {0..rh (res_r t)}. \<forall>x \<in> {0..rw (res_r t)}. \<forall>pt. GetPt b (res_r t) x y = Some pt \<longrightarrow> pt_IsValid pt \<longrightarrow>
        \<not> flt (g_mindist g) (ffabs (vdot (v3_of (wsub pt (res_pt0 t))) (res_normal t))))"

definition fresh_tile :: "result \<Rightarrow> bool" where
  "fresh_tile t \<longleftrightarrow> rect_ok (res_r t) \<and> neighbors t = [] \<and> visitCnt t = 0"

lemma planar_new_result:
  "planar_tile g b (new_result r [p1, p2, p3, p4] m nrm p1) \<longleftrightarrow>
    (\<forall>p \<in> {p1, p2, p3, p4}. pt_IsValid p \<and> p \<in> set (depthPths b)) \<and> \<not> flt (g_splitThreshold g) m \<and>
    (\<forall>y \<in> {0..rh r}. \<forall>x \<in> {0..rw r}. \<forall>pt. GetPt b r x y = Some pt \<longrightarrow> pt_IsValid pt \<longrightarrow>
        \<not> flt (g_mindist g) (ffabs (vdot (v3_of (wsub pt p1)) nrm)))"
  by (auto simp: planar_tile_def new_result_def)

lemma scan_order_set: "set (scan_order ys xs) = set ys \<times> set xs"
  by (auto simp: scan_order_def)

definition appends :: "plane_constants \<Rightarrow> buffer \<Rightarrow> rect \<Rightarrow> result list \<Rightarrow> result list \<Rightarrow> bool" where
  "appends g b r quads quads' \<longleftrightarrow> (\<exists>new. quads' = quads @ new \<and>
     (\<forall>t \<in> set new. inside (res_r t) r \<and> planar_tile g b t \<and> fresh_tile t))"

lemma appends_refl [simp]: "appends g b r quads quads"
  by (simp add: appends_def)

lemma appends_trans:
  "appends g b r1 q1 q2 \<Longrightarrow> appends g b r2 q2 q3 \<Longrightarrow> inside r1 r \<Longrightarrow> inside r2 r \<Longrightarrow> appends g b r q1 q3"
  unfolding appends_def inside_def by (elim exE conjE, hypsubst, rule exI, rule conjI, simp) fastforce

lemma split_rects_inside:
  assumes "rect_ok r" and "0 < rh r"
  shows "\<forall>r' \<in> set (split_rects r). rect_ok r' \<and> inside r' r \<and> rw r' + rh r' < rw r + rh r"
  using assms by (auto simp: split_rects_def rect_ok_def inside_def rect_Right_def rect_Bottom_def)

text \<open>A rectangle of one row never asks for a split.\<close>

lemma one_row_no_split:
  assumes b: "buffer_ok b" and r: "rect_ok r" and h: "rh r = 0"
    and nz: "\<not> feq (vlength (tile_normal p q p q)) fzero"
    and d: "dist_scan g b r p (vnormalize (tile_normal p q p q)) (scan_order [0..rh r] [0..rw r]) fzero fzero = Some (s, m, n)"
  shows "\<not> s \<and> divf m n = NaN"
proof -
  have "vhasnan (vnormalize (tile_normal p q p q))"
    using vzn_length [OF one_row_normal, of p q] nz by (intro vnormalize_nan) blast
  from dist_scan_nan [OF this, of fzero fzero "scan_order [0..rh r] [0..rw r]" b r g p] d
    GetPt_total [OF b r]
  show ?thesis by (auto simp: scan_order_set) force+
qed

lemma order_points:
  assumes "buffer_ok b" and "rect_ok r" and "\<forall>y \<in> set ys. 0 \<le> y" and "\<forall>x \<in> set xs. 0 \<le> x"
  shows "\<forall>(y, x) \<in> set (scan_order ys xs). \<exists>pt. GetPt b r x y = Some pt \<and> pt \<in> set (depthPths b)"
  using assms(3,4) GetPt_total [OF assms(1,2)] by (auto simp: scan_order_set)

lemma Process_appends:
  assumes b: "buffer_ok b" and r: "rect_ok r" and k: "nat (rw r + rh r) < k"
  shows "\<exists>c quads'. Process g b k r quads = Some (c, quads') \<and> appends g b r quads quads'"
  using r k
proof (induction k arbitrary: r quads)
  case (Suc k)
  note r = Suc.prems(1)
  let ?up = "[0..rh r]" and ?right = "[0..rw r]"
  have st: "\<exists>o'. scan b r (scan_order ys xs) = Some o' \<and> (\<forall>p \<in> set_option o'. pt_IsValid p \<and> p \<in> set (depthPths b))"
    if "\<forall>y \<in> set ys. 0 \<le> y" "\<forall>x \<in> set xs. 0 \<le> x" for ys xs
    using scan_total [OF order_points [OF b r that]] by force
  have up: "\<forall>y \<in> set ?up. 0 \<le> y" "\<forall>y \<in> set (rev ?up). 0 \<le> y"
    and right: "\<forall>y \<in> set ?right. 0 \<le> y" "\<forall>y \<in> set (rev ?right). 0 \<le> y" by simp_all
  obtain o1 where s1: "scan b r (scan_order ?up ?right) = Some o1" "\<forall>p \<in> set_option o1. pt_IsValid p \<and> p \<in> set (depthPths b)"
    using st [OF up(1) right(1)] by blast
  obtain o2 where s2: "scan b r (scan_order ?up (rev ?right)) = Some o2" "\<forall>p \<in> set_option o2. pt_IsValid p \<and> p \<in> set (depthPths b)"
    using st [OF up(1) right(2)] by blast
  obtain o3 where s3: "scan b r (scan_order (rev ?up) ?right) = Some o3" "\<forall>p \<in> set_option o3. pt_IsValid p \<and> p \<in> set (depthPths b)"
    using st [OF up(2) right(1)] by blast
  obtain o4 where s4: "scan b r (scan_order (rev ?up) (rev ?right)) = Some o4" "\<forall>p \<in> set_option o4. pt_IsValid p \<and> p \<in> set (depthPths b)"
    using st [OF up(2) right(2)] by blast
  note s = s1(1) s2(1) s3(1) s4(1) and v = s1(2) s2(2) s3(2) s4(2)
  show ?case
  proof (cases "o1 = None \<or> o2 = None \<or> o3 = None \<or> o4 = None")
    case True
    then have "Process g b (Suc k) r quads = Some (False, quads)"
      by (auto simp: s Let_def split: option.splits)
    then show ?thesis using appends_refl by blast
  next
    case False
    then obtain p1 p2 p3 p4 where o: "o1 = Some p1" "o2 = Some p2" "o3 = Some p3" "o4 = Some p4" by auto
    define nrm where "nrm = tile_normal p1 p2 p3 p4"
    show ?thesis
    proof (cases "feq (vlength nrm) fzero")
      case True
      then have "Process g b (Suc k) r quads = Some (False, quads)" by (simp add: s o nrm_def Let_def)
      then show ?thesis using appends_refl by blast
    next
      case nz: False
      obtain sp m n where d: "dist_scan g b r p1 (vnormalize nrm) (scan_order ?up ?right) fzero fzero = Some (sp, m, n)"
        and far: "\<not> sp \<longrightarrow> (\<forall>(y, x) \<in> set (scan_order ?up ?right). \<forall>pt. GetPt b r x y = Some pt \<longrightarrow> pt_IsValid pt \<longrightarrow>
          \<not> flt (g_mindist g) (ffabs (vdot (v3_of (wsub pt p1)) (vnormalize nrm))))"
        using dist_scan_total [of "scan_order ?up ?right" b r g p1 "vnormalize nrm" fzero fzero] order_points [OF b r, of ?up ?right] by fastforce
      define split where "split = (sp \<or> flt (g_splitThreshold g) (divf m n))"
      show ?thesis
      proof (cases split)
        case False
        define t where "t = new_result r [p1, p2, p3, p4] (divf m n) (vnormalize nrm) p1"
        have "Process g b (Suc k) r quads = Some (True, quads @ [t])"
          using False nz by (simp add: s o nrm_def [symmetric] d split_def t_def Let_def)
        moreover have "planar_tile g b t"
          using False far v by (auto simp: t_def planar_new_result split_def o scan_order_set)
        moreover have "fresh_tile t" "inside (res_r t) r"
          using r by (simp_all add: t_def new_result_def fresh_tile_def inside_def)
        ultimately show ?thesis by (auto simp: appends_def)
      next
        case True
        have "rh r \<noteq> 0"
        proof
          assume h: "rh r = 0"
          then have "p3 = p1" "p4 = p2" using s o by simp_all
          then have "\<not> sp \<and> divf m n = NaN"
            using one_row_no_split [OF b r h, of p1 p2 g sp m n] nz d by (simp add: nrm_def)
          then show False using True by (simp add: split_def)
        qed
        then have h: "0 < rh r" using r by (simp add: rect_ok_def)
        note sr = split_rects_inside [OF r h]
        define P where "P = (\<lambda>q. appends g b r quads q)"
        have "\<exists>q'. ofold (\<lambda>r' quads. do { (_, quads) \<leftarrow> Process g b k r' quads; Some quads }) (split_rects r) quads = Some q' \<and> P q'"
        proof (rule ofold_total)
          show "P quads" by (simp add: P_def)
        next
          fix r' q assume r': "r' \<in> set (split_rects r)" and q: "P q"
          have "rect_ok r'" "inside r' r" "nat (rw r' + rh r') < k"
            using sr r' Suc.prems(2) by (auto simp: rect_ok_def)
          then show "\<exists>q'. do { (_, quads) \<leftarrow> Process g b k r' q; Some quads } = Some q' \<and> P q'"
            using Suc.IH [of r' q] q appends_trans [of g b r quads q r'] unfolding P_def
            by (auto simp: inside_def)
        qed
        then obtain q' where "ofold (\<lambda>r' quads. do { (_, quads) \<leftarrow> Process g b k r' quads; Some quads }) (split_rects r) quads = Some q'" "P q'"
          by blast
        then have "Process g b (Suc k) r quads = Some (True, q')"
          using True nz by (simp add: s o nrm_def [symmetric] d split_def Let_def)
        then show ?thesis using \<open>P q'\<close> by (auto simp: P_def)
      qed
    qed
  qed
qed simp

subsection \<open>Neighbours touch\<close>

text \<open>What a neighbour entry \<open>(u, s)\<close> of a tile says of the two rectangles: the edges are on one
  line and the ranges along it meet.\<close>

fun beside :: "rect \<Rightarrow> side \<Rightarrow> rect \<Rightarrow> bool" where
  "beside t Right u \<longleftrightarrow> rx t = rect_Right u \<and> ry t \<le> rect_Bottom u \<and> ry u \<le> rect_Bottom t"
| "beside t Left u \<longleftrightarrow> rx u = rect_Right t \<and> ry u \<le> rect_Bottom t \<and> ry t \<le> rect_Bottom u"
| "beside t Bottom u \<longleftrightarrow> ry t = rect_Bottom u \<and> rx t \<le> rect_Right u \<and> rx u \<le> rect_Right t"
| "beside t Top u \<longleftrightarrow> ry u = rect_Bottom t \<and> rx u \<le> rect_Right t \<and> rx t \<le> rect_Right u"

lemma beside_opposite: "beside t (opposite s) u \<longleftrightarrow> beside u s t"
  by (cases s) (simp_all add: opposite_def)

definition nb_ok :: "result list \<Rightarrow> bool" where
  "nb_ok rs \<longleftrightarrow> (\<forall>i < length rs. \<forall>(j, s) \<in> set (neighbors (rs ! i)).
     j < length rs \<and> (i, opposite s) \<in> set (neighbors (rs ! j)) \<and> beside (res_r (rs ! i)) s (res_r (rs ! j)))"

text \<open>The part of the results the neighbour search does not write.\<close>

definition unlinked :: "result list \<Rightarrow> result list" where
  "unlinked rs = map (\<lambda>t. t\<lparr>neighbors := []\<rparr>) rs"

lemma unlinked_length: "unlinked rs' = unlinked rs \<Longrightarrow> length rs' = length rs"
  unfolding unlinked_def by (metis length_map)

lemma unlinked_nth:
  assumes "unlinked rs' = unlinked rs" and "i < length rs"
  shows "(rs' ! i)\<lparr>neighbors := []\<rparr> = (rs ! i)\<lparr>neighbors := []\<rparr>"
  using assms unlinked_length [OF assms(1)] unfolding unlinked_def by (metis nth_map)

lemma unlinked_rect: "unlinked rs' = unlinked rs \<Longrightarrow> i < length rs \<Longrightarrow> res_r (rs' ! i) = res_r (rs ! i)"
  using unlinked_nth [of rs' rs i] by (cases "rs ! i"; cases "rs' ! i") simp

lemma unlinked_rects: "unlinked rs' = unlinked rs \<Longrightarrow> map res_r rs' = map res_r rs"
  using unlinked_length [of rs' rs] unlinked_rect [of rs' rs] by (auto intro!: nth_equalityI)

lemma unlinked_add: "unlinked (add_neighbor i n rs) = unlinked rs"
  by (cases "i < length rs") (auto simp: unlinked_def add_neighbor_def nth_list_update intro!: nth_equalityI)

lemma length_add_neighbor [simp]: "length (add_neighbor i n rs) = length rs"
  by (simp add: add_neighbor_def)

lemma neighbors_add:
  "i < length rs \<Longrightarrow> k < length rs \<Longrightarrow> set (neighbors (add_neighbor i n rs ! k)) =
     (if k = i then insert n (set (neighbors (rs ! k))) else set (neighbors (rs ! k)))"
  by (auto simp: add_neighbor_def nth_list_update)

lemma nb_ok_add:
  assumes ok: "nb_ok rs" and i: "i < length rs" and u: "u < length rs" and b: "beside (res_r (rs ! i)) s (res_r (rs ! u))"
  shows "nb_ok (add_neighbor i (u, s) (add_neighbor u (i, opposite s) rs))" (is "nb_ok ?rs")
proof -
  have r: "res_r (?rs ! k) = res_r (rs ! k)" if "k < length rs" for k
    using that by (intro unlinked_rect) (simp_all add: unlinked_add)
  have n: "set (neighbors (?rs ! k)) = set (neighbors (rs ! k)) \<union> (if k = i then {(u, s)} else {}) \<union>
      (if k = u then {(i, opposite s)} else {})" if "k < length rs" for k
    using that i u by (auto simp: neighbors_add)
  have "j < length rs \<and> (k, opposite t) \<in> set (neighbors (?rs ! j)) \<and> beside (res_r (?rs ! k)) t (res_r (?rs ! j))"
    if k: "k < length rs" and j: "(j, t) \<in> set (neighbors (?rs ! k))" for k j t
  proof -
    consider "(j, t) \<in> set (neighbors (rs ! k))" | "k = i" "j = u" "t = s" | "k = u" "j = i" "t = opposite s"
      using j by (auto simp: n [OF k] split: if_splits)
    then show ?thesis
    proof cases
      case 1
      then have "j < length rs" "(k, opposite t) \<in> set (neighbors (rs ! j))" "beside (res_r (rs ! k)) t (res_r (rs ! j))"
        using ok k by (auto simp: nb_ok_def)
      then show ?thesis using k by (simp add: n r)
    next
      case 2
      then show ?thesis using i u b by (simp add: n r)
    next
      case 3
      then show ?thesis using i u b by (simp add: n r beside_opposite)
    qed
  qed
  then show ?thesis by (auto simp: nb_ok_def)
qed

text \<open>The order of the breaks is that of a number.\<close>

definition tb_key :: "tile_break \<Rightarrow> int" where
  "tb_key a = 8 * xyVal a + 4 * int (break_num (tb_start a)) + int (side_num (tb_edge a))"

lemma tb_lt_key: "tb_lt a b \<longleftrightarrow> tb_key a < tb_key b"
  by (cases "tb_start a"; cases "tb_start b"; cases "tb_edge a"; cases "tb_edge b")
    (auto simp: tb_lt_def tb_key_def break_num_def side_num_def)

lemma tb_lt_weak: "strict_weak_on A tb_lt"
  using strict_weak_key [of A tb_key] by (simp add: tb_lt_key [abs_def])

text \<open>The sweep: a tile that is current on an edge started at or before every break to come and
  its end is still to come. \<open>R\<close> are the rectangles of the results.\<close>

definition on_edge :: "(rect \<Rightarrow> int) \<Rightarrow> (rect \<Rightarrow> int) \<Rightarrow> side \<Rightarrow> int \<Rightarrow> rect list \<Rightarrow> side \<Rightarrow> nat \<Rightarrow> bool" where
  "on_edge near far e0 k R e i \<longleftrightarrow> i < length R \<and> (e = e0 \<and> near (R ! i) = k \<or> e = opposite e0 \<and> far (R ! i) = k)"

definition break_ok :: "(rect \<Rightarrow> int) \<Rightarrow> (rect \<Rightarrow> int) \<Rightarrow> rect list \<Rightarrow> tile_break \<Rightarrow> bool" where
  "break_ok lo hi R tb \<longleftrightarrow> lo (R ! pTile tb) \<le> hi (R ! pTile tb) \<and>
     xyVal tb = (if tb_start tb = Start then lo (R ! pTile tb) else hi (R ! pTile tb))"

definition end_in :: "tile_break set \<Rightarrow> side \<Rightarrow> nat \<Rightarrow> bool" where
  "end_in T e i \<longleftrightarrow> (\<exists>tb \<in> T. tb_start tb = End \<and> tb_edge tb = e \<and> pTile tb = i)"

lemma opposite_neq [simp]: "opposite s \<noteq> s" "s \<noteq> opposite s"
  by (cases s; simp add: opposite_def)+

lemma not_tb_lt_xy: "\<not> tb_lt b a \<Longrightarrow> xyVal a \<le> xyVal b"
  by (auto simp: tb_lt_def split: if_splits)

lemma start_before_end: "xyVal a \<le> xyVal b \<Longrightarrow> tb_start a = Start \<Longrightarrow> tb_start b = End \<Longrightarrow> tb_lt a b"
  by (auto simp: tb_lt_def break_num_def)

lemma end_in_tail:
  "end_in (insert tb T) e i \<Longrightarrow> tb_start tb = Start \<or> tb_edge tb \<noteq> e \<or> pTile tb \<noteq> i \<Longrightarrow> end_in T e i"
  by (auto simp: end_in_def)

lemma beside_on_edges:
  assumes bes: "\<And>t u. near t = far u \<Longrightarrow> lo t \<le> hi u \<Longrightarrow> lo u \<le> hi t \<Longrightarrow> beside t e0 u"
    and "on_edge near far e0 k R e i" and "on_edge near far e0 k R (opposite e) u"
    and "lo (R ! i) \<le> hi (R ! u)" and "lo (R ! u) \<le> hi (R ! i)"
  shows "beside (R ! i) e (R ! u)"
proof (cases "e = e0")
  case True
  then show ?thesis using assms(2-) by (intro bes [of "R ! i" "R ! u", folded True]) (auto simp: on_edge_def)
next
  case False
  then have e: "e = opposite e0" "near (R ! u) = far (R ! i)" using assms(2,3) by (auto simp: on_edge_def)
  then have "beside (R ! u) e0 (R ! i)" using assms(4,5) by (intro bes) simp_all
  then show ?thesis by (simp add: e(1) beside_opposite)
qed

lemma sweep_fold:
  assumes bes: "\<And>t u. near t = far u \<Longrightarrow> lo t \<le> hi u \<Longrightarrow> lo u \<le> hi t \<Longrightarrow> beside t e0 u"
    and "sorted_wrt (\<lambda>a b. \<not> tb_lt b a) tbs"
    and "\<forall>tb \<in> set tbs. on_edge near far e0 k R (tb_edge tb) (pTile tb) \<and> break_ok lo hi R tb"
    and "\<forall>tb \<in> set tbs. tb_start tb = Start \<longrightarrow> end_in (set tbs) (tb_edge tb) (pTile tb)"
    and "\<forall>e u. cur e = Some u \<longrightarrow> on_edge near far e0 k R e u \<and> end_in (set tbs) e u \<and> (\<forall>tb \<in> set tbs. lo (R ! u) \<le> xyVal tb)"
    and "nb_ok rs" and "map res_r rs = R"
  shows "nb_ok (snd (fold sweep_step tbs (cur, rs))) \<and> unlinked (snd (fold sweep_step tbs (cur, rs))) = unlinked rs"
  using assms(2-)
proof (induction tbs arbitrary: cur rs)
  case (Cons tb tbs)
  let ?i = "pTile tb" and ?e = "tb_edge tb"
  have later: "xyVal tb \<le> xyVal b" if "b \<in> set tbs" for b
    using Cons.prems(1) that not_tb_lt_xy by auto
  have tb: "on_edge near far e0 k R ?e ?i" "break_ok lo hi R tb" using Cons.prems(2) by simp_all
  have len: "?i < length rs" using tb(1) Cons.prems(6) by (auto simp: on_edge_def)
  have ends: "\<forall>b \<in> set tbs. tb_start b = Start \<longrightarrow> end_in (set tbs) (tb_edge b) (pTile b)"
  proof (intro ballI impI)
    fix b assume b: "b \<in> set tbs" "tb_start b = Start"
    have "\<not> (tb_start tb = End \<and> pTile tb = pTile b)"
    proof (rule notI)
      assume t: "tb_start tb = End \<and> pTile tb = pTile b"
      then have "xyVal b \<le> xyVal tb" using Cons.prems(2) b by (auto simp: break_ok_def)
      then have "tb_lt b tb" using t b by (intro start_before_end) simp_all
      then show False using Cons.prems(1) b(1) by simp
    qed
    moreover have "end_in (insert tb (set tbs)) (tb_edge b) (pTile b)" using Cons.prems(3) b by auto
    ultimately show "end_in (set tbs) (tb_edge b) (pTile b)"
      using end_in_tail [of tb "set tbs" "tb_edge b" "pTile b"] by (cases "tb_start tb") auto
  qed
  show ?case
  proof (cases "tb_start tb = Start")
    case True
    define cur' where "cur' = cur(?e := Some ?i)"
    define rs' where "rs' = (case cur' (opposite ?e) of None \<Rightarrow> rs
      | Some u \<Rightarrow> add_neighbor ?i (u, ?e) (add_neighbor u (?i, opposite ?e) rs))"
    have rs': "nb_ok rs' \<and> unlinked rs' = unlinked rs"
    proof (cases "cur' (opposite ?e)")
      case None
      then show ?thesis using Cons.prems(5) by (simp add: rs'_def)
    next
      case (Some u)
      then have u: "on_edge near far e0 k R (opposite ?e) u" "end_in (set (tb # tbs)) (opposite ?e) u" "lo (R ! u) \<le> xyVal tb"
        using Cons.prems(4) by (auto simp: cur'_def)
      have "xyVal tb \<le> hi (R ! u)"
      proof -
        have "end_in (set tbs) (opposite ?e) u"
          using end_in_tail [of tb "set tbs" "opposite ?e" u] u(2) by simp
        then obtain b where b: "b \<in> set tbs" "tb_start b = End" "pTile b = u"
          by (auto simp: end_in_def)
        then have "break_ok lo hi R b" using Cons.prems(2) by simp
        then have "xyVal b = hi (R ! u)" using b by (simp add: break_ok_def)
        then show ?thesis using later [OF b(1)] by simp
      qed
      moreover have "xyVal tb = lo (R ! ?i)" "lo (R ! ?i) \<le> hi (R ! ?i)"
        using tb(2) True by (simp_all add: break_ok_def)
      ultimately have "beside (R ! ?i) ?e (R ! u)"
        using u(3) by (intro beside_on_edges [where lo = lo and hi = hi, OF _ tb(1) u(1)]) (simp_all add: bes)
      moreover have "u < length rs" using u(1) Cons.prems(6) by (auto simp: on_edge_def)
      ultimately have "nb_ok (add_neighbor ?i (u, ?e) (add_neighbor u (?i, opposite ?e) rs))"
        using Cons.prems(5,6) len by (intro nb_ok_add) auto
      then show ?thesis by (simp add: rs'_def Some unlinked_add)
    qed
    have "nb_ok (snd (fold sweep_step tbs (cur', rs'))) \<and> unlinked (snd (fold sweep_step tbs (cur', rs'))) = unlinked rs'"
    proof (rule Cons.IH)
      show "\<forall>e u. cur' e = Some u \<longrightarrow> on_edge near far e0 k R e u \<and> end_in (set tbs) e u \<and> (\<forall>b \<in> set tbs. lo (R ! u) \<le> xyVal b)"
      proof (intro allI impI)
        fix e u assume "cur' e = Some u"
        then have "(e = ?e \<and> u = ?i) \<or> cur e = Some u" unfolding cur'_def by (simp split: if_splits)
        then consider "e = ?e" "u = ?i" | "cur e = Some u" by blast
        then show "on_edge near far e0 k R e u \<and> end_in (set tbs) e u \<and> (\<forall>b \<in> set tbs. lo (R ! u) \<le> xyVal b)"
        proof cases
          case 1
          have "end_in (set tbs) ?e ?i" using Cons.prems(3) True end_in_tail [of tb "set tbs" ?e ?i] by simp
          moreover have "xyVal tb = lo (R ! ?i)" using tb(2) True by (simp add: break_ok_def)
          ultimately show ?thesis using 1 tb(1) later by simp
        next
          case 2
          note c = Cons.prems(4) [rule_format, OF 2]
          have "end_in (set tbs) e u" using end_in_tail [of tb "set tbs" e u] c True by simp
          then show ?thesis using c by simp
        qed
      qed
      show "map res_r rs' = R" using rs' unlinked_rects Cons.prems(6) by metis
    qed (use Cons.prems(1,2) ends rs' in simp_all)
    moreover have "fold sweep_step (tb # tbs) (cur, rs) = fold sweep_step tbs (cur', rs')"
      using True by (cases "cur' (opposite ?e)") (simp_all add: sweep_step_def [of tb] Let_def cur'_def rs'_def)
    ultimately show ?thesis using rs' by simp
  next
    case False
    then have "tb_start tb = End" by (cases "tb_start tb") simp_all
    have "nb_ok (snd (fold sweep_step tbs (cur(?e := None), rs))) \<and> unlinked (snd (fold sweep_step tbs (cur(?e := None), rs))) = unlinked rs"
    proof (rule Cons.IH)
      show "\<forall>e u. (cur(?e := None)) e = Some u \<longrightarrow> on_edge near far e0 k R e u \<and> end_in (set tbs) e u \<and> (\<forall>b \<in> set tbs. lo (R ! u) \<le> xyVal b)"
      proof (intro allI impI)
        fix e u assume "(cur(?e := None)) e = Some u"
        then have e: "?e \<noteq> e" "cur e = Some u" by (auto split: if_splits)
        note c = Cons.prems(4) [rule_format, OF e(2)]
        have "end_in (set tbs) e u" using end_in_tail [of tb "set tbs" e u] c e(1) by simp
        then show "on_edge near far e0 k R e u \<and> end_in (set tbs) e u \<and> (\<forall>b \<in> set tbs. lo (R ! u) \<le> xyVal b)"
          using c by simp
      qed
    qed (use Cons.prems ends in auto)
    then show ?thesis using False by (simp add: sweep_step_def [of tb])
  qed
qed simp

lemma bucket_iff: "i \<in> set (bucket f rs k) \<longleftrightarrow> i < length rs \<and> f (res_r (rs ! i)) = k"
  by (simp add: bucket_def)

lemma tile_breaks_set: "tb \<in> set (tile_breaks lo hi e rs is) \<longleftrightarrow> (\<exists>i \<in> set is.
    tb = \<lparr>xyVal = lo (res_r (rs ! i)), tb_start = Start, tb_edge = e, pTile = i\<rparr> \<or>
    tb = \<lparr>xyVal = hi (res_r (rs ! i)), tb_start = End, tb_edge = e, pTile = i\<rparr>)"
  by (auto simp: tile_breaks_def)

lemma tile_breaks_ends:
  "tb \<in> set (tile_breaks lo hi e rs is) \<Longrightarrow> end_in (set (tile_breaks lo hi e rs is)) (tb_edge tb) (pTile tb)"
  unfolding end_in_def by (auto simp: tile_breaks_def)

lemma end_in_mono: "end_in A e i \<Longrightarrow> A \<subseteq> B \<Longrightarrow> end_in B e i"
  by (auto simp: end_in_def)

lemma sweep_ok:
  assumes srt: "std_sort srt"
    and bes: "\<And>t u. near t = far u \<Longrightarrow> lo t \<le> hi u \<Longrightarrow> lo u \<le> hi t \<Longrightarrow> beside t e0 u"
    and rect: "\<forall>t \<in> set rs. lo (res_r t) \<le> hi (res_r t)"
    and ok: "nb_ok rs"
  shows "nb_ok (sweep (srt tb_lt) near far lo hi e0 k rs) \<and> unlinked (sweep (srt tb_lt) near far lo hi e0 k rs) = unlinked rs"
proof (cases "bucket far rs k = []")
  case True
  then show ?thesis using ok by (simp add: sweep_def)
next
  case False
  define R where "R = map res_r rs"
  define tbs where "tbs = tile_breaks lo hi e0 rs (bucket near rs k) @ tile_breaks lo hi (opposite e0) rs (bucket far rs k)"
  have sorted: "sorted_wrt (\<lambda>a b. \<not> tb_lt b a) (srt tb_lt tbs)" by (rule std_sort.srt_sorted [OF srt tb_lt_weak])
  have breaks: "\<forall>tb \<in> set tbs. on_edge near far e0 k R (tb_edge tb) (pTile tb) \<and> break_ok lo hi R tb"
    unfolding tbs_def R_def using rect
    by (auto simp: tile_breaks_set bucket_iff on_edge_def break_ok_def)
  have ends: "\<forall>tb \<in> set tbs. tb_start tb = Start \<longrightarrow> end_in (set tbs) (tb_edge tb) (pTile tb)"
  proof (intro ballI impI)
    fix tb assume "tb \<in> set tbs"
    then consider "tb \<in> set (tile_breaks lo hi e0 rs (bucket near rs k))"
      | "tb \<in> set (tile_breaks lo hi (opposite e0) rs (bucket far rs k))" by (auto simp: tbs_def)
    then show "end_in (set tbs) (tb_edge tb) (pTile tb)"
      by cases (drule tile_breaks_ends, erule end_in_mono, simp add: tbs_def)+
  qed
  have "nb_ok (snd (fold sweep_step (srt tb_lt tbs) (Map.empty, rs))) \<and>
      unlinked (snd (fold sweep_step (srt tb_lt tbs) (Map.empty, rs))) = unlinked rs"
    by (rule sweep_fold [where R = R and lo = lo and hi = hi and near = near and far = far and k = k])
      (use bes sorted breaks ends ok in \<open>auto simp: std_sort.srt_set [OF srt] R_def\<close>)
  then show ?thesis using False by (simp add: sweep_def tbs_def)
qed

lemma sweeps_ok:
  assumes srt: "std_sort srt"
    and bes: "\<And>t u. near t = far u \<Longrightarrow> lo t \<le> hi u \<Longrightarrow> lo u \<le> hi t \<Longrightarrow> beside t e0 u"
    and "\<forall>t \<in> set rs. lo (res_r t) \<le> hi (res_r t)" and "nb_ok rs"
  shows "nb_ok (fold (sweep (srt tb_lt) near far lo hi e0) ks rs) \<and>
    unlinked (fold (sweep (srt tb_lt) near far lo hi e0) ks rs) = unlinked rs"
  using assms(3,4)
proof (induction ks arbitrary: rs)
  case (Cons k ks)
  let ?rs = "sweep (srt tb_lt) near far lo hi e0 k rs"
  have s: "nb_ok ?rs" "unlinked ?rs = unlinked rs"
    using sweep_ok [OF srt bes Cons.prems, of near far k] by blast+
  have "map res_r ?rs = map res_r rs" by (rule unlinked_rects [OF s(2)])
  then have "res_r ` set ?rs = res_r ` set rs" by (metis set_map)
  then have "\<forall>t \<in> set ?rs. lo (res_r t) \<le> hi (res_r t)"
    using Cons.prems(1) by (metis (no_types, lifting) imageE imageI)
  then show ?case using Cons.IH [OF _ s(1)] s(2) by simp
qed simp

lemma PopulateNeighbors_ok:
  assumes srt: "std_sort srt" and fresh: "\<forall>t \<in> set rs. fresh_tile t"
  shows "nb_ok (PopulateNeighbors srt rs) \<and> unlinked (PopulateNeighbors srt rs) = unlinked rs"
proof -
  have ok: "nb_ok rs" using fresh by (simp add: nb_ok_def fresh_tile_def)
  have x: "\<forall>t \<in> set rs. ry (res_r t) \<le> rect_Bottom (res_r t)" "\<forall>t \<in> set rs. rx (res_r t) \<le> rect_Right (res_r t)"
    using fresh by (simp_all add: fresh_tile_def rect_ok_def rect_Bottom_def rect_Right_def)
  define ks where "ks = bucket_keys rx rs"
  define rs1 where "rs1 = fold (sweep (srt tb_lt) rx rect_Right ry rect_Bottom Right) ks rs"
  have 1: "nb_ok rs1" "unlinked rs1 = unlinked rs"
    using sweeps_ok [OF srt, of rx rect_Right ry rect_Bottom Right rs ks] x(1) ok by (simp_all add: rs1_def)
  have "map res_r rs1 = map res_r rs" by (rule unlinked_rects [OF 1(2)])
  then have "res_r ` set rs1 = res_r ` set rs" by (metis set_map)
  then have x1: "\<forall>t \<in> set rs1. rx (res_r t) \<le> rect_Right (res_r t)"
    using x(2) by (metis (no_types, lifting) imageE imageI)
  define ks' where "ks' = bucket_keys ry rs1"
  have "nb_ok (fold (sweep (srt tb_lt) ry rect_Bottom rx rect_Right Bottom) ks' rs1) \<and>
      unlinked (fold (sweep (srt tb_lt) ry rect_Bottom rx rect_Right Bottom) ks' rs1) = unlinked rs1"
    by (rule sweeps_ok [OF srt _ x1 1(1)]) simp
  then show ?thesis using 1(2) by (simp add: PopulateNeighbors_def rs1_def ks_def ks'_def Let_def)
qed

subsection \<open>Groups\<close>

text \<open>The part of the results the search for connected tiles does not write, the visited tiles,
  and the steps of the search.\<close>

definition unvisit :: "result list \<Rightarrow> result list" where
  "unvisit rs = map (\<lambda>t. t\<lparr>visitCnt := 0\<rparr>) rs"

definition visited :: "int \<Rightarrow> result list \<Rightarrow> nat set" where
  "visited v rs = {i. i < length rs \<and> visitCnt (rs ! i) = v}"

definition tile_edge :: "plane_constants \<Rightarrow> result list \<Rightarrow> nat \<Rightarrow> nat \<Rightarrow> bool" where
  "tile_edge g rs i j \<longleftrightarrow> i < length rs \<and> (\<exists>s. (j, s) \<in> set (neighbors (rs ! i))) \<and> coplanar g (rs ! i) (rs ! j)"

definition nb_wf :: "result list \<Rightarrow> bool" where
  "nb_wf rs \<longleftrightarrow> (\<forall>i < length rs. \<forall>(j, s) \<in> set (neighbors (rs ! i)). j < length rs)"

lemma unvisit_length: "unvisit rs' = unvisit rs \<Longrightarrow> length rs' = length rs"
  unfolding unvisit_def by (metis length_map)

lemma unvisit_nth:
  assumes "unvisit rs' = unvisit rs" and "i < length rs"
  shows "(rs' ! i)\<lparr>visitCnt := 0\<rparr> = (rs ! i)\<lparr>visitCnt := 0\<rparr>"
  using assms unvisit_length [OF assms(1)] unfolding unvisit_def by (metis nth_map)

lemma unvisit_fields:
  assumes "unvisit rs' = unvisit rs" and "i < length rs"
  shows "neighbors (rs' ! i) = neighbors (rs ! i)" "res_normal (rs' ! i) = res_normal (rs ! i)"
    "res_pt0 (rs' ! i) = res_pt0 (rs ! i)" "res_q (rs' ! i) = res_q (rs ! i)" "isPicked (rs' ! i) = isPicked (rs ! i)"
  using unvisit_nth [OF assms] by (cases "rs ! i"; cases "rs' ! i"; simp)+

lemma unvisit_wf: "unvisit rs' = unvisit rs \<Longrightarrow> nb_wf rs' = nb_wf rs"
  by (simp add: nb_wf_def unvisit_length [of rs' rs] unvisit_fields [of rs' rs] cong: conj_cong imp_cong)

lemma unvisit_edge:
  assumes "unvisit rs' = unvisit rs" and "nb_wf rs"
  shows "tile_edge g rs' i j = tile_edge g rs i j"
proof (cases "i < length rs \<and> (\<exists>s. (j, s) \<in> set (neighbors (rs ! i)))")
  case True
  then have "j < length rs" using assms(2) by (auto simp: nb_wf_def)
  then show ?thesis
    using True unvisit_fields [OF assms(1), of i] unvisit_fields [OF assms(1), of j] unvisit_length [OF assms(1)]
    by (simp add: tile_edge_def coplanar_def)
next
  case False
  then show ?thesis
    using unvisit_fields [OF assms(1), of i] unvisit_length [OF assms(1)] by (auto simp: tile_edge_def)
qed

lemma unvisit_set: "unvisit (rs[i := (rs ! i)\<lparr>visitCnt := v\<rparr>]) = unvisit rs"
  by (cases "i < length rs") (auto simp: unvisit_def nth_list_update intro!: nth_equalityI)

lemma visited_set: "i < length rs \<Longrightarrow> visited v (rs[i := (rs ! i)\<lparr>visitCnt := v\<rparr>]) = insert i (visited v rs)"
  by (auto simp: visited_def nth_list_update split: if_splits)

text \<open>What a search from the tiles \<open>A\<close> has done: the tiles it appended are those it visited,
  they were reached from \<open>A\<close>, and their own successors are visited too.\<close>

definition searched :: "plane_constants \<Rightarrow> int \<Rightarrow> nat set \<Rightarrow> result list \<times> nat list \<Rightarrow> result list \<times> nat list \<Rightarrow> bool" where
  "searched g v A s s' \<longleftrightarrow> (case (s, s') of ((rs, out), (rs', out')) \<Rightarrow>
     unvisit rs' = unvisit rs \<and> A \<subseteq> visited v rs' \<and>
     (\<exists>new. out' = out @ new \<and> distinct new \<and> set new \<inter> visited v rs = {} \<and> visited v rs' = visited v rs \<union> set new \<and>
       (\<forall>x \<in> set new. \<exists>a \<in> A. (tile_edge g rs)\<^sup>*\<^sup>* a x) \<and> (\<forall>x \<in> set new. \<forall>y. tile_edge g rs x y \<longrightarrow> y \<in> visited v rs')))"

lemma searched_none: "A \<subseteq> visited v (fst s) \<Longrightarrow> searched g v A s s"
  by (cases s) (auto simp: searched_def)

lemma searched_trans:
  assumes 1: "searched g v A (rs, out) (rs1, out1)" and 2: "searched g v B (rs1, out1) (rs2, out2)" and wf: "nb_wf rs"
  shows "searched g v (A \<union> B) (rs, out) (rs2, out2)"
proof -
  from 1 obtain n1 where a: "unvisit rs1 = unvisit rs" "A \<subseteq> visited v rs1" "out1 = out @ n1" "distinct n1"
    "set n1 \<inter> visited v rs = {}" "visited v rs1 = visited v rs \<union> set n1" "\<forall>x \<in> set n1. \<exists>a \<in> A. (tile_edge g rs)\<^sup>*\<^sup>* a x"
    "\<forall>x \<in> set n1. \<forall>y. tile_edge g rs x y \<longrightarrow> y \<in> visited v rs1"
    by (auto simp: searched_def)
  have e: "tile_edge g rs1 = tile_edge g rs" using unvisit_edge [OF a(1) wf] by blast
  from 2 obtain n2 where b: "unvisit rs2 = unvisit rs1" "B \<subseteq> visited v rs2" "out2 = out1 @ n2" "distinct n2"
    "set n2 \<inter> visited v rs1 = {}" "visited v rs2 = visited v rs1 \<union> set n2" "\<forall>x \<in> set n2. \<exists>a \<in> B. (tile_edge g rs)\<^sup>*\<^sup>* a x"
    "\<forall>x \<in> set n2. \<forall>y. tile_edge g rs x y \<longrightarrow> y \<in> visited v rs2"
    by (auto simp: searched_def e)
  have "out2 = out @ (n1 @ n2)" "distinct (n1 @ n2)" "set (n1 @ n2) \<inter> visited v rs = {}"
    "visited v rs2 = visited v rs \<union> set (n1 @ n2)" "A \<union> B \<subseteq> visited v rs2" "unvisit rs2 = unvisit rs"
    using a(1-6) b(1-6) by auto
  moreover have "\<exists>a \<in> A \<union> B. (tile_edge g rs)\<^sup>*\<^sup>* a x" if "x \<in> set (n1 @ n2)" for x
    using that a(7) b(7) by auto
  moreover have "y \<in> visited v rs2" if "x \<in> set (n1 @ n2)" "tile_edge g rs x y" for x y
    using that a(8) b(6,8) by auto
  ultimately show ?thesis unfolding searched_def prod.case
    by (intro conjI exI [of _ "n1 @ n2"]) blast+
qed

definition find_body :: "plane_constants \<Rightarrow> nat \<Rightarrow> int \<Rightarrow> nat \<Rightarrow> nat \<times> side \<Rightarrow> result list \<times> nat list \<Rightarrow> (result list \<times> nat list) option" where
  "find_body g k v i = (\<lambda>(j, side) (rs, outTiles). do {
     t \<leftarrow> aget rs i; other \<leftarrow> aget rs j;
     if coplanar g t other then FindConnected g k v j (rs, outTiles) else Some (rs, outTiles) })"

lemma FindConnected_Suc:
  "FindConnected g (Suc k) v i (rs, out) = do {
     t \<leftarrow> aget rs i;
     if visitCnt t = v then Some (rs, out)
     else ofold (find_body g k v i) (neighbors t) (rs[i := t\<lparr>visitCnt := v\<rparr>], out @ [i]) }"
  unfolding FindConnected.simps find_body_def by (rule refl)

definition unvisited :: "int \<Rightarrow> result list \<Rightarrow> nat set" where
  "unvisited v rs = {..<length rs} - visited v rs"

lemma finite_unvisited [simp]: "finite (unvisited v rs)"
  by (simp add: unvisited_def)

lemma searched_unvisited:
  "searched g v A (rs, out) (rs', out') \<Longrightarrow> unvisited v rs' \<subseteq> unvisited v rs"
  by (auto simp: searched_def unvisited_def dest: unvisit_length)

text \<open>The loop over the neighbours, from the call of smaller fuel.\<close>

lemma find_loop:
  assumes IH: "\<And>j rs out. nb_wf rs \<Longrightarrow> j < length rs \<Longrightarrow> card (unvisited v rs) < k \<Longrightarrow>
      \<exists>s'. FindConnected g k v j (rs, out) = Some s' \<and> searched g v {j} (rs, out) s'"
    and "nb_wf rs" and "i < length rs" and "card (unvisited v rs) < k" and "set ns \<subseteq> set (neighbors (rs ! i))"
  shows "\<exists>s'. ofold (find_body g k v i) ns (rs, out) = Some s' \<and>
    searched g v {j. (\<exists>s. (j, s) \<in> set ns) \<and> coplanar g (rs ! i) (rs ! j)} (rs, out) s'"
  using assms(2-)
proof (induction ns arbitrary: rs out)
  case Nil
  then show ?case by (simp add: searched_none)
next
  case (Cons n ns)
  obtain j d where n: "n = (j, d)" by (cases n)
  then have j: "j < length rs" using Cons.prems(1,2,4) by (auto simp: nb_wf_def)
  define B where "B = {j. (\<exists>s. (j, s) \<in> set ns) \<and> coplanar g (rs ! i) (rs ! j)}"
  define A where "A = (if coplanar g (rs ! i) (rs ! j) then {j} else {})"
  have AB: "{j. (\<exists>s. (j, s) \<in> set (n # ns)) \<and> coplanar g (rs ! i) (rs ! j)} = A \<union> B"
    by (auto simp: n A_def B_def)
  have "\<exists>s1. find_body g k v i n (rs, out) = Some s1 \<and> searched g v A (rs, out) s1"
  proof (cases "coplanar g (rs ! i) (rs ! j)")
    case True
    then show ?thesis using IH [OF Cons.prems(1) j Cons.prems(3), of out] Cons.prems(2) j
      by (simp add: find_body_def n A_def aget_def)
  next
    case False
    then show ?thesis using Cons.prems(2) j by (simp add: find_body_def n A_def aget_def searched_none)
  qed
  then obtain rs1 out1 where s1: "find_body g k v i n (rs, out) = Some (rs1, out1)" "searched g v A (rs, out) (rs1, out1)"
    by auto
  have u: "unvisit rs1 = unvisit rs" using s1(2) by (simp add: searched_def)
  have wf: "nb_wf rs1" using unvisit_wf [OF u] Cons.prems(1) by simp
  have len: "length rs1 = length rs" by (rule unvisit_length [OF u])
  have "card (unvisited v rs1) \<le> card (unvisited v rs)"
    by (intro card_mono searched_unvisited [OF s1(2)]) simp
  then obtain s' where s': "ofold (find_body g k v i) ns (rs1, out1) = Some s'"
      "searched g v {j. (\<exists>s. (j, s) \<in> set ns) \<and> coplanar g (rs1 ! i) (rs1 ! j)} (rs1, out1) s'"
    using Cons.IH [OF wf, of out1] Cons.prems(2,3,4) unvisit_fields(1) [OF u, of i] len by auto
  have "{j. (\<exists>s. (j, s) \<in> set ns) \<and> coplanar g (rs1 ! i) (rs1 ! j)} = B"
  proof -
    have "coplanar g (rs1 ! i) (rs1 ! j) = coplanar g (rs ! i) (rs ! j)" if "(j, s) \<in> set ns" for j s
    proof -
      have "j < length rs" using that Cons.prems(1,2,4) by (auto simp: nb_wf_def)
      then show ?thesis using unvisit_fields [OF u] Cons.prems(2) by (simp add: coplanar_def)
    qed
    then show ?thesis by (auto simp: B_def)
  qed
  then have "searched g v (A \<union> B) (rs, out) s'"
    using searched_trans [OF s1(2) _ Cons.prems(1)] s'(2) by (cases s') simp
  then show ?case using s1(1) s'(1) AB by simp
qed

lemma FindConnected_searched:
  assumes "nb_wf rs" and "i < length rs" and "card (unvisited v rs) < k"
  shows "\<exists>s'. FindConnected g k v i (rs, out) = Some s' \<and> searched g v {i} (rs, out) s'"
  using assms
proof (induction k arbitrary: i rs out)
  case (Suc k)
  note i = Suc.prems(2)
  show ?case
  proof (cases "visitCnt (rs ! i) = v")
    case True
    then have "FindConnected g (Suc k) v i (rs, out) = Some (rs, out)" using i by (simp add: aget_def)
    then show ?thesis using True i by (auto intro!: searched_none simp: visited_def)
  next
    case False
    define rs0 where "rs0 = rs[i := (rs ! i)\<lparr>visitCnt := v\<rparr>]"
    have u: "unvisit rs0 = unvisit rs" by (simp add: rs0_def unvisit_set)
    have v0: "visited v rs0 = insert i (visited v rs)" using i by (simp add: rs0_def visited_set)
    have wf: "nb_wf rs0" using unvisit_wf [OF u] Suc.prems(1) by simp
    have len: "length rs0 = length rs" by (simp add: rs0_def)
    have "i \<in> unvisited v rs" using False i by (simp add: unvisited_def visited_def)
    moreover have "unvisited v rs0 = unvisited v rs - {i}" using len v0 by (auto simp: unvisited_def)
    ultimately have "card (unvisited v rs0) < k"
      using Suc.prems(3) card_Diff1_less [of "unvisited v rs" i] by simp
    then obtain s' where s': "ofold (find_body g k v i) (neighbors (rs ! i)) (rs0, out @ [i]) = Some s'"
      "searched g v {j. (\<exists>s. (j, s) \<in> set (neighbors (rs ! i))) \<and> coplanar g (rs0 ! i) (rs0 ! j)} (rs0, out @ [i]) s'"
      using find_loop [OF Suc.IH wf, where i = i and ns = "neighbors (rs ! i)" and out = "out @ [i]"] i len
        unvisit_fields(1) [OF u i] by auto
    have e: "tile_edge g rs0 = tile_edge g rs" using unvisit_edge [OF u Suc.prems(1)] by blast
    have succ: "{j. (\<exists>s. (j, s) \<in> set (neighbors (rs ! i))) \<and> coplanar g (rs0 ! i) (rs0 ! j)} = {j. tile_edge g rs i j}"
      unfolding e [symmetric] tile_edge_def using unvisit_fields(1) [OF u i] i len by auto
    obtain rs' out' where p: "s' = (rs', out')" by (cases s')
    from s'(2) obtain new where a: "unvisit rs' = unvisit rs0" "{j. tile_edge g rs i j} \<subseteq> visited v rs'" "out' = (out @ [i]) @ new"
      "distinct new" "set new \<inter> visited v rs0 = {}" "visited v rs' = visited v rs0 \<union> set new"
      "\<forall>x \<in> set new. \<exists>a \<in> {j. tile_edge g rs i j}. (tile_edge g rs)\<^sup>*\<^sup>* a x"
      "\<forall>x \<in> set new. \<forall>y. tile_edge g rs x y \<longrightarrow> y \<in> visited v rs'"
      unfolding searched_def p prod.case succ e by blast
    have reach: "(tile_edge g rs)\<^sup>*\<^sup>* i x" if "x \<in> set (i # new)" for x
      using that a(7) by (auto intro: converse_rtranclp_into_rtranclp)
    have "i \<notin> visited v rs" using False by (simp add: visited_def)
    then have "searched g v {i} (rs, out) s'"
      unfolding searched_def p prod.case
      using a v0 u reach by (intro conjI exI [of _ "i # new"]) auto
    moreover have "FindConnected g (Suc k) v i (rs, out) = Some s'"
      using s'(1) i False by (simp add: FindConnected_Suc aget_def rs0_def del: FindConnected.simps)
    ultimately show ?thesis by blast
  qed
qed simp

text \<open>Visited tiles form a closed set between two searches, so a search finds everything
  reachable that was not visited before.\<close>

definition visit_closed :: "plane_constants \<Rightarrow> result list \<Rightarrow> bool" where
  "visit_closed g rs \<longleftrightarrow> (\<forall>x \<in> visited 1 rs. \<forall>y. tile_edge g rs x y \<longrightarrow> y \<in> visited 1 rs)"

lemma closed_reach: "(tile_edge g rs)\<^sup>*\<^sup>* x y \<Longrightarrow> visit_closed g rs \<Longrightarrow> x \<in> visited 1 rs \<Longrightarrow> y \<in> visited 1 rs"
  by (induction rule: rtranclp_induct) (auto simp: visit_closed_def)

text \<open>Each group is what is reachable from one of its tiles and not in an earlier group.\<close>

fun groups_ok :: "plane_constants \<Rightarrow> result list \<Rightarrow> nat set \<Rightarrow> nat list list \<Rightarrow> bool" where
  "groups_ok g rs V [] \<longleftrightarrow> True"
| "groups_ok g rs V (G # Gs) \<longleftrightarrow>
     distinct G \<and> (\<exists>i \<in> set G. set G = {x. (tile_edge g rs)\<^sup>*\<^sup>* i x} - V) \<and> groups_ok g rs (V \<union> set G) Gs"

lemma groups_ok_distinct: "groups_ok g rs V Gs \<Longrightarrow> distinct (concat Gs) \<and> set (concat Gs) \<inter> V = {}"
proof (induction Gs arbitrary: V)
  case (Cons G Gs)
  then have "set G \<inter> V = {}" "distinct G" by auto
  then show ?case using Cons.IH [of "V \<union> set G"] Cons.prems by auto
qed simp

lemma find_group:
  assumes "nb_wf rs" and i: "i < length rs" and "length rs < fuel" and cl: "visit_closed g rs" and nv: "visitCnt (rs ! i) \<noteq> 1"
  shows "\<exists>rs' G. FindConnected g fuel 1 i (rs, []) = Some (rs', G) \<and> unvisit rs' = unvisit rs \<and> visit_closed g rs' \<and>
    visited 1 rs' = visited 1 rs \<union> set G \<and> distinct G \<and> i \<in> set G \<and> set G = {x. (tile_edge g rs)\<^sup>*\<^sup>* i x} - visited 1 rs"
proof -
  have "card (unvisited 1 rs) \<le> card {..<length rs}" by (rule card_mono) (auto simp: unvisited_def)
  then have "card (unvisited 1 rs) < fuel" using assms(3) by simp
  then obtain rs' G where s: "FindConnected g fuel 1 i (rs, []) = Some (rs', G)" "searched g 1 {i} (rs, []) (rs', G)"
    using FindConnected_searched [OF assms(1) i, of 1 fuel g "[]"] by auto
  from s(2) have a: "unvisit rs' = unvisit rs" "i \<in> visited 1 rs'" "distinct G" "set G \<inter> visited 1 rs = {}"
      "visited 1 rs' = visited 1 rs \<union> set G" "\<forall>x \<in> set G. (tile_edge g rs)\<^sup>*\<^sup>* i x"
      "\<forall>x \<in> set G. \<forall>y. tile_edge g rs x y \<longrightarrow> y \<in> visited 1 rs'"
    unfolding searched_def prod.case by auto
  have e: "tile_edge g rs' = tile_edge g rs" using unvisit_edge [OF a(1) assms(1)] by blast
  have cl': "visit_closed g rs'" using cl a(5,7) by (auto simp: visit_closed_def e)
  have "i \<notin> visited 1 rs" using nv by (simp add: visited_def)
  then have "i \<in> set G" using a(2,5) by blast
  moreover have "set G = {x. (tile_edge g rs)\<^sup>*\<^sup>* i x} - visited 1 rs"
    using a(4,5,6) closed_reach [OF _ cl', of i, unfolded e] a(2) by blast
  ultimately show ?thesis using s(1) a cl' by blast
qed

lemma make_groups_ok:
  assumes "nb_wf rs" and "set is \<subseteq> {..<length rs}" and "length rs < fuel" and "visit_closed g rs"
  shows "\<exists>rs' Gs. make_groups g fuel is rs = Some (rs', Gs) \<and> unvisit rs' = unvisit rs \<and>
    groups_ok g rs (visited 1 rs) Gs \<and> visited 1 rs' = visited 1 rs \<union> set (concat Gs) \<and> set is \<subseteq> visited 1 rs'"
  using assms
proof (induction "is" arbitrary: rs)
  case (Cons i "is")
  have i: "i < length rs" using Cons.prems(2) by simp
  show ?case
  proof (cases "visitCnt (rs ! i) = 1")
    case True
    then have "i \<in> visited 1 rs" using i by (simp add: visited_def)
    then show ?thesis using Cons.IH [OF Cons.prems(1) _ Cons.prems(3,4)] Cons.prems(2) True i
      by (auto simp: aget_def)
  next
    case False
    from find_group [OF Cons.prems(1) i Cons.prems(3,4) False]
    obtain rs1 G where s: "FindConnected g fuel 1 i (rs, []) = Some (rs1, G)" "unvisit rs1 = unvisit rs" "visit_closed g rs1"
      "visited 1 rs1 = visited 1 rs \<union> set G" "distinct G" "i \<in> set G" "set G = {x. (tile_edge g rs)\<^sup>*\<^sup>* i x} - visited 1 rs"
      by blast
    have e: "tile_edge g rs1 = tile_edge g rs" using unvisit_edge [OF s(2) Cons.prems(1)] by blast
    have eg: "groups_ok g rs1 V Gs = groups_ok g rs V Gs" for V Gs by (induction Gs arbitrary: V) (simp_all add: e)
    have "length rs1 = length rs" "nb_wf rs1" using unvisit_length [OF s(2)] unvisit_wf [OF s(2)] Cons.prems(1) by simp_all
    then obtain rs' Gs where r: "make_groups g fuel is rs1 = Some (rs', Gs)" "unvisit rs' = unvisit rs1"
      "groups_ok g rs1 (visited 1 rs1) Gs" "visited 1 rs' = visited 1 rs1 \<union> set (concat Gs)" "set is \<subseteq> visited 1 rs'"
      using Cons.IH [of rs1] Cons.prems(2,3) s(3) by auto
    have "make_groups g fuel (i # is) rs = Some (rs', G # Gs)" using False i s(1) r(1) by (simp add: aget_def)
    moreover have "groups_ok g rs (visited 1 rs) (G # Gs)" using r(3) s(4,5,6,7) eg by auto
    moreover have "visited 1 rs' = visited 1 rs \<union> set (concat (G # Gs))" using r(4) s(4) by auto
    moreover have "set (i # is) \<subseteq> visited 1 rs'" using r(4,5) s(4,6) by auto
    ultimately show ?thesis using r(2) s(2) by (intro exI [of _ rs'] exI [of _ "G # Gs"]) simp
  qed
qed simp

lemma visited_range: "visited v rs \<subseteq> {..<length rs}"
  by (auto simp: visited_def)

text \<open>From unvisited tiles the groups partition all of them.\<close>

lemma make_groups_partition:
  assumes "nb_wf rs" and "\<forall>t \<in> set rs. visitCnt t = 0"
  shows "\<exists>rs' Gs. make_groups g (Suc (length rs)) [0..<length rs] rs = Some (rs', Gs) \<and> unvisit rs' = unvisit rs \<and>
    groups_ok g rs {} Gs \<and> distinct (concat Gs) \<and> set (concat Gs) = {..<length rs}"
proof -
  have v: "visited 1 rs = {}" using assms(2) by (auto simp: visited_def)
  then have "visit_closed g rs" by (simp add: visit_closed_def)
  then obtain rs' Gs where s: "make_groups g (Suc (length rs)) [0..<length rs] rs = Some (rs', Gs)" "unvisit rs' = unvisit rs"
      "groups_ok g rs {} Gs" "visited 1 rs' = set (concat Gs)" "{..<length rs} \<subseteq> visited 1 rs'"
    using make_groups_ok [OF assms(1), of "[0..<length rs]" "Suc (length rs)" g] v by (auto simp: lessThan_atLeast0)
  have "set (concat Gs) = {..<length rs}"
    using s(4,5) visited_range [of 1 rs'] unvisit_length [OF s(2)] by simp
  then show ?thesis using s(1,2,3) groups_ok_distinct [OF s(3)] by blast
qed

subsection \<open>Properties\<close>

text \<open>C34: On a non-empty image the recursive split ends (a fuel above width plus height is
  enough); every result appended lies inside the rectangle, has four valid corners, no valid
  point of it is farther than the limit from its plane, and its average distance is under the
  threshold.\<close>

theorem process_total:
  assumes "buffer_ok b" and "rect_ok r" and "nat (rw r + rh r) < fuel"
  shows "\<exists>c new. Process g b fuel r quads = Some (c, quads @ new) \<and>
    (\<forall>t \<in> set new. inside (res_r t) r \<and> planar_tile g b t)"
  using Process_appends [OF assms, of g quads] by (auto simp: appends_def)

lemma process_total_witness:
  "\<exists>c new. Process default_constants \<lparr>depthPths = replicate 4 (V4 fone fone fone fzero), b_width = 2, b_height = 2\<rparr> 9 (Rect 0 0 2 2) [] =
    Some (c, new) \<and> filter (\<lambda>t. \<not> (inside (res_r t) (Rect 0 0 2 2) \<and>
      planar_tile default_constants \<lparr>depthPths = replicate 4 (V4 fone fone fone fzero), b_width = 2, b_height = 2\<rparr> t)) new = []"
  using process_total [of "\<lparr>depthPths = replicate 4 (V4 fone fone fone fzero), b_width = 2, b_height = 2\<rparr>" "Rect 0 0 2 2" 9 default_constants "[]"]
  by (simp add: buffer_ok_def rect_ok_def filter_empty_conv del: Process.simps)

text \<open>C9: The neighbour search is symmetric and sound: if a tile has a neighbour on a side, the
  neighbour has the tile on the opposite side, the two edges are on one line and their ranges
  along it meet.\<close>

theorem neighbors_touch:
  assumes "std_sort srt" and "\<forall>t \<in> set rs. fresh_tile t" and "i < length rs"
    and "(j, s) \<in> set (neighbors (PopulateNeighbors srt rs ! i))"
  shows "j < length rs \<and> (i, opposite s) \<in> set (neighbors (PopulateNeighbors srt rs ! j)) \<and>
    beside (res_r (rs ! i)) s (res_r (rs ! j))"
proof -
  define rs' where "rs' = PopulateNeighbors srt rs"
  have p: "nb_ok rs'" "unlinked rs' = unlinked rs" using PopulateNeighbors_ok [OF assms(1,2)] by (simp_all add: rs'_def)
  have l: "length rs' = length rs" by (rule unlinked_length [OF p(2)])
  have "j < length rs \<and> (i, opposite s) \<in> set (neighbors (rs' ! j)) \<and> beside (res_r (rs' ! i)) s (res_r (rs' ! j))"
    using p(1) assms(3,4) l by (auto simp: nb_ok_def rs'_def [symmetric])
  then show ?thesis using unlinked_rect [OF p(2)] assms(3) by (auto simp: rs'_def)
qed

definition test_tile :: "rect \<Rightarrow> result" where
  "test_tile r = new_result r (replicate 4 (V4 fzero fzero fone fzero)) fzero (V3 fzero fzero fone) (V4 fzero fzero fone fzero)"

lemma test_neighbors:
  "neighbors (PopulateNeighbors isort [test_tile (Rect 0 0 2 2), test_tile (Rect 2 0 2 2)] ! 0) = [(1, Left)]"
  by code_simp

lemma neighbors_touch_witness:
  "(0, Right) \<in> set (neighbors (PopulateNeighbors isort [test_tile (Rect 0 0 2 2), test_tile (Rect 2 0 2 2)] ! 1))"
  using neighbors_touch [OF isort.std_sort_axioms, of "[test_tile (Rect 0 0 2 2), test_tile (Rect 2 0 2 2)]" 0 1 Left] test_neighbors
  by (simp add: fresh_tile_def rect_ok_def test_tile_def new_result_def opposite_def)

text \<open>C19: From unvisited tiles, grouping puts every tile into exactly one group, and each group is
  what can be reached from one of its tiles over coplanar neighbours and is in no earlier group.\<close>

theorem connected_groups:
  assumes "nb_wf rs" and "\<forall>t \<in> set rs. visitCnt t = 0"
  shows "\<exists>rs' Gs. make_groups g (Suc (length rs)) [0..<length rs] rs = Some (rs', Gs) \<and> unvisit rs' = unvisit rs \<and>
    groups_ok g rs {} Gs \<and> distinct (concat Gs) \<and> set (concat Gs) = {..<length rs}"
  by (rule make_groups_partition [OF assms])

lemma connected_groups_witness:
  "\<exists>rs' Gs. make_groups default_constants 3 [0, 1] [test_tile (Rect 0 0 2 2), test_tile (Rect 2 0 2 2)] = Some (rs', Gs) \<and>
    distinct (concat Gs) \<and> set (concat Gs) = {0, 1}"
  using connected_groups [of "[test_tile (Rect 0 0 2 2), test_tile (Rect 2 0 2 2)]" default_constants]
  by (auto simp: nb_wf_def test_tile_def new_result_def numeral_3_eq_3 lessThan_Suc upt_rec insert_commute less_Suc_eq)

lemma unlinked_fields:
  assumes "unlinked rs' = unlinked rs" and "i < length rs"
  shows "visitCnt (rs' ! i) = visitCnt (rs ! i)" "res_q (rs' ! i) = res_q (rs ! i)"
  using unlinked_nth [OF assms] by (cases "rs ! i"; cases "rs' ! i"; simp)+

lemma tile_mesh_length: "length (tile_vertices t) = 6" "length (tile_texcoords t) = 6"
  by (simp_all add: tile_vertices_def tile_texcoords_def tri_indices_def)

lemma tile_mesh_points: "length (res_q t) = 4 \<Longrightarrow> set (tile_vertices t) \<subseteq> v3_of ` set (res_q t)"
  by (auto simp: tile_vertices_def tri_indices_def)

lemma length_concat_const: "(\<And>x. length (f x) = n) \<Longrightarrow> length (concat (map f xs)) = n * length xs"
  by (induction xs) simp_all

definition kept_tiles :: "plane_constants \<Rightarrow> int \<Rightarrow> int \<Rightarrow> result list \<Rightarrow> result list" where
  "kept_tiles g w h tiles = filter (\<lambda>t. \<not> flt (g_maxCoverage g) (coverage (fcvt F32 (int_diag w h)) t)) tiles"

text \<open>C35: \<open>DepthMakePlanes\<close> returns on every non-empty image: two triangles for every tile the
  split produced and the coverage test kept, all corners being valid points of the image.\<close>

theorem depth_make_planes:
  assumes srt: "std_sort srt" and b: "buffer_ok \<lparr>depthPths = vals, b_width = w, b_height = h\<rparr>" and k: "nat (w + h) < fuel"
  shows "\<exists>c tiles vs ts. Process g \<lparr>depthPths = vals, b_width = w, b_height = h\<rparr> fuel (Rect 0 0 w h) [] = Some (c, tiles) \<and>
    DepthMakePlanes g srt fuel vals w h = Some (vs, ts) \<and> length ts = length vs \<and>
    length vs = 6 * length (kept_tiles g w h tiles) \<and> set vs \<subseteq> v3_of ` {p \<in> set vals. pt_IsValid p}"
proof -
  let ?b = "\<lparr>depthPths = vals, b_width = w, b_height = h\<rparr>"
  have "rect_ok (Rect 0 0 w h)" using b by (simp add: buffer_ok_def rect_ok_def)
  then obtain c tiles where p: "Process g ?b fuel (Rect 0 0 w h) [] = Some (c, tiles)"
    and t: "\<forall>t \<in> set tiles. planar_tile g ?b t \<and> fresh_tile t"
    using Process_appends [OF b, of "Rect 0 0 w h" fuel g "[]"] k by (auto simp: appends_def)
  define ks where "ks = kept_tiles g w h tiles"
  have ks: "\<forall>t \<in> set ks. planar_tile g ?b t \<and> fresh_tile t" using t by (simp add: ks_def kept_tiles_def)
  define ns where "ns = PopulateNeighbors srt ks"
  have n: "nb_ok ns" "unlinked ns = unlinked ks"
    using PopulateNeighbors_ok [OF srt, of ks] ks by (simp_all add: ns_def)
  have len: "length ns = length ks" by (rule unlinked_length [OF n(2)])
  have "nb_wf ns" using n(1) by (auto simp: nb_ok_def nb_wf_def)
  moreover have "\<forall>t \<in> set ns. visitCnt t = 0"
  proof -
    have "visitCnt (ks ! i) = 0" if "i < length ks" for i using ks nth_mem [OF that] by (auto simp: fresh_tile_def)
    then show ?thesis using unlinked_fields(1) [OF n(2)] len by (auto simp: in_set_conv_nth)
  qed
  ultimately obtain rs' Gs where m: "make_groups g (Suc (length ns)) [0..<length ns] ns = Some (rs', Gs)" "unvisit rs' = unvisit ns"
      "distinct (concat Gs)" "set (concat Gs) = {..<length ns}"
    using make_groups_partition by blast
  have cnt: "length (concat Gs) = length ks"
    using distinct_card [OF m(3)] m(4) len by simp
  define vs where "vs = concat (map (\<lambda>i. tile_vertices (rs' ! i)) (concat Gs))"
  define ts where "ts = concat (map (\<lambda>i. tile_texcoords (rs' ! i)) (concat Gs))"
  have d: "DepthMakePlanes g srt fuel vals w h = Some (vs, ts)"
    using p m(1) by (simp add: DepthMakePlanes_def ks_def [symmetric] kept_tiles_def [symmetric] ns_def [symmetric] vs_def ts_def Let_def)
  have "set (tile_vertices (rs' ! i)) \<subseteq> v3_of ` {p \<in> set vals. pt_IsValid p}" if "i < length ks" for i
  proof -
    have "res_q (rs' ! i) = res_q (ks ! i)"
      using unvisit_fields(4) [OF m(2)] unlinked_fields(2) [OF n(2)] that len by simp
    moreover have "planar_tile g ?b (ks ! i)" using ks that by simp
    ultimately show ?thesis using tile_mesh_points [of "rs' ! i"] by (fastforce simp: planar_tile_def)
  qed
  then have "set vs \<subseteq> v3_of ` {p \<in> set vals. pt_IsValid p}"
    using m(4) len unfolding vs_def by (simp only: set_concat set_map) blast
  moreover have "length vs = 6 * length ks" "length ts = length vs"
    unfolding vs_def ts_def by (simp_all only: length_concat_const [of _ 6, OF tile_mesh_length(1)]
        length_concat_const [of _ 6, OF tile_mesh_length(2)] cnt)
  ultimately show ?thesis using p d unfolding ks_def by blast
qed

lemma depth_make_planes_witness:
  "\<exists>vs ts. DepthMakePlanes default_constants isort 9 (replicate 4 (V4 fone fone fone fzero)) 2 2 = Some (vs, ts) \<and>
    set vs \<subseteq> {v3_of (V4 fone fone fone fzero)} \<and> length ts = length vs"
  using depth_make_planes [OF isort.std_sort_axioms, of "replicate 4 (V4 fone fone fone fzero)" 2 2 9 default_constants]
  by (auto simp: buffer_ok_def)

text \<open>At equal coordinates starts sort before ends, so the end of a tile clears the tile that
  starts where it ends: of two tiles stacked in a column, the lower one is not found by the tile
  beside it although the two share a side.\<close>

lemma stacked_tile_missed:
  "neighbors (PopulateNeighbors isort [test_tile (Rect 2 0 2 2), test_tile (Rect 2 2 2 2), test_tile (Rect 0 3 2 1)] ! 2) = [] \<and>
    rect_Right (Rect 0 3 2 1) = rx (Rect 2 2 2 2) \<and> ry (Rect 2 2 2 2) < ry (Rect 0 3 2 1) \<and>
    rect_Bottom (Rect 0 3 2 1) = rect_Bottom (Rect 2 2 2 2)"
  by code_simp

end
