(* ===== verification/Recorder.thy ===== *)
theory Recorder
  imports BlockFile DepthPts
begin

text \<open>
  The recorder, \<open>src/core/Record.cpp\<close>: callers queue depth and face frames, a background thread
  takes the queues under the same lock and streams every depth frame as planes that hold the
  encoded depth above the video image scaled to the depth size. The planes
  and the time stamp given to the writer of the stream (\<open>Codec\<close>) are recorded in order.
\<close>

subsection \<open>A frame as planes\<close>

text \<open>The header in front of the video image: four 32-bit integers.\<close>

definition read_int :: "u8 list \<Rightarrow> nat \<Rightarrow> int option" where
  "read_int bs off = do { b \<leftarrow> ablock bs off 4; Some (sint (word_of_nat (of_le b) :: u32)) }"

definition read_ycrcb :: "u8 list \<Rightarrow> ycrcb_data option" where
  "read_ycrcb bs = do {
     a \<leftarrow> read_int bs 0; b \<leftarrow> read_int bs 4; c \<leftarrow> read_int bs 8; d \<leftarrow> read_int bs 12;
     Some \<lparr>yOffset = a, yRowBytes = b, cbCrOffset = c, cbCrRowBytes = d\<rparr> }"

text \<open>The luma rows, nearest neighbour: positions are 32-bit unsigned, then read as \<open>int\<close>. Offsets into the
  image are products of \<open>int\<close>s in the code; they are not bounded here, which makes a difference for images
  of more than \<open>2 ^ 31\<close> bytes only, here and for the chroma rows.\<close>

definition scale_pos :: "nat \<Rightarrow> u32 \<Rightarrow> u32 \<Rightarrow> int" where
  "scale_pos y src dst = sint ((word_of_nat y * src) div dst)"

definition sample_luma :: "depth_props \<Rightarrow> ycrcb_data \<Rightarrow> u8 list \<Rightarrow> nat \<Rightarrow> u8 list \<Rightarrow> u8 list option" where
  "sample_luma p hdr vid ySize yData =
     ofold (\<lambda>(y, x) yData. do {
       b \<leftarrow> iget vid (16 + scale_pos y (vidHeight p) (depthHeight p) * yRowBytes hdr + scale_pos x (vidWidth p) (depthWidth p));
       aset yData (ySize + y * unat (depthWidth p) + x) b })
     (pairs (unat (depthHeight p)) (unat (depthWidth p))) yData"

text \<open>The chroma rows: interleaved pairs in the source, two planes in the result.\<close>

definition sample_chroma :: "depth_props \<Rightarrow> ycrcb_data \<Rightarrow> u8 list \<Rightarrow> nat \<Rightarrow> u8 list \<times> u8 list \<Rightarrow> (u8 list \<times> u8 list) option" where
  "sample_chroma p hdr vid uvSize uv =
     (let dstlineIn = int (unat (vidWidth p div 2)); uvheightIn = int (unat (vidHeight p div 2));
          dstline = unat (depthWidth p div 2); uvheight = unat (depthHeight p div 2)
      in ofold (\<lambda>(y, idx) (uData, vData).
           let srcY = (int y * uvheightIn) div int uvheight; idxSrc = (int idx * dstlineIn) div int dstline;
               src = 16 + cbCrOffset hdr + cbCrRowBytes hdr * srcY + idxSrc * 2
           in do {
             u \<leftarrow> iget vid src; v \<leftarrow> iget vid (src + 1);
             uData \<leftarrow> aset uData (uvSize + y * dstline + idx) u;
             vData \<leftarrow> aset vData (uvSize + y * dstline + idx) v;
             Some (uData, vData) })
         (pairs uvheight dstline) uv)"

definition f10 :: fp where
  "f10 = f_of_int F32 10"

definition stream_planes :: "depth_data \<Rightarrow> yuv_planes option" where
  "stream_planes frame =
     (let p = props frame; w = unat (depthWidth p); h = unat (depthHeight p);
          ySize = unat (depthWidth p * depthHeight p); uvSize = unat (depthWidth p * depthHeight p) div 4
      in do {
        (_, planes) \<leftarrow> ConvertDepthToYUV (drop 16 (depthData frame)) w h f10
          \<lparr>ydata = replicate (ySize * 2) 0, udata = replicate (uvSize * 2) 0, vdata = replicate (uvSize * 2) 0\<rparr>;
        hdr \<leftarrow> read_ycrcb (vidData frame);
        let hdr = normalise_yuv hdr
        in do {
          yd \<leftarrow> sample_luma p hdr (vidData frame) ySize (ydata planes);
          (ud, vd) \<leftarrow> sample_chroma p hdr (vidData frame) uvSize (udata planes, vdata planes);
          Some \<lparr>ydata = yd, udata = ud, vdata = vd\<rparr> } })"

subsection \<open>The recorder\<close>

datatype bg_place = LoopHead | Waiting | Done

record recorder =
  m_depthVidStream :: "(nat \<times> nat) option"
  m_depthDataQueue :: "depth_data list"
  m_faceDataQueue :: "face_frame list"
  m_fs :: "u8 list option"
  m_depthVals :: "fp list"
  m_hasHeaderDepthVals :: bool
  m_outputPath :: string
  m_terminate :: bool
  m_hasFrames :: bool
  m_writeFaceHeader :: bool
  g_framesPushed :: nat
  g_framesWritten :: nat
  streamed :: "(yuv_planes \<times> fp) list"
  bg :: bg_place

text \<open>The constructor does not set \<open>m_hasFrames\<close> and \<open>m_depthVals\<close>: \<open>junk\<close> and \<open>vals\<close>.\<close>

definition Recorder_new :: "bool \<Rightarrow> fp list \<Rightarrow> recorder" where
  "Recorder_new junk vals = \<lparr>m_depthVidStream = None, m_depthDataQueue = [], m_faceDataQueue = [], m_fs = None, m_depthVals = vals,
     m_hasHeaderDepthVals = False, m_outputPath = [], m_terminate = False, m_hasFrames = junk, m_writeFaceHeader = False,
     g_framesPushed = 0, g_framesWritten = 0, streamed = [], bg = LoopHead\<rparr>"

definition StartRecording :: "string \<Rightarrow> recorder \<Rightarrow> recorder" where
  "StartRecording path r = r\<lparr>m_outputPath := path\<rparr>"

definition WriteFrame :: "depth_data \<Rightarrow> recorder \<Rightarrow> recorder" where
  "WriteFrame d r = r\<lparr>m_depthDataQueue := m_depthDataQueue r @ [d], m_hasFrames := True, g_framesPushed := Suc (g_framesPushed r)\<rparr>"

text \<open>The stop frame has the time stamp -1; its other fields are default values, \<open>p\<close> with no pixels.\<close>

definition stop_frame :: "depth_props \<Rightarrow> mat44 \<Rightarrow> depth_data" where
  "stop_frame p m = \<lparr>props = p\<lparr>timestamp := f_of_int F64 (-1)\<rparr>, vidData = [], depthData = [], dpts = [], alignMtx = m\<rparr>"

definition StopRecording :: "depth_props \<Rightarrow> mat44 \<Rightarrow> recorder \<Rightarrow> recorder" where
  "StopRecording p m r = r\<lparr>m_depthDataQueue := m_depthDataQueue r @ [stop_frame p m], m_hasFrames := True\<rparr>"

definition WriteFaceFrame :: "face_props \<Rightarrow> fp list \<Rightarrow> u16 list \<Rightarrow> recorder \<Rightarrow> recorder" where
  "WriteFaceFrame p vs is r = r\<lparr>m_faceDataQueue := m_faceDataQueue r @ [\<lparr>ff_props = p, ff_vertices = vs, ff_indices = is\<rparr>],
     m_hasFrames := True, g_framesPushed := Suc (g_framesPushed r)\<rparr>"

definition StreamFrameBkg :: "depth_data \<Rightarrow> recorder \<Rightarrow> recorder option" where
  "StreamFrameBkg frame r = do {
     planes \<leftarrow> stream_planes frame;
     let size = (unat (depthWidth (props frame)), unat (depthHeight (props frame) * 2))
     in Some (r\<lparr>m_depthVidStream := Some (case m_depthVidStream r of None \<Rightarrow> size | Some s \<Rightarrow> s),
          streamed := streamed r @ [(planes, timestamp (props frame))]\<rparr>) }"

text \<open>One depth frame of the background thread; a negative time stamp only calls the empty
  \<open>FinishFFmpeg\<close>.\<close>

definition bg_depth :: "depth_data \<Rightarrow> recorder \<Rightarrow> recorder option" where
  "bg_depth frame r = do {
     r \<leftarrow> (if m_hasHeaderDepthVals r then Some r
          else do { vals \<leftarrow> ablock (depthData frame) 0 16; Some (r\<lparr>m_depthVals := vals, m_hasHeaderDepthVals := True\<rparr>) });
     if flt (timestamp (props frame)) fzero then Some r
     else do { r \<leftarrow> StreamFrameBkg frame r; Some (r\<lparr>g_framesWritten := Suc (g_framesWritten r)\<rparr>) } }"

definition rec_write :: "u8 list \<Rightarrow> recorder \<Rightarrow> recorder" where
  "rec_write data r = r\<lparr>m_fs := WriteFileData data (m_fs r)\<rparr>"

definition bg_face :: "face_frame list \<Rightarrow> recorder \<Rightarrow> recorder" where
  "bg_face fs r =
     (let r = (if m_hasHeaderDepthVals r \<and> \<not> m_writeFaceHeader r \<and> fs \<noteq> []
               then (rec_write (i16_array (ff_indices (hd fs))) (rec_write (f32_array (m_depthVals r)) (rec_write (le_bytes 8 1234) r)))
                 \<lparr>m_writeFaceHeader := True\<rparr>
               else r)
      in if m_writeFaceHeader r
         then fold (\<lambda>fd r. rec_write (f32_array (ff_vertices fd)) (rec_write (face_props_bytes (ff_props fd)) (rec_write (le_bytes 8 5678) r))) fs r
         else r)"

definition streammode :: bool where
  "streammode = True"

text \<open>The body of the loop after the wait, with the lock held throughout.\<close>

definition background_pass :: "recorder \<Rightarrow> recorder option" where
  "background_pass r =
     (let depthFrames = m_depthDataQueue r; faceFrames = m_faceDataQueue r;
          r = r\<lparr>m_depthDataQueue := [], m_faceDataQueue := []\<rparr>
      in do {
        r \<leftarrow> ofold bg_depth depthFrames r;
        Some (if streammode then r else bg_face faceFrames r) })"

subsection \<open>The threads\<close>

datatype rec_event = EvStart string | EvFrame depth_data | EvFace face_props "fp list" "u16 list"
  | EvStop depth_props mat44 | EvLoop | EvPass | EvDestroy

text \<open>The lock makes every call and every pass of the background thread one step. The wait lets
  the thread through when \<open>m_hasFrames\<close> holds, which nothing resets. The destructor sets the
  flag and joins.\<close>

inductive rec_step :: "recorder \<Rightarrow> rec_event \<Rightarrow> recorder \<Rightarrow> bool" where
  start: "\<not> m_terminate r \<Longrightarrow> rec_step r (EvStart path) (StartRecording path r)"
| frame: "\<not> m_terminate r \<Longrightarrow> rec_step r (EvFrame d) (WriteFrame d r)"
| face: "\<not> m_terminate r \<Longrightarrow> rec_step r (EvFace p vs is) (WriteFaceFrame p vs is r)"
| stop: "\<not> m_terminate r \<Longrightarrow> rec_step r (EvStop p m) (StopRecording p m r)"
| loop: "bg r = LoopHead \<Longrightarrow> rec_step r EvLoop (r\<lparr>bg := (if m_terminate r then Done else Waiting)\<rparr>)"
| pass: "bg r = Waiting \<Longrightarrow> m_hasFrames r \<Longrightarrow> background_pass r = Some r' \<Longrightarrow> rec_step r EvPass (r'\<lparr>bg := LoopHead\<rparr>)"
| destroy: "\<not> m_terminate r \<Longrightarrow> rec_step r EvDestroy (r\<lparr>m_terminate := True\<rparr>)"

inductive rec_run :: "recorder \<Rightarrow> rec_event list \<Rightarrow> recorder \<Rightarrow> bool" where
  rec_refl: "rec_run r [] r"
| rec_snoc: "rec_run r es r1 \<Longrightarrow> rec_step r1 e r2 \<Longrightarrow> rec_run r (es @ [e]) r2"

inductive_cases rec_passE: "rec_step r EvPass r'"
inductive_cases rec_loopE: "rec_step r EvLoop r'"
inductive_simps rec_run_nil: "rec_run r [] r'"


subsection \<open>Frames are streamed in order\<close>

fun frames_of :: "rec_event \<Rightarrow> depth_data list" where
  "frames_of (EvFrame d) = [d]"
| "frames_of (EvStop p m) = [stop_frame p m]"
| "frames_of _ = []"

definition streams :: "depth_data list \<Rightarrow> (yuv_planes \<times> fp) list \<Rightarrow> bool" where
  "streams ds ss \<longleftrightarrow> list_all2 (\<lambda>d s. stream_planes d = Some (fst s) \<and> snd s = timestamp (props d))
     (filter (\<lambda>d. \<not> flt (timestamp (props d)) fzero) ds) ss"

lemma streams_append: "streams ds ss \<Longrightarrow> streams ds' ss' \<Longrightarrow> streams (ds @ ds') (ss @ ss')"
  by (simp add: streams_def list_all2_appendI)

lemma bg_depth_streams:
  assumes "bg_depth d r = Some r'"
  shows "\<exists>ss. streamed r' = streamed r @ ss \<and> streams [d] ss \<and> g_framesWritten r' = g_framesWritten r + length ss \<and>
    m_depthDataQueue r' = m_depthDataQueue r \<and> m_terminate r' = m_terminate r"
proof -
  obtain r1 where a: "(if m_hasHeaderDepthVals r then Some r
      else do { vals \<leftarrow> ablock (depthData d) 0 16; Some (r\<lparr>m_depthVals := vals, m_hasHeaderDepthVals := True\<rparr>) }) = Some r1"
    and d: "(if flt (timestamp (props d)) fzero then Some r1
      else do { r \<leftarrow> StreamFrameBkg d r1; Some (r\<lparr>g_framesWritten := Suc (g_framesWritten r)\<rparr>) }) = Some r'"
    using assms unfolding bg_depth_def bind_eq_Some_conv by (elim exE conjE) (rule that)
  have r1: "streamed r1 = streamed r" "g_framesWritten r1 = g_framesWritten r" "m_depthDataQueue r1 = m_depthDataQueue r"
      "m_terminate r1 = m_terminate r"
    using a by (auto simp: bind_eq_Some_conv split: if_split_asm)
  show ?thesis
  proof (cases "flt (timestamp (props d)) fzero")
    case True
    then have "r' = r1" using d by simp
    then show ?thesis using r1 True by (simp add: streams_def)
  next
    case False
    then obtain r2 where r2: "StreamFrameBkg d r1 = Some r2" "r' = r2\<lparr>g_framesWritten := Suc (g_framesWritten r2)\<rparr>"
      using d by (auto simp: bind_eq_Some_conv)
    obtain planes where "stream_planes d = Some planes" "streamed r2 = streamed r1 @ [(planes, timestamp (props d))]"
      "g_framesWritten r2 = g_framesWritten r1" "m_depthDataQueue r2 = m_depthDataQueue r1" "m_terminate r2 = m_terminate r1"
      using r2(1) by (auto simp: StreamFrameBkg_def bind_eq_Some_conv Let_def)
    then show ?thesis using r1 False unfolding r2(2)
      by (intro exI [of _ "[(planes, timestamp (props d))]"]) (simp add: streams_def)
  qed
qed

lemma bg_depths_stream:
  "ofold bg_depth ds r = Some r' \<Longrightarrow> \<exists>ss. streamed r' = streamed r @ ss \<and> streams ds ss \<and>
    g_framesWritten r' = g_framesWritten r + length ss \<and> m_depthDataQueue r' = m_depthDataQueue r \<and> m_terminate r' = m_terminate r"
proof (induction ds arbitrary: r)
  case Nil
  then show ?case by (simp add: streams_def)
next
  case (Cons d ds)
  then obtain r1 where r1: "bg_depth d r = Some r1" "ofold bg_depth ds r1 = Some r'" by (auto simp: bind_eq_Some_conv)
  obtain ss1 where 1: "streamed r1 = streamed r @ ss1" "streams [d] ss1" "g_framesWritten r1 = g_framesWritten r + length ss1"
    "m_depthDataQueue r1 = m_depthDataQueue r" "m_terminate r1 = m_terminate r" using bg_depth_streams [OF r1(1)] by blast
  obtain ss2 where 2: "streamed r' = streamed r1 @ ss2" "streams ds ss2" "g_framesWritten r' = g_framesWritten r1 + length ss2"
    "m_depthDataQueue r' = m_depthDataQueue r1" "m_terminate r' = m_terminate r1" using Cons.IH [OF r1(2)] by blast
  have "streams (d # ds) (ss1 @ ss2)" using streams_append [OF 1(2) 2(2)] by simp
  then show ?case using 1 2 by (intro exI [of _ "ss1 @ ss2"]) simp
qed

definition fifo :: "depth_data list \<Rightarrow> recorder \<Rightarrow> bool" where
  "fifo ds r \<longleftrightarrow> (\<exists>taken. ds = taken @ m_depthDataQueue r \<and> streams taken (streamed r) \<and> g_framesWritten r = length (streamed r))"

lemma pass_fifo:
  assumes "fifo ds r" and "background_pass r = Some r'"
  shows "fifo ds r' \<and> m_depthDataQueue r' = []"
proof -
  obtain taken where t: "ds = taken @ m_depthDataQueue r" "streams taken (streamed r)" "g_framesWritten r = length (streamed r)"
    using assms(1) by (auto simp: fifo_def)
  have o: "ofold bg_depth (m_depthDataQueue r) (r\<lparr>m_depthDataQueue := [], m_faceDataQueue := []\<rparr>) = Some r'"
    using assms(2) by (auto simp: background_pass_def streammode_def Let_def bind_eq_Some_conv)
  obtain ss where "streamed r' = streamed r @ ss" "streams (m_depthDataQueue r) ss"
      "g_framesWritten r' = g_framesWritten r + length ss" "m_depthDataQueue r' = []"
    using bg_depths_stream [OF o] by auto
  then show ?thesis using t streams_append [OF t(2)] by (auto simp: fifo_def)
qed

lemma step_fifo: "rec_step r e r' \<Longrightarrow> fifo ds r \<Longrightarrow> fifo (ds @ frames_of e) r'"
proof (induction rule: rec_step.induct)
  case (pass r r')
  then show ?case using pass_fifo [of ds r r'] by (auto simp: fifo_def)
qed (auto simp: fifo_def StartRecording_def WriteFrame_def WriteFaceFrame_def StopRecording_def)

text \<open>C14: However calls and background passes interleave, the frames handed to the stream encoder
  are the first frames queued, in the order queued, stop frames left out and each as its own
  planes with its own time stamp; the rest is still in the queue, and the counter of written
  frames is exact.\<close>

theorem recorder_fifo:
  assumes "rec_run (Recorder_new junk vals) es r"
  shows "\<exists>taken. concat (map frames_of es) = taken @ m_depthDataQueue r \<and> streams taken (streamed r) \<and>
    g_framesWritten r = length (streamed r)"
proof -
  have "fifo (concat (map frames_of es)) r"
    using assms
  proof (induction "Recorder_new junk vals" es r rule: rec_run.induct)
    case rec_refl
    show ?case by (simp add: fifo_def Recorder_new_def streams_def)
  next
    case (rec_snoc es r1 e r2)
    then show ?case using step_fifo by fastforce
  qed
  then show ?thesis by (simp add: fifo_def)
qed

definition test_props :: depth_props where
  "test_props = \<lparr>timestamp = fzero, vidWidth = 0, vidHeight = 0, vidMode = 0, depthWidth = 0, depthHeight = 0, depthMode = 0\<rparr>"

lemma recorder_fifo_witness:
  "\<exists>r. rec_run (Recorder_new False (replicate 16 fzero)) [EvStop test_props identity_matrix] r \<and>
    m_depthDataQueue r = [stop_frame test_props identity_matrix]"
proof -
  let ?r = "StopRecording test_props identity_matrix (Recorder_new False (replicate 16 fzero))"
  have "rec_run (Recorder_new False (replicate 16 fzero)) ([] @ [EvStop test_props identity_matrix]) ?r"
    by (intro rec_snoc [OF rec_refl] rec_step.stop) (simp add: Recorder_new_def)
  then have "rec_run (Recorder_new False (replicate 16 fzero)) [EvStop test_props identity_matrix] ?r" by simp
  then show ?thesis using recorder_fifo by (intro exI [of _ ?r]) (simp add: StopRecording_def Recorder_new_def)
qed

subsection \<open>Stopping\<close>

fun queues_frames :: "rec_event \<Rightarrow> bool" where
  "queues_frames (EvFrame d) = True"
| "queues_frames (EvFace p vs is) = True"
| "queues_frames (EvStop p m) = True"
| "queues_frames _ = False"

lemma run_no_frames:
  "rec_run (Recorder_new False vals) es r \<Longrightarrow> list_all (\<lambda>e. \<not> queues_frames e) es \<Longrightarrow> \<not> m_hasFrames r"
proof (induction "Recorder_new False vals" es r rule: rec_run.induct)
  case rec_refl
  show ?case by (simp add: Recorder_new_def)
next
  case (rec_snoc es r1 e r2)
  then have "\<not> m_hasFrames r1" "\<not> queues_frames e" by simp_all
  with rec_snoc.hyps(3) show ?case by (cases rule: rec_step.cases) (simp_all add: StartRecording_def)
qed

text \<open>C37: When no frame was ever queued and the background thread is already waiting, the
  destructor never returns: it has set the flag, and no step of any thread is left.\<close>

theorem destructor_deadlock:
  assumes "rec_run (Recorder_new False vals) es r" and "list_all (\<lambda>e. \<not> queues_frames e) es"
    and "bg r = Waiting" and "m_terminate r"
  shows "\<not> rec_step r e r'"
  using run_no_frames [OF assms(1,2)] assms(3,4) by (auto elim: rec_step.cases)

lemma destructor_deadlock_witness:
  "\<exists>r. rec_run (Recorder_new False (replicate 16 fzero)) [EvLoop, EvDestroy] r \<and> \<not> rec_step r EvLoop r \<and> bg r = Waiting"
proof -
  let ?r0 = "Recorder_new False (replicate 16 fzero)"
  let ?r1 = "?r0\<lparr>bg := (if m_terminate ?r0 then Done else Waiting)\<rparr>"
  let ?r2 = "?r1\<lparr>m_terminate := True\<rparr>"
  have 1: "rec_run ?r0 ([] @ [EvLoop]) ?r1" by (intro rec_snoc [OF rec_refl] rec_step.loop) (simp add: Recorder_new_def)
  have 2: "rec_run ?r0 (([] @ [EvLoop]) @ [EvDestroy]) ?r2" by (intro rec_snoc [OF 1] rec_step.destroy) (simp add: Recorder_new_def)
  then have "rec_run ?r0 [EvLoop, EvDestroy] ?r2" by simp
  moreover have "bg ?r2 = Waiting" "m_terminate ?r2" by (simp_all add: Recorder_new_def)
  ultimately show ?thesis using destructor_deadlock [of "replicate 16 fzero" "[EvLoop, EvDestroy]" ?r2] by auto
qed

end
