(* ===== verification/Player.thy ===== *)
theory Player
  imports Recorder
begin

text \<open>
  The player, \<open>src/core/Player.cpp\<close>: a background thread decodes the planes of a stream into
  frames and queues them, \<open>GetNextFrame\<close> takes them in order. What the reader of the
  stream (\<open>Codec\<close>) returned is an argument of each pass of the loop: planes, or nothing when it failed. Reading the face file uses the file model of \<open>BlockFile\<close>.
\<close>

subsection \<open>Blocks of the face file\<close>

text \<open>\<open>ReadBlock\<close> for elements of \<open>t\<close> bytes: the size is not initialised when it cannot be read,
  and the vector is rounded down to whole elements although all bytes are read into it.\<close>

definition ReadBlock :: "nat \<Rightarrow> binfile \<Rightarrow> (u8 list \<times> binfile) option" where
  "ReadBlock t f =
     (let (hdr, f) = fs_read 8 f
      in if length hdr < 8 then None
         else let sz = of_le hdr; cap = sz div t * t; (got, f) = fs_read sz f
              in if cap < length got then None else Some (overwrite got (replicate cap 0), f))"

subsection \<open>The player\<close>

record player =
  p_faceReader :: "binfile option"
  p_vidReader :: "unit option"
  p_depthVals :: "fp list"
  p_indices :: "u16 list"
  p_frames :: "depth_data list"
  p_depthWidth :: nat
  p_depthHeight :: nat
  p_vidWidth :: nat
  p_vidHeight :: nat
  p_notfound :: bool
  p_streaming :: bool

definition Player_new :: "bool \<Rightarrow> nat \<Rightarrow> nat \<Rightarrow> player" where
  "Player_new streaming vw vh = \<lparr>p_faceReader = None, p_vidReader = None, p_depthVals = [], p_indices = [], p_frames = [],
     p_depthWidth = 0, p_depthHeight = 0, p_vidWidth = vw, p_vidHeight = vh, p_notfound = False, p_streaming = streaming\<rparr>"

text \<open>\<open>Initialize\<close>: the size is that of the stream, whose images hold depth above video.\<close>

definition Initialize :: "u8 list option \<Rightarrow> nat \<Rightarrow> nat \<Rightarrow> player \<Rightarrow> player option" where
  "Initialize disk sw sh p = do {
     (_, f) \<leftarrow> ReadBlock 8 (open_in disk);
     (dv, f) \<leftarrow> ReadBlock 4 f;
     (is, f) \<leftarrow> ReadBlock 2 f;
     Some (p\<lparr>p_faceReader := Some f, p_depthVals := of_f32_array dv, p_indices := of_i16_array is,
       p_depthWidth := sw, p_depthHeight := sh div 2, p_vidWidth := sw, p_vidHeight := sh div 2\<rparr>) }"

definition GetNextFrame :: "player \<Rightarrow> depth_data option \<times> player" where
  "GetNextFrame p = (case p_frames p of [] \<Rightarrow> (None, p) | d # ds \<Rightarrow> (Some d, p\<lparr>p_frames := ds\<rparr>))"

definition int_bytes :: "int \<Rightarrow> u8 list" where
  "int_bytes i = le_bytes 4 (unat (word_of_int i :: u32))"

definition ycrcb_bytes :: "ycrcb_data \<Rightarrow> u8 list" where
  "ycrcb_bytes h = int_bytes (yOffset h) @ int_bytes (yRowBytes h) @ int_bytes (cbCrOffset h) @ int_bytes (cbCrRowBytes h)"

definition video_header :: "nat \<Rightarrow> nat \<Rightarrow> ycrcb_data" where
  "video_header w h = \<lparr>yOffset = 16, yRowBytes = int w, cbCrOffset = 16 + int (w * h), cbCrRowBytes = int w\<rparr>"

text \<open>The video image of a decoded frame: the header, the lower half of the luma plane and the
  lower halves of the chroma planes interleaved.\<close>

definition decode_video :: "yuv_planes \<Rightarrow> nat \<Rightarrow> nat \<Rightarrow> nat \<Rightarrow> nat \<Rightarrow> u8 list option" where
  "decode_video pl dw dh w h =
     (let ySize = dw * dh; uvSize = dw * dh div 4; ysize = w * h; usize = w * h div 4;
          vid = ycrcb_bytes (video_header w h) @ replicate (ysize + usize * 2) 0
      in do {
        yVid \<leftarrow> ablock (ydata pl) ySize ysize;
        vid \<leftarrow> ablit vid 16 yVid;
        ofold (\<lambda>(y, x) vid. do {
          u \<leftarrow> aget (udata pl) (uvSize + y * (w div 2) + x);
          vid \<leftarrow> aset vid (16 + ysize + y * w + 2 * x) u;
          v \<leftarrow> aget (vdata pl) (uvSize + y * (w div 2) + x);
          aset vid (16 + ysize + y * w + 2 * x + 1) v }) (pairs (h div 2) (w div 2)) vid })"

text \<open>The frame of one pass: the depth values follow the sixteen header values. The fields that
  are not set are those of \<open>junk\<close>. A failed read leaves zero depths and no video.\<close>

definition decode_frame :: "depth_data \<Rightarrow> yuv_planes option \<Rightarrow> player \<Rightarrow> depth_data option" where
  "decode_frame junk got p =
     (let w = p_depthWidth p; h = p_depthHeight p;
          pr = (props junk)\<lparr>depthHeight := word_of_nat h, depthWidth := word_of_nat w,
                 vidHeight := word_of_nat (p_vidHeight p), vidWidth := word_of_nat (p_vidWidth p)\<rparr>;
          zeros = replicate (w * h) fzero
      in do {
        vals \<leftarrow> ablock (p_depthVals p) 0 16;
        case got of
          None \<Rightarrow> Some (junk\<lparr>props := pr, vidData := [], depthData := vals @ zeros, dpts := []\<rparr>)
        | Some pl \<Rightarrow> do {
            depth \<leftarrow> ConvertYUVToDepth pl w h f10 zeros;
            vid \<leftarrow> decode_video pl w h (p_vidWidth p) (p_vidHeight p);
            Some (junk\<lparr>props := pr, vidData := vid, depthData := vals @ depth, dpts := []\<rparr>) } })"

text \<open>One pass of the loop; the flag says whether the loop goes on. Nothing ever sets
  \<open>m_vidReader\<close>.\<close>

definition player_pass :: "u8 list option \<Rightarrow> nat \<Rightarrow> nat \<Rightarrow> depth_data \<Rightarrow> yuv_planes option \<Rightarrow> player \<Rightarrow> (bool \<times> player) option" where
  "player_pass disk sw sh junk got p = do {
     (go, p) \<leftarrow> (if p_streaming p
       then if p_faceReader p = None then do { p \<leftarrow> Initialize disk sw sh p; Some (True, p) } else Some (True, p)
       else if p_notfound p then Some (False, p)
       else do { p \<leftarrow> (if p_vidReader p = None then Initialize disk sw sh p else Some p); Some (p_vidReader p \<noteq> None, p) });
     if go then do { d \<leftarrow> decode_frame junk got p; Some (True, p\<lparr>p_frames := p_frames p @ [d]\<rparr>) }
     else Some (False, p) }"

fun player_run :: "u8 list option \<Rightarrow> nat \<Rightarrow> nat \<Rightarrow> (depth_data \<times> yuv_planes option) list \<Rightarrow> player \<Rightarrow> player option" where
  "player_run disk sw sh [] p = Some p"
| "player_run disk sw sh ((junk, got) # gs) p = do {
     (go, p) \<leftarrow> player_pass disk sw sh junk got p;
     if go then player_run disk sw sh gs p else Some p }"

subsection \<open>Buffers longer than an image\<close>

text \<open>The encoder and the decoder of the depth image work on the front of buffers that hold a
  second image behind.\<close>

lemma ofold_lift:
  assumes "ofold f xs s = Some t" and "\<And>x s t. f x s = Some t \<Longrightarrow> g x (e s) = Some (e t)"
  shows "ofold g xs (e s) = Some (e t)"
  using assms(1)
proof (induction xs arbitrary: s)
  case (Cons x xs)
  then obtain s1 where "f x s = Some s1" "ofold f xs s1 = Some t" by (auto simp: bind_eq_Some_conv)
  then show ?case using Cons.IH assms(2) by simp
qed simp

definition behind :: "yuv_planes \<Rightarrow> yuv_planes \<Rightarrow> yuv_planes" where
  "behind q p = \<lparr>ydata = ydata p @ ydata q, udata = udata p @ udata q, vdata = vdata p @ vdata q\<rparr>"

lemma aset_append: "aset xs i v = Some ys \<Longrightarrow> aset (xs @ zs) i v = Some (ys @ zs)"
  by (auto simp: list_update_append)

lemma aset_quad_append: "aset_quad out w y x q = Some out' \<Longrightarrow> aset_quad (out @ zs) w y x q = Some (out' @ zs)"
  by (auto simp: aset_quad_def bind_eq_Some_conv list_update_append1)

lemma enc_block_behind:
  assumes "enc_block sc w data b p = Some p'"
  shows "enc_block sc w data b (behind q p) = Some (behind q p')"
proof -
  obtain y x where b: "b = (y, x)" by (cases b)
  let ?i = "y div 2 * (w div 2) + x div 2"
  obtain d ys u v yd ud vd where "quad_at data w y x = Some d" "enc_quad sc d = Some (ys, u, v)"
    and w: "aset_quad (ydata p) w y x ys = Some yd" "aset (udata p) ?i u = Some ud" "aset (vdata p) ?i v = Some vd"
    and p': "p' = \<lparr>ydata = yd, udata = ud, vdata = vd\<rparr>"
    using assms unfolding b enc_block_def prod.case by (auto simp: bind_eq_Some_conv simp del: aset_Some_iff)
  then show ?thesis
    using aset_quad_append [OF w(1), of "ydata q"] aset_append [OF w(2), of "udata q"] aset_append [OF w(3), of "vdata q"]
    by (simp add: b enc_block_def behind_def del: aset_Some_iff)
qed

lemma Convert_behind:
  "ConvertDepthToYUV data w h m p = Some (data', p') \<Longrightarrow> ConvertDepthToYUV data w h m (behind q p) = Some (data', behind q p')"
  by (auto simp: ConvertDepthToYUV_def bind_eq_Some_conv Let_def intro: ofold_lift [where e = "behind q"] enc_block_behind)

lemma aget_append: "aget xs i = Some v \<Longrightarrow> aget (xs @ zs) i = Some v"
  by (auto simp: aget_def nth_append split: if_splits)

lemma quad_at_append: "quad_at src w y x = Some q \<Longrightarrow> quad_at (src @ zs) w y x = Some q"
  by (auto simp: quad_at_def bind_eq_Some_conv nth_append)

lemma dec_block_behind:
  assumes "dec_block sc w p b out = Some out'"
  shows "dec_block sc w (behind q p) b out = Some out'"
proof -
  obtain y x where b: "b = (y, x)" by (cases b)
  obtain ys u v where "quad_at (ydata p) w y x = Some ys" "aget (udata p) (y div 2 * (w div 2) + x div 2) = Some u"
    "aget (vdata p) (y div 2 * (w div 2) + x div 2) = Some v" "aset_quad out w y x (dec_quad sc ys u v) = Some out'"
    using assms by (auto simp: b dec_block_def bind_eq_Some_conv simp del: aget_Some_iff)
  then show ?thesis
    using quad_at_append [of "ydata p" w y x ys "ydata q"] aget_append [of "udata p" _ u "udata q"] aget_append [of "vdata p" _ v "vdata q"]
    by (simp add: b dec_block_def behind_def del: aget_Some_iff)
qed

lemma Decode_behind: "ConvertYUVToDepth p w h m out = Some out' \<Longrightarrow> ConvertYUVToDepth (behind q p) w h m out = Some out'"
  unfolding ConvertYUVToDepth_def by (rule ofold_lift [where e = "\<lambda>x. x", of "dec_block (divf m (f_of_int F32 254)) w p"]) (simp_all add: dec_block_behind)


subsection \<open>Sampling at equal size\<close>

lemma sint_small: "n < 2 ^ 31 \<Longrightarrow> sint (word_of_nat n :: u32) = int n"
proof -
  assume n: "n < 2 ^ 31"
  have "sint (word_of_nat n :: u32) = signed_take_bit 31 (int n)" by (simp add: signed_of_nat)
  also have "\<dots> = int n"
  proof (rule signed_take_bit_int_eq_self)
    have "int n < int (2 ^ 31)" using n by (simp only: of_nat_less_iff)
    then show "int n < 2 ^ 31" by simp
  qed simp
  finally show ?thesis .
qed

lemma scale_pos_same:
  assumes "y < unat (n :: u32)" and "unat n < 2 ^ 15"
  shows "scale_pos y n n = int y"
proof -
  have "y * unat n < 2 ^ 15 * 2 ^ 15" using assms by (intro mult_strict_mono) simp_all
  then have "y * unat n < 2 ^ 32" by simp
  then have m: "unat (word_of_nat y * n) = y * unat n"
    using assms by (simp add: unat_word_ariths unat_of_nat take_bit_nat_eq_self)
  have "unat ((word_of_nat y * n) div n) = y" using assms by (simp add: unat_div_distrib m)
  then have "(word_of_nat y * n) div n = word_of_nat y"
    using assms by (simp add: word_unat_eq_iff unat_of_nat take_bit_nat_eq_self)
  then show ?thesis using assms by (simp add: scale_pos_def sint_small)
qed


text \<open>A frame whose video has the size and the row lengths of the depth image.\<close>

definition same_size :: "depth_data \<Rightarrow> nat \<Rightarrow> nat \<Rightarrow> bool" where
  "same_size d w h \<longleftrightarrow> w = unat (depthWidth (props d)) \<and> h = unat (depthHeight (props d)) \<and>
     vidWidth (props d) = depthWidth (props d) \<and> vidHeight (props d) = depthHeight (props d) \<and>
     w < 2 ^ 15 \<and> h < 2 ^ 15 \<and> even w \<and> even h \<and> 0 < w \<and> 0 < h \<and>
     (\<exists>body. vidData d = ycrcb_bytes (video_header w h) @ body \<and> length body = w * h + w * h div 2)"

lemma length_int_bytes [simp]: "length (int_bytes i) = 4"
  by (simp add: int_bytes_def)

lemma length_ycrcb [simp]: "length (ycrcb_bytes h) = 16"
  by (simp add: ycrcb_bytes_def)

lemma of_le_int_bytes: "word_of_nat (of_le (int_bytes i)) = (word_of_int i :: u32)"
proof -
  have "unat (word_of_int i :: u32) < 256 ^ 4" using unsigned_less [of "word_of_int i :: u32"] by simp
  then show ?thesis by (simp add: int_bytes_def of_le_bytes)
qed

lemma read_int_bytes:
  assumes "length a = off" and "0 \<le> i" and "i < 2 ^ 31"
  shows "read_int (a @ int_bytes i @ b) off = Some i"
proof -
  have "ablock (a @ int_bytes i @ b) off 4 = Some (int_bytes i)" using assms(1) by (simp add: ablock_Some_iff)
  moreover have "sint (word_of_int i :: u32) = i" using sint_small [of "nat i"] assms(2,3) by simp
  ultimately show ?thesis by (simp add: read_int_def of_le_int_bytes)
qed

lemma area_bound: "w < 2 ^ 15 \<Longrightarrow> h < 2 ^ 15 \<Longrightarrow> w * h < (2 :: nat) ^ 30"
proof -
  assume "w < 2 ^ 15" "h < 2 ^ 15"
  then have "w * h < 2 ^ 15 * (2 :: nat) ^ 15" by (intro mult_strict_mono) simp_all
  then show ?thesis by simp
qed

lemma read_header:
  assumes "w < 2 ^ 15" and "h < 2 ^ 15"
  shows "read_ycrcb (ycrcb_bytes (video_header w h) @ body) = Some (video_header w h)"
proof -
  let ?a = "int_bytes 16" and ?b = "int_bytes (int w)" and ?c = "int_bytes (16 + int (w * h))"
  have c: "16 + int (w * h) < 2 ^ 31"
  proof -
    have "int (w * h) < int (2 ^ 30)" using area_bound [OF assms] by (simp only: of_nat_less_iff)
    then show ?thesis by simp
  qed
  have w: "int w < 2 ^ 31" using assms(1) by simp
  have e: "ycrcb_bytes (video_header w h) @ body = ?a @ ?b @ ?c @ ?b @ body"
    by (simp add: ycrcb_bytes_def video_header_def)
  have "read_int (?a @ ?b @ ?c @ ?b @ body) 0 = Some 16"
    using read_int_bytes [of "[]" 0 16 "?b @ ?c @ ?b @ body"] by simp
  moreover have "read_int (?a @ ?b @ ?c @ ?b @ body) 4 = Some (int w)"
    using read_int_bytes [of ?a 4 "int w" "?c @ ?b @ body"] w by simp
  moreover have "read_int (?a @ ?b @ ?c @ ?b @ body) 8 = Some (16 + int (w * h))"
    using read_int_bytes [of "?a @ ?b" 8 "16 + int (w * h)" "?b @ body"] c by simp
  moreover have "read_int (?a @ ?b @ ?c @ ?b @ body) 12 = Some (int w)"
    using read_int_bytes [of "?a @ ?b @ ?c" 12 "int w" body] w by simp
  ultimately show ?thesis unfolding e by (simp add: read_ycrcb_def video_header_def)
qed

lemma sample_luma_same:
  assumes d: "same_size d w h" and yd: "length yd = 2 * (w * h)"
  shows "\<exists>yd'. sample_luma (props d) (normalise_yuv (video_header w h)) (vidData d) (w * h) yd = Some yd' \<and>
    length yd' = 2 * (w * h) \<and> (\<forall>i < w * h. yd' ! i = yd ! i \<and> yd' ! (w * h + i) = vidData d ! (16 + i))"
proof -
  let ?p = "props d" and ?vid = "vidData d"
  have w: "w = unat (depthWidth ?p)" "h = unat (depthHeight ?p)" "vidWidth ?p = depthWidth ?p" "vidHeight ?p = depthHeight ?p"
    "w < 2 ^ 15" "h < 2 ^ 15" "w * h + 16 \<le> length ?vid" using d by (auto simp: same_size_def)
  define f where "f = (\<lambda>(y, x) yData. do {
       b \<leftarrow> iget ?vid (16 + scale_pos y (vidHeight ?p) (depthHeight ?p) * int w + scale_pos x (vidWidth ?p) (depthWidth ?p));
       aset yData (w * h + y * unat (depthWidth ?p) + x) b })"
  have "\<exists>t. ofold f (pairs h w) yd = Some t \<and> length t = 2 * (w * h) \<and>
    (\<forall>i \<in> \<Union> ((\<lambda>(y, x). {w * h + (y * w + x)}) ` set (pairs h w)). t ! i = ?vid ! (16 + (i - w * h))) \<and>
    (\<forall>i. i \<notin> \<Union> ((\<lambda>(y, x). {w * h + (y * w + x)}) ` set (pairs h w)) \<longrightarrow> t ! i = yd ! i)"
  proof (rule ofold_writes [where P = "\<lambda>t. length t = 2 * (w * h)" and f = f and obs = "\<lambda>t i. t ! i"
        and R = "\<lambda>i v. v = ?vid ! (16 + (i - w * h))"])
    show "length yd = 2 * (w * h)" by (rule yd)
  next
    fix b :: "nat \<times> nat" and t :: "u8 list" assume b: "b \<in> set (pairs h w)" and t: "length t = 2 * (w * h)"
    obtain y x where bx: "b = (y, x)" "y < h" "x < w" using b unfolding set_pairs by auto
    have i: "y * w + x < w * h" using row_index [OF bx(3,2)] by (simp add: mult.commute)
    have "scale_pos y (vidHeight ?p) (depthHeight ?p) = int y" "scale_pos x (vidWidth ?p) (depthWidth ?p) = int x"
      using bx(2,3) w by (simp_all add: scale_pos_same)
    moreover have "iget ?vid (16 + int y * int w + int x) = Some (?vid ! (16 + (y * w + x)))"
    proof -
      have "16 + int y * int w + int x = int (16 + (y * w + x))" by simp
      then have "iget ?vid (16 + int y * int w + int x) = aget ?vid (16 + (y * w + x))" unfolding iget_def by (simp del: of_nat_add)
      then show ?thesis using i w(7) by simp
    qed
    ultimately have "f b t = Some (t[w * h + (y * w + x) := ?vid ! (16 + (y * w + x))])"
      using i t row_index [OF bx(3,2)] by (simp add: f_def bx aset_def add.assoc w(1) [symmetric])
    moreover have "w * h + (y * w + x) < length t" using i t by linarith
    ultimately show "\<exists>t'. f b t = Some t' \<and> length t' = 2 * (w * h) \<and>
        (\<forall>i \<in> (\<lambda>(y, x). {w * h + (y * w + x)}) b. t' ! i = ?vid ! (16 + (i - w * h))) \<and>
        (\<forall>i. i \<notin> (\<lambda>(y, x). {w * h + (y * w + x)}) b \<longrightarrow> t' ! i = t ! i)"
      using i t by (simp add: bx)
  qed
  then obtain t where t: "ofold f (pairs h w) yd = Some t" "length t = 2 * (w * h)"
    "\<forall>i \<in> \<Union> ((\<lambda>(y, x). {w * h + (y * w + x)}) ` set (pairs h w)). t ! i = ?vid ! (16 + (i - w * h))"
    "\<forall>i. i \<notin> \<Union> ((\<lambda>(y, x). {w * h + (y * w + x)}) ` set (pairs h w)) \<longrightarrow> t ! i = yd ! i" by blast
  have "t ! (w * h + i) = ?vid ! (16 + i)" if "i < w * h" for i
  proof -
    have "0 < w" using d by (simp add: same_size_def)
    then have "i mod w < w" "i div w < h" using that by (simp_all add: less_mult_imp_div_less mult.commute)
    then have "w * h + i \<in> \<Union> ((\<lambda>(y, x). {w * h + (y * w + x)}) ` set (pairs h w))"
      unfolding set_pairs by (intro UnionI [of "{w * h + (i div w * w + i mod w)}"]) (auto intro!: image_eqI [of _ _ "(i div w, i mod w)"])
    then show ?thesis using t(3) by fastforce
  qed
  moreover have "t ! i = yd ! i" if "i < w * h" for i
  proof -
    have "i \<notin> \<Union> ((\<lambda>(y, x). {w * h + (y * w + x)}) ` set (pairs h w))" using that by auto
    then show ?thesis using t(4) by blast
  qed
  moreover have "sample_luma ?p (normalise_yuv (video_header w h)) ?vid (w * h) yd = Some t"
    using t(1) by (simp add: sample_luma_def f_def w(1,2) [symmetric] normalise_yuv_def video_header_def)
  ultimately show ?thesis using t(2) by blast
qed


lemma half_areas:
  assumes "even w" and "even h"
  shows "(h div 2) * (w div 2) * 4 = w * (h :: nat)" "w * h div 4 = (h div 2) * (w div 2)" "w * h div 2 = (h div 2) * w"
proof -
  obtain a b where "w = 2 * a" "h = 2 * b" using assms by (auto elim!: evenE)
  then show "(h div 2) * (w div 2) * 4 = w * h" "w * h div 4 = (h div 2) * (w div 2)" "w * h div 2 = (h div 2) * w"
    by simp_all
qed

lemma sample_chroma_same:
  assumes d: "same_size d w h" and uv: "length ud = 2 * (w * h div 4)" "length vd = 2 * (w * h div 4)"
  shows "\<exists>ud' vd'. sample_chroma (props d) (normalise_yuv (video_header w h)) (vidData d) (w * h div 4) (ud, vd) = Some (ud', vd') \<and>
    length ud' = 2 * (w * h div 4) \<and> length vd' = 2 * (w * h div 4) \<and>
    (\<forall>i < w * h div 4. ud' ! i = ud ! i \<and> vd' ! i = vd ! i) \<and>
    (\<forall>y < h div 2. \<forall>x < w div 2. ud' ! (w * h div 4 + (y * (w div 2) + x)) = vidData d ! (16 + w * h + y * w + 2 * x) \<and>
       vd' ! (w * h div 4 + (y * (w div 2) + x)) = vidData d ! (16 + w * h + y * w + 2 * x + 1))"
proof -
  let ?p = "props d" and ?vid = "vidData d"
  define c r A where "c = w div 2" and "r = h div 2" and "A = w * h div 4"
  have w: "w = unat (depthWidth ?p)" "h = unat (depthHeight ?p)" "vidWidth ?p = depthWidth ?p" "vidHeight ?p = depthHeight ?p"
    "even w" "even h" "0 < w" "0 < h" "length ?vid = 16 + w * h + w * h div 2" using d by (auto simp: same_size_def)
  have A: "A = r * c" "w * h div 2 = r * w" using half_areas [OF w(5,6)] by (simp_all add: A_def r_def c_def)
  have cr: "unat (depthWidth ?p div 2) = c" "unat (depthHeight ?p div 2) = r" "0 < c" "0 < r" "w = 2 * c"
    using w by (auto simp: c_def r_def unat_div_distrib elim!: evenE)
  define src where "src = (\<lambda>y x. 16 + w * h + y * w + 2 * x)"
  define f where "f = (\<lambda>(y, idx) (uData, vData).
           let srcY = (int y * int r) div int r; idxSrc = (int idx * int c) div int c;
               src = 16 + int (w * h) + int w * srcY + idxSrc * 2
           in do {
             u \<leftarrow> iget ?vid src; v \<leftarrow> iget ?vid (src + 1);
             uData \<leftarrow> aset uData (A + y * c + idx) u;
             vData \<leftarrow> aset vData (A + y * c + idx) v;
             Some (uData, vData) })"
  define P where "P = (\<lambda>(u :: u8 list, v :: u8 list). length u = 2 * A \<and> length v = 2 * A)"
  define obs where "obs = (\<lambda>(u :: u8 list, v :: u8 list) i. (u ! i, v ! i))"
  define W where "W = (\<lambda>(y, x). {A + (y * c + x)})"
  define R where "R = (\<lambda>i v. v = (?vid ! src ((i - A) div c) ((i - A) mod c), ?vid ! (src ((i - A) div c) ((i - A) mod c) + 1)))"
  have "\<exists>t. ofold f (pairs r c) (ud, vd) = Some t \<and> P t \<and>
    (\<forall>i \<in> \<Union> (W ` set (pairs r c)). R i (obs t i)) \<and> (\<forall>i. i \<notin> \<Union> (W ` set (pairs r c)) \<longrightarrow> obs t i = obs (ud, vd) i)"
  proof (rule ofold_writes)
    show "P (ud, vd)" using uv by (simp add: P_def A_def)
  next
    fix b :: "nat \<times> nat" and t :: "u8 list \<times> u8 list" assume b: "b \<in> set (pairs r c)" and t: "P t"
    obtain y x where bx: "b = (y, x)" "y < r" "x < c" using b unfolding set_pairs by auto
    obtain us vs where t2: "t = (us, vs)" "length us = 2 * A" "length vs = 2 * A" using t by (cases t) (simp add: P_def)
    have i: "y * c + x < A" using row_index [OF bx(3,2)] A(1) by simp
    have "y * w + 2 * x + 1 < r * w" using row_index [of "2 * x + 1" w y r] bx cr(5) by simp
    then have s: "src y x + 1 < length ?vid" using w(9) A(2) by (simp add: src_def)
    have "16 + int (w * h) + int w * int y + int x * 2 = int (src y x)" by (simp add: src_def)
    then have g: "iget ?vid (16 + int (w * h) + int w * int y + int x * 2) = Some (?vid ! src y x)"
      "iget ?vid (16 + int (w * h) + int w * int y + int x * 2 + 1) = Some (?vid ! (src y x + 1))"
      using s by (simp_all add: iget_def nat_add_distrib)
    have "f b t = Some (us[A + (y * c + x) := ?vid ! src y x], vs[A + (y * c + x) := ?vid ! (src y x + 1)])"
      using i t2 g cr(3,4) by (simp add: f_def bx Let_def aset_def add.assoc)
    moreover have "(y * c + x) div c = y" "(y * c + x) mod c = x" using bx(3) by simp_all
    ultimately show "\<exists>t'. f b t = Some t' \<and> P t' \<and> (\<forall>i \<in> W b. R i (obs t' i)) \<and> (\<forall>i. i \<notin> W b \<longrightarrow> obs t' i = obs t i)"
      using i t2 by (simp add: P_def W_def R_def obs_def bx)
  qed
  then obtain ud' vd' where t: "ofold f (pairs r c) (ud, vd) = Some (ud', vd')" "P (ud', vd')"
    "\<forall>i \<in> \<Union> (W ` set (pairs r c)). R i (obs (ud', vd') i)"
    "\<forall>i. i \<notin> \<Union> (W ` set (pairs r c)) \<longrightarrow> obs (ud', vd') i = obs (ud, vd) i" by auto
  have "ud' ! i = ud ! i \<and> vd' ! i = vd ! i" if "i < A" for i
  proof -
    have "i \<notin> \<Union> (W ` set (pairs r c))" using that by (auto simp: W_def)
    then show ?thesis using t(4) by (simp add: obs_def)
  qed
  moreover have "ud' ! (A + (y * c + x)) = ?vid ! src y x \<and> vd' ! (A + (y * c + x)) = ?vid ! (src y x + 1)"
    if "y < r" "x < c" for y x
  proof -
    have "(y, x) \<in> set (pairs r c)" unfolding set_pairs using that by simp
    then have "R (A + (y * c + x)) (obs (ud', vd') (A + (y * c + x)))" using t(3) by (force simp: W_def)
    moreover have "(y * c + x) div c = y" "(y * c + x) mod c = x" using that by simp_all
    ultimately show ?thesis by (simp add: R_def obs_def)
  qed
  moreover have "sample_chroma ?p (normalise_yuv (video_header w h)) ?vid A (ud, vd) = Some (ud', vd')"
    using t(1) w(3,4) cr(1,2) by (simp add: sample_chroma_def f_def normalise_yuv_def video_header_def)
  ultimately show ?thesis using t(2) by (auto simp: P_def A_def c_def r_def src_def)
qed


text \<open>Decoding planes whose lower halves are the image of a video gives that video.\<close>

lemma decode_video_same:
  assumes d: "same_size d w h"
    and y: "length (ydata pl) = 2 * (w * h)" "\<forall>i < w * h. ydata pl ! (w * h + i) = vidData d ! (16 + i)"
    and uv: "length (udata pl) = 2 * (w * h div 4)" "length (vdata pl) = 2 * (w * h div 4)"
    and c: "\<forall>y < h div 2. \<forall>x < w div 2. udata pl ! (w * h div 4 + (y * (w div 2) + x)) = vidData d ! (16 + w * h + y * w + 2 * x) \<and>
       vdata pl ! (w * h div 4 + (y * (w div 2) + x)) = vidData d ! (16 + w * h + y * w + 2 * x + 1)"
  shows "decode_video pl w h w h = Some (vidData d)"
proof -
  define cc r A N where "cc = w div 2" and "r = h div 2" and "A = w * h div 4" and "N = 16 + w * h + A * 2"
  have w: "even w" "even h" "0 < w" using d by (auto simp: same_size_def)
  obtain body where body: "vidData d = ycrcb_bytes (video_header w h) @ body" "length body = w * h + w * h div 2"
    using d by (auto simp: same_size_def)
  have w2: "w = 2 * cc" using w(1) by (simp add: cc_def)
  have A12: "A = r * cc" "w * h div 2 = r * w" using half_areas [OF w(1,2)] by (simp_all add: A_def r_def cc_def)
  have "A * 2 = r * w" unfolding A12(1) by (subst w2) simp
  note A = A12 this
  have len: "length (vidData d) = N" using body A(2,3) by (simp add: N_def)
  define yv where "yv = take (w * h) (drop (w * h) (ydata pl))"
  define v0 where "v0 = ycrcb_bytes (video_header w h) @ yv @ replicate (A * 2) 0"
  have yvl: "length yv = w * h" using y(1) by (simp add: yv_def)
  have front: "v0 ! i = vidData d ! i" if il: "i < 16 + w * h" for i
  proof (cases "i < 16")
    case True
    then show ?thesis by (simp add: v0_def body(1) nth_append)
  next
    case False
    then obtain j where j: "i = 16 + j" "j < w * h" using il le_Suc_ex [of 16 i] by auto
    have "v0 ! i = yv ! j" using j yvl by (simp add: v0_def nth_append)
    then show ?thesis using j y by (simp add: yv_def)
  qed
  define f where "f = (\<lambda>(y, x) vid. do {
          u \<leftarrow> aget (udata pl) (A + y * cc + x);
          vid \<leftarrow> aset vid (16 + w * h + y * w + 2 * x) u;
          v \<leftarrow> aget (vdata pl) (A + y * cc + x);
          aset vid (16 + w * h + y * w + 2 * x + 1) v })"
  define W where "W = (\<lambda>(y, x). {16 + w * h + y * w + 2 * x, 16 + w * h + y * w + 2 * x + 1})"
  have "\<exists>t. ofold f (pairs r cc) v0 = Some t \<and> length t = N \<and>
    (\<forall>i \<in> \<Union> (W ` set (pairs r cc)). t ! i = vidData d ! i) \<and> (\<forall>i. i \<notin> \<Union> (W ` set (pairs r cc)) \<longrightarrow> t ! i = v0 ! i)"
  proof (rule ofold_writes [where P = "\<lambda>t. length t = N" and f = f and obs = "\<lambda>t i. t ! i" and R = "\<lambda>i v. v = vidData d ! i"])
    show "length v0 = N" using yvl by (simp add: v0_def N_def)
  next
    fix b :: "nat \<times> nat" and t :: "u8 list" assume b: "b \<in> set (pairs r cc)" and t: "length t = N"
    obtain y x where bx: "b = (y, x)" "y < r" "x < cc" using b unfolding set_pairs by auto
    have i: "y * cc + x < A" using row_index [OF bx(3,2)] A(1) by simp
    have "y * w + 2 * x + 1 < r * w" using row_index [of "2 * x + 1" w y r] bx w2 by simp
    then have k: "16 + w * h + y * w + 2 * x + 1 < N" using A(3) by (simp add: N_def)
    have "A + (y * cc + x) < length (udata pl)" "A + (y * cc + x) < length (vdata pl)" using i uv by (simp_all add: A_def)
    moreover have "udata pl ! (A + (y * cc + x)) = vidData d ! (16 + w * h + y * w + 2 * x)"
      "vdata pl ! (A + (y * cc + x)) = vidData d ! (16 + w * h + y * w + 2 * x + 1)"
      using c bx by (simp_all add: A_def cc_def r_def)
    ultimately have "f b t = Some (t[16 + w * h + y * w + 2 * x := vidData d ! (16 + w * h + y * w + 2 * x),
        16 + w * h + y * w + 2 * x + 1 := vidData d ! (16 + w * h + y * w + 2 * x + 1)])"
      using k t by (simp add: f_def bx aset_def aget_def add.assoc)
    then show "\<exists>t'. f b t = Some t' \<and> length t' = N \<and> (\<forall>i \<in> W b. t' ! i = vidData d ! i) \<and> (\<forall>i. i \<notin> W b \<longrightarrow> t' ! i = t ! i)"
      using k t by (simp add: W_def bx)
  qed
  then obtain t where t: "ofold f (pairs r cc) v0 = Some t" "length t = N"
    "\<forall>i \<in> \<Union> (W ` set (pairs r cc)). t ! i = vidData d ! i" "\<forall>i. i \<notin> \<Union> (W ` set (pairs r cc)) \<longrightarrow> t ! i = v0 ! i" by blast
  have "t = vidData d"
  proof (rule nth_equalityI)
    show "length t = length (vidData d)" using t(2) len by simp
    fix i assume i: "i < length t"
    show "t ! i = vidData d ! i"
    proof (cases "i < 16 + w * h")
      case True
      then have "i \<notin> \<Union> (W ` set (pairs r cc))" by (auto simp: W_def)
      then show ?thesis using t(4) front [OF True] by simp
    next
      case False
      then obtain k where k: "i = 16 + w * h + k" using le_Suc_ex [of "16 + w * h" i] by auto
      have kr: "k < r * w" using i t(2) A(3) by (simp add: k N_def)
      define y x where "y = k div w" and "x = k mod w div 2"
      have "k mod w < w" using w(3) by simp
      then have "y < r" "x < cc" using kr w2 by (auto simp: y_def x_def less_mult_imp_div_less)
      then have p: "(y, x) \<in> set (pairs r cc)" unfolding set_pairs by simp
      have "m = 2 * (m div 2) \<or> m = 2 * (m div 2) + 1" for m :: nat by presburger
      then have "k mod w = 2 * x \<or> k mod w = 2 * x + 1" unfolding x_def .
      moreover have "k = y * w + k mod w" unfolding y_def by simp
      ultimately have "k = y * w + 2 * x \<or> k = y * w + 2 * x + 1" by linarith
      then have "i \<in> W (y, x)" by (auto simp: W_def k)
      then show ?thesis using t(3) p by blast
    qed
  qed
  moreover have "ablit (ycrcb_bytes (video_header w h) @ replicate (w * h + A * 2) 0) 16 yv = Some v0"
    using yvl by (simp add: ablit_def v0_def)
  moreover have "ablock (ydata pl) (w * h) (w * h) = Some yv" using y(1) by (simp add: ablock_Some_iff yv_def)
  ultimately show ?thesis using t(1)
    by (simp add: decode_video_def Let_def A_def [symmetric] cc_def [symmetric] r_def [symmetric] f_def)
qed


subsection \<open>From recorder to player\<close>

lemma enc_block_lengths:
  "enc_block sc w data b p = Some p' \<Longrightarrow> length (ydata p') = length (ydata p) \<and>
     length (udata p') = length (udata p) \<and> length (vdata p') = length (vdata p)"
  by (cases b) (auto simp: enc_block_def aset_quad_def bind_eq_Some_conv)

lemma ConvertDepthToYUV_lengths:
  assumes "ConvertDepthToYUV data w h m p = Some (data', p')"
  shows "length (ydata p') = length (ydata p) \<and> length (udata p') = length (udata p) \<and> length (vdata p') = length (vdata p)"
proof -
  obtain sc where "ofold (enc_block sc w data') (pairs_by 2 h 2 w) p = Some p'"
    using assms by (auto simp: ConvertDepthToYUV_def bind_eq_Some_conv Let_def)
  then show ?thesis
    by (rule ofold_invariant) (use enc_block_lengths in auto)
qed

definition test_frame :: "nat \<Rightarrow> nat \<Rightarrow> depth_data" where
  "test_frame w h = \<lparr>props = test_props\<lparr>vidWidth := word_of_nat w, vidHeight := word_of_nat h,
       depthWidth := word_of_nat w, depthHeight := word_of_nat h\<rparr>,
     vidData = ycrcb_bytes (video_header w h) @ replicate (w * h + w * h div 2) 0,
     depthData = replicate (16 + w * h) fzero, dpts = [], alignMtx = identity_matrix\<rparr>"

definition test_player :: player where
  "test_player = (Player_new True 16 2)\<lparr>p_depthWidth := 16, p_depthHeight := 2, p_depthVals := replicate 16 fzero\<rparr>"

lemma frame_survives:
  assumes d: "same_size d w h" and dd: "length (drop 16 (depthData d)) = h * w"
    and ok: "pyramid_ok w h" "\<forall>x \<in> set (drop 16 (depthData d)). depth_ok x"
    and p: "p_depthWidth p = w" "p_depthHeight p = h" "p_vidWidth p = w" "p_vidHeight p = h" "16 \<le> length (p_depthVals p)"
  shows "\<exists>pl d'. stream_planes d = Some pl \<and> decode_frame junk (Some pl) p = Some d' \<and> vidData d' = vidData d \<and>
    take 16 (depthData d') = take 16 (p_depthVals p) \<and> length (depthData d') = 16 + h * w \<and>
    (\<forall>i < h * w. decoded_depth (depthData d ! (16 + i)) (depthData d' ! (16 + i)))"
proof -
  have w: "even w" "even h" "w < 2 ^ 15" "h < 2 ^ 15" "w = unat (depthWidth (props d))" "h = unat (depthHeight (props d))"
    using d by (auto simp: same_size_def)
  define A where "A = w * h div 4"
  define z where "z = \<lparr>ydata = replicate (w * h) 0, udata = replicate A 0, vdata = replicate A 0\<rparr>"
  have zok: "planes_ok w h z" using half_areas(2) [OF w(1,2)] by (simp add: z_def planes_ok_def A_def mult.commute)
  obtain data' p1 out where c: "ConvertDepthToYUV (drop 16 (depthData d)) w h f10 z = Some (data', p1)"
    "ConvertYUVToDepth p1 w h f10 (replicate (w * h) fzero) = Some out" "length out = h * w"
    and val: "\<forall>i < h * w. decoded_depth (drop 16 (depthData d) ! i) (out ! i)"
    using depth_roundtrip_10 [OF ok(1) dd ok(2) zok, of "replicate (w * h) fzero"] by (auto simp: mult.commute f10_def)
  have p1: "length (ydata p1) = w * h" "length (udata p1) = A" "length (vdata p1) = A"
    using ConvertDepthToYUV_lengths [OF c(1)] by (simp_all add: z_def)
  have area: "unat (depthWidth (props d) * depthHeight (props d)) = w * h"
    using area_bound [OF w(3,4)] by (simp add: w(5,6) unat_word_ariths)
  have zz: "behind z z = \<lparr>ydata = replicate (w * h * 2) 0, udata = replicate (A * 2) 0, vdata = replicate (A * 2) 0\<rparr>"
    by (simp add: behind_def z_def mult_2_right replicate_add)
  have conv: "ConvertDepthToYUV (drop 16 (depthData d)) w h f10 (behind z z) = Some (data', behind z p1)"
    by (rule Convert_behind [OF c(1)])
  obtain body where body: "vidData d = ycrcb_bytes (video_header w h) @ body" using d by (auto simp: same_size_def)
  have hdr: "read_ycrcb (vidData d) = Some (video_header w h)" unfolding body by (rule read_header [OF w(3,4)])
  obtain yd where yd: "sample_luma (props d) (normalise_yuv (video_header w h)) (vidData d) (w * h) (ydata (behind z p1)) = Some yd"
    "length yd = 2 * (w * h)" "\<forall>i < w * h. yd ! i = ydata (behind z p1) ! i \<and> yd ! (w * h + i) = vidData d ! (16 + i)"
    using sample_luma_same [OF d, of "ydata (behind z p1)"] p1 by (auto simp: behind_def z_def)
  have ul: "length (udata (behind z p1)) = 2 * (w * h div 4)" and vl: "length (vdata (behind z p1)) = 2 * (w * h div 4)"
    using p1 by (simp_all add: behind_def z_def A_def)
  obtain ud vd where uv: "sample_chroma (props d) (normalise_yuv (video_header w h)) (vidData d) A (udata (behind z p1), vdata (behind z p1)) = Some (ud, vd)"
    "length ud = 2 * A" "length vd = 2 * A" "\<forall>i < A. ud ! i = udata (behind z p1) ! i \<and> vd ! i = vdata (behind z p1) ! i"
    "\<forall>y < h div 2. \<forall>x < w div 2. ud ! (A + (y * (w div 2) + x)) = vidData d ! (16 + w * h + y * w + 2 * x) \<and>
       vd ! (A + (y * (w div 2) + x)) = vidData d ! (16 + w * h + y * w + 2 * x + 1)"
    using sample_chroma_same [OF d ul vl] unfolding A_def [symmetric] by blast
  define pl where "pl = \<lparr>ydata = yd, udata = ud, vdata = vd\<rparr>"
  have s: "stream_planes d = Some pl"
    using conv yd(1) uv(1) hdr unfolding zz
    by (simp add: stream_planes_def Let_def w(5) [symmetric] w(6) [symmetric] area A_def [symmetric] pl_def)
  have "yd = ydata p1 @ drop (w * h) yd"
  proof (rule nth_equalityI)
    show "length yd = length (ydata p1 @ drop (w * h) yd)" using yd(2) p1(1) by simp
    fix i assume "i < length yd"
    then show "yd ! i = (ydata p1 @ drop (w * h) yd) ! i" using yd(2,3) p1(1) by (auto simp: nth_append behind_def)
  qed
  moreover have "ud = udata p1 @ drop A ud" "vd = vdata p1 @ drop A vd"
    using uv(2,3,4) p1(2,3) by (auto simp: nth_append behind_def intro!: nth_equalityI)
  ultimately have plb: "pl = behind \<lparr>ydata = drop (w * h) yd, udata = drop A ud, vdata = drop A vd\<rparr> p1"
    by (simp add: pl_def behind_def)
  have dec: "ConvertYUVToDepth pl w h f10 (replicate (w * h) fzero) = Some out"
    unfolding plb by (rule Decode_behind [OF c(2)])
  have vid: "decode_video pl w h w h = Some (vidData d)"
    by (rule decode_video_same [OF d]) (use yd uv in \<open>simp_all add: pl_def A_def\<close>)
  obtain d' where d': "decode_frame junk (Some pl) p = Some d'" "vidData d' = vidData d" "depthData d' = take 16 (p_depthVals p) @ out"
    using dec vid p by (simp add: decode_frame_def Let_def ablock_def)
  have nth: "depthData d' ! (16 + i) = out ! i" for i using p(5) by (simp add: d'(3) nth_append)
  have "\<forall>i < h * w. decoded_depth (depthData d ! (16 + i)) (depthData d' ! (16 + i))"
    unfolding nth using val dd by simp
  moreover have "take 16 (depthData d') = take 16 (p_depthVals p)" "length (depthData d') = 16 + h * w"
    using p(5) c(3) by (simp_all add: d'(3))
  ultimately show ?thesis using s d'(1,2) by blast
qed

lemma test_frame_size: "same_size (test_frame 16 2) 16 2" "length (drop 16 (depthData (test_frame 16 2))) = 2 * 16"
    "\<forall>x \<in> set (drop 16 (depthData (test_frame 16 2))). depth_ok x"
proof -
  let ?d = "test_frame 16 2"
  have dd: "drop 16 (depthData ?d) = replicate 32 fzero" by (simp add: test_frame_def)
  show "same_size ?d 16 2" by (auto simp: same_size_def test_frame_def test_props_def)
  show "length (drop 16 (depthData ?d)) = 2 * 16" unfolding dd by simp
  show "\<forall>x \<in> set (drop 16 (depthData ?d)). depth_ok x" unfolding dd by (simp add: depth_ok_def fzero_def)
qed

lemma test_frame_survives:
  "\<exists>pl d'. stream_planes (test_frame 16 2) = Some pl \<and> decode_frame junk (Some pl) test_player = Some d'"
  using frame_survives [OF test_frame_size(1,2) pyramid_16_2 test_frame_size(3), of test_player junk]
  by (auto simp: test_player_def Player_new_def)



subsection \<open>The queue of frames\<close>

text \<open>What the callers of a queue rely on, and taking elements from one until it is empty.\<close>

fun pop_n :: "('q \<Rightarrow> 'a option \<times> 'q) \<Rightarrow> nat \<Rightarrow> 'q \<Rightarrow> 'a option list \<times> 'q" where
  "pop_n pop 0 q = ([], q)"
| "pop_n pop (Suc n) q = (let (x, q) = pop q; (xs, q) = pop_n pop n q in (x # xs, q))"

locale fifo_queue =
  fixes push :: "'a \<Rightarrow> 'q \<Rightarrow> 'q" and pop :: "'q \<Rightarrow> 'a option \<times> 'q" and items :: "'q \<Rightarrow> 'a list"
  assumes items_push: "items (push x q) = items q @ [x]"
    and pop_empty: "items q = [] \<Longrightarrow> pop q = (None, q)"
    and pop_item: "items q = x # xs \<Longrightarrow> \<exists>q'. pop q = (Some x, q') \<and> items q' = xs"
begin

lemma pop_all: "\<exists>q'. pop_n pop (length (items q)) q = (map Some (items q), q') \<and> items q' = []"
proof (induction "items q" arbitrary: q)
  case Nil
  then show ?case by simp
next
  case (Cons x xs)
  obtain q1 where q1: "pop q = (Some x, q1)" "items q1 = xs" using pop_item [OF Cons.hyps(2) [symmetric]] by blast
  then show ?case using Cons.hyps(1) [of q1] Cons.hyps(2) [symmetric] by (auto simp: Let_def)
qed

lemma pop_first: "n \<le> length (items q) \<Longrightarrow> fst (pop_n pop n q) = map Some (take n (items q))"
proof (induction n arbitrary: q)
  case (Suc n)
  then obtain x xs where q: "items q = x # xs" by (cases "items q") auto
  obtain q1 where q1: "pop q = (Some x, q1)" "items q1 = xs" using pop_item [OF q] by blast
  then show ?case using Suc.IH [of q1] Suc.prems q by (simp add: Let_def case_prod_unfold)
qed simp

lemma items_pushes: "items (fold push xs q) = items q @ xs"
  by (induction xs arbitrary: q) (simp_all add: items_push)

lemma pop_pushes: "items q = [] \<Longrightarrow> fst (pop_n pop (length xs) (fold push xs q)) = map Some xs"
  using pop_all [of "fold push xs q"] by (auto simp: items_pushes)

end

definition push_frame :: "depth_data \<Rightarrow> player \<Rightarrow> player" where
  "push_frame d p = p\<lparr>p_frames := p_frames p @ [d]\<rparr>"

lemma push_frame_fields [simp]: "p_streaming (push_frame d p) = p_streaming p" "p_faceReader (push_frame d p) = p_faceReader p"
  by (simp_all add: push_frame_def)

interpretation player_queue: fifo_queue push_frame GetNextFrame p_frames
  by unfold_locales (auto simp: push_frame_def GetNextFrame_def)

lemma decode_frame_queue: "decode_frame junk got (push_frame d p) = decode_frame junk got p"
  by (simp add: decode_frame_def push_frame_def cong: option.case_cong)

definition decodes :: "player \<Rightarrow> depth_data \<times> yuv_planes option \<Rightarrow> depth_data \<Rightarrow> bool" where
  "decodes p g d \<longleftrightarrow> decode_frame (fst g) (snd g) p = Some d"

lemma player_run_queue:
  assumes "player_run disk sw sh gs p = Some p'" and "p_streaming p" and "p_faceReader p \<noteq> None"
  shows "\<exists>ds. list_all2 (decodes p) gs ds \<and> p' = fold push_frame ds p"
  using assms
proof (induction gs arbitrary: p)
  case (Cons g gs)
  obtain junk got where g: "g = (junk, got)" by (cases g)
  obtain d where d: "decode_frame junk got p = Some d" "player_run disk sw sh gs (push_frame d p) = Some p'"
    using Cons.prems by (auto simp: g player_pass_def bind_eq_Some_conv push_frame_def)
  obtain ds where ds: "list_all2 (decodes (push_frame d p)) gs ds" "p' = fold push_frame ds (push_frame d p)"
    using Cons.IH [OF d(2)] Cons.prems(2,3) by auto
  have "decodes (push_frame d p) = decodes p" by (intro ext) (simp add: decodes_def decode_frame_queue)
  moreover have "decodes p g d" using d(1) by (simp add: g decodes_def)
  ultimately show ?case using ds by (intro exI [of _ "d # ds"]) simp
qed simp

text \<open>C13: Taking frames from a streaming player gives one frame per pass of its thread, in order,
  each decoded from what the stream returned in that pass; a pass whose read failed gives a frame
  too, with zero depths and no video.\<close>

theorem player_delivers:
  assumes "player_run disk sw sh gs p = Some p'" and "p_streaming p" and "p_faceReader p \<noteq> None" and "p_frames p = []"
  shows "\<exists>ds. list_all2 (\<lambda>g d. decode_frame (fst g) (snd g) p = Some d \<and> (snd g = None \<longrightarrow> vidData d = [])) gs ds \<and>
    fst (pop_n GetNextFrame (length gs) p') = map Some ds"
proof -
  obtain ds where ds: "list_all2 (decodes p) gs ds" "p' = fold push_frame ds p"
    using player_run_queue [OF assms(1-3)] by blast
  have "list_all2 (\<lambda>g d. decode_frame (fst g) (snd g) p = Some d \<and> (snd g = None \<longrightarrow> vidData d = [])) gs ds"
    by (rule list_all2_mono [OF ds(1)]) (auto simp: decodes_def decode_frame_def Let_def bind_eq_Some_conv)
  moreover have "length gs = length ds" using ds(1) by (rule list_all2_lengthD)
  ultimately show ?thesis using player_queue.pop_pushes [of p ds] assms(4) ds(2) by auto
qed

lemma player_delivers_witness:
  "\<exists>pl p' d e. stream_planes (test_frame 16 2) = Some pl \<and>
    player_run None 0 0 [(test_frame 16 2, Some pl), (test_frame 16 2, None)] (test_player\<lparr>p_faceReader := Some closed_file\<rparr>) = Some p' \<and>
    fst (pop_n GetNextFrame 2 p') = [Some d, Some e] \<and> vidData d = vidData (test_frame 16 2) \<and> vidData e = []"
proof -
  let ?p = "test_player\<lparr>p_faceReader := Some closed_file\<rparr>" and ?f = "test_frame 16 2"
  have s: "p_streaming ?p" "p_faceReader ?p \<noteq> None" "p_frames ?p = []" by (simp_all add: test_player_def Player_new_def)
  obtain pl d where d: "stream_planes ?f = Some pl" "decode_frame ?f (Some pl) ?p = Some d" "vidData d = vidData ?f"
    using frame_survives [OF test_frame_size(1,2) pyramid_16_2 test_frame_size(3), of ?p ?f] by (auto simp: test_player_def Player_new_def)
  obtain e where e: "decode_frame ?f None ?p = Some e"
    by (simp add: decode_frame_def test_player_def Player_new_def ablock_def Let_def)
  have "player_pass None 0 0 ?f (Some pl) ?p = Some (True, push_frame d ?p)"
    "player_pass None 0 0 ?f None (push_frame d ?p) = Some (True, push_frame e (push_frame d ?p))"
    using d(2) e s by (simp_all add: player_pass_def push_frame_def [symmetric] decode_frame_queue)
  then have "player_run None 0 0 [(?f, Some pl), (?f, None)] ?p = Some (push_frame e (push_frame d ?p))" by simp
  from player_delivers [OF this s] show ?thesis
    using d e \<open>player_run None 0 0 [(?f, Some pl), (?f, None)] ?p = Some (push_frame e (push_frame d ?p))\<close>
    by (auto simp: list_all2_Cons1 numeral_2_eq_2)
qed

text \<open>A player that is not streaming never queues a frame, whatever the decoder returns: no
  step sets the reader its thread waits for, so the loop ends in its first pass.\<close>

theorem offline_player_silent:
  assumes "player_run disk sw sh gs (Player_new False vw vh) = Some p'"
  shows "p_frames p' = []"
proof (cases gs)
  case (Cons g gs')
  obtain junk got where g: "g = (junk, got)" by (cases g)
  obtain go p1 where p1: "player_pass disk sw sh junk got (Player_new False vw vh) = Some (go, p1)"
    "(if go then player_run disk sw sh gs' p1 else Some p1) = Some p'"
    using assms by (auto simp: Cons g bind_eq_Some_conv)
  from p1(1) have "\<not> go \<and> p_frames p1 = []"
    by (auto simp: player_pass_def Player_new_def bind_eq_Some_conv Initialize_def split: if_splits)
  then show ?thesis using p1(2) by simp
qed (use assms in \<open>auto simp: Player_new_def\<close>)

end
