(* ===== verification/World.thy ===== *)
theory World
  imports Scene DepthPlanes Mesh Player
begin

text \<open>
  The world (\<open>src/core/World.cpp\<close>) with the data side of its three visuals
  (\<open>PlanesVis.cpp\<close>, \<open>PtsVis.cpp\<close>, \<open>FaceVis.cpp\<close>): touches and keys that move the camera,
  the display mode, and what arriving depth and face frames change. The group of the world lives
  in the engine's scene; the world refers to it by its place among the items of the root.
  The C++ \<open>int\<close>s that count pixels are natural numbers: image sides are below \<open>2\<^sup>3\<^sup>1\<close>.
\<close>

subsection \<open>What the visuals keep\<close>

type_synonym planes_vis = "pos_texcoord_vertex list"

record pts_vis =
  v_pts :: "vec4 list"
  v_alignMtx :: matrix

record face_vis =
  v_vertices :: "fp list"
  v_indices :: "u16 list"
  v_worldMat :: matrix
  v_faceTimestamp :: fp

text \<open>\<open>PlanesVis::SetDepthData\<close>: the corners of the planes with their texture coordinates.\<close>

definition planes_SetDepthData ::
  "plane_constants \<Rightarrow> ((tile_break \<Rightarrow> tile_break \<Rightarrow> bool) \<Rightarrow> tile_break list \<Rightarrow> tile_break list) \<Rightarrow> nat
   \<Rightarrow> depth_data \<Rightarrow> planes_vis option" where
  "planes_SetDepthData g srt fuel depth = do {
     (outCoords, outTexCoords) \<leftarrow> DepthMakePlanes g srt fuel (dpts depth)
       (int (unat (depthWidth (props depth)))) (int (unat (depthHeight (props depth))));
     omap (\<lambda>i. do { c \<leftarrow> aget outCoords i; t \<leftarrow> aget outTexCoords i; Some (PTV (vx c) (vy c) (vz c) (vx t) (vy t)) })
       [0..<length outCoords] }"

definition pts_SetDepthData :: "depth_data \<Rightarrow> pts_vis" where
  "pts_SetDepthData depth = \<lparr>v_pts = dpts depth, v_alignMtx = alignMtx depth\<rparr>"

text \<open>\<open>FaceVis::OnFaceData\<close>; a new visual has no vertices and no time stamp yet.\<close>

definition affine_of :: "fp list \<Rightarrow> matrix" where
  "affine_of xs = \<lparr>mData = xs, mState = st_AFFINE\<rparr>"

definition face_OnFaceData :: "face_props \<Rightarrow> fp list \<Rightarrow> u16 list \<Rightarrow> face_vis" where
  "face_OnFaceData p vs is = \<lparr>v_vertices = vs, v_indices = is,
     v_worldMat = mult (affine_of (viewMatf p)) (affine_of (wMatf p)), v_faceTimestamp = ftimestamp p\<rparr>"

definition FaceVis_new :: "fp \<Rightarrow> face_vis" where
  "FaceVis_new junk = \<lparr>v_vertices = [], v_indices = [], v_worldMat = identity_matrix, v_faceTimestamp = junk\<rparr>"

subsection \<open>Touches\<close>

record touch =
  t_touch :: vec2
  t_lastDragPos :: vec2
  t_isInit :: bool
  t_isDragging :: bool
  t_initCamDir :: vec2

definition v2sub :: "vec2 \<Rightarrow> vec2 \<Rightarrow> vec2" where
  "v2sub a b = V2 (subf (v2x a) (v2x b)) (subf (v2y a) (v2y b))"

definition v2scale :: "vec2 \<Rightarrow> fp \<Rightarrow> vec2" where
  "v2scale a s = V2 (mulf (v2x a) s) (mulf (v2y a) s)"

definition v2length :: "vec2 \<Rightarrow> fp" where
  "v2length a = (let r = addf (mulf (v2y a) (v2y a)) (mulf (v2x a) (v2x a)) in if feq r fzero then fzero else fsqrt F32 r)"

definition SetInitialPos :: "vec2 \<Rightarrow> touch \<Rightarrow> touch" where
  "SetInitialPos mouse t = t\<lparr>t_touch := mouse, t_isInit := True\<rparr>"

definition SetDragPos :: "vec2 \<Rightarrow> touch \<Rightarrow> touch" where
  "SetDragPos p t = t\<lparr>t_isDragging := (t_isDragging t \<or> flt (flit F64 (4 / 100)) (v2length (v2sub p (t_touch t)))),
     t_lastDragPos := p\<rparr>"

definition Touch_new :: "vec2 \<Rightarrow> touch" where
  "Touch_new camDir = \<lparr>t_touch = V2 fzero fzero, t_lastDragPos = V2 fzero fzero, t_isInit = False, t_isDragging = False, t_initCamDir = camDir\<rparr>"

subsection \<open>The world\<close>

record world =
  w_width :: int
  w_height :: int
  m_worldGroup :: "nat option"
  m_activeTouch :: "touch option"
  m_currentTool :: int
  m_shader :: nat
  m_planevis :: "planes_vis option"
  m_ptsvis :: "pts_vis option"
  m_facevis :: "face_vis option"
  m_wsHeadCenter :: vec3
  m_faceCenterXY :: vec2
  m_mode :: int
  m_prevMode :: int
  m_alignedMtx :: matrix
  m_prevDepthTimestamp :: fp
  isPaused :: bool
  g_maxTileLod :: int
  g_vel :: vec3

definition World_new :: "nat \<Rightarrow> world" where
  "World_new junk = \<lparr>w_width = -1, w_height = -1, m_worldGroup = None, m_activeTouch = None, m_currentTool = 0, m_shader = junk,
     m_planevis = None, m_ptsvis = None, m_facevis = None, m_wsHeadCenter = vzero, m_faceCenterXY = V2 fzero fzero,
     m_mode = 6, m_prevMode = -1, m_alignedMtx = identity_matrix, m_prevDepthTimestamp = Fin False (ffmax F64),
     isPaused = False, g_maxTileLod = 9, g_vel = vzero\<rparr>"

definition GetMode :: "world \<Rightarrow> int" where
  "GetMode w = m_mode w"

definition SetMode :: "int \<Rightarrow> world \<Rightarrow> world" where
  "SetMode mode w = w\<lparr>m_mode := mode\<rparr>"

definition Layout :: "int \<Rightarrow> int \<Rightarrow> world \<Rightarrow> world" where
  "Layout w h wd = wd\<lparr>w_width := w, w_height := h\<rparr>"

definition rel_pos :: "world \<Rightarrow> fp \<Rightarrow> fp \<Rightarrow> vec2" where
  "rel_pos w x y = V2 (divf x (f_of_int F32 (w_width w))) (divf y (f_of_int F32 (w_height w)))"

definition World_TouchDown :: "camera \<Rightarrow> fp \<Rightarrow> fp \<Rightarrow> world \<Rightarrow> world" where
  "World_TouchDown cam x y w =
     w\<lparr>m_activeTouch := Some (SetInitialPos (rel_pos w x y) (Touch_new (la_dir (m_lookat cam))))\<rparr>"

definition World_TouchDrag :: "fp \<Rightarrow> fp \<Rightarrow> camera \<times> world \<Rightarrow> camera \<times> world" where
  "World_TouchDrag x y s = (case s of (cam, w) \<Rightarrow>
     case m_activeTouch w of None \<Rightarrow> (cam, w)
     | Some t \<Rightarrow>
         let p = rel_pos w x y; dragDiff = v2sub p (t_touch t); la = m_lookat cam
         in (SetLookat (la\<lparr>la_dir := v2sub (t_initCamDir t) (v2scale dragDiff two)\<rparr>) cam,
             w\<lparr>m_activeTouch := Some (SetDragPos p t)\<rparr>))"

definition World_TouchUp :: "world \<Rightarrow> world" where
  "World_TouchUp w = w\<lparr>m_activeTouch := None\<rparr>"

subsection \<open>Keys\<close>

definition LeftShift :: int where "LeftShift = 16"
definition SpaceBar :: int where "SpaceBar = 32"
definition AButton :: int where "AButton = 65"
definition DButton :: int where "DButton = 68"
definition WButton :: int where "WButton = 87"
definition SButton :: int where "SButton = 83"
definition PButton :: int where "PButton = 80"

lemmas key_codes = LeftShift_def SpaceBar_def AButton_def DButton_def WButton_def SButton_def PButton_def

definition key_speed :: fp where
  "key_speed = flit F32 (1 / 10)"

text \<open>The axis of a key with its sign: right, up and forward.\<close>

definition set_axis :: "nat \<Rightarrow> fp \<Rightarrow> vec3 \<Rightarrow> vec3" where
  "set_axis i x v = (if i = 0 then V3 x (vy v) (vz v) else if i = 1 then V3 (vx v) x (vz v) else V3 (vx v) (vy v) x)"

definition World_KeyDown :: "int \<Rightarrow> world \<Rightarrow> world" where
  "World_KeyDown k w =
     (let v = g_vel w;
          w = (if k = PButton then w\<lparr>isPaused := \<not> isPaused w\<rparr>
               else if k = LeftShift then w\<lparr>g_vel := set_axis 1 (subf (vy v) key_speed) v\<rparr>
               else if k = SpaceBar then w\<lparr>g_vel := set_axis 1 (addf (vy v) key_speed) v\<rparr>
               else if k = AButton then w\<lparr>g_vel := set_axis 0 (subf (vx v) key_speed) v\<rparr>
               else if k = DButton then w\<lparr>g_vel := set_axis 0 (addf (vx v) key_speed) v\<rparr>
               else if k = WButton then w\<lparr>g_vel := set_axis 2 (subf (vz v) key_speed) v\<rparr>
               else if k = SButton then w\<lparr>g_vel := set_axis 2 (addf (vz v) key_speed) v\<rparr>
               else w)
      in if 49 \<le> k \<and> k \<le> 57 then w\<lparr>g_maxTileLod := k - 48\<rparr> else w)"

definition World_KeyUp :: "int \<Rightarrow> world \<Rightarrow> world" where
  "World_KeyUp k w =
     (if k = LeftShift \<or> k = SpaceBar then w\<lparr>g_vel := set_axis 1 fzero (g_vel w)\<rparr>
      else if k = AButton \<or> k = DButton then w\<lparr>g_vel := set_axis 0 fzero (g_vel w)\<rparr>
      else if k = WButton \<or> k = SButton then w\<lparr>g_vel := set_axis 2 fzero (g_vel w)\<rparr>
      else w)"

subsection \<open>The display mode\<close>

text \<open>Changing an item of a group in place, as code that holds a pointer to it does.\<close>

definition upd_item :: "nat \<Rightarrow> (scene_item \<Rightarrow> scene_item) \<Rightarrow> scene_item \<Rightarrow> scene_item" where
  "upd_item i f g = (case g of SceneGroup b bef aft xs \<Rightarrow> SceneGroup b bef aft (xs[i := f (xs ! i)]) | _ \<Rightarrow> g)"

definition root_items :: "'a engine \<Rightarrow> scene_item list" where
  "root_items e = (case m_root e of SceneGroup b bef aft xs \<Rightarrow> xs | _ \<Rightarrow> [])"

text \<open>The first update makes the group, loads its shader and moves the camera back; \<open>nb\<close> is a new
  \<open>SceneItem\<close>.\<close>

definition make_group :: "(string \<Rightarrow> string \<Rightarrow> nat) \<Rightarrow> scene_base \<Rightarrow> 'a engine \<times> world \<Rightarrow> 'a engine \<times> world" where
  "make_group createProgram nb s = (case s of (e, w) \<Rightarrow>
     if m_worldGroup w \<noteq> None then (e, w)
     else let i = length (root_items e);
              e = e\<lparr>m_root := AddItem (SceneGroup nb None None []) (m_root e)\<rparr>;
              (pgm, e) = LoadShader createProgram ''vs_cubes.bin'' ''fs_cubes.bin'' e;
              e = e\<lparr>m_root := upd_item i (BeforeDraw (\<lambda>ctx. (True, ctx\<lparr>m_pgm := Some pgm\<rparr>))) (m_root e)\<rparr>;
              la = m_lookat (m_camera e)
          in (e\<lparr>m_camera := SetLookat (la\<lparr>la_pos := V3 fzero fzero (flit F32 (-6 / 10))\<rparr>) (m_camera e)\<rparr>,
              w\<lparr>m_worldGroup := Some i, m_shader := pgm\<rparr>))"

text \<open>The visuals of a mode, one per bit, and the numbers of their leaves.\<close>

definition mode_leaves :: "int \<Rightarrow> nat list" where
  "mode_leaves mode = (if mode AND 1 \<noteq> 0 then [1] else []) @ (if mode AND 2 \<noteq> 0 then [2] else []) @ (if mode AND 4 \<noteq> 0 then [4] else [])"

definition switch_mode :: "scene_base \<Rightarrow> fp \<Rightarrow> 'a engine \<times> world \<Rightarrow> 'a engine \<times> world" where
  "switch_mode nb junk s = (case s of (e, w) \<Rightarrow>
     if m_mode w = m_prevMode w then (e, w)
     else let i = the (m_worldGroup w); mode = m_mode w;
              g = Group_Clear;
              g = (if mode AND 1 \<noteq> 0 then AddItem (SceneLeaf nb 1) \<circ> g else g);
              g = (if mode AND 2 \<noteq> 0 then AddItem (SceneLeaf nb 2) \<circ> g else g);
              g = (if mode AND 4 \<noteq> 0 then AddItem (SceneLeaf nb 4) \<circ> g else g)
          in (e\<lparr>m_root := upd_item i g (m_root e)\<rparr>,
              w\<lparr>m_planevis := (if mode AND 1 \<noteq> 0 then Some [] else None),
                m_ptsvis := (if mode AND 2 \<noteq> 0 then Some \<lparr>v_pts = [], v_alignMtx = identity_matrix\<rparr> else None),
                m_facevis := (if mode AND 4 \<noteq> 0 then Some (FaceVis_new junk) else None), m_prevMode := mode\<rparr>))"

definition fly_camera :: "(fp \<Rightarrow> fp) \<Rightarrow> (fp \<Rightarrow> fp) \<Rightarrow> vec3 \<Rightarrow> camera \<Rightarrow> camera" where
  "fly_camera sinf cosf v cam =
     (let la = m_lookat cam; (right, up, forward) = LookAt_GetDirs sinf cosf la
      in SetLookat (la\<lparr>la_pos := vadd (la_pos la)
           (vadd (vadd (vscale right (vx v)) (vscale up (vy v))) (vscale forward (vz v)))\<rparr>) cam)"

definition World_Update ::
  "(string \<Rightarrow> string \<Rightarrow> nat) \<Rightarrow> (fp \<Rightarrow> fp) \<Rightarrow> (fp \<Rightarrow> fp) \<Rightarrow> scene_base \<Rightarrow> fp \<Rightarrow> 'a engine \<times> world \<Rightarrow> 'a engine \<times> world" where
  "World_Update createProgram sinf cosf nb junk s =
     (let (e, w) = switch_mode nb junk (make_group createProgram nb s)
      in (e\<lparr>m_camera := fly_camera sinf cosf (g_vel w) (m_camera e)\<rparr>, w))"

subsection \<open>The scene shows the mode\<close>

fun leaf_number :: "scene_item \<Rightarrow> nat" where
  "leaf_number (SceneLeaf b i) = i"
| "leaf_number (SceneGroup b bef aft xs) = 0"

fun is_group_of :: "nat list \<Rightarrow> scene_item \<Rightarrow> bool" where
  "is_group_of ns (SceneLeaf b i) = False"
| "is_group_of ns (SceneGroup b bef aft xs) = (map leaf_number xs = ns)"

text \<open>The visuals that exist are those of the mode, and the group of the world has their leaves.\<close>

definition shows_mode :: "int \<Rightarrow> world \<Rightarrow> bool" where
  "shows_mode mode w \<longleftrightarrow> (m_planevis w \<noteq> None \<longleftrightarrow> mode AND 1 \<noteq> 0) \<and> (m_ptsvis w \<noteq> None \<longleftrightarrow> mode AND 2 \<noteq> 0) \<and>
     (m_facevis w \<noteq> None \<longleftrightarrow> mode AND 4 \<noteq> 0)"

definition world_inv :: "'a engine \<Rightarrow> world \<Rightarrow> bool" where
  "world_inv e w \<longleftrightarrow> (\<exists>b bef aft xs. m_root e = SceneGroup b bef aft xs) \<and>
     (case m_worldGroup w of None \<Rightarrow> m_prevMode w = -1
      | Some i \<Rightarrow> i < length (root_items e) \<and> is_group_of (mode_leaves (m_prevMode w)) (root_items e ! i) \<and>
          shows_mode (m_prevMode w) w)"

lemma root_items_group [simp]: "m_root e = SceneGroup b bef aft xs \<Longrightarrow> root_items e = xs"
  by (simp add: root_items_def)

lemma LoadShader_root: "LoadShader cp v p e = (h, e') \<Longrightarrow> m_root e' = m_root e"
  by (auto simp: LoadShader_def LoadShader_key_def Let_def split: option.splits)

lemma make_group_spec:
  assumes "\<exists>b bef aft xs. m_root e = SceneGroup b bef aft xs" and "m_worldGroup w = None"
    and "make_group cp nb (e, w) = (e', w')"
  shows "(\<exists>b bef aft xs. m_root e' = SceneGroup b bef aft xs) \<and>
    m_worldGroup w' = Some (length (root_items e)) \<and> m_mode w' = m_mode w \<and> m_prevMode w' = m_prevMode w \<and>
    (\<exists>bef. root_items e' = root_items e @ [SceneGroup nb (Some bef) None []])"
proof -
  obtain b bef aft xs where r: "m_root e = SceneGroup b bef aft xs" using assms(1) by blast
  obtain h e2 where l: "LoadShader cp ''vs_cubes.bin'' ''fs_cubes.bin'' (e\<lparr>m_root := AddItem (SceneGroup nb None None []) (m_root e)\<rparr>) = (h, e2)"
    by (metis surj_pair)
  have r2: "m_root e2 = SceneGroup b bef aft (xs @ [SceneGroup nb None None []])"
    using LoadShader_root [OF l] by (simp add: r AddItem_def)
  have e': "m_root e' = SceneGroup b bef aft (xs @ [SceneGroup nb (Some (\<lambda>ctx. (True, ctx\<lparr>m_pgm := Some h\<rparr>))) None []])"
    and w': "w' = w\<lparr>m_worldGroup := Some (length xs), m_shader := h\<rparr>"
    using assms(2,3) l r2 by (auto simp: make_group_def Let_def r upd_item_def BeforeDraw_def nth_append)
  show ?thesis using e' w' r by auto
qed

lemma switch_mode_spec:
  assumes "\<exists>b bef aft xs. m_root e = SceneGroup b bef aft xs" and "m_worldGroup w = Some i" and "i < length (root_items e)"
    and "is_group_of ns (root_items e ! i)" and "m_mode w \<noteq> m_prevMode w" and "switch_mode nb junk (e, w) = (e', w')"
  shows "(\<exists>b bef aft xs. m_root e' = SceneGroup b bef aft xs) \<and> m_worldGroup w' = Some i \<and> m_prevMode w' = m_mode w \<and>
    m_mode w' = m_mode w \<and> shows_mode (m_mode w) w' \<and>
    (\<exists>b bef aft. root_items e' = (root_items e)[i := SceneGroup b bef aft (map (SceneLeaf nb) (mode_leaves (m_mode w)))])"
proof -
  obtain b bef aft xs where r: "m_root e = SceneGroup b bef aft xs" using assms(1) by blast
  obtain b1 bef1 aft1 ys where g: "xs ! i = SceneGroup b1 bef1 aft1 ys"
    using assms(4) r by (cases "xs ! i") auto
  have e': "m_root e' = SceneGroup b bef aft (xs[i := SceneGroup b1 bef1 aft1 (map (SceneLeaf nb) (mode_leaves (m_mode w)))])"
    using assms(2,5,6) r g
    by (auto simp: switch_mode_def Let_def upd_item_def AddItem_def Group_Clear_def mode_leaves_def)
  have w': "m_worldGroup w' = Some i \<and> m_prevMode w' = m_mode w \<and> m_mode w' = m_mode w \<and> shows_mode (m_mode w) w'"
    using assms(2,5,6) by (auto simp: switch_mode_def Let_def shows_mode_def)
  show ?thesis using e' w' r by auto
qed

lemma leaf_numbers [simp]: "map (leaf_number \<circ> SceneLeaf nb) ns = ns"
  by (induction ns) simp_all

text \<open>The group of the world after an update, and the rest of the root.\<close>

lemma World_Update_spec:
  assumes inv: "world_inv e w" and mode: "0 \<le> m_mode w" and u: "World_Update cp sinf cosf nb junk (e, w) = (e', w')"
  shows "world_inv e' w' \<and> m_prevMode w' = m_mode w \<and> m_mode w' = m_mode w \<and> m_worldGroup w' \<noteq> None \<and>
    (\<forall>j < length (root_items e). m_worldGroup w \<noteq> Some j \<longrightarrow> root_items e' ! j = root_items e ! j) \<and>
    length (root_items e') = length (root_items e) + (if m_worldGroup w = None then 1 else 0)"
proof -
  obtain e1 w1 where g: "make_group cp nb (e, w) = (e1, w1)" by (metis surj_pair)
  obtain e2 w2 where s: "switch_mode nb junk (e1, w1) = (e2, w2)" by (metis surj_pair)
  have r: "m_root e' = m_root e2" "w' = w2" using u g s by (auto simp: World_Update_def)
  have root: "\<exists>b bef aft xs. m_root e = SceneGroup b bef aft xs" using inv by (simp add: world_inv_def)
  have ri: "root_items e' = root_items e2" using r by (simp add: root_items_def)
  then have inv': "world_inv e' w2 = world_inv e2 w2" "root_items e' = root_items e2"
    using r by (simp_all add: world_inv_def split: option.split)
  show ?thesis
  proof (cases "m_worldGroup w")
    case None
    then have p: "m_prevMode w \<noteq> m_mode w" using inv mode by (auto simp: world_inv_def)
    have m: "\<exists>b bef aft xs. m_root e1 = SceneGroup b bef aft xs" "m_worldGroup w1 = Some (length (root_items e))"
      "m_mode w1 = m_mode w" "m_prevMode w1 = m_prevMode w" "\<exists>bef. root_items e1 = root_items e @ [SceneGroup nb (Some bef) None []]"
      using make_group_spec [OF root None g] by blast+
    then have i: "length (root_items e) < length (root_items e1)" "is_group_of [] (root_items e1 ! length (root_items e))" by auto
    show ?thesis using switch_mode_spec [OF m(1,2) i _ s] m p None
      by (auto simp: inv' r(2) nth_append) (simp add: world_inv_def)
  next
    case (Some i)
    then have g': "e1 = e" "w1 = w" using g by (auto simp: make_group_def)
    have i: "i < length (root_items e)" "is_group_of (mode_leaves (m_prevMode w)) (root_items e ! i)" "shows_mode (m_prevMode w) w"
      using inv Some by (simp_all add: world_inv_def)
    show ?thesis
    proof (cases "m_mode w = m_prevMode w")
      case True
      then show ?thesis using s inv Some by (simp add: switch_mode_def g' inv' r(2))
    next
      case False
      show ?thesis using switch_mode_spec [OF root Some i(1,2) False s [unfolded g']] i(1) Some
        by (auto simp: inv' r(2)) (simp add: world_inv_def)
    qed
  qed
qed

lemma world_inv_new: "world_inv (Engine_new junk b hb hud) (World_new s)"
  by (simp add: world_inv_def Engine_new_def World_new_def)

lemma world_inv_SetMode: "world_inv e w \<Longrightarrow> world_inv e (SetMode m w)"
  by (cases "m_worldGroup w") (simp_all add: world_inv_def SetMode_def shows_mode_def)

text \<open>The mode button of the window and the updates that follow: a list of modes set in turn.\<close>

definition run_modes ::
  "(string \<Rightarrow> string \<Rightarrow> nat) \<Rightarrow> (fp \<Rightarrow> fp) \<Rightarrow> (fp \<Rightarrow> fp) \<Rightarrow> scene_base \<Rightarrow> fp \<Rightarrow> int list \<Rightarrow> 'a engine \<times> world \<Rightarrow> 'a engine \<times> world" where
  "run_modes cp sinf cosf nb junk ms s = fold (\<lambda>m (e, w). World_Update cp sinf cosf nb junk (e, SetMode m w)) ms s"

definition one_group :: "'a engine \<Rightarrow> world \<Rightarrow> bool" where
  "one_group e w \<longleftrightarrow> world_inv e w \<and> (if m_worldGroup w = None then root_items e = [] else length (root_items e) = 1)"

lemma run_modes_spec:
  assumes "one_group e w" and "ms \<noteq> []" and "\<forall>m \<in> set ms. 0 \<le> m"
    and "run_modes cp sinf cosf nb junk ms (e, w) = (e', w')"
  shows "one_group e' w' \<and> m_worldGroup w' \<noteq> None \<and> m_prevMode w' = last ms"
  using assms
proof (induction ms arbitrary: e w)
  case (Cons m ms)
  obtain e1 w1 where u: "World_Update cp sinf cosf nb junk (e, SetMode m w) = (e1, w1)" by (metis surj_pair)
  have i: "world_inv e (SetMode m w)" "0 \<le> m_mode (SetMode m w)"
    using Cons.prems(1,3) world_inv_SetMode by (auto simp: one_group_def SetMode_def)
  have o: "one_group e1 w1 \<and> m_worldGroup w1 \<noteq> None \<and> m_prevMode w1 = m"
    using World_Update_spec [OF i u] Cons.prems(1) by (auto simp: one_group_def SetMode_def)
  show ?case
  proof (cases "ms = []")
    case True
    then show ?thesis using Cons.prems(4) u o by (simp add: run_modes_def)
  next
    case False
    then show ?thesis using Cons.IH [of e1 w1] Cons.prems(3,4) u o by (simp add: run_modes_def)
  qed
qed simp

lemma paths_of_leaves: "is_group_of ns g \<Longrightarrow> 0 \<notin> set ns \<Longrightarrow> map fst (scene_paths g m) = ns"
proof (cases g)
  case (SceneGroup b bef aft xs)
  assume "is_group_of ns g" "0 \<notin> set ns"
  then have ns: "map leaf_number xs = ns" "0 \<notin> set (map leaf_number xs)" using SceneGroup by simp_all
  have "map fst (concat (map (\<lambda>x. scene_paths x k) xs)) = map leaf_number xs" for k using ns(2)
  proof (induction xs)
    case (Cons x xs)
    then show ?case by (cases x) simp_all
  qed simp
  then show ?thesis using ns(1) SceneGroup by simp
qed simp

text \<open>After any sequence of mode changes and updates of a new world, the scene of the engine draws
  exactly the visuals whose bits the last mode has, in the order planes, points, face, and exactly
  those visuals exist to take data.\<close>

lemma mode_drawn:
  assumes "ms \<noteq> []" and "\<forall>m \<in> set ms. 0 \<le> m"
    and "run_modes cp sinf cosf nb junk ms (Engine_new near b hb hud, World_new s) = (e, w)"
  shows "map fst (scene_paths (m_root e) m) = mode_leaves (last ms) \<and> shows_mode (last ms) w"
proof -
  have "one_group (Engine_new near b hb hud) (World_new s)"
    using world_inv_new by (simp add: one_group_def World_new_def Engine_new_def)
  then have o: "one_group e w" "m_worldGroup w \<noteq> None" "m_prevMode w = last ms"
    using run_modes_spec assms by blast+
  obtain b1 bef aft xs where r: "m_root e = SceneGroup b1 bef aft xs" using o(1) by (auto simp: one_group_def world_inv_def)
  then obtain g where xs: "xs = [g]" using o(1,2) by (auto simp: one_group_def length_Suc_conv)
  have g: "is_group_of (mode_leaves (last ms)) g" "shows_mode (last ms) w"
    using o r xs by (auto simp: one_group_def world_inv_def)
  have "0 \<notin> set (mode_leaves (last ms))" by (simp add: mode_leaves_def)
  then show ?thesis using paths_of_leaves [OF g(1)] g(2) r xs by simp
qed

subsection \<open>Frames\<close>

text \<open>What lies outside the modelled code, and the globals it starts with: the C library's functions,
  shader creation, \<open>std::sort\<close> on tile breaks, the plane constants, the fuel of the plane search,
  new scene items and uninitialised memory.\<close>

record sys =
  sys_sin :: "fp \<Rightarrow> fp"
  sys_cos :: "fp \<Rightarrow> fp"
  sys_tan :: "fp \<Rightarrow> fp"
  sys_program :: "string \<Rightarrow> string \<Rightarrow> nat"
  sys_sort :: "(tile_break \<Rightarrow> tile_break \<Rightarrow> bool) \<Rightarrow> tile_break list \<Rightarrow> tile_break list"
  sys_planes :: plane_constants
  sys_fuel :: nat
  sys_base :: scene_base
  sys_junk :: fp

text \<open>Blanking the depths that are not near the face: a copy of the depth values in which a value
  more than 150 pixels from the face, or more than 25 cm before or behind it, is NaN.\<close>

definition keeps_depth :: "world \<Rightarrow> depth_props \<Rightarrow> nat \<Rightarrow> fp \<Rightarrow> bool" where
  "keeps_depth w p i v =
     (let dw = unat (depthWidth p); f = m_faceCenterXY w; half = flit F32 (1 / 2);
          cx = mulf (mulf (addf (fneg (v2x f)) fone) half) (f_of_int F32 (int dw));
          cy = mulf (mulf (addf (fneg (v2y f)) fone) half) (f_of_int F32 (int (unat (depthHeight p))));
          px = f_of_int F32 (int (i mod dw)); py = f_of_int F32 (int (i div dw));
          distSq = addf (mulf (subf px cx) (subf px cx)) (mulf (subf py cy) (subf py cy));
          faceDepth = fneg (vz (m_wsHeadCenter w)); d = flit F32 (1 / 4)
      in isnan v \<or> isinf v \<or> \<not> (flt (f_of_int F32 22500) distSq \<or> flt v (subf faceDepth d) \<or> flt (addf faceDepth d) v))"

definition filter_face :: "world \<Rightarrow> depth_data \<Rightarrow> fp list option" where
  "filter_face w d =
     (if length (depthData d) < 16 then None
      else Some (take 16 (depthData d) @
        map (\<lambda>(i, v). if keeps_depth w (props d) i v then v else NaN) (enumerate 0 (drop 16 (depthData d)))))"

text \<open>The levels of detail of the blanked image; the code computes them and then uses level 0, which
  is the image as it came.\<close>

definition face_lods :: "fp list \<Rightarrow> depth_props \<Rightarrow> fp list option" where
  "face_lods filtereddata p =
     (let dw = unat (depthWidth p); dh = unat (depthHeight p); sizes = lod_sizes dw dh
      in DepthBuildLods (drop 16 filtereddata) (replicate (lod_offset sizes (length sizes)) fzero) dw dh)"

definition depth_points :: "sys \<Rightarrow> depth_data \<Rightarrow> depth_data option" where
  "depth_points sys d = do {
     hdr \<leftarrow> read_ycrcb (vidData d);
     (hdr, pts) \<leftarrow> GetDepthPointsWithColor (depth_rotation (sys_sin sys) (sys_cos sys)) (depthData d) hdr (drop 16 (vidData d))
       (unat (vidWidth (props d))) (unat (vidHeight (props d))) (dpts d) (unat (depthWidth (props d))) (unat (depthHeight (props d)))
       (f_of_int F32 10000);
     Some (d\<lparr>vidData := ycrcb_bytes hdr @ drop 16 (vidData d), dpts := pts\<rparr>) }"

definition show_depth :: "sys \<Rightarrow> depth_data \<Rightarrow> world \<Rightarrow> (depth_data \<times> world) option" where
  "show_depth sys d w =
     (let d = d\<lparr>alignMtx := m_alignedMtx w\<rparr>
      in do {
        planes \<leftarrow> (case m_planevis w of None \<Rightarrow> Some None
          | Some _ \<Rightarrow> map_option Some (planes_SetDepthData (sys_planes sys) (sys_sort sys) (sys_fuel sys) d));
        Some (d, w\<lparr>m_planevis := planes,
          m_ptsvis := (case m_ptsvis w of None \<Rightarrow> None | Some _ \<Rightarrow> Some (pts_SetDepthData d))\<rparr>) })"

text \<open>A time stamp that goes back resets the alignment.\<close>

definition reset_align :: "depth_data \<Rightarrow> world \<Rightarrow> world" where
  "reset_align d w =
     w\<lparr>m_alignedMtx := (if flt (timestamp (props d)) (m_prevDepthTimestamp w) then identity_matrix else m_alignedMtx w)\<rparr>"

definition World_OnDepthBuffer :: "sys \<Rightarrow> depth_data \<Rightarrow> world \<Rightarrow> (depth_data \<times> world) option" where
  "World_OnDepthBuffer sys d w =
     (let w = reset_align d w
      in do {
        (d, w) \<leftarrow> (if isPaused w then Some (d, w)
          else do {
            filtereddata \<leftarrow> filter_face w d;
            _ \<leftarrow> face_lods filtereddata (props d);
            d \<leftarrow> depth_points sys d;
            show_depth sys d w });
        Some (d, w\<lparr>m_prevDepthTimestamp := timestamp (props d)\<rparr>) })"

text \<open>The first face frame, and every one while the head is at depth zero, sets the head and the
  centre of the face on the screen.\<close>

definition locate_face :: "face_props \<Rightarrow> world \<Rightarrow> world" where
  "locate_face p w =
     (let wm = mult (affine_of (viewMatf p)) (affine_of (wMatf p));
          pos = xform_vec4 wm (V4 fzero fzero (flit F32 (-25 / 1000)) fone);
          wm = mult \<lparr>mData = projMatf p, mState = st_FULL\<rparr> wm;
          q = xform_vec4 wm (V4 fzero fzero fzero fone)
      in w\<lparr>m_wsHeadCenter := V3 (wx pos) (wy pos) (wz pos), m_faceCenterXY := V2 (divf (wx q) (ww q)) (divf (wy q) (ww q))\<rparr>)"

definition World_OnFaceData :: "face_props \<Rightarrow> fp list \<Rightarrow> u16 list \<Rightarrow> world \<Rightarrow> world" where
  "World_OnFaceData p vs is w =
     (if isPaused w then w
      else let w = (if feq (vz (m_wsHeadCenter w)) fzero then locate_face p w else w)
           in w\<lparr>m_facevis := (case m_facevis w of None \<Rightarrow> None | Some _ \<Rightarrow> Some (face_OnFaceData p vs is))\<rparr>)"

text \<open>Moving the face.\<close>

definition move_face :: "vec3 \<Rightarrow> vec2 \<Rightarrow> world \<Rightarrow> world" where
  "move_face c f w = w\<lparr>m_wsHeadCenter := c, m_faceCenterXY := f\<rparr>"

lemma move_face_simps [simp]: "isPaused (move_face c f w) = isPaused w" "m_alignedMtx (move_face c f w) = m_alignedMtx w"
  "m_prevDepthTimestamp (move_face c f w) = m_prevDepthTimestamp w" "m_planevis (move_face c f w) = m_planevis w"
  "m_ptsvis (move_face c f w) = m_ptsvis w"
  "move_face c f w\<lparr>m_alignedMtx := m\<rparr> = move_face c f (w\<lparr>m_alignedMtx := m\<rparr>)"
  "move_face c f w\<lparr>m_prevDepthTimestamp := t\<rparr> = move_face c f (w\<lparr>m_prevDepthTimestamp := t\<rparr>)"
  by (simp_all add: move_face_def)

lemma show_depth_move:
  "show_depth sys d (move_face c f w) = map_option (\<lambda>(d, w). (d, move_face c f w)) (show_depth sys d w)"
  by (cases "m_planevis w"; cases "planes_SetDepthData (sys_planes sys) (sys_sort sys) (sys_fuel sys) (d\<lparr>alignMtx := m_alignedMtx w\<rparr>)")
    (simp_all add: show_depth_def Let_def move_face_def)

lemma show_depth_points:
  "show_depth sys d w = Some (d', w') \<Longrightarrow> m_ptsvis w \<noteq> None \<Longrightarrow> m_ptsvis w' = Some \<lparr>v_pts = dpts d', v_alignMtx = alignMtx d'\<rparr>"
  by (auto simp: show_depth_def Let_def pts_SetDepthData_def bind_eq_Some_conv)

lemma reset_align_simps [simp]: "isPaused (reset_align d w) = isPaused w" "m_ptsvis (reset_align d w) = m_ptsvis w"
  "m_planevis (reset_align d w) = m_planevis w" "reset_align d (move_face c f w) = move_face c f (reset_align d w)"
  by (simp_all add: reset_align_def)

lemma World_OnDepthBuffer_cases:
  assumes "World_OnDepthBuffer sys d w = Some (d', w')"
  shows "(isPaused w \<and> d' = d \<and> w' = (reset_align d w)\<lparr>m_prevDepthTimestamp := timestamp (props d)\<rparr>) \<or>
    (\<not> isPaused w \<and> (\<exists>d1 w1. depth_points sys d = Some d1 \<and> show_depth sys d1 (reset_align d w) = Some (d', w1) \<and>
       w' = w1\<lparr>m_prevDepthTimestamp := timestamp (props d')\<rparr>))"
  using assms by (cases "isPaused w") (auto simp: World_OnDepthBuffer_def Let_def bind_eq_Some_conv)

text \<open>The blanking around the face has no effect: when a depth frame arrives with two different face
  positions, the points, the alignment and what the visuals are given are the same.\<close>

lemma face_filter_unused:
  assumes "World_OnDepthBuffer sys d w = Some (d1, w1)"
    and "World_OnDepthBuffer sys d (move_face c f w) = Some (d2, w2)"
  shows "d2 = d1 \<and> w2 = move_face c f w1 \<and>
    (\<not> isPaused w \<longrightarrow> m_ptsvis w \<noteq> None \<longrightarrow> m_ptsvis w1 = Some \<lparr>v_pts = dpts d1, v_alignMtx = alignMtx d1\<rparr>)"
  using World_OnDepthBuffer_cases [OF assms(1)] World_OnDepthBuffer_cases [OF assms(2)]
  by (auto simp: show_depth_move dest: show_depth_points)

definition test_sys :: sys where
  "test_sys = \<lparr>sys_sin = id, sys_cos = id, sys_tan = id, sys_program = (\<lambda>v p. 0), sys_sort = isort, sys_planes = default_constants,
     sys_fuel = 9, sys_base = test_base, sys_junk = fzero\<rparr>"

text \<open>A frame without pixels, with a point it came with.\<close>

definition tiny_frame :: depth_data where
  "tiny_frame = \<lparr>props = test_props, vidData = ycrcb_bytes (video_header 0 0), depthData = replicate 16 fone,
     dpts = [V4 fone fone fone fzero], alignMtx = identity_matrix\<rparr>"

lemma tiny_read: "read_ycrcb (vidData tiny_frame) = Some (video_header 0 0)"
  by code_simp

lemma tiny_lods: "filter_face w tiny_frame = Some (replicate 16 fone)" "face_lods (replicate 16 fone) (props tiny_frame) \<noteq> None"
  by (simp_all add: filter_face_def tiny_frame_def face_lods_def test_props_def lod_sizes.simps lod_offset_def DepthBuildLods_def ablock_def
      lod_levels.simps)

lemma tiny_points: "depth_points test_sys tiny_frame =
    Some (tiny_frame\<lparr>vidData := ycrcb_bytes (normalise_yuv (video_header 0 0))\<rparr>)"
  using tiny_read
  by (simp add: depth_points_def GetDepthPointsWithColor_def Let_def tiny_frame_def test_props_def depth_intrinsics_def
      video_header_def normalise_yuv_def pairs_by_def ycrcb_bytes_def int_bytes_def aget_def)

lemma tiny_shown:
  assumes "\<not> isPaused w" and "m_planevis w = None"
  shows "\<exists>d' w'. World_OnDepthBuffer test_sys tiny_frame w = Some (d', w') \<and> dpts d' = dpts tiny_frame"
  using assms tiny_lods(2)
  by (auto simp: World_OnDepthBuffer_def Let_def tiny_lods(1) tiny_points show_depth_def)

end
