(* ===== verification/Application.thy ===== *)
theory Application
  imports World
begin

text \<open>
  The application (\<open>src/core/Application.cpp\<close>): touches, keys and the window size passed on to the
  world and the engine, the tick with the player, the buttons of the window, and the frames that
  arrive and are recorded and shown. The file-static \<open>sStartTime\<close> is a field. The window
  library is an input: which buttons were pressed and the number of the frame.
\<close>

record 'a app =
  a_world :: world
  a_engine :: "'a engine"
  a_width :: int
  a_height :: int
  a_touchDown :: vec2
  a_touchPos :: vec2
  a_frameIdx :: int
  a_buttonDown :: bool
  a_documentsPath :: string
  a_clientInit :: bool
  a_isrecording :: bool
  a_wasrecording :: bool
  a_deviceTimestamp :: fp
  a_bkgWriter :: recorder
  a_player :: "player option"
  a_sStartTime :: fp

definition Application_new :: "fp \<Rightarrow> 'a engine \<Rightarrow> world \<Rightarrow> recorder \<Rightarrow> 'a app" where
  "Application_new junk e w r = \<lparr>a_world = w, a_engine = e, a_width = 0, a_height = 0, a_touchDown = V2 fzero fzero, a_touchPos = V2 fzero fzero,
     a_frameIdx = 0, a_buttonDown = False, a_documentsPath = [], a_clientInit = False, a_isrecording = True, a_wasrecording = False,
     a_deviceTimestamp = junk, a_bkgWriter = r, a_player = None, a_sStartTime = f_of_int F64 (-1)\<rparr>"

definition App_Initialize :: "string \<Rightarrow> 'a app \<Rightarrow> 'a app" where
  "App_Initialize folder a = a\<lparr>a_documentsPath := folder, a_clientInit := True\<rparr>"

subsection \<open>Input\<close>

definition App_TouchDown :: "fp \<Rightarrow> fp \<Rightarrow> 'a app \<Rightarrow> 'a app" where
  "App_TouchDown x y a = a\<lparr>a_touchDown := V2 x y, a_touchPos := V2 x y, a_buttonDown := True,
     a_world := World_TouchDown (m_camera (a_engine a)) x y (a_world a)\<rparr>"

definition App_TouchMove :: "fp \<Rightarrow> fp \<Rightarrow> 'a app \<Rightarrow> 'a app" where
  "App_TouchMove x y a =
     (if \<not> a_buttonDown a then a
      else let (cam, w) = World_TouchDrag x y (m_camera (a_engine a), a_world a)
           in a\<lparr>a_touchPos := V2 x y, a_engine := (a_engine a)\<lparr>m_camera := cam\<rparr>, a_world := w\<rparr>)"

definition App_TouchUp :: "'a app \<Rightarrow> 'a app" where
  "App_TouchUp a = a\<lparr>a_buttonDown := False, a_world := World_TouchUp (a_world a)\<rparr>"

definition App_KeyDown :: "int \<Rightarrow> 'a app \<Rightarrow> 'a app" where
  "App_KeyDown k a = a\<lparr>a_world := World_KeyDown k (a_world a)\<rparr>"

definition App_KeyUp :: "int \<Rightarrow> 'a app \<Rightarrow> 'a app" where
  "App_KeyUp k a = a\<lparr>a_world := World_KeyUp k (a_world a)\<rparr>"

definition App_Resize :: "int \<Rightarrow> int \<Rightarrow> 'a app \<Rightarrow> 'a app" where
  "App_Resize w h a = a\<lparr>a_width := w, a_height := h, a_engine := Engine_Resize w h (a_engine a), a_world := Layout w h (a_world a)\<rparr>"

subsection \<open>Time\<close>

definition start_time :: "fp \<Rightarrow> 'a app \<Rightarrow> 'a app" where
  "start_time t a = (if flt (a_sStartTime a) fzero then a\<lparr>a_sStartTime := t\<rparr> else a)"

text \<open>The player is made at the first tick, a streaming one; \<open>vw\<close> and \<open>vh\<close> are fields it leaves unset.\<close>

definition App_Tick :: "sys \<Rightarrow> ('a \<Rightarrow> fp \<Rightarrow> bool \<times> 'a) \<Rightarrow> nat \<Rightarrow> nat \<Rightarrow> fp \<Rightarrow> fp \<Rightarrow> 'a app \<Rightarrow> 'a app option" where
  "App_Tick sys tick vw vh time deviceTimestamp a =
     (let a = start_time deviceTimestamp a;
          a = a\<lparr>a_deviceTimestamp := fsub F64 deviceTimestamp (a_sStartTime a)\<rparr>;
          p = (case a_player a of None \<Rightarrow> Player_new True vw vh | Some p \<Rightarrow> p);
          (frame, p) = GetNextFrame p;
          a = a\<lparr>a_player := Some p\<rparr>
      in do {
        w \<leftarrow> (case frame of None \<Rightarrow> Some (a_world a)
              | Some d \<Rightarrow> map_option snd (World_OnDepthBuffer sys d (a_world a)));
        Some (a\<lparr>a_world := w, a_engine := Engine_Tick (sys_sin sys) (sys_cos sys) (sys_tan sys) tick time (a_engine a)\<rparr>) })"

text \<open>Drawing a frame: the world brings the scene up to date, the engine draws it, then the buttons.\<close>

definition App_Draw :: "sys \<Rightarrow> bool \<Rightarrow> bool \<Rightarrow> int \<Rightarrow> 'a app \<Rightarrow> draw_event list \<times> 'a app" where
  "App_Draw sys modeButton recordButton frame a =
     (let (e, w) = World_Update (sys_program sys) (sys_sin sys) (sys_cos sys) (sys_base sys) (sys_junk sys) (a_engine a, a_world a);
          (_, evs, e) = Engine_Draw \<lparr>m_pgm = None, m_mat = identity_matrix, m_deviceTimestamp = a_deviceTimestamp a\<rparr> e;
          w = (if modeButton then SetMode ((GetMode w + 1) AND 7) w else w)
      in (evs, a\<lparr>a_engine := e, a_world := w, a_isrecording := (a_isrecording a \<noteq> recordButton), a_frameIdx := frame + 1\<rparr>))"

subsection \<open>Frames\<close>

definition record_switch :: "depth_props \<Rightarrow> mat44 \<Rightarrow> 'a app \<Rightarrow> recorder" where
  "record_switch p m a =
     (if a_isrecording a \<and> \<not> a_wasrecording a then StartRecording (a_documentsPath a) (a_bkgWriter a)
      else if \<not> a_isrecording a \<and> a_wasrecording a then StopRecording p m (a_bkgWriter a)
      else a_bkgWriter a)"

definition rebase :: "fp \<Rightarrow> depth_data \<Rightarrow> depth_data" where
  "rebase t d = d\<lparr>props := (props d)\<lparr>timestamp := fsub F64 (timestamp (props d)) t\<rparr>\<rparr>"

text \<open>The frame is passed by reference: it comes back with the new time stamp and the points. \<open>p\<close> and
  \<open>m\<close> are the default fields of a stop frame.\<close>

definition App_OnDepthBuffer :: "sys \<Rightarrow> depth_props \<Rightarrow> mat44 \<Rightarrow> depth_data \<Rightarrow> 'a app \<Rightarrow> (depth_data \<times> 'a app) option" where
  "App_OnDepthBuffer sys p m d a =
     (let a = start_time (timestamp (props d)) a; d = rebase (a_sStartTime a) d;
          r = record_switch p m a; r = (if a_isrecording a then WriteFrame d r else r)
      in do {
        (d, w) \<leftarrow> World_OnDepthBuffer sys d (a_world a);
        Some (d, a\<lparr>a_bkgWriter := r, a_world := w, a_wasrecording := a_isrecording a\<rparr>) })"

definition App_OnFaceData :: "depth_props \<Rightarrow> mat44 \<Rightarrow> face_props \<Rightarrow> fp list \<Rightarrow> u16 list \<Rightarrow> 'a app \<Rightarrow> face_props \<times> 'a app" where
  "App_OnFaceData p m fp vs is a =
     (let a = start_time (ftimestamp fp) a; fp = fp\<lparr>ftimestamp := fsub F64 (ftimestamp fp) (a_sStartTime a)\<rparr>;
          r = record_switch p m a; r = (if a_isrecording a then WriteFaceFrame fp vs is r else r)
      in (fp, a\<lparr>a_bkgWriter := r, a_world := World_OnFaceData fp vs is (a_world a)\<rparr>))"

subsection \<open>Recording sessions\<close>

definition depth_frames :: "sys \<Rightarrow> depth_props \<Rightarrow> mat44 \<Rightarrow> depth_data list \<Rightarrow> 'a app \<Rightarrow> 'a app option" where
  "depth_frames sys p m ds a = ofold (\<lambda>d a. map_option snd (App_OnDepthBuffer sys p m d a)) ds a"

lemma App_OnDepthBuffer_Some:
  assumes "App_OnDepthBuffer sys p m d a = Some (d', a')"
  shows "a_isrecording a' = a_isrecording a \<and> a_wasrecording a' = a_isrecording a \<and> a_documentsPath a' = a_documentsPath a \<and>
    a_sStartTime a' = a_sStartTime (start_time (timestamp (props d)) a) \<and>
    a_bkgWriter a' = (if a_isrecording a then WriteFrame (rebase (a_sStartTime a') d) (record_switch p m a) else record_switch p m a)"
  using assms by (auto simp: App_OnDepthBuffer_def Let_def bind_eq_Some_conv start_time_def record_switch_def)

lemma start_time_kept: "\<not> flt (a_sStartTime a) fzero \<Longrightarrow> start_time t a = a"
  by (simp add: start_time_def)

lemma StartRecording_queue [simp]: "m_depthDataQueue (StartRecording s r) = m_depthDataQueue r" "m_outputPath (StartRecording s r) = s"
  by (simp_all add: StartRecording_def)

lemma WriteFrame_queue [simp]: "m_depthDataQueue (WriteFrame d r) = m_depthDataQueue r @ [d]" "m_outputPath (WriteFrame d r) = m_outputPath r"
  by (simp_all add: WriteFrame_def)

lemma record_frames:
  assumes "a_isrecording a" and "\<not> flt (a_sStartTime a) fzero" and "a_wasrecording a"
    and "depth_frames sys p m ds a = Some a'"
  shows "m_depthDataQueue (a_bkgWriter a') = m_depthDataQueue (a_bkgWriter a) @ map (rebase (a_sStartTime a)) ds \<and>
    m_outputPath (a_bkgWriter a') = m_outputPath (a_bkgWriter a) \<and> a_sStartTime a' = a_sStartTime a"
  using assms
proof (induction ds arbitrary: a)
  case (Cons d ds)
  obtain d1 a1 where o: "App_OnDepthBuffer sys p m d a = Some (d1, a1)" "depth_frames sys p m ds a1 = Some a'"
    using Cons.prems(4) by (auto simp: depth_frames_def bind_eq_Some_conv)
  note s = App_OnDepthBuffer_Some [OF o(1)] start_time_kept [OF Cons.prems(2)]
  show ?case using Cons.IH [of a1] s Cons.prems o(2) by (simp add: record_switch_def)
qed (simp add: depth_frames_def)

text \<open>C38: When recording has just been switched on, no tick has set a start time yet and the first time stamp
  is not negative, depth frames are put into the queue of the recorder in the order they arrive, with time
  stamps counted from the first of them, which becomes the start time; and the recorder's folder is set to that
  of the application. (The recorder later streams the depth frames to a fixed address, not into that folder.)\<close>

theorem frames_recorded:
  assumes "a_isrecording a" and "\<not> a_wasrecording a" and "flt (a_sStartTime a) fzero" and "\<not> flt (timestamp (props d)) fzero"
    and "depth_frames sys p m (d # ds) a = Some a'"
  shows "m_depthDataQueue (a_bkgWriter a') = m_depthDataQueue (a_bkgWriter a) @ map (rebase (timestamp (props d))) (d # ds) \<and>
    m_outputPath (a_bkgWriter a') = a_documentsPath a \<and> a_sStartTime a' = timestamp (props d)"
proof -
  obtain d1 a1 where o: "App_OnDepthBuffer sys p m d a = Some (d1, a1)" "depth_frames sys p m ds a1 = Some a'"
    using assms(5) by (auto simp: depth_frames_def bind_eq_Some_conv)
  have s: "a_isrecording a1" "a_wasrecording a1" "a_sStartTime a1 = timestamp (props d)"
    "a_bkgWriter a1 = WriteFrame (rebase (timestamp (props d)) d) (StartRecording (a_documentsPath a) (a_bkgWriter a))"
    using App_OnDepthBuffer_Some [OF o(1)] assms(1-3) by (simp_all add: start_time_def record_switch_def)
  show ?thesis using record_frames [of a1, OF s(1) _ s(2) o(2)] s(3,4) assms(4) by simp
qed

definition test_app :: "unit app" where
  "test_app = (Application_new fzero (Engine_new fzero test_base test_base 0) (World_new 0) (Recorder_new False (replicate 16 fzero)))
     \<lparr>a_documentsPath := ''docs''\<rparr>"

lemma test_depth:
  assumes "\<not> isPaused (a_world a)" and "m_planevis (a_world a) = None" and "a_sStartTime a = fzero \<or> flt (a_sStartTime a) fzero"
  shows "\<exists>d' a'. App_OnDepthBuffer test_sys test_props identity_matrix tiny_frame a = Some (d', a')"
proof -
  have r: "rebase fzero tiny_frame = tiny_frame" by code_simp
  have t: "timestamp (props tiny_frame) = fzero" by (simp add: tiny_frame_def test_props_def)
  have "a_sStartTime (start_time fzero a) = fzero" using assms(3) by (auto simp: start_time_def)
  moreover have "a_world (start_time fzero a) = a_world a" by (simp add: start_time_def)
  ultimately show ?thesis using tiny_shown [OF assms(1,2)] r by (auto simp: App_OnDepthBuffer_def Let_def t)
qed

lemma minus_one_neg: "flt (f_of_int F64 (-1)) fzero"
  by code_simp

lemma test_app_fields [simp]: "a_isrecording test_app" "\<not> a_wasrecording test_app" "flt (a_sStartTime test_app) fzero"
  "\<not> isPaused (a_world test_app)" "m_planevis (a_world test_app) = None" "m_depthDataQueue (a_bkgWriter test_app) = []"
  "a_documentsPath test_app = ''docs''" "timestamp (props tiny_frame) = fzero"
  using minus_one_neg
  by (simp_all add: test_app_def Application_new_def World_new_def Recorder_new_def tiny_frame_def test_props_def)

lemma frames_recorded_witness:
  "\<exists>a'. depth_frames test_sys test_props identity_matrix [tiny_frame] test_app = Some a' \<and>
     m_depthDataQueue (a_bkgWriter a') = [tiny_frame] \<and> m_outputPath (a_bkgWriter a') = ''docs''"
proof -
  obtain d' a' where a: "App_OnDepthBuffer test_sys test_props identity_matrix tiny_frame test_app = Some (d', a')"
    using test_depth [of test_app] by auto
  then have r: "depth_frames test_sys test_props identity_matrix [tiny_frame] test_app = Some a'" by (simp add: depth_frames_def)
  have "rebase fzero tiny_frame = tiny_frame" by code_simp
  then show ?thesis using frames_recorded [OF _ _ _ _ r] r by simp
qed

text \<open>Face frames do not update \<open>m_wasrecording\<close>.\<close>

definition face_frames :: "depth_props \<Rightarrow> mat44 \<Rightarrow> face_frame list \<Rightarrow> 'a app \<Rightarrow> 'a app" where
  "face_frames p m fs a = fold (\<lambda>f a. snd (App_OnFaceData p m (ff_props f) (ff_vertices f) (ff_indices f) a)) fs a"

lemma App_OnFaceData_fields:
  "a_isrecording (snd (App_OnFaceData p m fp vs is a)) = a_isrecording a"
  "a_wasrecording (snd (App_OnFaceData p m fp vs is a)) = a_wasrecording a"
  "\<not> a_isrecording a \<Longrightarrow> a_bkgWriter (snd (App_OnFaceData p m fp vs is a)) = record_switch p m a"
  by (simp_all add: App_OnFaceData_def Let_def start_time_def record_switch_def)

lemma StopRecording_queue [simp]: "m_depthDataQueue (StopRecording p m r) = m_depthDataQueue r @ [stop_frame p m]"
  by (simp add: StopRecording_def)

lemma stops_per_face:
  assumes "\<not> a_isrecording a" and "a_wasrecording a"
  shows "m_depthDataQueue (a_bkgWriter (face_frames p m fs a)) = m_depthDataQueue (a_bkgWriter a) @ replicate (length fs) (stop_frame p m)"
  using assms
proof (induction fs arbitrary: a)
  case (Cons f fs)
  show ?case using Cons.IH [of "snd (App_OnFaceData p m (ff_props f) (ff_vertices f) (ff_indices f) a)"] Cons.prems
    by (simp add: face_frames_def App_OnFaceData_fields record_switch_def replicate_app_Cons_same)
qed (simp add: face_frames_def)

lemma no_stops_later:
  assumes "\<not> a_isrecording a" and "\<not> a_wasrecording a" and "depth_frames sys p m ds a = Some a'"
  shows "a_bkgWriter a' = a_bkgWriter a"
  using assms
proof (induction ds arbitrary: a)
  case (Cons d ds)
  obtain d1 a1 where o: "App_OnDepthBuffer sys p m d a = Some (d1, a1)" "depth_frames sys p m ds a1 = Some a'"
    using Cons.prems(3) by (auto simp: depth_frames_def bind_eq_Some_conv)
  show ?case using Cons.IH [of a1] App_OnDepthBuffer_Some [OF o(1)] Cons.prems(1,2) o(2) by (simp add: record_switch_def)
qed (simp add: depth_frames_def)

text \<open>C39: Once the record button ended a recording, the depth frames that follow queue one stop frame in
  all, but every face frame that arrives before the next depth frame queues one more.\<close>

theorem stop_frames:
  assumes "\<not> a_isrecording a" and "a_wasrecording a" and "depth_frames sys p m (d # ds) (face_frames p m fs a) = Some a'"
  shows "m_depthDataQueue (a_bkgWriter a') = m_depthDataQueue (a_bkgWriter a) @ replicate (length fs + 1) (stop_frame p m)"
proof -
  let ?b = "face_frames p m fs a"
  have b: "\<not> a_isrecording ?b" "a_wasrecording ?b"
    using assms(1,2) by (induction fs arbitrary: a) (simp_all add: face_frames_def App_OnFaceData_fields)
  obtain d1 a1 where o: "App_OnDepthBuffer sys p m d ?b = Some (d1, a1)" "depth_frames sys p m ds a1 = Some a'"
    using assms(3) by (auto simp: depth_frames_def bind_eq_Some_conv)
  have "\<not> a_isrecording a1" "\<not> a_wasrecording a1" "a_bkgWriter a1 = StopRecording p m (a_bkgWriter ?b)"
    using App_OnDepthBuffer_Some [OF o(1)] b by (simp_all add: record_switch_def)
  then show ?thesis using no_stops_later [OF _ _ o(2)] stops_per_face [OF assms(1,2), of p m fs]
    by (simp add: replicate_append_same [symmetric])
qed

definition test_face :: face_frame where
  "test_face = \<lparr>ff_props = \<lparr>ftimestamp = fzero, viewMatf = mData identity_matrix, wMatf = mData identity_matrix, projMatf = mData identity_matrix\<rparr>,
     ff_vertices = [], ff_indices = []\<rparr>"

lemma stop_frames_witness:
  "\<exists>a'. depth_frames test_sys test_props identity_matrix [tiny_frame]
      (face_frames test_props identity_matrix [test_face, test_face] (test_app\<lparr>a_isrecording := False, a_wasrecording := True\<rparr>)) = Some a' \<and>
     m_depthDataQueue (a_bkgWriter a') = replicate 3 (stop_frame test_props identity_matrix)"
proof -
  let ?b = "face_frames test_props identity_matrix [test_face, test_face] (test_app\<lparr>a_isrecording := False, a_wasrecording := True\<rparr>)"
  have f: "isPaused (World_OnFaceData fp vs ixs w) = isPaused w" "m_planevis (World_OnFaceData fp vs ixs w) = m_planevis w" for fp vs ixs w
    by (simp_all add: World_OnFaceData_def locate_face_def Let_def)
  have "\<not> isPaused (a_world ?b)" "m_planevis (a_world ?b) = None" "a_sStartTime ?b = fzero"
    by (simp_all add: face_frames_def App_OnFaceData_def Let_def start_time_def f test_face_def)
  then obtain d' a' where a: "App_OnDepthBuffer test_sys test_props identity_matrix tiny_frame ?b = Some (d', a')"
    using test_depth [of ?b] by auto
  then have r: "depth_frames test_sys test_props identity_matrix [tiny_frame] ?b = Some a'" by (simp add: depth_frames_def)
  show ?thesis using stop_frames [OF _ _ r] r by (simp add: numeral_3_eq_3)
qed

end
