(* ===== verification/PtOps.thy ===== *)
theory PtOps
  imports GmtlMat DepthPts
begin

text \<open>
  Small value types: pixel offsets and points (\<open>src/core/Pt.h\<close>), tree points and the growing of
  a box by a point (\<open>src/core/PtsLib.h\<close>). C++ \<open>int\<close>s are integers; \<open>isinf\<close> and \<open>isnan\<close> are those
  of the floats.
\<close>

subsection \<open>Pixel offsets\<close>

definition badval :: int where
  "badval = - 0xFFFF"

datatype dxy = DXY (dx: int) (dy: int)

definition DXY_zero :: dxy where
  "DXY_zero = DXY 0 0"

definition DXY_IsValid :: "dxy \<Rightarrow> bool" where
  "DXY_IsValid d \<longleftrightarrow> dx d \<noteq> badval \<and> dy d \<noteq> badval"

definition DXY_LengthSq :: "dxy \<Rightarrow> int" where
  "DXY_LengthSq d = dx d * dx d + dy d * dy d"

definition DXY_minus :: "dxy \<Rightarrow> dxy \<Rightarrow> dxy" where
  "DXY_minus l r = DXY (dx l - dx r) (dy l - dy r)"

definition DXY_plus :: "dxy \<Rightarrow> dxy \<Rightarrow> dxy" where
  "DXY_plus l r = DXY (dx l + dx r) (dy l + dy r)"

subsection \<open>Points\<close>

datatype pt = Pt (pt_x: fp) (pt_y: fp) (pt_z: fp)

definition Pt_zero :: pt where
  "Pt_zero = Pt fzero fzero fzero"

definition Pt_add_assign :: "pt \<Rightarrow> pt \<Rightarrow> pt" where
  "Pt_add_assign p r = Pt (addf (pt_x p) (pt_x r)) (addf (pt_y p) (pt_y r)) (addf (pt_z p) (pt_z r))"

definition Pt_mul_assign :: "pt \<Rightarrow> fp \<Rightarrow> pt" where
  "Pt_mul_assign p s = Pt (mulf (pt_x p) s) (mulf (pt_y p) s) (mulf (pt_z p) s)"

definition Pt_IsValid :: "pt \<Rightarrow> bool" where
  "Pt_IsValid p \<longleftrightarrow> \<not> isinf (pt_x p) \<and> (\<not> feq (pt_x p) fzero \<or> \<not> feq (pt_y p) fzero \<or> \<not> feq (pt_z p) fzero)"

definition Pt_LengthSq :: "pt \<Rightarrow> fp" where
  "Pt_LengthSq p = addf (addf (mulf (pt_x p) (pt_x p)) (mulf (pt_y p) (pt_y p))) (mulf (pt_z p) (pt_z p))"

definition Pt_Length :: "pt \<Rightarrow> fp" where
  "Pt_Length p = fsqrt F32 (Pt_LengthSq p)"

definition Pt_Normalize :: "pt \<Rightarrow> pt" where
  "Pt_Normalize p = Pt_mul_assign p (divf fone (Pt_Length p))"

definition Pt_minus :: "pt \<Rightarrow> pt \<Rightarrow> pt" where
  "Pt_minus l r = Pt (subf (pt_x l) (pt_x r)) (subf (pt_y l) (pt_y r)) (subf (pt_z l) (pt_z r))"

definition Pt_Cross :: "pt \<Rightarrow> pt \<Rightarrow> pt" where
  "Pt_Cross l r = Pt
     (subf (mulf (pt_y l) (pt_z r)) (mulf (pt_z l) (pt_y r)))
     (subf (mulf (pt_z l) (pt_x r)) (mulf (pt_x l) (pt_z r)))
     (subf (mulf (pt_x l) (pt_y r)) (mulf (pt_y l) (pt_x r)))"

definition Pt_Dot :: "pt \<Rightarrow> pt \<Rightarrow> fp" where
  "Pt_Dot l r = addf (addf (mulf (pt_x l) (pt_x r)) (mulf (pt_y l) (pt_y r))) (mulf (pt_z l) (pt_z r))"

text \<open>The origin and the points with an infinite x are invalid; normalising the origin gives NaN,
  which counts as valid.\<close>

text \<open>Normalising the origin gives three NaNs, and the validity test accepts the result.\<close>

theorem normalize_origin:
  "\<not> Pt_IsValid Pt_zero \<and> Pt_Normalize Pt_zero = Pt NaN NaN NaN \<and> Pt_IsValid (Pt_Normalize Pt_zero)"
  by code_simp

subsection \<open>Tree points\<close>

record tree_pt =
  tp_color :: RGBt
  tp_normal :: vec3
  firstFrame :: int
  lastFrame :: int
  nHits :: int

text \<open>The constructor leaves \<open>lastFrame\<close> unset: \<open>junk\<close> is what the memory holds.\<close>

definition TreePt_new :: "int \<Rightarrow> RGBt \<Rightarrow> vec3 \<Rightarrow> int \<Rightarrow> tree_pt" where
  "TreePt_new junk rgb nrm ff = \<lparr>tp_color = rgb, tp_normal = nrm, firstFrame = ff, lastFrame = junk, nHits = 0\<rparr>"

definition Aggregate :: "tree_pt \<Rightarrow> tree_pt \<Rightarrow> tree_pt" where
  "Aggregate p other =
     (let p = p\<lparr>firstFrame := min (firstFrame p) (firstFrame other)\<rparr>
      in p\<lparr>lastFrame := max (firstFrame p) (firstFrame other)\<rparr>)"

lemma Aggregate_frames1 [simp]:
  "firstFrame (Aggregate p q) = min (firstFrame p) (firstFrame q)" "lastFrame (Aggregate p q) = firstFrame q"
  by (simp_all add: Aggregate_def Let_def)

text \<open>Aggregating a list of points leaves the smallest first frame, and as last frame the
  first frame of the last point aggregated, not the largest frame seen.\<close>

theorem aggregate_frames:
  assumes "qs \<noteq> []"
  shows "firstFrame (fold (\<lambda>q p. Aggregate p q) qs p) = Min (insert (firstFrame p) (firstFrame ` set qs)) \<and>
    lastFrame (fold (\<lambda>q p. Aggregate p q) qs p) = firstFrame (last qs)"
  using assms
proof (induction qs rule: rev_induct)
  case (snoc q qs)
  have "firstFrame (fold (\<lambda>q p. Aggregate p q) qs p) = Min (insert (firstFrame p) (firstFrame ` set qs))"
    using snoc.IH by (cases "qs = []") simp_all
  moreover have "insert (firstFrame p) (firstFrame ` set (qs @ [q])) = insert (firstFrame q) (insert (firstFrame p) (firstFrame ` set qs))"
    by auto
  moreover have "Min (insert (firstFrame q) (insert (firstFrame p) (firstFrame ` set qs))) =
      min (firstFrame q) (Min (insert (firstFrame p) (firstFrame ` set qs)))"
    by (rule Min_insert) simp_all
  ultimately show ?case by (simp only: fold_append comp_def fold_simps Aggregate_frames1 last_snoc min.commute simp_thms)
qed simp

subsection \<open>Growing a box\<close>

definition point_IsValid :: "vec3 \<Rightarrow> bool" where
  "point_IsValid p \<longleftrightarrow> vx p \<noteq> NaN \<and> \<not> isinf (vx p)"

definition expand_lo :: "fp \<Rightarrow> fp \<Rightarrow> fp" where
  "expand_lo v lo = (if flt v lo then v else lo)"

definition expand_hi :: "fp \<Rightarrow> fp \<Rightarrow> fp" where
  "expand_hi v hi = (if flt hi v then v else hi)"

definition AAExpand :: "aabox \<Rightarrow> vec3 \<Rightarrow> aabox" where
  "AAExpand b v = b\<lparr>
     mMin := V3 (expand_lo (vx v) (vx (mMin b))) (expand_lo (vy v) (vy (mMin b))) (expand_lo (vz v) (vz (mMin b))),
     mMax := V3 (expand_hi (vx v) (vx (mMax b))) (expand_hi (vy v) (vy (mMax b))) (expand_hi (vz v) (vz (mMax b)))\<rparr>"

definition vnan_free :: "vec3 \<Rightarrow> bool" where
  "vnan_free v \<longleftrightarrow> vx v \<noteq> NaN \<and> vy v \<noteq> NaN \<and> vz v \<noteq> NaN"

definition vle :: "vec3 \<Rightarrow> vec3 \<Rightarrow> bool" where
  "vle a b \<longleftrightarrow> fle (vx a) (vx b) \<and> fle (vy a) (vy b) \<and> fle (vz a) (vz b)"

definition in_box :: "aabox \<Rightarrow> vec3 \<Rightarrow> bool" where
  "in_box b p \<longleftrightarrow> vle (mMin b) p \<and> vle p (mMax b)"

lemma fle_not_flt: "x \<noteq> NaN \<Longrightarrow> y \<noteq> NaN \<Longrightarrow> fle x y \<longleftrightarrow> \<not> flt y x"
  by (cases x; cases y) (auto simp: fle_def)

lemma fle_trans: "fle x y \<Longrightarrow> fle y z \<Longrightarrow> fle x z"
  by (cases x; cases y; cases z) (auto simp: fle_def split: if_splits)

lemma fle_self: "x \<noteq> NaN \<Longrightarrow> fle x x"
  by (simp add: fle_not_flt)

lemma flt_fle: "flt x y \<Longrightarrow> fle x y"
  by (simp add: fle_def)

lemma expand_lo_le: "v \<noteq> NaN \<Longrightarrow> lo \<noteq> NaN \<Longrightarrow> expand_lo v lo \<noteq> NaN \<and> fle (expand_lo v lo) v \<and> fle (expand_lo v lo) lo"
  by (auto simp: expand_lo_def fle_not_flt flt_fle fle_self dest: flt_trans)

lemma expand_hi_ge: "v \<noteq> NaN \<Longrightarrow> hi \<noteq> NaN \<Longrightarrow> expand_hi v hi \<noteq> NaN \<and> fle v (expand_hi v hi) \<and> fle hi (expand_hi v hi)"
  by (auto simp: expand_hi_def fle_not_flt flt_fle fle_self dest: flt_trans)

definition box_ok :: "aabox \<Rightarrow> bool" where
  "box_ok b \<longleftrightarrow> vnan_free (mMin b) \<and> vnan_free (mMax b)"

lemma AAExpand_step:
  assumes "box_ok b" and "vnan_free v"
  shows "box_ok (AAExpand b v) \<and> in_box (AAExpand b v) v \<and> vle (mMin (AAExpand b v)) (mMin b) \<and> vle (mMax b) (mMax (AAExpand b v))"
  using assms by (simp add: box_ok_def vnan_free_def in_box_def vle_def AAExpand_def expand_lo_le expand_hi_ge)

lemma vle_trans: "vle a b \<Longrightarrow> vle b c \<Longrightarrow> vle a c"
  unfolding vle_def using fle_trans by blast

lemma AAExpand_grows:
  "box_ok b \<Longrightarrow> vnan_free v \<Longrightarrow> in_box b p \<Longrightarrow> in_box (AAExpand b v) p"
  using AAExpand_step [of b v] vle_trans unfolding in_box_def by blast

text \<open>Growing a box by points that have no NaN keeps what it contained and contains the points,
  but never clears the empty mark a new box starts with.\<close>

lemma aaexpand_contains:
  assumes "box_ok b" and "\<forall>v \<in> set vs. vnan_free v"
  shows "box_ok (fold (\<lambda>v b. AAExpand b v) vs b) \<and> (\<forall>p. in_box b p \<or> p \<in> set vs \<longrightarrow> in_box (fold (\<lambda>v b. AAExpand b v) vs b) p) \<and>
    mEmpty (fold (\<lambda>v b. AAExpand b v) vs b) = mEmpty b"
  using assms
proof (induction vs arbitrary: b)
  case (Cons v vs)
  have s: "box_ok (AAExpand b v)" "in_box (AAExpand b v) v" "\<And>p. in_box b p \<Longrightarrow> in_box (AAExpand b v) p"
    using AAExpand_step [of b v] AAExpand_grows [of b v] Cons.prems by auto
  have "mEmpty (AAExpand b v) = mEmpty b" by (simp add: AAExpand_def)
  then show ?case using Cons.IH [OF s(1)] Cons.prems(2) s(2,3) by auto
qed simp

end
