(* ===== verification/WinMain.thy ===== *)
theory WinMain
  imports Application PtOps
begin

text \<open>
  Two parts of the Windows program (\<open>src/win/map.cpp\<close>): the key messages of its window procedure and the
  playback of a capture by its timer, which hands the frames that are due to the application. The program
  they belong to is in \<open>Window\<close>.
\<close>

subsection \<open>Keys\<close>

datatype key_msg = KeyDownMsg nat | KeyUpMsg nat

text \<open>\<open>keystate\<close> filters the repeated messages of a key that is held; a key code that is no index of
  it is undefined behaviour.\<close>

fun wnd_key :: "key_msg \<Rightarrow> bool list \<times> 'a app \<Rightarrow> (bool list \<times> 'a app) option" where
  "wnd_key (KeyDownMsg k) (keystate, a) = do {
     held \<leftarrow> aget keystate k;
     Some (if held then (keystate, a) else (keystate[k := True], App_KeyDown (int k) a)) }"
| "wnd_key (KeyUpMsg k) (keystate, a) = do {
     held \<leftarrow> aget keystate k;
     Some (if held then (keystate[k := False], App_KeyUp (int k) a) else (keystate, a)) }"

definition wnd_keys :: "key_msg list \<Rightarrow> bool list \<times> 'a app \<Rightarrow> (bool list \<times> 'a app) option" where
  "wnd_keys ms s = ofold wnd_key ms s"

fun key_of :: "key_msg \<Rightarrow> nat" where
  "key_of (KeyDownMsg k) = k"
| "key_of (KeyUpMsg k) = k"

text \<open>The velocity of an axis with a key for each direction: none, or the speed of a key that is held.\<close>

definition axis_ok :: "bool \<Rightarrow> bool \<Rightarrow> fp \<Rightarrow> bool" where
  "axis_ok neg pos v \<longleftrightarrow> feq v fzero \<or> (neg \<and> v = fneg key_speed) \<or> (pos \<and> v = key_speed)"

lemma key_speed_val: "key_speed = Fin False (13421773 / 2 ^ 27)"
proof -
  have 1: "ilog2 (1 / 10) < -3" by (rule ilog2_less_iff) (simp_all add: power_int_def power_divide)
  have 2: "-5 < ilog2 (1 / 10)"
  proof (rule ccontr)
    assume "\<not> -5 < ilog2 (1 / 10)"
    then have "(2::rat) powi (ilog2 (1 / 10) + 1) \<le> 2 powi (-4)" by (intro power_int_increasing) simp_all
    then show False using ilog2_bounds(2) [of "1 / 10"] by (simp add: power_int_def power_divide)
  qed
  have i: "ilog2 (1 / 10) = -4" using 1 2 by simp
  have f: "\<lfloor>67108864 / 5 :: rat\<rfloor> = 13421772" by (rule floor_unique) simp_all
  have r: "rne (67108864 / 5) = 13421773" by (simp add: rne_def Let_def f)
  have "rnd F32 (1 / 10) = 13421773 / 2 ^ 27"
    by (simp add: rnd_def fquantum_def i power_int_def r power_divide)
  then show ?thesis by (simp add: key_speed_def flit_def fround_def)
qed

lemma key_speed_round: "fround F32 t (13421773 / 2 ^ 27) = Fin t (13421773 / 2 ^ 27)"
proof (rule fround_exact)
  show "representable F32 (13421773 / 2 ^ 27)" unfolding representable_def
  proof (intro exI conjI)
    show "13421773 / 2 ^ 27 = of_int 13421773 * (2::rat) powi -27" by (simp add: power_int_def power_divide)
  qed simp_all
qed simp_all

lemma speed_arith:
  "subf (Fin z 0) key_speed = fneg key_speed" "addf (Fin z 0) key_speed = key_speed"
  "addf (fneg key_speed) key_speed = fzero" "subf key_speed key_speed = fzero"
proof -
  define q :: rat where "q = 13421773 / 2 ^ 27"
  have q: "0 < q" by (simp add: q_def)
  have k: "key_speed = Fin False q" "\<And>t. fround F32 t q = Fin t q" using key_speed_val key_speed_round by (simp_all add: q_def)
  show "subf (Fin z 0) key_speed = fneg key_speed" "addf (Fin z 0) key_speed = key_speed"
   "addf (fneg key_speed) key_speed = fzero" "subf key_speed key_speed = fzero"
    using q by (simp_all add: k fsub_def sval_def Let_def fzero_def)
qed
lemma axis_ok_steps:
  "axis_ok False pos v \<Longrightarrow> axis_ok True pos (subf v key_speed)"
  "axis_ok neg False v \<Longrightarrow> axis_ok neg True (addf v key_speed)"
  "axis_ok neg pos fzero"
  using speed_arith by (auto simp: axis_ok_def feq_zero_iff) (auto simp: fzero_def)

lemma axis_ok_down:
  assumes "axis_ok (ks ! n) (ks ! p) v" and "n \<noteq> p" and "\<not> ks ! k" and "n < length ks" and "p < length ks" and "k < length ks"
  shows "axis_ok (ks[k := True] ! n) (ks[k := True] ! p) (if k = n then subf v key_speed else if k = p then addf v key_speed else v)"
proof -
  consider "k = n" | "k = p" | "k \<noteq> n" "k \<noteq> p" by blast
  then show ?thesis
    by cases (use assms in \<open>simp_all add: axis_ok_steps\<close>)
qed

lemma axis_ok_up:
  assumes "axis_ok (ks ! n) (ks ! p) v" and "n < length ks" and "p < length ks" and "k < length ks"
  shows "axis_ok (ks[k := False] ! n) (ks[k := False] ! p) (if k = n \<or> k = p then fzero else v)"
proof (cases "k = n \<or> k = p")
  case True
  then show ?thesis by (simp add: axis_ok_steps(3))
next
  case False
  then show ?thesis using assms by simp
qed

lemma KeyDown_vel:
  "vx (g_vel (World_KeyDown (int k) w)) = (if k = 65 then subf (vx (g_vel w)) key_speed else if k = 68 then addf (vx (g_vel w)) key_speed else vx (g_vel w))"
  "vy (g_vel (World_KeyDown (int k) w)) = (if k = 16 then subf (vy (g_vel w)) key_speed else if k = 32 then addf (vy (g_vel w)) key_speed else vy (g_vel w))"
  "vz (g_vel (World_KeyDown (int k) w)) = (if k = 87 then subf (vz (g_vel w)) key_speed else if k = 83 then addf (vz (g_vel w)) key_speed else vz (g_vel w))"
  by (simp_all add: World_KeyDown_def Let_def key_codes set_axis_def)

lemma KeyUp_vel:
  "vx (g_vel (World_KeyUp (int k) w)) = (if k = 65 \<or> k = 68 then fzero else vx (g_vel w))"
  "vy (g_vel (World_KeyUp (int k) w)) = (if k = 16 \<or> k = 32 then fzero else vy (g_vel w))"
  "vz (g_vel (World_KeyUp (int k) w)) = (if k = 87 \<or> k = 83 then fzero else vz (g_vel w))"
  by (simp_all add: World_KeyUp_def key_codes set_axis_def)

definition keys_ok :: "bool list \<Rightarrow> 'a app \<Rightarrow> bool" where
  "keys_ok ks a \<longleftrightarrow> length ks = 256 \<and> axis_ok (ks ! 65) (ks ! 68) (vx (g_vel (a_world a))) \<and>
     axis_ok (ks ! 16) (ks ! 32) (vy (g_vel (a_world a))) \<and> axis_ok (ks ! 87) (ks ! 83) (vz (g_vel (a_world a)))"

lemma keys_ok_down:
  assumes "keys_ok ks a" and "k < 256" and "\<not> ks ! k"
  shows "keys_ok (ks[k := True]) (App_KeyDown (int k) a)"
  using assms axis_ok_down [of ks 65 68 _ k] axis_ok_down [of ks 16 32 _ k] axis_ok_down [of ks 87 83 _ k]
  unfolding keys_ok_def App_KeyDown_def by (simp add: KeyDown_vel)

lemma keys_ok_up:
  assumes "keys_ok ks a" and "k < 256"
  shows "keys_ok (ks[k := False]) (App_KeyUp (int k) a)"
  using assms axis_ok_up [of ks 65 68 _ k] axis_ok_up [of ks 16 32 _ k] axis_ok_up [of ks 87 83 _ k]
  unfolding keys_ok_def App_KeyUp_def by (simp add: KeyUp_vel)

lemma keys_ok_step:
  assumes "keys_ok ks a" and "key_of m < 256"
  shows "\<exists>ks' a'. wnd_key m (ks, a) = Some (ks', a') \<and> keys_ok ks' a'"
proof -
  have l: "length ks = 256" using assms(1) by (simp add: keys_ok_def)
  show ?thesis
  proof (cases m)
    case (KeyDownMsg k)
    then show ?thesis using assms l keys_ok_down [of ks a k] by (cases "ks ! k") (simp_all add: aget_def)
  next
    case (KeyUpMsg k)
    then show ?thesis using assms l keys_ok_up [of ks a k] by (cases "ks ! k") (simp_all add: aget_def)
  qed
qed

text \<open>Any sequence of key messages with codes below 256 is handled, and leaves along each axis no
  velocity or the speed, once, in a direction whose key is held: repeated messages do not add up
  and no velocity is left when neither key is held.\<close>

lemma key_velocity:
  assumes "keys_ok ks a" and "\<forall>m \<in> set ms. key_of m < 256"
  shows "\<exists>ks' a'. wnd_keys ms (ks, a) = Some (ks', a') \<and> keys_ok ks' a' \<and>
    (\<not> ks' ! 65 \<and> \<not> ks' ! 68 \<longrightarrow> feq (vx (g_vel (a_world a'))) fzero)"
proof -
  have "\<exists>ks' a'. wnd_keys ms (ks, a) = Some (ks', a') \<and> keys_ok ks' a'"
    using assms
  proof (induction ms arbitrary: ks a)
    case (Cons m ms)
    then obtain k1 a1 where s: "wnd_key m (ks, a) = Some (k1, a1)" "keys_ok k1 a1" using keys_ok_step [of ks a m] by auto
    then show ?case using Cons.IH [OF s(2)] Cons.prems(2) by (simp add: wnd_keys_def)
  qed (simp add: wnd_keys_def)
  then show ?thesis by (auto simp: keys_ok_def axis_ok_def)
qed

subsection \<open>Playback\<close>

record 'a win =
  w_frames :: playback
  w_firsttick :: bool
  sCurtime :: fp
  curDepthIdx :: nat
  curFaceIdx :: nat
  w_app :: "'a app"

text \<open>Both advance loops: \<open>ts\<close> are the time stamps. With no frame, \<open>size() - 1\<close> wraps and the first
  access is out of bounds.\<close>

function advance :: "fp list \<Rightarrow> nat \<Rightarrow> fp \<Rightarrow> nat option" where
  "advance ts cur t =
     (if ts = [] then None
      else if cur < length ts - 1 \<and> fle (ts ! (cur + 1)) t then advance ts (cur + 1) t
      else Some cur)"
  by pat_completeness auto

termination
  by (relation "measure (\<lambda>(ts, cur, t). length ts - cur)") auto

declare advance.simps [simp del]

definition depth_times :: "playback \<Rightarrow> fp list" where
  "depth_times f = map (\<lambda>d. timestamp (df_props d)) (depthFrames f)"

definition face_times :: "playback \<Rightarrow> fp list" where
  "face_times f = map (\<lambda>d. ftimestamp (ff_props d)) (faceFrames f)"

text \<open>A depth frame is copied for the application; the face properties are passed by reference, so the
  stored frame gets the time stamp the application leaves in them.\<close>

definition deliver_depth :: "sys \<Rightarrow> depth_props \<Rightarrow> mat44 \<Rightarrow> 'a win \<Rightarrow> 'a win option" where
  "deliver_depth sys p m s = do {
     df \<leftarrow> aget (depthFrames (w_frames s)) (curDepthIdx s);
     (_, a) \<leftarrow> App_OnDepthBuffer sys p m
       \<lparr>props = df_props df, vidData = df_vid df, depthData = df_depth df, dpts = [], alignMtx = identity_matrix\<rparr> (w_app s);
     Some (s\<lparr>w_app := a\<rparr>) }"

definition deliver_face :: "depth_props \<Rightarrow> mat44 \<Rightarrow> 'a win \<Rightarrow> 'a win option" where
  "deliver_face p m s = do {
     ff \<leftarrow> aget (faceFrames (w_frames s)) (curFaceIdx s);
     let (fp, a) = App_OnFaceData p m (ff_props ff) (ff_vertices ff) (ff_indices ff) (w_app s)
     in Some (s\<lparr>w_app := a,
          w_frames := (w_frames s)\<lparr>faceFrames := (faceFrames (w_frames s))[curFaceIdx s := ff\<lparr>ff_props := fp\<rparr>]\<rparr>\<rparr>) }"

text \<open>After the frames the clock goes on by a sixtieth of a second and wraps at the end of the capture.\<close>

definition next_time :: "'a win \<Rightarrow> 'a win" where
  "next_time s =
     (let t = fadd F64 (sCurtime s) (divf fone (f_of_int F32 60))
      in if flt (sEndTime (w_frames s)) t then s\<lparr>sCurtime := sStartTime (w_frames s), curDepthIdx := 0, curFaceIdx := 0\<rparr>
         else s\<lparr>sCurtime := t\<rparr>)"

text \<open>The frames of one timer tick; the first tick has read the capture, \<open>loaded\<close>.\<close>

definition tick_frames :: "sys \<Rightarrow> depth_props \<Rightarrow> mat44 \<Rightarrow> playback option \<Rightarrow> 'a win \<Rightarrow> 'a win option" where
  "tick_frames sys p m loaded s = do {
     s \<leftarrow> (if w_firsttick s then map_option (\<lambda>f. s\<lparr>w_frames := f, sCurtime := sStartTime f\<rparr>) loaded else Some s);
     d \<leftarrow> advance (depth_times (w_frames s)) (curDepthIdx s) (sCurtime s);
     f \<leftarrow> advance (face_times (w_frames s)) (curFaceIdx s) (sCurtime s);
     let due_d = (w_firsttick s \<or> d \<noteq> curDepthIdx s); due_f = (w_firsttick s \<or> f \<noteq> curFaceIdx s);
         s = s\<lparr>curDepthIdx := d, curFaceIdx := f\<rparr>
     in do {
       s \<leftarrow> (if due_d then deliver_depth sys p m s else Some s);
       s \<leftarrow> (if due_f then deliver_face p m s else Some s);
       Some (next_time (s\<lparr>w_firsttick := False\<rparr>)) } }"

subsection \<open>Frames that are due\<close>

definition times_ok :: "fp list \<Rightarrow> bool" where
  "times_ok ts \<longleftrightarrow> NaN \<notin> set ts \<and> sorted_wrt (\<lambda>a b. \<not> flt b a) ts"

lemma times_ok_nth: "times_ok ts \<Longrightarrow> i < length ts \<Longrightarrow> ts ! i \<noteq> NaN"
  unfolding times_ok_def by (metis nth_mem)

lemma times_ok_later:
  assumes "times_ok ts" and "i \<le> j" and "j < length ts" and "flt t (ts ! i)"
  shows "flt t (ts ! j)"
proof (cases "i = j")
  case False
  then have "\<not> flt (ts ! j) (ts ! i)" using assms by (simp add: times_ok_def sorted_wrt_iff_nth_less)
  then show ?thesis using flt_negtrans [of "ts ! j" t "ts ! i"] times_ok_nth [OF assms(1,3)] assms(4) by blast
qed (use assms in simp)

lemma advance_due:
  assumes "times_ok ts" and "cur < length ts" and "t \<noteq> NaN"
  shows "\<exists>c. advance ts cur t = Some c \<and> cur \<le> c \<and> c < length ts \<and> (c \<noteq> cur \<longrightarrow> fle (ts ! c) t) \<and>
    (\<forall>j < length ts. c < j \<longrightarrow> flt t (ts ! j))"
  using assms
proof (induction ts cur t rule: advance.induct)
  case (1 ts cur t)
  show ?case
  proof (cases "cur < length ts - 1 \<and> fle (ts ! (cur + 1)) t")
    case True
    then have a: "advance ts cur t = advance ts (cur + 1) t" using "1.prems"(2) by (subst advance.simps) auto
    have n: "cur + 1 < length ts" "ts \<noteq> []" using True "1.prems"(2) by auto
    obtain c where c: "advance ts (cur + 1) t = Some c" "cur + 1 \<le> c" "c < length ts"
      "c \<noteq> cur + 1 \<longrightarrow> fle (ts ! c) t" "\<forall>j < length ts. c < j \<longrightarrow> flt t (ts ! j)"
      using "1.IH" [OF n(2) True "1.prems"(1) n(1) "1.prems"(3)] by blast
    then show ?thesis using True a by (cases "c = cur + 1") auto
  next
    case False
    then have a: "advance ts cur t = Some cur" using "1.prems"(2) by (subst advance.simps) auto
    have "flt t (ts ! j)" if j: "j < length ts" "cur < j" for j
    proof -
      have "flt t (ts ! (cur + 1))"
        using False j times_ok_nth [OF "1.prems"(1), of "cur + 1"] "1.prems"(3) by (auto simp: fle_not_flt)
      then show ?thesis using times_ok_later [OF "1.prems"(1), of "cur + 1" j] j by simp
    qed
    then show ?thesis using a "1.prems"(2) by blast
  qed
qed

text \<open>The application after one tick: what the deliveries changed.\<close>

lemma deliver_depth_Some:
  assumes "deliver_depth sys p m s = Some s'"
  shows "w_frames s' = w_frames s \<and> curDepthIdx s' = curDepthIdx s \<and> curFaceIdx s' = curFaceIdx s \<and> sCurtime s' = sCurtime s \<and>
    w_firsttick s' = w_firsttick s \<and> a_isrecording (w_app s') = a_isrecording (w_app s) \<and>
    a_sStartTime (w_app s') = a_sStartTime (start_time (timestamp (df_props (depthFrames (w_frames s) ! curDepthIdx s))) (w_app s))"
  using assms by (auto simp: deliver_depth_def bind_eq_Some_conv split: prod.splits dest: App_OnDepthBuffer_Some)

lemma deliver_face_Some:
  assumes "deliver_face p m s = Some s'"
  shows "curDepthIdx s' = curDepthIdx s \<and> curFaceIdx s' = curFaceIdx s \<and> sCurtime s' = sCurtime s \<and> w_firsttick s' = w_firsttick s \<and>
    depthFrames (w_frames s') = depthFrames (w_frames s) \<and> sStartTime (w_frames s') = sStartTime (w_frames s) \<and>
    sEndTime (w_frames s') = sEndTime (w_frames s) \<and>
    (let i = curFaceIdx s; ff = faceFrames (w_frames s) ! i; st = a_sStartTime (start_time (ftimestamp (ff_props ff)) (w_app s))
     in a_sStartTime (w_app s') = st \<and> i < length (faceFrames (w_frames s)) \<and>
        faceFrames (w_frames s') = (faceFrames (w_frames s))[i := ff\<lparr>ff_props := (ff_props ff)\<lparr>ftimestamp := fsub F64 (ftimestamp (ff_props ff)) st\<rparr>\<rparr>])"
  using assms by (auto simp: deliver_face_def Let_def bind_eq_Some_conv App_OnFaceData_def split: prod.splits)

lemma next_time_fields [simp]: "w_frames (next_time s) = w_frames s" "w_app (next_time s) = w_app s"
  by (simp_all add: next_time_def Let_def)

lemma tick_frames_Some:
  assumes "tick_frames sys p m loaded s = Some s'" and "\<not> w_firsttick s"
  shows "\<exists>d f s1. advance (depth_times (w_frames s)) (curDepthIdx s) (sCurtime s) = Some d \<and>
    advance (face_times (w_frames s)) (curFaceIdx s) (sCurtime s) = Some f \<and> s' = next_time s1 \<and>
    curDepthIdx s1 = d \<and> curFaceIdx s1 = f \<and> sCurtime s1 = sCurtime s \<and>
    depthFrames (w_frames s1) = depthFrames (w_frames s) \<and> sEndTime (w_frames s1) = sEndTime (w_frames s) \<and>
    (f = curFaceIdx s \<longrightarrow> faceFrames (w_frames s1) = faceFrames (w_frames s))"
proof -
  obtain d f where af: "advance (depth_times (w_frames s)) (curDepthIdx s) (sCurtime s) = Some d"
    "advance (face_times (w_frames s)) (curFaceIdx s) (sCurtime s) = Some f"
    using assms by (auto simp: tick_frames_def bind_eq_Some_conv)
  define s0 where "s0 = s\<lparr>curDepthIdx := d, curFaceIdx := f\<rparr>"
  have "\<exists>s1. (if d \<noteq> curDepthIdx s then deliver_depth sys p m s0 else Some s0) = Some s1 \<and>
      (\<exists>s2. (if f \<noteq> curFaceIdx s then deliver_face p m s1 else Some s1) = Some s2 \<and> s' = next_time (s2\<lparr>w_firsttick := False\<rparr>))"
    using assms af by (simp only: tick_frames_def bind_eq_Some_conv s0_def Let_def if_False simp_thms option.inject bind.bind_lunit) blast
  then obtain s1 s2 where d1: "(if d \<noteq> curDepthIdx s then deliver_depth sys p m s0 else Some s0) = Some s1"
    and f2: "(if f \<noteq> curFaceIdx s then deliver_face p m s1 else Some s1) = Some s2" "s' = next_time (s2\<lparr>w_firsttick := False\<rparr>)"
    by blast
  have s1: "curDepthIdx s1 = d" "curFaceIdx s1 = f" "sCurtime s1 = sCurtime s" "w_frames s1 = w_frames s"
    using d1 deliver_depth_Some [of sys p m s0 s1] by (auto simp: s0_def split: if_splits)
  have "curDepthIdx s2 = d \<and> curFaceIdx s2 = f \<and> sCurtime s2 = sCurtime s \<and> depthFrames (w_frames s2) = depthFrames (w_frames s) \<and>
      sEndTime (w_frames s2) = sEndTime (w_frames s) \<and> (f = curFaceIdx s \<longrightarrow> faceFrames (w_frames s2) = faceFrames (w_frames s))"
    using f2(1) deliver_face_Some [of p m s1 s2] s1 by (auto split: if_splits)
  then show ?thesis using af f2(2) by (intro exI [of _ d] exI [of _ f] exI [of _ "s2\<lparr>w_firsttick := False\<rparr>"]) simp
qed

text \<open>The frame that is due among those from the current one on.\<close>

definition due :: "fp list \<Rightarrow> fp \<Rightarrow> nat \<Rightarrow> nat \<Rightarrow> bool" where
  "due ts t cur c \<longleftrightarrow> cur \<le> c \<and> c < length ts \<and> (c \<noteq> cur \<longrightarrow> fle (ts ! c) t) \<and> (\<forall>j < length ts. c < j \<longrightarrow> flt t (ts ! j))"

definition wraps :: "'a win \<Rightarrow> bool" where
  "wraps s \<longleftrightarrow> flt (sEndTime (w_frames s)) (fadd F64 (sCurtime s) (divf fone (f_of_int F32 60)))"

text \<open>C40: On time stamps in order, a timer tick moves each of the two playback positions to the last
  frame that is due at the current time, never back and never out of range, unless the clock wraps:
  then both return to the first frame and the clock to the start.\<close>

theorem playback_due:
  assumes "tick_frames sys p m loaded s = Some s'" and "\<not> w_firsttick s"
    and "times_ok (depth_times (w_frames s))" and "curDepthIdx s < length (depthFrames (w_frames s))"
    and "times_ok (face_times (w_frames s))" and "curFaceIdx s < length (faceFrames (w_frames s))" and "sCurtime s \<noteq> NaN"
  shows "if wraps s then curDepthIdx s' = 0 \<and> curFaceIdx s' = 0 \<and> sCurtime s' = sStartTime (w_frames s')
    else due (depth_times (w_frames s)) (sCurtime s) (curDepthIdx s) (curDepthIdx s') \<and>
      due (face_times (w_frames s)) (sCurtime s) (curFaceIdx s) (curFaceIdx s')"
proof -
  obtain d f s1 where t: "advance (depth_times (w_frames s)) (curDepthIdx s) (sCurtime s) = Some d"
    "advance (face_times (w_frames s)) (curFaceIdx s) (sCurtime s) = Some f" "s' = next_time s1"
    "curDepthIdx s1 = d" "curFaceIdx s1 = f" "sCurtime s1 = sCurtime s" "sEndTime (w_frames s1) = sEndTime (w_frames s)"
    using tick_frames_Some [OF assms(1,2)] by blast
  have "due (depth_times (w_frames s)) (sCurtime s) (curDepthIdx s) d" "due (face_times (w_frames s)) (sCurtime s) (curFaceIdx s) f"
    using advance_due [OF assms(3) _ assms(7), of "curDepthIdx s"] advance_due [OF assms(5) _ assms(7), of "curFaceIdx s"] assms(4,6) t(1,2)
    by (auto simp: due_def depth_times_def face_times_def)
  then show ?thesis using t(3-7) by (auto simp: next_time_def wraps_def Let_def)
qed

lemma f64_small: "0 \<le> n \<Longrightarrow> n < 2 ^ 24 \<Longrightarrow> fround F64 s (of_int n) = Fin s (of_int n)"
proof -
  assume n: "0 \<le> n" "n < 2 ^ 24"
  have "representable F64 (of_int n)" using n by (intro representable_int) simp_all
  moreover have "(of_int n :: rat) \<le> of_int (2 ^ 24)" using n(2) by (subst of_int_le_iff) simp
  moreover have "of_int (2 ^ 24) \<le> ffmax F64" by simp
  ultimately show ?thesis using n(1) by (intro fround_exact) (simp_all del: fmt_simps)
qed

lemma f64_of_int: "0 \<le> n \<Longrightarrow> n < 2 ^ 24 \<Longrightarrow> f_of_int F64 n = Fin False (of_int n)"
  using f64_small [of n False] by (simp add: f_of_int_def flit_def)

definition test_playback :: playback where
  "test_playback = \<lparr>depthFrames = [\<lparr>df_props = test_props, df_vid = vidData tiny_frame, df_depth = depthData tiny_frame\<rparr>],
     faceFrames = [test_face, test_face\<lparr>ff_props := (ff_props test_face)\<lparr>ftimestamp := Fin False 2\<rparr>\<rparr>],
     sStartTime = fzero, sEndTime = Fin False 100\<rparr>"

definition test_win :: "unit win" where
  "test_win = \<lparr>w_frames = test_playback, w_firsttick = False, sCurtime = Fin False 3, curDepthIdx = 0, curFaceIdx = 0, w_app = test_app\<rparr>"

lemma test_times: "depth_times (w_frames test_win) = [fzero]" "face_times (w_frames test_win) = [fzero, Fin False 2]"
  by (simp_all add: test_win_def test_playback_def depth_times_def face_times_def test_props_def test_face_def)

lemma test_times_ok: "times_ok [fzero]" "times_ok [fzero, Fin False 2]"
  by (simp_all add: times_ok_def fzero_def sval_def)

lemma test_wraps: "\<not> wraps test_win"
proof -
  define q where "q = rnd F32 (1 / 60)"
  have 1: "representable F32 1" using representable_int [of 1 F32] by simp
  have q: "0 \<le> q" "q \<le> 1" unfolding q_def by (rule rnd_nonneg, simp) (rule rnd_le_representable, simp_all add: 1)
  have "f_of_int F32 60 = Fin False 60" using f_of_int_exact [of 60] by simp
  then have d: "divf fone (f_of_int F32 60) = Fin False q" using q by (simp add: fone_def fround_def q_def)
  have 4: "representable F64 4" using representable_int [of 4 F64] by simp
  have m: "rnd F64 (3 + q) \<le> 4" using q by (intro rnd_le_representable 4) simp_all
  have "(4 :: rat) \<le> ffmax F64" by simp
  then have "fround F64 False (3 + q) = Fin False (rnd F64 (3 + q))" using m by (simp add: fround_def Let_def del: fmt_simps)
  then have "fadd F64 (Fin False 3) (Fin False q) = Fin False (rnd F64 (3 + q))" using q by (simp add: sval_def Let_def)
  then show ?thesis using m by (simp add: wraps_def test_win_def test_playback_def d sval_def)
qed

lemma playback_due_witness:
  "\<exists>s'. tick_frames test_sys test_props identity_matrix None test_win = Some s' \<and> curFaceIdx s' = 1 \<and> curDepthIdx s' = 0"
proof -
  have f: "fle (Fin False 2) (Fin False 3)" by (simp add: fle_def sval_def)
  have a: "advance [fzero] 0 (Fin False 3) = Some 0" "advance [fzero, Fin False 2] 0 (Fin False 3) = Some 1"
    by (simp_all add: advance.simps f)
  have w: "w_firsttick test_win = False" "sCurtime test_win = Fin False 3" "curDepthIdx test_win = 0" "curFaceIdx test_win = 0"
    "length (depthFrames (w_frames test_win)) = 1" "length (faceFrames (w_frames test_win)) = 2"
    by (simp_all add: test_win_def test_playback_def)
  have "tick_frames test_sys test_props identity_matrix None test_win \<noteq> None"
    by (simp add: tick_frames_def test_times a w Let_def deliver_face_def aget_def split: prod.split)
  then obtain s' where t: "tick_frames test_sys test_props identity_matrix None test_win = Some s'" by blast
  have p: "due [fzero] (Fin False 3) 0 (curDepthIdx s') \<and> due [fzero, Fin False 2] (Fin False 3) 0 (curFaceIdx s')"
    using playback_due [OF t] test_wraps test_times_ok by (simp add: test_times w)
  have "\<not> flt (Fin False 3) (Fin False 2)" by (simp add: sval_def)
  then have "curDepthIdx s' = 0" "curFaceIdx s' = 1"
    using p by (auto simp: due_def less_Suc_eq numeral_2_eq_2)
  then show ?thesis using t by blast
qed

text \<open>Playing the same face frame again and again subtracts the start time of the application from
  the stored time stamp each time, because the properties are passed by reference.\<close>

lemma face_redelivered:
  assumes "curFaceIdx s < length (faceFrames (w_frames s))" and "\<not> flt (a_sStartTime (w_app s)) fzero"
  shows "\<exists>s'. ofold (\<lambda>_. deliver_face p m) [0..<n] s = Some s' \<and>
    ftimestamp (ff_props (faceFrames (w_frames s') ! curFaceIdx s)) =
      ((\<lambda>t. fsub F64 t (a_sStartTime (w_app s))) ^^ n) (ftimestamp (ff_props (faceFrames (w_frames s) ! curFaceIdx s)))"
proof -
  let ?i = "curFaceIdx s" and ?t = "a_sStartTime (w_app s)"
  have "\<exists>s'. ofold (\<lambda>_. deliver_face p m) [0..<n] s = Some s' \<and> curFaceIdx s' = ?i \<and> ?i < length (faceFrames (w_frames s')) \<and>
      a_sStartTime (w_app s') = ?t \<and>
      ftimestamp (ff_props (faceFrames (w_frames s') ! ?i)) = ((\<lambda>t. fsub F64 t ?t) ^^ n) (ftimestamp (ff_props (faceFrames (w_frames s) ! ?i)))"
  proof (induction n)
    case 0
    then show ?case using assms(1) by simp
  next
    case (Suc n)
    then obtain s1 where s1: "ofold (\<lambda>_. deliver_face p m) [0..<n] s = Some s1" "curFaceIdx s1 = ?i" "?i < length (faceFrames (w_frames s1))"
      "a_sStartTime (w_app s1) = ?t"
      "ftimestamp (ff_props (faceFrames (w_frames s1) ! ?i)) = ((\<lambda>t. fsub F64 t ?t) ^^ n) (ftimestamp (ff_props (faceFrames (w_frames s) ! ?i)))"
      by blast
    have "deliver_face p m s1 \<noteq> None"
      using s1(2,3) by (simp add: deliver_face_def aget_def Let_def split: prod.split)
    then obtain s2 where s2: "deliver_face p m s1 = Some s2" by blast
    show ?case using deliver_face_Some [OF s2] s1 s2 assms(2) by (simp add: ofold_append Let_def start_time_kept)
  qed
  then show ?thesis by blast
qed

end
