(* ===== verification/Render.thy ===== *)
theory Render
  imports Application
begin

text \<open>
  What a frame hands to the graphics library: the \<open>Draw\<close> functions of the three visuals
  (\<open>src/core/PlanesVis.cpp\<close>, \<open>PtsVis.cpp\<close>, \<open>FaceVis.cpp\<close>) and of the display over the scene
  (\<open>src/core/Hud.cpp\<close>), as lists of calls of bgfx. A buffer is given by the data it was created
  from. A draw call is what was set since the last one: \<open>submit\<close> forgets it. Then the whole
  application as a sequence of events, each frame with its draw calls.
\<close>

subsection \<open>Calls of the graphics library\<close>

datatype state_flag = WRITE_RGB | WRITE_A | WRITE_Z | DEPTH_TEST_LESS | MSAA | BLEND_ALPHA

datatype vbuffer = PosTex "pos_texcoord_vertex list" | PosTexNrm "pos_texcoord_nrm_vertex list"

datatype ibuffer = StaticIndices "nat list" | FaceIndices "u16 list"

datatype gfx =
    SetTransform "fp list"
  | SetVertexBuffer vbuffer
  | SetIndexBuffer ibuffer
  | SetUniform vec4
  | SetInstances "voxel_vertex list" nat
  | SetState "state_flag list"
  | Submit nat "nat option"
  | TextClear
  | TextFrames nat nat
  | TextDir fp fp

record draw_call =
  dc_transform :: "fp list option"
  dc_vertices :: "vbuffer option"
  dc_indices :: "ibuffer option"
  dc_uniform :: "vec4 option"
  dc_instances :: "(voxel_vertex list \<times> nat) option"
  dc_state :: "state_flag list option"
  dc_submit :: "(nat \<times> nat option) option"

definition no_call :: draw_call where
  "no_call = \<lparr>dc_transform = None, dc_vertices = None, dc_indices = None, dc_uniform = None, dc_instances = None,
     dc_state = None, dc_submit = None\<rparr>"

fun gfx_step :: "gfx \<Rightarrow> draw_call \<times> draw_call list \<Rightarrow> draw_call \<times> draw_call list" where
  "gfx_step (SetTransform m) (c, cs) = (c\<lparr>dc_transform := Some m\<rparr>, cs)"
| "gfx_step (SetVertexBuffer v) (c, cs) = (c\<lparr>dc_vertices := Some v\<rparr>, cs)"
| "gfx_step (SetIndexBuffer i) (c, cs) = (c\<lparr>dc_indices := Some i\<rparr>, cs)"
| "gfx_step (SetUniform u) (c, cs) = (c\<lparr>dc_uniform := Some u\<rparr>, cs)"
| "gfx_step (SetInstances vs n) (c, cs) = (c\<lparr>dc_instances := Some (vs, n)\<rparr>, cs)"
| "gfx_step (SetState s) (c, cs) = (c\<lparr>dc_state := Some s\<rparr>, cs)"
| "gfx_step (Submit view pgm) (c, cs) = (no_call, cs @ [c\<lparr>dc_submit := Some (view, pgm)\<rparr>])"
| "gfx_step TextClear s = s"
| "gfx_step (TextFrames a b) s = s"
| "gfx_step (TextDir a b) s = s"

definition draw_calls :: "gfx list \<Rightarrow> draw_call list" where
  "draw_calls cmds = snd (fold gfx_step cmds (no_call, []))"

subsection \<open>The visuals\<close>

text \<open>\<open>bgfx::isValid\<close> and \<open>BGFX_INVALID_HANDLE\<close>, and the programs that the drawing code keeps: two
  function-static owners and the handle of the display.\<close>

record gfx_lib =
  gl_valid :: "nat \<Rightarrow> bool"
  gl_bad :: nat

record programs =
  planes_shader :: "nat owner"
  face_shader :: "nat owner"
  hud_shader :: "nat option"

definition programs_new :: "gfx_lib \<Rightarrow> programs" where
  "programs_new g = \<lparr>planes_shader = bgfxh_new (gl_bad g), face_shader = bgfxh_new (gl_bad g), hud_shader = None\<rparr>"

definition static_shader ::
  "(string \<Rightarrow> string \<Rightarrow> nat) \<Rightarrow> gfx_lib \<Rightarrow> string \<Rightarrow> string \<Rightarrow> nat owner \<Rightarrow> 'a engine \<Rightarrow> nat owner \<times> 'a engine" where
  "static_shader createProgram g vtx px s e =
     (if gl_valid g (own_t s) then (s, e)
      else let (pgm, e) = LoadShader createProgram vtx px e in (bgfxh_assign (gl_valid g) (gl_bad g) pgm s, e))"

definition vis_color :: vec4 where
  "vis_color = V4 (flit F32 (4 / 10)) (flit F32 (4 / 10)) (flit F32 (4 / 10)) fone"

definition vis_state :: "state_flag list" where
  "vis_state = [WRITE_RGB, WRITE_A, WRITE_Z, DEPTH_TEST_LESS, MSAA, BLEND_ALPHA]"

text \<open>\<open>b\<close> is the item's own base. \<open>Engine::Draw\<close> sets the current view to 0.\<close>

definition PlanesVis_Draw :: "scene_base \<Rightarrow> nat \<Rightarrow> draw_context \<Rightarrow> planes_vis \<Rightarrow> gfx list" where
  "PlanesVis_Draw b pgm ctx pts =
     (if pts = [] then []
      else [SetTransform (mData (mult (m_mat ctx) (CalcMat b))), SetVertexBuffer (PosTex pts), SetUniform vis_color,
        SetState vis_state, Submit 0 (Some pgm)])"

definition PtsVis_Draw :: "scene_base \<Rightarrow> draw_context \<Rightarrow> pts_vis \<Rightarrow> gfx list" where
  "PtsVis_Draw b ctx v =
     (if v_pts v = [] then []
      else let vox = VoxCube_Create (v_pts v)
           in [SetTransform (mData (mult (mult (m_mat ctx) (v_alignMtx v)) (CalcMat b))),
               SetVertexBuffer (PosTexNrm s_cubeVertices), SetIndexBuffer (StaticIndices s_cubeIndices), SetUniform vis_color,
               SetInstances (pvertices vox) (verticesSize vox), SetState vis_state, Submit 0 (m_pgm ctx)])"

text \<open>The vertices of the face lie in one array of floats, five for each; a rest is left out.\<close>

definition face_vertices :: "fp list \<Rightarrow> pos_texcoord_vertex list" where
  "face_vertices vs = map (\<lambda>i. PTV (vs ! (5 * i)) (vs ! (5 * i + 1)) (vs ! (5 * i + 2)) (vs ! (5 * i + 3)) (vs ! (5 * i + 4)))
     [0..<length vs div 5]"

definition face_due :: "draw_context \<Rightarrow> face_vis \<Rightarrow> bool" where
  "face_due ctx v \<longleftrightarrow> \<not> flt (flit F64 (1 / 30)) (ffabs (fsub F64 (v_faceTimestamp v) (m_deviceTimestamp ctx)))"

definition FaceVis_Draw :: "nat \<Rightarrow> draw_context \<Rightarrow> face_vis \<Rightarrow> gfx list" where
  "FaceVis_Draw pgm ctx v =
     (if v_vertices v = [] then []
      else if \<not> face_due ctx v then []
      else [SetTransform (mData (v_worldMat v)), SetVertexBuffer (PosTex (face_vertices (v_vertices v))),
        SetIndexBuffer (FaceIndices (v_indices v)), SetUniform vis_color, SetState vis_state, Submit 0 (Some pgm)])"

definition Hud_Initialize :: "sys \<Rightarrow> 'a engine \<Rightarrow> programs \<Rightarrow> 'a engine \<times> programs" where
  "Hud_Initialize sys e ps = (let (pgm, e) = LoadShader (sys_program sys) ''vs_hud.bin'' ''fs_hud.bin'' e in (e, ps\<lparr>hud_shader := Some pgm\<rparr>))"

definition Hud_Draw :: "nat option \<Rightarrow> nat \<Rightarrow> nat \<Rightarrow> fly \<Rightarrow> gfx list" where
  "Hud_Draw pgm pushed written la =
     [TextClear, TextFrames pushed written, TextDir (v2x (fl_dir la)) (v2y (fl_dir la)),
      SetVertexBuffer (PosTex s_quadVertices), SetIndexBuffer (StaticIndices s_quadIndices),
      SetState [WRITE_RGB, WRITE_A, MSAA, BLEND_ALPHA], Submit 0 pgm]"

subsection \<open>Drawing the events of a frame\<close>

text \<open>An item that is drawn is a visual, by its number in \<open>mode_leaves\<close>, or the display over the scene,
  with the number \<open>hud\<close>. A visual that is drawn exists; the visuals only create uniforms when they are
  initialised.\<close>

definition render_event ::
  "sys \<Rightarrow> gfx_lib \<Rightarrow> nat \<Rightarrow> recorder \<Rightarrow> world \<Rightarrow> draw_event \<Rightarrow> gfx list \<times> 'a engine \<times> programs \<Rightarrow> gfx list \<times> 'a engine \<times> programs" where
  "render_event sys g hud r w ev s = (case s of (cmds, e, ps) \<Rightarrow>
     case ev of
       Init i \<Rightarrow>
         if i = hud then (cmds, Hud_Initialize sys e ps) else s
     | Draw i ctx \<Rightarrow>
         if i = hud then (cmds @ Hud_Draw (hud_shader ps) (g_framesPushed r) (g_framesWritten r) (m_fly (m_camera e)), e, ps)
         else if i = 1 then
           let (sh, e) = static_shader (sys_program sys) g ''vs_planes.bin'' ''fs_planes.bin'' (planes_shader ps) e
           in (cmds @ (case m_planevis w of None \<Rightarrow> [] | Some v \<Rightarrow> PlanesVis_Draw (sys_base sys) (own_t sh) ctx v), e, ps\<lparr>planes_shader := sh\<rparr>)
         else if i = 2 then
           (cmds @ (case m_ptsvis w of None \<Rightarrow> [] | Some v \<Rightarrow> PtsVis_Draw (sys_base sys) ctx v), e, ps)
         else if i = 4 then
           let (sh, e) = static_shader (sys_program sys) g ''vs_face.bin'' ''fs_planes.bin'' (face_shader ps) e
           in (cmds @ (case m_facevis w of None \<Rightarrow> [] | Some v \<Rightarrow> FaceVis_Draw (own_t sh) ctx v), e, ps\<lparr>face_shader := sh\<rparr>)
         else s)"

definition render ::
  "sys \<Rightarrow> gfx_lib \<Rightarrow> nat \<Rightarrow> recorder \<Rightarrow> world \<Rightarrow> draw_event list \<Rightarrow> 'a engine \<times> programs \<Rightarrow> gfx list \<times> 'a engine \<times> programs" where
  "render sys g hud r w evs s = fold (render_event sys g hud r w) evs ([], s)"

text \<open>A frame of the application, with the calls its drawing makes.\<close>

definition draw_frame ::
  "sys \<Rightarrow> gfx_lib \<Rightarrow> nat \<Rightarrow> bool \<Rightarrow> bool \<Rightarrow> int \<Rightarrow> 'a app \<times> programs \<Rightarrow> gfx list \<times> 'a app \<times> programs" where
  "draw_frame sys g hud modeButton recordButton frame s = (case s of (a, ps) \<Rightarrow>
     let (evs, a') = App_Draw sys modeButton recordButton frame a;
         (cmds, e, ps) = render sys g hud (a_bkgWriter a) (a_world a') evs (a_engine a', ps)
     in (cmds, a'\<lparr>a_engine := e\<rparr>, ps))"

subsection \<open>The application as a sequence of events\<close>

text \<open>The events of the program. The threads of the recorder and the player are free to change them
  between any two others.\<close>

datatype app_event =
    Initialize string
  | TouchDown fp fp
  | TouchMove fp fp
  | TouchUp
  | KeyDown int
  | KeyUp int
  | Resize int int
  | Tick nat nat fp fp
  | DepthFrame depth_props mat44 depth_data
  | FaceFrame depth_props mat44 face_props "fp list" "u16 list"
  | DrawFrame bool bool int
  | Recorded recorder
  | Played "player option"

fun app_step ::
  "sys \<Rightarrow> gfx_lib \<Rightarrow> nat \<Rightarrow> ('a \<Rightarrow> fp \<Rightarrow> bool \<times> 'a) \<Rightarrow> app_event \<Rightarrow> 'a app \<times> programs \<Rightarrow> ('a app \<times> programs) option" where
  "app_step sys g hud tick (Initialize folder) (a, ps) = Some (App_Initialize folder a, ps)"
| "app_step sys g hud tick (TouchDown x y) (a, ps) = Some (App_TouchDown x y a, ps)"
| "app_step sys g hud tick (TouchMove x y) (a, ps) = Some (App_TouchMove x y a, ps)"
| "app_step sys g hud tick TouchUp (a, ps) = Some (App_TouchUp a, ps)"
| "app_step sys g hud tick (KeyDown k) (a, ps) = Some (App_KeyDown k a, ps)"
| "app_step sys g hud tick (KeyUp k) (a, ps) = Some (App_KeyUp k a, ps)"
| "app_step sys g hud tick (Resize w h) (a, ps) = Some (App_Resize w h a, ps)"
| "app_step sys g hud tick (Tick vw vh time ts) (a, ps) = map_option (\<lambda>a. (a, ps)) (App_Tick sys tick vw vh time ts a)"
| "app_step sys g hud tick (DepthFrame p m d) (a, ps) = map_option (\<lambda>(d, a). (a, ps)) (App_OnDepthBuffer sys p m d a)"
| "app_step sys g hud tick (FaceFrame p m fp vs is) (a, ps) = Some (snd (App_OnFaceData p m fp vs is a), ps)"
| "app_step sys g hud tick (DrawFrame mb rb n) (a, ps) = Some (snd (draw_frame sys g hud mb rb n (a, ps)))"
| "app_step sys g hud tick (Recorded r) (a, ps) = Some (a\<lparr>a_bkgWriter := r\<rparr>, ps)"
| "app_step sys g hud tick (Played p) (a, ps) = Some (a\<lparr>a_player := p\<rparr>, ps)"

definition app_run ::
  "sys \<Rightarrow> gfx_lib \<Rightarrow> nat \<Rightarrow> ('a \<Rightarrow> fp \<Rightarrow> bool \<times> 'a) \<Rightarrow> app_event list \<Rightarrow> 'a app \<times> programs \<Rightarrow> ('a app \<times> programs) option" where
  "app_run sys g hud tick evs s = ofold (app_step sys g hud tick) evs s"

subsection \<open>Commands grouped into draw calls\<close>

text \<open>A command list that leaves nothing set.\<close>

definition submitted :: "gfx list \<Rightarrow> bool" where
  "submitted cmds \<longleftrightarrow> fst (fold gfx_step cmds (no_call, [])) = no_call"

lemma gfx_step_calls: "gfx_step x (c, cs @ ds) = (let (c', ds') = gfx_step x (c, ds) in (c', cs @ ds'))"
  by (cases x) simp_all

lemma gfx_fold_calls: "fold gfx_step cmds (c, cs @ ds) = (let (c', ds') = fold gfx_step cmds (c, ds) in (c', cs @ ds'))"
proof (induction cmds arbitrary: c ds)
  case (Cons x cmds)
  obtain c1 ds1 where "gfx_step x (c, ds) = (c1, ds1)" by fastforce
  then show ?case using Cons.IH gfx_step_calls [of x c cs ds] by simp
qed simp

lemma draw_calls_append:
  assumes "submitted xs"
  shows "draw_calls (xs @ ys) = draw_calls xs @ draw_calls ys" and "submitted ys \<Longrightarrow> submitted (xs @ ys)"
proof -
  obtain cs where x: "fold gfx_step xs (no_call, []) = (no_call, cs)" using assms unfolding submitted_def by (metis prod.collapse)
  obtain c ds where y: "fold gfx_step ys (no_call, []) = (c, ds)" by fastforce
  have "fold gfx_step (xs @ ys) (no_call, []) = (c, cs @ ds)"
    using x y gfx_fold_calls [of ys no_call cs "[]"] by simp
  then show "draw_calls (xs @ ys) = draw_calls xs @ draw_calls ys" and "submitted ys \<Longrightarrow> submitted (xs @ ys)"
    using x y by (simp_all add: draw_calls_def submitted_def)
qed

lemma draw_calls_concat:
  "list_all submitted xss \<Longrightarrow> draw_calls (concat xss) = concat (map draw_calls xss) \<and> submitted (concat xss)"
proof (induction xss)
  case Nil
  then show ?case by (simp add: draw_calls_def submitted_def)
next
  case (Cons xs xss)
  then show ?case using draw_calls_append [of xs "concat xss"] by simp
qed

lemma draw_calls_Nil [simp]: "draw_calls [] = []" "submitted []"
  by (simp_all add: draw_calls_def submitted_def)

lemmas gfx_simps = draw_calls_def submitted_def no_call_def

subsection \<open>The programs\<close>

definition shader_files :: "(string \<times> string) set" where
  "shader_files = {(''vs_cubes.bin'', ''fs_cubes.bin''), (''vs_planes.bin'', ''fs_planes.bin''), (''vs_face.bin'', ''fs_planes.bin''),
     (''vs_hud.bin'', ''fs_hud.bin'')}"

definition cached :: "sys \<Rightarrow> 'a engine \<Rightarrow> bool" where
  "cached sys e \<longleftrightarrow> (\<forall>(v, p) \<in> shader_files. m_shaders e (v @ '':'' @ p) \<in> {None, Some (sys_program sys v p)})"

text \<open>The parts of the engine that loading a program leaves alone.\<close>

definition same_scene :: "'a engine \<Rightarrow> 'a engine \<Rightarrow> bool" where
  "same_scene e e' \<longleftrightarrow> m_root e' = m_root e \<and> m_hud e' = m_hud e \<and> m_camera e' = m_camera e"

lemma shader_keys: "(v, p) \<in> shader_files \<Longrightarrow> (v', p') \<in> shader_files \<Longrightarrow> v @ '':'' @ p = v' @ '':'' @ p' \<Longrightarrow> v = v' \<and> p = p'"
  unfolding shader_files_def by auto

lemma LoadShader_cached:
  assumes "cached sys e" and "(v, p) \<in> shader_files"
  shows "\<exists>e'. LoadShader (sys_program sys) v p e = (sys_program sys v p, e') \<and> cached sys e' \<and> same_scene e e'"
proof (cases "m_shaders e (v @ '':'' @ p)")
  case None
  let ?e = "e\<lparr>m_shaders := (m_shaders e)(v @ '':'' @ p \<mapsto> sys_program sys v p)\<rparr>"
  have "cached sys ?e" using assms shader_keys [OF assms(2)] unfolding cached_def by fastforce
  then show ?thesis using None by (simp add: LoadShader_def LoadShader_key_def same_scene_def Let_def)
next
  case (Some h)
  then have "h = sys_program sys v p" using assms unfolding cached_def by fastforce
  then show ?thesis using Some assms(1) by (simp add: LoadShader_def LoadShader_key_def same_scene_def)
qed

definition programs_ok :: "sys \<Rightarrow> gfx_lib \<Rightarrow> 'a engine \<Rightarrow> programs \<Rightarrow> bool" where
  "programs_ok sys g e ps \<longleftrightarrow> cached sys e \<and>
     (gl_valid g (own_t (planes_shader ps)) \<longrightarrow> own_t (planes_shader ps) = sys_program sys ''vs_planes.bin'' ''fs_planes.bin'') \<and>
     (gl_valid g (own_t (face_shader ps)) \<longrightarrow> own_t (face_shader ps) = sys_program sys ''vs_face.bin'' ''fs_planes.bin'')"

lemma static_shader_ok:
  assumes "cached sys e" and "(v, p) \<in> shader_files" and "gl_valid g (own_t s) \<longrightarrow> own_t s = sys_program sys v p"
  shows "\<exists>s' e'. static_shader (sys_program sys) g v p s e = (s', e') \<and> own_t s' = sys_program sys v p \<and> cached sys e' \<and> same_scene e e'"
proof (cases "gl_valid g (own_t s)")
  case True
  then show ?thesis using assms by (simp add: static_shader_def same_scene_def)
next
  case False
  then show ?thesis using LoadShader_cached [OF assms(1,2)] by (auto simp: static_shader_def bgfxh_assign_def)
qed

subsection \<open>From events to commands\<close>

definition drawn_with :: "draw_event list \<Rightarrow> (nat \<times> draw_context) list" where
  "drawn_with evs = concat (map (\<lambda>ev. case ev of Draw i c \<Rightarrow> [(i, c)] | Init i \<Rightarrow> []) evs)"

lemma drawn_with_simps [simp]: "drawn_with [] = []" "drawn_with (Draw i c # evs) = (i, c) # drawn_with evs"
  "drawn_with (Init i # evs) = drawn_with evs" "drawn_with (evs @ evs') = drawn_with evs @ drawn_with evs'"
  by (simp_all add: drawn_with_def)

fun event_item :: "draw_event \<Rightarrow> nat" where
  "event_item (Init i) = i"
| "event_item (Draw i c) = i"

text \<open>What drawing a visual comes to, once programs are cached.\<close>

definition visual_cmds :: "sys \<Rightarrow> world \<Rightarrow> nat \<times> draw_context \<Rightarrow> gfx list" where
  "visual_cmds sys w = (\<lambda>(i, ctx).
     if i = 1 then case m_planevis w of None \<Rightarrow> [] | Some v \<Rightarrow> PlanesVis_Draw (sys_base sys) (sys_program sys ''vs_planes.bin'' ''fs_planes.bin'') ctx v
     else if i = 2 then case m_ptsvis w of None \<Rightarrow> [] | Some v \<Rightarrow> PtsVis_Draw (sys_base sys) ctx v
     else if i = 4 then case m_facevis w of None \<Rightarrow> [] | Some v \<Rightarrow> FaceVis_Draw (sys_program sys ''vs_face.bin'' ''fs_planes.bin'') ctx v
     else [])"

lemma same_scene_trans: "same_scene e e' \<Longrightarrow> same_scene e' e'' \<Longrightarrow> same_scene e e''"
  by (simp add: same_scene_def)

lemma render_visual:
  assumes "programs_ok sys g e ps" and "event_item ev \<noteq> hud"
  shows "\<exists>e' ps'. render_event sys g hud r w ev (cmds, e, ps) = (cmds @ concat (map (visual_cmds sys w) (drawn_with [ev])), e', ps') \<and>
    programs_ok sys g e' ps' \<and> same_scene e e' \<and> hud_shader ps' = hud_shader ps"
proof (cases ev)
  case (Init i)
  then show ?thesis using assms by (simp add: render_event_def same_scene_def)
next
  case (Draw i ctx)
  have files: "(''vs_planes.bin'', ''fs_planes.bin'') \<in> shader_files" "(''vs_face.bin'', ''fs_planes.bin'') \<in> shader_files"
    by (simp_all add: shader_files_def)
  have ok: "cached sys e"
    "gl_valid g (own_t (planes_shader ps)) \<longrightarrow> own_t (planes_shader ps) = sys_program sys ''vs_planes.bin'' ''fs_planes.bin''"
    "gl_valid g (own_t (face_shader ps)) \<longrightarrow> own_t (face_shader ps) = sys_program sys ''vs_face.bin'' ''fs_planes.bin''"
    using assms(1) by (simp_all add: programs_ok_def)
  consider "i = 1" | "i = 4" | "i \<noteq> 1" "i \<noteq> 4" by blast
  then show ?thesis
  proof cases
    case 1
    then show ?thesis using static_shader_ok [OF ok(1) files(1) ok(2)] assms(2) ok(3) Draw
      by (auto simp: render_event_def visual_cmds_def programs_ok_def split: option.split)
  next
    case 2
    then show ?thesis using static_shader_ok [OF ok(1) files(2) ok(3)] assms(2) ok(2) Draw
      by (auto simp: render_event_def visual_cmds_def programs_ok_def split: option.split)
  next
    case 3
    then show ?thesis using assms Draw by (auto simp: render_event_def visual_cmds_def same_scene_def)
  qed
qed

lemma render_visuals:
  assumes "programs_ok sys g e ps" and "\<forall>ev \<in> set evs. event_item ev \<noteq> hud"
  shows "\<exists>e' ps'. fold (render_event sys g hud r w) evs (cmds, e, ps) = (cmds @ concat (map (visual_cmds sys w) (drawn_with evs)), e', ps') \<and>
    programs_ok sys g e' ps' \<and> same_scene e e' \<and> hud_shader ps' = hud_shader ps"
  using assms
proof (induction evs arbitrary: cmds e ps)
  case Nil
  then show ?case by (simp add: same_scene_def)
next
  case (Cons ev evs)
  have d: "drawn_with (ev # evs) = drawn_with [ev] @ drawn_with evs" by (simp add: drawn_with_def)
  obtain e1 ps1 where 1: "render_event sys g hud r w ev (cmds, e, ps) = (cmds @ concat (map (visual_cmds sys w) (drawn_with [ev])), e1, ps1)"
    "programs_ok sys g e1 ps1" "same_scene e e1" "hud_shader ps1 = hud_shader ps"
    using render_visual [of sys g e ps ev hud r w cmds] Cons.prems by auto
  show ?case using Cons.IH [OF 1(2), of "cmds @ concat (map (visual_cmds sys w) (drawn_with [ev]))"] Cons.prems(2) 1 same_scene_trans [OF 1(3)]
    unfolding d by auto
qed

text \<open>The display over the scene, initialised on its first frame.\<close>

lemma render_hud:
  assumes "programs_ok sys g e ps" and "ready \<longrightarrow> hud_shader ps = Some (sys_program sys ''vs_hud.bin'' ''fs_hud.bin'')"
  shows "\<exists>e' ps'. fold (render_event sys g hud r w) ((if ready then [] else [Init hud]) @ [Draw hud ctx]) (cmds, e, ps) =
      (cmds @ Hud_Draw (Some (sys_program sys ''vs_hud.bin'' ''fs_hud.bin'')) (g_framesPushed r) (g_framesWritten r) (m_fly (m_camera e)), e', ps') \<and>
    programs_ok sys g e' ps' \<and> same_scene e e' \<and> hud_shader ps' = Some (sys_program sys ''vs_hud.bin'' ''fs_hud.bin'')"
proof -
  have c: "cached sys e" "(''vs_hud.bin'', ''fs_hud.bin'') \<in> shader_files" using assms(1) by (simp_all add: programs_ok_def shader_files_def)
  obtain e' where l: "LoadShader (sys_program sys) ''vs_hud.bin'' ''fs_hud.bin'' e = (sys_program sys ''vs_hud.bin'' ''fs_hud.bin'', e')"
    "cached sys e'" "same_scene e e'" using LoadShader_cached [OF c] by blast
  show ?thesis using assms l by (cases ready) (auto simp: render_event_def Hud_Initialize_def programs_ok_def same_scene_def)
qed

subsection \<open>The scene of the program\<close>

definition leaves :: "(scene_base \<times> nat) list \<Rightarrow> scene_item list" where
  "leaves bs = map (\<lambda>(b, i). SceneLeaf b i) bs"

definition world_tree :: "scene_base \<Rightarrow> scene_base \<Rightarrow> nat \<Rightarrow> (scene_base \<times> nat) list \<Rightarrow> scene_item" where
  "world_tree b1 b2 pgm bs =
     SceneGroup b1 None None [SceneGroup b2 (Some (\<lambda>ctx. (True, ctx\<lparr>m_pgm := Some pgm\<rparr>))) None (leaves bs)]"

abbreviation started_item :: "scene_base \<Rightarrow> scene_base" where
  "started_item b \<equiv> b\<lparr>m_isInitialized := True\<rparr>"

lemma CalcMat_started [simp]: "CalcMat (started_item b) = CalcMat b"
  by (simp add: CalcMat_def)

definition leaf_events :: "draw_context \<Rightarrow> (scene_base \<times> nat) list \<Rightarrow> draw_event list" where
  "leaf_events ctx bs = concat (map (\<lambda>(b, i). (if m_isInitialized b then [] else [Init i]) @ [Draw i ctx]) bs)"

lemma draw_leaves:
  "draw_items m (leaves bs) ctx =
   (leaves (map (\<lambda>(b, i). (started_item b, i)) bs), ctx, leaf_events (ctx\<lparr>m_mat := mult (m_mat ctx) m\<rparr>) bs)"
proof (induction bs)
  case (Cons b bs)
  then show ?case by (cases b) (simp add: leaves_def leaf_events_def Let_def)
qed (simp add: leaves_def leaf_events_def)

lemma leaf_events_drawn [simp]: "drawn_with (leaf_events ctx bs) = map (\<lambda>i. (i, ctx)) (map snd bs)"
  by (induction bs) (auto simp: leaf_events_def)

lemma leaf_events_items: "ev \<in> set (leaf_events ctx bs) \<Longrightarrow> event_item ev \<in> snd ` set bs"
  by (auto simp: leaf_events_def split: if_splits intro: rev_image_eqI)

text \<open>The context in which the visuals are drawn.\<close>

definition visual_context :: "scene_base \<Rightarrow> scene_base \<Rightarrow> nat \<Rightarrow> fp \<Rightarrow> draw_context" where
  "visual_context b nb pgm ts = \<lparr>m_pgm = Some pgm, m_mat = mult (mult identity_matrix (CalcMat b)) (CalcMat nb), m_deviceTimestamp = ts\<rparr>"

lemma draw_world_tree:
  "DoDraw (world_tree b1 b2 pgm bs) \<lparr>m_pgm = x, m_mat = identity_matrix, m_deviceTimestamp = ts\<rparr> =
   (world_tree (started_item b1) (started_item b2) pgm (map (\<lambda>(b, i). (started_item b, i)) bs),
    \<lparr>m_pgm = Some pgm, m_mat = identity_matrix, m_deviceTimestamp = ts\<rparr>, leaf_events (visual_context b1 b2 pgm ts) bs)"
  by (simp add: world_tree_def before_hook_def after_hook_def draw_leaves visual_context_def Let_def)

definition scene_ok :: "sys \<Rightarrow> scene_base \<Rightarrow> 'a engine \<Rightarrow> world \<Rightarrow> bool" where
  "scene_ok sys b e w \<longleftrightarrow> 0 \<le> m_mode w \<and> (\<exists>b1. CalcMat b1 = CalcMat b \<and>
     (case m_worldGroup w of
        None \<Rightarrow> m_root e = SceneGroup b1 None None [] \<and> m_prevMode w = -1
      | Some i \<Rightarrow> i = 0 \<and> m_shader w = sys_program sys ''vs_cubes.bin'' ''fs_cubes.bin'' \<and> shows_mode (m_prevMode w) w \<and>
          (\<exists>b2 bs. CalcMat b2 = CalcMat (sys_base sys) \<and> m_root e = world_tree b1 b2 (m_shader w) bs \<and>
             map snd bs = mode_leaves (m_prevMode w))))"

lemma switch_mode_tree:
  assumes "m_root e = world_tree b1 b2 pgm bs" and "m_worldGroup w = Some 0" and "m_mode w \<noteq> m_prevMode w"
    and "switch_mode nb junk (e, w) = (e', w')"
  shows "m_root e' = world_tree b1 b2 pgm (map (\<lambda>i. (nb, i)) (mode_leaves (m_mode w))) \<and> shows_mode (m_mode w) w' \<and>
    m_prevMode w' = m_mode w \<and> m_mode w' = m_mode w \<and> m_worldGroup w' = Some 0 \<and> m_shader w' = m_shader w \<and>
    m_hud e' = m_hud e \<and> m_shaders e' = m_shaders e \<and> m_camera e' = m_camera e"
  using assms
  by (auto simp: switch_mode_def world_tree_def leaves_def upd_item_def AddItem_def Group_Clear_def mode_leaves_def shows_mode_def Let_def)

lemma make_group_tree:
  assumes "m_root e = SceneGroup b1 None None []" and "m_worldGroup w = None" and "cached sys e"
    and "make_group (sys_program sys) nb (e, w) = (e', w')"
  shows "m_root e' = world_tree b1 nb (m_shader w') [] \<and> m_shader w' = sys_program sys ''vs_cubes.bin'' ''fs_cubes.bin'' \<and>
    m_worldGroup w' = Some 0 \<and> m_mode w' = m_mode w \<and> m_prevMode w' = m_prevMode w \<and> m_hud e' = m_hud e \<and> cached sys e'"
proof -
  define e1 where "e1 = e\<lparr>m_root := AddItem (SceneGroup nb None None []) (m_root e)\<rparr>"
  have "cached sys e1" "(''vs_cubes.bin'', ''fs_cubes.bin'') \<in> shader_files"
    using assms(3) by (simp_all add: e1_def cached_def shader_files_def)
  then obtain e2 where l: "LoadShader (sys_program sys) ''vs_cubes.bin'' ''fs_cubes.bin'' e1 = (sys_program sys ''vs_cubes.bin'' ''fs_cubes.bin'', e2)"
    "cached sys e2" "same_scene e1 e2" using LoadShader_cached by blast
  have r: "m_root e2 = SceneGroup b1 None None [SceneGroup nb None None []]" "m_hud e2 = m_hud e"
    using l(3) assms(1) by (simp_all add: same_scene_def e1_def AddItem_def)
  have "root_items e = []" using assms(1) by simp
  then obtain cam where "e' = e2\<lparr>m_root := world_tree b1 nb (sys_program sys ''vs_cubes.bin'' ''fs_cubes.bin'') [], m_camera := cam\<rparr>"
    and "w' = w\<lparr>m_worldGroup := Some 0, m_shader := sys_program sys ''vs_cubes.bin'' ''fs_cubes.bin''\<rparr>"
    using assms(2,4) l(1) r(1)
    by (auto simp: make_group_def e1_def [symmetric] world_tree_def leaves_def upd_item_def BeforeDraw_def Let_def)
  then show ?thesis using l(2) r(2) by (simp add: cached_def)
qed

lemma World_Update_scene:
  assumes "scene_ok sys b e w" and "cached sys e"
    and "World_Update (sys_program sys) sinf cosf (sys_base sys) junk (e, w) = (e', w')"
  shows "scene_ok sys b e' w' \<and> cached sys e' \<and> m_hud e' = m_hud e \<and> m_worldGroup w' = Some 0 \<and>
    m_prevMode w' = m_mode w \<and> m_mode w' = m_mode w"
proof -
  let ?nb = "sys_base sys"
  obtain e1 w1 where g: "make_group (sys_program sys) ?nb (e, w) = (e1, w1)" by fastforce
  obtain e2 w2 where s: "switch_mode ?nb junk (e1, w1) = (e2, w2)" by fastforce
  have e': "m_root e' = m_root e2" "m_hud e' = m_hud e2" "m_shaders e' = m_shaders e2" "w' = w2"
    using assms(3) g s by (auto simp: World_Update_def)
  have cached: "cached sys e' = cached sys e2" by (simp add: cached_def e')
  obtain b1 where b1: "CalcMat b1 = CalcMat b" and mode: "0 \<le> m_mode w"
    and sc: "case m_worldGroup w of
        None \<Rightarrow> m_root e = SceneGroup b1 None None [] \<and> m_prevMode w = -1
      | Some i \<Rightarrow> i = 0 \<and> m_shader w = sys_program sys ''vs_cubes.bin'' ''fs_cubes.bin'' \<and> shows_mode (m_prevMode w) w \<and>
          (\<exists>b2 bs. CalcMat b2 = CalcMat ?nb \<and> m_root e = world_tree b1 b2 (m_shader w) bs \<and> map snd bs = mode_leaves (m_prevMode w))"
    using assms(1) unfolding scene_ok_def by blast
  have switched: ?thesis
    if "m_root e1 = world_tree b1 b2 (m_shader w1) bs" "CalcMat b2 = CalcMat ?nb" "m_worldGroup w1 = Some 0" "m_mode w1 \<noteq> m_prevMode w1"
      "m_shader w1 = sys_program sys ''vs_cubes.bin'' ''fs_cubes.bin''" "cached sys e1" "m_hud e1 = m_hud e" "m_mode w1 = m_mode w" for b2 bs
  proof -
    note t = switch_mode_tree [OF that(1,3,4) s]
    have "map snd (map (\<lambda>i. (?nb, i)) (mode_leaves (m_mode w))) = mode_leaves (m_mode w)" by (simp add: comp_def)
    then have "\<exists>b2 bs. CalcMat b2 = CalcMat ?nb \<and> m_root e' = world_tree b1 b2 (m_shader w') bs \<and> map snd bs = mode_leaves (m_prevMode w')"
      using t that e' by (intro exI [of _ b2] exI [of _ "map (\<lambda>i. (?nb, i)) (mode_leaves (m_mode w))"]) simp
    then have "scene_ok sys b e' w'" unfolding scene_ok_def using t that b1 mode e' by auto
    then show ?thesis using t that e' by (simp add: cached cached_def)
  qed
  show ?thesis
  proof (cases "m_worldGroup w")
    case None
    then have "m_root e = SceneGroup b1 None None []" "m_prevMode w = -1" using sc by simp_all
    then show ?thesis using switched make_group_tree [OF _ None assms(2) g] mode by auto
  next
    case (Some i)
    then have g': "e1 = e" "w1 = w" using g by (auto simp: make_group_def)
    obtain b2 bs where t: "CalcMat b2 = CalcMat ?nb" "m_root e = world_tree b1 b2 (m_shader w) bs" "i = 0"
      "m_shader w = sys_program sys ''vs_cubes.bin'' ''fs_cubes.bin''" using sc Some by auto
    show ?thesis
    proof (cases "m_mode w = m_prevMode w")
      case True
      then have "e2 = e" "w2 = w" using s g' by (auto simp: switch_mode_def)
      then show ?thesis using assms(1,2) e' Some t(3) True by (simp add: cached cached_def scene_ok_def)
    next
      case False
      then show ?thesis using switched [of b2 bs] t g' Some assms(2) by simp
    qed
  qed
qed

subsection \<open>The application keeps its scene\<close>

definition hud_ok :: "sys \<Rightarrow> nat \<Rightarrow> 'a engine \<Rightarrow> programs \<Rightarrow> bool" where
  "hud_ok sys hud e ps \<longleftrightarrow> (\<exists>hb. m_hud e = SceneLeaf hb hud \<and>
     (m_isInitialized hb \<longrightarrow> hud_shader ps = Some (sys_program sys ''vs_hud.bin'' ''fs_hud.bin'')))"

definition app_ok :: "sys \<Rightarrow> gfx_lib \<Rightarrow> scene_base \<Rightarrow> nat \<Rightarrow> 'a app \<times> programs \<Rightarrow> bool" where
  "app_ok sys g b hud s \<longleftrightarrow> (case s of (a, ps) \<Rightarrow>
     scene_ok sys b (a_engine a) (a_world a) \<and> programs_ok sys g (a_engine a) ps \<and> hud_ok sys hud (a_engine a) ps)"

text \<open>What the other events leave alone: the items, the programs and which visuals there are.\<close>

definition same_world :: "world \<Rightarrow> world \<Rightarrow> bool" where
  "same_world w w' \<longleftrightarrow> m_worldGroup w' = m_worldGroup w \<and> m_mode w' = m_mode w \<and> m_prevMode w' = m_prevMode w \<and> m_shader w' = m_shader w \<and>
     (m_planevis w' = None \<longleftrightarrow> m_planevis w = None) \<and> (m_ptsvis w' = None \<longleftrightarrow> m_ptsvis w = None) \<and>
     (m_facevis w' = None \<longleftrightarrow> m_facevis w = None)"

definition same_view :: "'a app \<Rightarrow> 'a app \<Rightarrow> bool" where
  "same_view a a' \<longleftrightarrow> m_root (a_engine a') = m_root (a_engine a) \<and> m_hud (a_engine a') = m_hud (a_engine a) \<and>
     m_shaders (a_engine a') = m_shaders (a_engine a) \<and> same_world (a_world a) (a_world a')"

lemma scene_ok_same:
  assumes "scene_ok sys b e w" and "m_root e' = m_root e" and "same_world w w'"
  shows "scene_ok sys b e' w'"
proof -
  have s: "shows_mode m w' = shows_mode m w" for m using assms(3) by (simp add: same_world_def shows_mode_def)
  show ?thesis
    using assms by (cases "m_worldGroup w") (auto simp: scene_ok_def same_world_def s)
qed

lemma app_ok_same: "app_ok sys g b hud (a, ps) \<Longrightarrow> same_view a a' \<Longrightarrow> app_ok sys g b hud (a', ps)"
  using scene_ok_same [of sys b "a_engine a" "a_world a" "a_engine a'" "a_world a'"]
  by (simp add: app_ok_def same_view_def programs_ok_def hud_ok_def cached_def)

lemma same_world_refl [simp]: "same_world w w"
  by (simp add: same_world_def)

lemma same_world_trans: "same_world w w' \<Longrightarrow> same_world w' w'' \<Longrightarrow> same_world w w''"
  by (simp add: same_world_def)

lemma same_world_show: "show_depth sys d w = Some (d', w') \<Longrightarrow> same_world w w'"
  by (auto simp: show_depth_def same_world_def bind_eq_Some_conv Let_def split: option.splits)

lemma same_world_depth: "World_OnDepthBuffer sys d w = Some (d', w') \<Longrightarrow> same_world w w'"
  by (drule World_OnDepthBuffer_cases)
     (auto simp: same_world_def reset_align_def dest!: same_world_show)

lemma same_world_face: "same_world w (World_OnFaceData p vs is w)"
  by (simp add: same_world_def World_OnFaceData_def locate_face_def Let_def split: option.split)

lemma same_world_keys: "same_world w (World_KeyDown k w)" "same_world w (World_KeyUp k w)"
  by (simp_all add: same_world_def World_KeyDown_def World_KeyUp_def Let_def)

lemma start_time_scene [simp]: "a_world (start_time t a) = a_world a" "a_engine (start_time t a) = a_engine a"
  by (simp_all add: start_time_def)

lemma app_step_same:
  assumes "app_step sys g hud tick ev (a, ps) = Some (a', ps')" and "\<And>mb rb n. ev \<noteq> DrawFrame mb rb n"
  shows "same_view a a' \<and> ps' = ps"
proof (cases ev)
  case (TouchMove x y)
  then show ?thesis using assms(1)
    by (cases "a_buttonDown a")
      (auto simp: App_TouchMove_def World_TouchDrag_def same_view_def same_world_def Let_def split: option.splits prod.splits)
next
  case (KeyDown k)
  then show ?thesis using assms(1) same_world_keys(1) by (auto simp: App_KeyDown_def same_view_def)
next
  case (KeyUp k)
  then show ?thesis using assms(1) same_world_keys(2) by (auto simp: App_KeyUp_def same_view_def)
next
  case (Tick vw vh time ts)
  then show ?thesis using assms(1) same_world_depth
    by (auto simp: App_Tick_def same_view_def Engine_Tick_def bind_eq_Some_conv Let_def split: option.splits prod.splits)
next
  case (DepthFrame p m d)
  then show ?thesis using assms(1) same_world_depth
    by (auto simp: App_OnDepthBuffer_def same_view_def bind_eq_Some_conv Let_def)
next
  case (FaceFrame p m fp vs ixs)
  then show ?thesis using assms(1) same_world_face by (auto simp: App_OnFaceData_def same_view_def Let_def)
qed (use assms in \<open>auto simp: same_view_def same_world_def App_Initialize_def App_TouchDown_def World_TouchDown_def App_TouchUp_def
       World_TouchUp_def App_Resize_def Layout_def Engine_Resize_def\<close>)

subsection \<open>Drawing a frame\<close>

lemma draw_visuals_hud:
  assumes "m_root e = world_tree b1 b2 pgm bs" and "m_hud e = SceneLeaf hb hud"
  shows "Engine_Draw \<lparr>m_pgm = x, m_mat = y, m_deviceTimestamp = ts\<rparr> e =
    ((m_view (m_camera e), m_proj (m_camera e)),
     leaf_events (visual_context b1 b2 pgm ts) bs @ (if m_isInitialized hb then [] else [Init hud]) @
       [Draw hud \<lparr>m_pgm = Some pgm, m_mat = identity_matrix, m_deviceTimestamp = ts\<rparr>],
     e\<lparr>m_root := world_tree (started_item b1) (started_item b2) pgm (map (\<lambda>(b, i). (started_item b, i)) bs),
       m_hud := SceneLeaf (started_item hb) hud\<rparr>)"
  using assms draw_world_tree [of b1 b2 pgm bs None ts]
  by (simp add: Engine_Draw_def draw_world_tree Let_def)

lemma World_Update_keeps:
  assumes "World_Update cp sinf cosf nb junk (e, w) = (e', w')" and "m_prevMode w = m_mode w"
  shows "m_planevis w' = m_planevis w \<and> m_ptsvis w' = m_ptsvis w \<and> m_facevis w' = m_facevis w"
proof -
  obtain e1 w1 where g: "make_group cp nb (e, w) = (e1, w1)" by fastforce
  have w1: "m_prevMode w1 = m_prevMode w" "m_mode w1 = m_mode w" "m_planevis w1 = m_planevis w" "m_ptsvis w1 = m_ptsvis w"
    "m_facevis w1 = m_facevis w"
    using g by (auto simp: make_group_def Let_def split: if_splits prod.splits)
  then have "switch_mode nb junk (e1, w1) = (e1, w1)" using assms(2) by (simp add: switch_mode_def)
  then show ?thesis using assms(1) g w1 by (auto simp: World_Update_def)
qed

text \<open>The scene a frame is drawn from: the trees the update leaves, with every item started.\<close>

definition cubes_program :: "sys \<Rightarrow> nat" where
  "cubes_program sys = sys_program sys ''vs_cubes.bin'' ''fs_cubes.bin''"

definition hud_program :: "sys \<Rightarrow> nat" where
  "hud_program sys = sys_program sys ''vs_hud.bin'' ''fs_hud.bin''"

definition world_context :: "sys \<Rightarrow> scene_base \<Rightarrow> 'a app \<Rightarrow> draw_context" where
  "world_context sys b a = visual_context b (sys_base sys) (cubes_program sys) (a_deviceTimestamp a)"

definition same_visuals :: "world \<Rightarrow> world \<Rightarrow> bool" where
  "same_visuals w w' \<longleftrightarrow> m_planevis w' = m_planevis w \<and> m_ptsvis w' = m_ptsvis w \<and> m_facevis w' = m_facevis w"

lemma scene_ok_tree:
  assumes "m_root e = world_tree b1 b2 (m_shader w) bs" and "CalcMat b1 = CalcMat b" and "CalcMat b2 = CalcMat (sys_base sys)"
    and "map snd bs = mode_leaves (m_prevMode w)" and "0 \<le> m_mode w" and "m_worldGroup w = Some 0" and "m_shader w = cubes_program sys"
    and "shows_mode (m_prevMode w) w"
  shows "scene_ok sys b e w"
proof -
  have "\<exists>b2 bs. CalcMat b2 = CalcMat (sys_base sys) \<and> m_root e = world_tree b1 b2 (m_shader w) bs \<and> map snd bs = mode_leaves (m_prevMode w)"
    using assms(1,3,4) by blast
  then show ?thesis unfolding scene_ok_def using assms(2,5-8) by (intro conjI exI [of _ b1]) (simp_all add: cubes_program_def)
qed

lemma SetMode_visuals [simp]: "shows_mode k (SetMode m w) = shows_mode k w" "same_visuals v (SetMode m w) = same_visuals v w"
  by (simp_all add: SetMode_def shows_mode_def same_visuals_def)

lemma scene_ok_SetMode: "scene_ok sys b e w \<Longrightarrow> 0 \<le> m \<Longrightarrow> scene_ok sys b e (SetMode m w)"
  by (cases "m_worldGroup w") (auto simp: scene_ok_def SetMode_def shows_mode_def)

lemma App_Draw_scene:
  assumes "app_ok sys g b hud (a, ps)" and "App_Draw sys mb rb n a = (evs, a')"
  shows "\<exists>hb hctx bs. evs = leaf_events (world_context sys b a) bs @ (if m_isInitialized hb then [] else [Init hud]) @ [Draw hud hctx] \<and>
    (m_isInitialized hb \<longrightarrow> hud_shader ps = Some (hud_program sys)) \<and> m_hud (a_engine a') = SceneLeaf (started_item hb) hud \<and>
    map snd bs = mode_leaves (m_mode (a_world a)) \<and> scene_ok sys b (a_engine a') (a_world a') \<and> cached sys (a_engine a') \<and>
    shows_mode (m_mode (a_world a)) (a_world a') \<and>
    (m_prevMode (a_world a) = m_mode (a_world a) \<longrightarrow> same_visuals (a_world a) (a_world a'))"
proof -
  obtain e1 w1 where u: "World_Update (sys_program sys) (sys_sin sys) (sys_cos sys) (sys_base sys) (sys_junk sys) (a_engine a, a_world a) = (e1, w1)"
    by fastforce
  have ok: "scene_ok sys b (a_engine a) (a_world a)" "cached sys (a_engine a)" "hud_ok sys hud (a_engine a) ps"
    using assms(1) by (simp_all add: app_ok_def programs_ok_def)
  note w1 = World_Update_scene [OF ok(1,2) u]
  obtain hb where hb: "m_hud e1 = SceneLeaf hb hud" "m_isInitialized hb \<longrightarrow> hud_shader ps = Some (hud_program sys)"
    using ok(3) w1 by (auto simp: hud_ok_def hud_program_def)
  obtain b1 b2 bs where t: "CalcMat b1 = CalcMat b" "CalcMat b2 = CalcMat (sys_base sys)" "m_root e1 = world_tree b1 b2 (cubes_program sys) bs"
    "map snd bs = mode_leaves (m_mode (a_world a))" "m_shader w1 = cubes_program sys" and sh: "shows_mode (m_mode (a_world a)) w1"
    using w1 unfolding scene_ok_def cubes_program_def by auto
  let ?w = "if mb then SetMode ((GetMode w1 + 1) AND 7) w1 else w1"
  let ?bs = "map (\<lambda>(b, i). (started_item b, i)) bs"
  define e2 where "e2 = e1\<lparr>m_root := world_tree (started_item b1) (started_item b2) (cubes_program sys) ?bs, m_hud := SceneLeaf (started_item hb) hud\<rparr>"
  have "visual_context b1 b2 (cubes_program sys) (a_deviceTimestamp a) = world_context sys b a"
    using t by (simp add: visual_context_def world_context_def)
  then have d: "\<exists>hctx. evs = leaf_events (world_context sys b a) bs @ (if m_isInitialized hb then [] else [Init hud]) @ [Draw hud hctx]"
      "a_engine a' = e2" "a_world a' = ?w"
    using draw_visuals_hud [OF t(3) hb(1)] u assms(2) by (auto simp: App_Draw_def Let_def e2_def)
  have "map snd ?bs = map snd bs" by auto
  then have "scene_ok sys b e2 w1"
    using w1 t sh by (intro scene_ok_tree [of _ "started_item b1" "started_item b2" _ ?bs]) (simp_all add: e2_def scene_ok_def)
  moreover have "cached sys e2" using w1 by (simp add: e2_def cached_def)
  moreover have "scene_ok sys b e2 ?w" if "scene_ok sys b e2 w1" using that by (simp add: scene_ok_SetMode)
  moreover have "m_prevMode (a_world a) = m_mode (a_world a) \<longrightarrow> same_visuals (a_world a) ?w"
    using World_Update_keeps [OF u] by (auto simp: same_visuals_def SetMode_def)
  moreover have "shows_mode (m_mode (a_world a)) ?w" using sh by simp
  moreover have "m_hud e2 = SceneLeaf (started_item hb) hud" by (simp add: e2_def)
  ultimately show ?thesis unfolding d(2,3) using d(1) hb(2) t(4) by blast
qed

lemma draw_frame_ok:
  assumes "app_ok sys g b hud (a, ps)" and "hud \<notin> {1, 2, 4}" and "draw_frame sys g hud mb rb n (a, ps) = (cmds, a', ps')"
  shows "app_ok sys g b hud (a', ps') \<and> shows_mode (m_mode (a_world a)) (a_world a') \<and>
    (m_prevMode (a_world a) = m_mode (a_world a) \<longrightarrow> same_visuals (a_world a) (a_world a')) \<and>
    (\<exists>p q fly. cmds = concat (map (\<lambda>i. visual_cmds sys (a_world a') (i, world_context sys b a)) (mode_leaves (m_mode (a_world a)))) @
      Hud_Draw (Some (hud_program sys)) p q fly)"
proof -
  obtain evs a1 where d: "App_Draw sys mb rb n a = (evs, a1)" by fastforce
  obtain hb hctx bs where evs: "evs = leaf_events (world_context sys b a) bs @ (if m_isInitialized hb then [] else [Init hud]) @ [Draw hud hctx]"
    and s: "m_isInitialized hb \<longrightarrow> hud_shader ps = Some (hud_program sys)" "m_hud (a_engine a1) = SceneLeaf (started_item hb) hud"
      "map snd bs = mode_leaves (m_mode (a_world a))" "scene_ok sys b (a_engine a1) (a_world a1)" "cached sys (a_engine a1)"
      "shows_mode (m_mode (a_world a)) (a_world a1)" "m_prevMode (a_world a) = m_mode (a_world a) \<longrightarrow> same_visuals (a_world a) (a_world a1)"
    using App_Draw_scene [OF assms(1) d] by blast
  let ?le = "leaf_events (world_context sys b a) bs"
  let ?cmds = "concat (map (visual_cmds sys (a_world a1)) (drawn_with ?le))"
  have "snd ` set bs = set (mode_leaves (m_mode (a_world a)))" using s(3) by (metis set_map)
  then have "\<forall>ev \<in> set ?le. event_item ev \<noteq> hud" using assms(2) by (auto simp: mode_leaves_def dest!: leaf_events_items)
  moreover have "programs_ok sys g (a_engine a1) ps" using assms(1) s(5) by (simp add: app_ok_def programs_ok_def)
  ultimately obtain e3 ps3 where v: "fold (render_event sys g hud (a_bkgWriter a) (a_world a1)) ?le ([], a_engine a1, ps) = (?cmds, e3, ps3)"
    "programs_ok sys g e3 ps3" "same_scene (a_engine a1) e3" "hud_shader ps3 = hud_shader ps"
    using render_visuals [of sys g "a_engine a1" ps ?le hud "a_bkgWriter a" "a_world a1" "[]"] by auto
  obtain e4 ps4 where h: "fold (render_event sys g hud (a_bkgWriter a) (a_world a1))
        ((if m_isInitialized hb then [] else [Init hud]) @ [Draw hud hctx]) (?cmds, e3, ps3) =
      (?cmds @ Hud_Draw (Some (hud_program sys)) (g_framesPushed (a_bkgWriter a)) (g_framesWritten (a_bkgWriter a)) (m_fly (m_camera e3)), e4, ps4)"
    "programs_ok sys g e4 ps4" "same_scene e3 e4" "hud_shader ps4 = Some (hud_program sys)"
    using render_hud [OF v(2), of "m_isInitialized hb" hud "a_bkgWriter a" "a_world a1" hctx ?cmds] s(1) v(4)
    by (auto simp: hud_program_def)
  have r: "cmds = ?cmds @ Hud_Draw (Some (hud_program sys)) (g_framesPushed (a_bkgWriter a)) (g_framesWritten (a_bkgWriter a))
      (m_fly (m_camera e3))" "ps' = ps4" "a' = a1\<lparr>a_engine := e4\<rparr>"
    using assms(3) v(1) h(1) by (auto simp: draw_frame_def d render_def evs Let_def)
  have e4: "m_root e4 = m_root (a_engine a1)" "m_hud e4 = SceneLeaf (started_item hb) hud"
    using v(3) h(3) s(2) by (simp_all add: same_scene_def)
  have "app_ok sys g b hud (a', ps')"
    using scene_ok_same [OF s(4) e4(1) same_world_refl] h(2,4) e4(2) r by (simp add: app_ok_def hud_ok_def hud_program_def)
  then show ?thesis using r s(3,6,7) by (auto simp: comp_def)
qed

subsection \<open>What a frame draws\<close>

text \<open>The draw calls asked for: the planes and the points under the matrices of the scene, the face where
  its own matrix puts it while its data is no older or newer than a thirtieth of a second, the display last.\<close>

definition visual_call ::
  "fp list \<Rightarrow> vbuffer \<Rightarrow> ibuffer option \<Rightarrow> (voxel_vertex list \<times> nat) option \<Rightarrow> nat option \<Rightarrow> draw_call" where
  "visual_call m v i inst pgm = \<lparr>dc_transform = Some m, dc_vertices = Some v, dc_indices = i, dc_uniform = Some vis_color,
     dc_instances = inst, dc_state = Some vis_state, dc_submit = Some (0, pgm)\<rparr>"

definition world_matrix :: "sys \<Rightarrow> scene_base \<Rightarrow> matrix" where
  "world_matrix sys b = mult (mult identity_matrix (CalcMat b)) (CalcMat (sys_base sys))"

definition planes_calls :: "sys \<Rightarrow> scene_base \<Rightarrow> world \<Rightarrow> draw_call list" where
  "planes_calls sys b w = (case m_planevis w of
     Some (v # vs) \<Rightarrow> [visual_call (mData (mult (world_matrix sys b) (CalcMat (sys_base sys)))) (PosTex (v # vs)) None None
       (Some (sys_program sys ''vs_planes.bin'' ''fs_planes.bin''))]
   | _ \<Rightarrow> [])"

definition points_calls :: "sys \<Rightarrow> scene_base \<Rightarrow> world \<Rightarrow> draw_call list" where
  "points_calls sys b w = (case m_ptsvis w of
     Some v \<Rightarrow> if v_pts v = [] then []
       else [visual_call (mData (mult (mult (world_matrix sys b) (v_alignMtx v)) (CalcMat (sys_base sys)))) (PosTexNrm s_cubeVertices)
         (Some (StaticIndices s_cubeIndices)) (Some (pvertices (VoxCube_Create (v_pts v)), verticesSize (VoxCube_Create (v_pts v))))
         (Some (cubes_program sys))]
   | None \<Rightarrow> [])"

definition face_calls :: "sys \<Rightarrow> fp \<Rightarrow> world \<Rightarrow> draw_call list" where
  "face_calls sys ts w = (case m_facevis w of
     Some v \<Rightarrow> if v_vertices v = [] \<or> flt (flit F64 (1 / 30)) (ffabs (fsub F64 (v_faceTimestamp v) ts)) then []
       else [visual_call (mData (v_worldMat v)) (PosTex (face_vertices (v_vertices v))) (Some (FaceIndices (v_indices v))) None
         (Some (sys_program sys ''vs_face.bin'' ''fs_planes.bin''))]
   | None \<Rightarrow> [])"

definition hud_call :: "sys \<Rightarrow> draw_call" where
  "hud_call sys = \<lparr>dc_transform = None, dc_vertices = Some (PosTex s_quadVertices), dc_indices = Some (StaticIndices s_quadIndices),
     dc_uniform = None, dc_instances = None, dc_state = Some [WRITE_RGB, WRITE_A, MSAA, BLEND_ALPHA], dc_submit = Some (0, Some (hud_program sys))\<rparr>"

lemma visual_calls:
  assumes "ctx = world_context sys b a"
  shows "draw_calls (visual_cmds sys w (1, ctx)) = planes_calls sys b w" and "draw_calls (visual_cmds sys w (2, ctx)) = points_calls sys b w"
    and "draw_calls (visual_cmds sys w (4, ctx)) = face_calls sys (a_deviceTimestamp a) w" and "submitted (visual_cmds sys w (i, ctx))"
  using assms
  by (auto simp: visual_cmds_def planes_calls_def points_calls_def face_calls_def visual_call_def gfx_simps PlanesVis_Draw_def
      PtsVis_Draw_def FaceVis_Draw_def face_due_def world_context_def visual_context_def world_matrix_def Let_def
      split: option.split list.split)

lemma hud_calls: "draw_calls (Hud_Draw (Some (hud_program sys)) p q fly) = [hud_call sys]"
  by (simp add: gfx_simps Hud_Draw_def hud_call_def)

lemma shown_calls:
  assumes "shows_mode m w"
  shows "draw_calls (concat (map (\<lambda>i. visual_cmds sys w (i, world_context sys b a)) (mode_leaves m)) @ Hud_Draw (Some (hud_program sys)) p q fly) =
    planes_calls sys b w @ points_calls sys b w @ face_calls sys (a_deviceTimestamp a) w @ [hud_call sys]"
proof -
  let ?xss = "map (\<lambda>i. visual_cmds sys w (i, world_context sys b a)) (mode_leaves m)"
  have "list_all submitted ?xss" by (simp add: list_all_iff visual_calls(4) [OF refl])
  note c = draw_calls_concat [OF this]
  have "concat (map draw_calls ?xss) = planes_calls sys b w @ points_calls sys b w @ face_calls sys (a_deviceTimestamp a) w"
    using assms visual_calls(1-3) [OF refl, of sys w b a]
    by (auto simp: mode_leaves_def shows_mode_def planes_calls_def points_calls_def face_calls_def)
  then show ?thesis using c draw_calls_append(1) hud_calls by simp
qed

subsection \<open>Runs of the application\<close>

lemma app_step_ok:
  assumes "app_ok sys g b hud s" and "hud \<notin> {1, 2, 4}" and "app_step sys g hud tick ev s = Some s'"
  shows "app_ok sys g b hud s'"
proof -
  obtain a ps a' ps' where s: "s = (a, ps)" "s' = (a', ps')" by fastforce
  show ?thesis
  proof (cases "\<exists>mb rb n. ev = DrawFrame mb rb n")
    case True
    then obtain mb rb n where ev: "ev = DrawFrame mb rb n" by blast
    obtain cmds where "draw_frame sys g hud mb rb n (a, ps) = (cmds, a', ps')"
      using assms(3) by (auto simp: s ev) (metis prod.collapse snd_conv)
    then show ?thesis using draw_frame_ok assms(1,2) s by blast
  next
    case False
    then show ?thesis using app_step_same [of sys g hud tick ev a ps a' ps'] app_ok_same assms(1,3) s by blast
  qed
qed

lemma app_ok_new:
  assumes "\<not> gl_valid g (gl_bad g)" and "\<not> m_isInitialized hb"
  shows "app_ok sys g b hud (Application_new junk (Engine_new near b hb hud) (World_new n) r, programs_new g)"
  using assms
  by (simp add: app_ok_def scene_ok_def programs_ok_def hud_ok_def cached_def Application_new_def Engine_new_def World_new_def programs_new_def
      bgfxh_new_def)

lemma app_run_ok:
  assumes "app_ok sys g b hud s" and "hud \<notin> {1, 2, 4}" and "app_run sys g hud tick evs s = Some s'"
  shows "app_ok sys g b hud s'"
  using assms(3) unfolding app_run_def
  by (rule ofold_invariant [where P = "app_ok sys g b hud"]) (use assms(1) app_step_ok [OF _ assms(2)] in blast)+

text \<open>C11: After any sequence of events of the application, a frame makes these draw calls and no other, in this
  order: the planes of the last depth frame, the cubes of its points placed by the alignment, the face
  while it is at most a thirtieth of a second away from the device's time, and the display on top. The
  visuals that take part are those of the mode, and they keep their data unless the mode changed.\<close>

theorem frame_calls:
  assumes "hud \<notin> {1, 2, 4}" and "\<not> gl_valid g (gl_bad g)" and "\<not> m_isInitialized hb"
    and "app_run sys g hud tick evs (Application_new junk (Engine_new near b hb hud) (World_new n) r, programs_new g) = Some (a, ps)"
    and "draw_frame sys g hud mb rb k (a, ps) = (cmds, a', ps')"
  shows "draw_calls cmds = planes_calls sys b (a_world a') @ points_calls sys b (a_world a') @
      face_calls sys (a_deviceTimestamp a) (a_world a') @ [hud_call sys] \<and>
    shows_mode (m_mode (a_world a)) (a_world a') \<and>
    (m_prevMode (a_world a) = m_mode (a_world a) \<longrightarrow> same_visuals (a_world a) (a_world a'))"
  using draw_frame_ok [OF app_run_ok [OF app_ok_new [OF assms(2,3)] assms(1,4)] assms(1,5)] shown_calls by force

definition test_gfx :: gfx_lib where
  "test_gfx = \<lparr>gl_valid = (\<lambda>h. h < 100), gl_bad = 100\<rparr>"

definition test_start :: "unit app \<times> programs" where
  "test_start = (Application_new fzero (Engine_new fzero test_base test_base 0) (World_new 0) (Recorder_new False (replicate 16 fzero)),
     programs_new test_gfx)"

lemma World_Update_paused: "World_Update cp sinf cosf nb junk (e, w) = (e', w') \<Longrightarrow> isPaused w' = isPaused w"
  by (auto simp: World_Update_def make_group_def switch_mode_def Let_def split: if_splits prod.splits)

lemma test_gfx_ok: "\<not> gl_valid test_gfx (gl_bad test_gfx)" "\<not> m_isInitialized test_base"
  by (simp_all add: test_gfx_def test_base_def SceneItem_new_def)

lemma test_run:
  "\<exists>a ps. app_run test_sys test_gfx 0 (\<lambda>n t. (True, n)) [DrawFrame False False 1, DepthFrame test_props identity_matrix tiny_frame] test_start =
      Some (a, ps) \<and>
     m_planevis (a_world a) = None \<and> (\<exists>v. m_ptsvis (a_world a) = Some v \<and> v_pts v \<noteq> []) \<and> m_mode (a_world a) = 6 \<and> m_prevMode (a_world a) = 6"
proof -
  obtain a0 ps0 where s: "test_start = (a0, ps0)" by fastforce
  have a0: "a_sStartTime a0 = f_of_int F64 (-1)" "m_mode (a_world a0) = 6" "\<not> isPaused (a_world a0)" and ok0: "app_ok test_sys test_gfx test_base 0 (a0, ps0)"
    using s app_ok_new [OF test_gfx_ok] by (auto simp: test_start_def Application_new_def World_new_def)
  obtain cmds a1 ps1 where d: "draw_frame test_sys test_gfx 0 False False 1 (a0, ps0) = (cmds, a1, ps1)" by (metis surj_pair)
  have "shows_mode 6 (a_world a1)" using draw_frame_ok [OF ok0 _ d] a0 by simp
  then have v1: "m_planevis (a_world a1) = None" "m_ptsvis (a_world a1) \<noteq> None" by (simp_all add: shows_mode_def)
  obtain e w where u: "World_Update (sys_program test_sys) (sys_sin test_sys) (sys_cos test_sys) (sys_base test_sys) (sys_junk test_sys)
      (a_engine a0, a_world a0) = (e, w)" by fastforce
  have "a_world a1 = w" "a_sStartTime a1 = a_sStartTime a0"
    using d u by (auto simp: draw_frame_def App_Draw_def Let_def split: prod.splits)
  then have a1: "a_sStartTime a1 = f_of_int F64 (-1)" "\<not> isPaused (a_world a1)" "m_mode (a_world a1) = 6" "m_prevMode (a_world a1) = 6"
    using World_Update_paused [OF u] World_Update_scene [of test_sys test_base "a_engine a0" "a_world a0", OF _ _ u] ok0 a0
    by (simp_all add: app_ok_def programs_ok_def)
  obtain d' a2 where f: "App_OnDepthBuffer test_sys test_props identity_matrix tiny_frame a1 = Some (d', a2)"
    using test_depth [OF a1(2) v1(1)] minus_one_neg a1(1) by auto
  then have r: "app_run test_sys test_gfx 0 (\<lambda>n t. (True, n)) [DrawFrame False False 1, DepthFrame test_props identity_matrix tiny_frame] test_start =
      Some (a2, ps1)" by (simp add: app_run_def s d)
  have "rebase fzero tiny_frame = tiny_frame" by code_simp
  then have w2: "World_OnDepthBuffer test_sys tiny_frame (a_world a1) = Some (d', a_world a2)"
    using f a1(1) minus_one_neg by (auto simp: App_OnDepthBuffer_def start_time_def bind_eq_Some_conv Let_def)
  then have "dpts d' = dpts tiny_frame" using tiny_shown [OF a1(2) v1(1)] by auto
  moreover have "m_ptsvis (a_world a2) = Some \<lparr>v_pts = dpts d', v_alignMtx = alignMtx d'\<rparr>"
    using World_OnDepthBuffer_cases [OF w2] a1(2) v1(2) by (auto dest!: show_depth_points)
  ultimately have "\<exists>v. m_ptsvis (a_world a2) = Some v \<and> v_pts v \<noteq> []" by (simp add: tiny_frame_def)
  moreover have "same_world (a_world a1) (a_world a2)" using same_world_depth [OF w2] .
  ultimately show ?thesis using r v1 a1(3,4) by (auto simp: same_world_def)
qed

lemma frame_calls_witness:
  "\<exists>a ps cmds a' ps'. app_run test_sys test_gfx 0 (\<lambda>n t. (True, n)) [DrawFrame False False 1, DepthFrame test_props identity_matrix tiny_frame]
      test_start = Some (a, ps) \<and>
     draw_frame test_sys test_gfx 0 False False 2 (a, ps) = (cmds, a', ps') \<and> points_calls test_sys test_base (a_world a') \<noteq> [] \<and>
     draw_calls cmds = points_calls test_sys test_base (a_world a') @ face_calls test_sys (a_deviceTimestamp a) (a_world a') @ [hud_call test_sys]"
proof -
  obtain a ps where r: "app_run test_sys test_gfx 0 (\<lambda>n t. (True, n)) [DrawFrame False False 1, DepthFrame test_props identity_matrix tiny_frame]
      test_start = Some (a, ps)" and w: "m_planevis (a_world a) = None" "\<exists>v. m_ptsvis (a_world a) = Some v \<and> v_pts v \<noteq> []"
      "m_mode (a_world a) = 6" "m_prevMode (a_world a) = 6"
    using test_run by blast
  obtain cmds a' ps' where d: "draw_frame test_sys test_gfx 0 False False 2 (a, ps) = (cmds, a', ps')" by (metis surj_pair)
  have "same_visuals (a_world a) (a_world a')" and c: "draw_calls cmds = planes_calls test_sys test_base (a_world a') @
      points_calls test_sys test_base (a_world a') @ face_calls test_sys (a_deviceTimestamp a) (a_world a') @ [hud_call test_sys]"
    using frame_calls [OF _ test_gfx_ok r [unfolded test_start_def] d] w by simp_all
  then have "planes_calls test_sys test_base (a_world a') = []" "points_calls test_sys test_base (a_world a') \<noteq> []"
    using w by (auto simp: same_visuals_def planes_calls_def points_calls_def)
  then show ?thesis using r d c by auto
qed

end
