(* ===== verification/Window.thy ===== *)
theory Window
  imports WinMain Render
begin

text \<open>
  The Windows program as a whole (\<open>src/win/map.cpp\<close>): its window procedure with every message it
  handles, the timer tick with its drawing, the initialisation and the message loop. What Windows
  and the clock supply is an input of each step. The main result is a simulation: whatever messages arrive,
  the application only sees a sequence of its own events, so what holds for those holds for the program.
\<close>

subsection \<open>State and messages\<close>

text \<open>The right and bottom sides of a client rectangle; its other two are 0.\<close>

type_synonym rect = "int \<times> int"

text \<open>The globals and statics of the file; those of the playback are in \<open>wn_win\<close>, with the application.\<close>

record 'a wnd =
  bgfxInit :: bool
  keystate :: "bool list"
  curWindowRect :: rect
  startTime :: u64
  timePeriod :: fp
  wn_win :: "'a win"
  wn_programs :: programs

definition wnd_new :: "'a app \<Rightarrow> programs \<Rightarrow> 'a wnd" where
  "wnd_new a ps = \<lparr>bgfxInit = False, keystate = replicate 256 False, curWindowRect = (0, 0), startTime = 0, timePeriod = fzero,
     wn_win = \<lparr>w_frames = \<lparr>depthFrames = [], faceFrames = [], sStartTime = fzero, sEndTime = fzero\<rparr>, w_firsttick = True,
       sCurtime = fzero, curDepthIdx = 0, curFaceIdx = 0, w_app = a\<rparr>, wn_programs = ps\<rparr>"

text \<open>What one tick reads from outside: the capture, if this tick loads it, the performance counter, the
  client rectangle, which of the two buttons the window library reports as pressed and the number of the
  frame. The others are fields the source leaves unset.\<close>

record tick_in =
  ti_loaded :: "playback option"
  ti_props :: depth_props
  ti_mtx :: mat44
  ti_vw :: nat
  ti_vh :: nat
  ti_counter :: u64
  ti_client :: rect
  ti_modeButton :: bool
  ti_recordButton :: bool
  ti_frame :: int

text \<open>The coordinates of the mouse are signed 16-bit numbers. \<open>OtherMsg\<close> is any message that the procedure
  leaves to the system.\<close>

datatype wnd_msg =
    WM_TIMER tick_in
  | WM_PAINT tick_in
  | WM_SIZE rect
  | WM_DESTROY
  | WM_LBUTTONDOWN u16 u16
  | WM_LBUTTONUP
  | WM_MOUSEMOVE u16 u16
  | WM_KEYDOWN nat
  | WM_SYSKEYDOWN nat
  | WM_KEYUP nat
  | WM_SYSKEYUP nat
  | OtherMsg

text \<open>The calls the program makes to the graphics library and to the system, in order.\<close>

datatype wnd_call =
    RenderFrame
  | GraphicsInit u32 u32
  | SetDebug
  | ViewClear nat
  | ViewRect nat
  | Reset u32 u32
  | TouchView nat
  | Frame "gfx list"
  | PostQuit
  | DefProc

subsection \<open>The timer tick\<close>

text \<open>\<open>elapsedTime\<close>; both counters are read from the system as 64-bit integers.\<close>

definition elapsed_time :: "u64 \<Rightarrow> 'a wnd \<Rightarrow> fp" where
  "elapsed_time cur s = mulf (f_of_int F32 (sint (cur - startTime s))) (timePeriod s)"

definition resize_calls :: "rect \<Rightarrow> rect \<Rightarrow> wnd_call list" where
  "resize_calls old r =
     (if fst r \<noteq> fst old \<or> snd r \<noteq> snd old
      then [Reset (word_of_int (fst r)) (word_of_int (snd r)), ViewRect 0, ViewRect 1] else [])"

definition Wnd_Tick ::
  "sys \<Rightarrow> gfx_lib \<Rightarrow> nat \<Rightarrow> ('a \<Rightarrow> fp \<Rightarrow> bool \<times> 'a) \<Rightarrow> tick_in \<Rightarrow> 'a wnd \<Rightarrow> (wnd_call list \<times> 'a wnd) option" where
  "Wnd_Tick sys g hud tick i s =
     (if \<not> bgfxInit s then Some ([], s)
      else do {
        w \<leftarrow> tick_frames sys (ti_props i) (ti_mtx i) (ti_loaded i) (wn_win s);
        a \<leftarrow> App_Tick sys tick (ti_vw i) (ti_vh i) (elapsed_time (ti_counter i) s) (sCurtime w) (w_app w);
        let (cmds, a, ps) = draw_frame sys g hud (ti_modeButton i) (ti_recordButton i) (ti_frame i) (a, wn_programs s)
        in Some (resize_calls (curWindowRect s) (ti_client i) @ [TouchView 0, TouchView 1, Frame cmds],
             s\<lparr>curWindowRect := ti_client i, wn_win := w\<lparr>w_app := a\<rparr>, wn_programs := ps\<rparr>) })"

subsection \<open>The window procedure\<close>

definition on_app :: "('a app \<Rightarrow> 'a app) \<Rightarrow> 'a wnd \<Rightarrow> 'a wnd" where
  "on_app f s = s\<lparr>wn_win := (wn_win s)\<lparr>w_app := f (w_app (wn_win s))\<rparr>\<rparr>"

definition wnd_key_msg :: "key_msg \<Rightarrow> 'a wnd \<Rightarrow> (wnd_call list \<times> 'a wnd) option" where
  "wnd_key_msg k s = do {
     (ks, a) \<leftarrow> wnd_key k (keystate s, w_app (wn_win s));
     Some ([], (on_app (\<lambda>_. a) s)\<lparr>keystate := ks\<rparr>) }"

definition coord :: "u16 \<Rightarrow> fp" where
  "coord x = f_of_int F32 (sint x)"

fun WndProc ::
  "sys \<Rightarrow> gfx_lib \<Rightarrow> nat \<Rightarrow> ('a \<Rightarrow> fp \<Rightarrow> bool \<times> 'a) \<Rightarrow> wnd_msg \<Rightarrow> 'a wnd \<Rightarrow> (wnd_call list \<times> 'a wnd) option" where
  "WndProc sys g hud tick (WM_TIMER i) s = Wnd_Tick sys g hud tick i s"
| "WndProc sys g hud tick (WM_PAINT i) s = Wnd_Tick sys g hud tick i s"
| "WndProc sys g hud tick (WM_SIZE r) s = Some ([], on_app (App_Resize (fst r) (snd r)) s)"
| "WndProc sys g hud tick WM_DESTROY s = Some ([PostQuit], s)"
| "WndProc sys g hud tick (WM_LBUTTONDOWN x y) s = Some ([], on_app (App_TouchDown (coord x) (coord y)) s)"
| "WndProc sys g hud tick WM_LBUTTONUP s = Some ([], on_app App_TouchUp s)"
| "WndProc sys g hud tick (WM_MOUSEMOVE x y) s = Some ([], on_app (App_TouchMove (coord x) (coord y)) s)"
| "WndProc sys g hud tick (WM_KEYDOWN k) s = wnd_key_msg (KeyDownMsg k) s"
| "WndProc sys g hud tick (WM_SYSKEYDOWN k) s = wnd_key_msg (KeyDownMsg k) s"
| "WndProc sys g hud tick (WM_KEYUP k) s = wnd_key_msg (KeyUpMsg k) s"
| "WndProc sys g hud tick (WM_SYSKEYUP k) s = wnd_key_msg (KeyUpMsg k) s"
| "WndProc sys g hud tick OtherMsg s = Some ([DefProc], s)"

text \<open>Between two messages the threads of the recorder and of the player may have changed them.\<close>

datatype wnd_event = Message wnd_msg | RecorderRan recorder | PlayerRan "player option"

fun wnd_step ::
  "sys \<Rightarrow> gfx_lib \<Rightarrow> nat \<Rightarrow> ('a \<Rightarrow> fp \<Rightarrow> bool \<times> 'a) \<Rightarrow> wnd_event \<Rightarrow> 'a wnd \<Rightarrow> (wnd_call list \<times> 'a wnd) option" where
  "wnd_step sys g hud tick (Message m) s = WndProc sys g hud tick m s"
| "wnd_step sys g hud tick (RecorderRan r) s = Some ([], on_app (\<lambda>a. a\<lparr>a_bkgWriter := r\<rparr>) s)"
| "wnd_step sys g hud tick (PlayerRan p) s = Some ([], on_app (\<lambda>a. a\<lparr>a_player := p\<rparr>) s)"

text \<open>The hook that would see the keys of all programs has the same filter on a key state of its own, and
  always calls the next hook; the source does not install it.\<close>

definition KeyboardHookproc :: "key_msg option \<Rightarrow> bool list \<times> 'a app \<Rightarrow> (bool list \<times> 'a app) option" where
  "KeyboardHookproc m s = (case m of None \<Rightarrow> Some s | Some k \<Rightarrow> wnd_key k s)"

subsection \<open>Runs with output\<close>

fun orun :: "('e \<Rightarrow> 's \<Rightarrow> ('o list \<times> 's) option) \<Rightarrow> 'e list \<Rightarrow> 's \<Rightarrow> ('o list \<times> 's) option" where
  "orun f [] s = Some ([], s)"
| "orun f (e # es) s = do { (os, t) \<leftarrow> f e s; (os', u) \<leftarrow> orun f es t; Some (os @ os', u) }"

subsection \<open>Start and message loop\<close>

definition documents_path :: string where
  "documents_path = ''C:'' @ [CHR 0x5C] @ ''homep4'' @ [CHR 0x5C] @ ''sqwar'' @ [CHR 0x5C]"

text \<open>What the system supplies: whether the window and the graphics came up, the messages it sends while the
  window is made and while it is shown, the client rectangle before and after it is shown, and the
  performance counter with its frequency.\<close>

record init_in =
  ii_created :: bool
  ii_creating :: "wnd_event list"
  ii_rect :: rect
  ii_showing :: "wnd_event list"
  ii_frequency :: u64
  ii_counter :: u64
  ii_client :: rect
  ii_graphics :: bool

definition init_clock :: "init_in \<Rightarrow> 'a wnd \<Rightarrow> 'a wnd" where
  "init_clock i s = s\<lparr>startTime := ii_counter i, timePeriod := divf fone (f_of_int F32 (sint (ii_frequency i))), curWindowRect := ii_client i\<rparr>"

definition init_app :: "init_in \<Rightarrow> 'a wnd \<Rightarrow> 'a wnd" where
  "init_app i s = on_app (App_Resize (fst (ii_rect i)) (snd (ii_rect i)) \<circ> App_Initialize documents_path) (s\<lparr>bgfxInit := True\<rparr>)"

definition InitInstance ::
  "sys \<Rightarrow> gfx_lib \<Rightarrow> nat \<Rightarrow> ('a \<Rightarrow> fp \<Rightarrow> bool \<times> 'a) \<Rightarrow> init_in \<Rightarrow> 'a wnd \<Rightarrow> (bool \<times> wnd_call list \<times> 'a wnd) option" where
  "InitInstance sys g hud tick i s = do {
     (cs, s) \<leftarrow> orun (wnd_step sys g hud tick) (ii_creating i) s;
     if \<not> ii_created i then Some (False, cs, s)
     else do {
       (cs', s) \<leftarrow> orun (wnd_step sys g hud tick) (ii_showing i) s;
       let s = init_clock i s;
           made = cs @ cs' @ [RenderFrame, GraphicsInit (word_of_int (fst (ii_client i))) (word_of_int (snd (ii_client i)))]
       in if \<not> ii_graphics i then Some (True, made, s)
          else Some (True, made @ [SetDebug, ViewClear 0, ViewRect 0], init_app i s) } }"

text \<open>What \<open>GetMessage\<close> gives: a message, which \<open>TranslateAccelerator\<close> may take for itself, or the end.
  While it waits, messages sent to the window directly are handled, and the threads run.\<close>

datatype got = Got bool wnd_msg | Ran wnd_event | Quit int

fun main_loop ::
  "sys \<Rightarrow> gfx_lib \<Rightarrow> nat \<Rightarrow> ('a \<Rightarrow> fp \<Rightarrow> bool \<times> 'a) \<Rightarrow> got list \<Rightarrow> 'a wnd \<Rightarrow> (int option \<times> wnd_call list \<times> 'a wnd) option" where
  "main_loop sys g hud tick [] s = Some (None, [], s)"
| "main_loop sys g hud tick (Quit code # ms) s = Some (Some code, [], s)"
| "main_loop sys g hud tick (Got accel m # ms) s =
     (if accel then main_loop sys g hud tick ms s
      else do {
        (cs, s) \<leftarrow> WndProc sys g hud tick m s;
        (r, cs', s) \<leftarrow> main_loop sys g hud tick ms s;
        Some (r, cs @ cs', s) })"
| "main_loop sys g hud tick (Ran e # ms) s = do {
     (cs, s) \<leftarrow> wnd_step sys g hud tick e s;
     (r, cs', s) \<leftarrow> main_loop sys g hud tick ms s;
     Some (r, cs @ cs', s) }"

text \<open>The result is the exit code, or none while the loop waits for more messages.\<close>

definition wWinMain ::
  "sys \<Rightarrow> gfx_lib \<Rightarrow> nat \<Rightarrow> ('a \<Rightarrow> fp \<Rightarrow> bool \<times> 'a) \<Rightarrow> init_in \<Rightarrow> got list \<Rightarrow> 'a wnd \<Rightarrow> (int option \<times> wnd_call list \<times> 'a wnd) option" where
  "wWinMain sys g hud tick i ms s = do {
     (ok, cs, s) \<leftarrow> InitInstance sys g hud tick i s;
     if \<not> ok then Some (Some 0, cs, s)
     else do { (r, cs', s) \<leftarrow> main_loop sys g hud tick ms s; Some (r, cs @ cs', s) } }"

subsection \<open>Simulation\<close>

lemma orun_invariant:
  assumes "orun f es s = Some (os, t)" and "P s"
    and "\<And>e a b xs. P a \<Longrightarrow> f e a = Some (xs, b) \<Longrightarrow> P b \<and> (\<forall>x \<in> set xs. Q x)"
  shows "P t \<and> (\<forall>x \<in> set os. Q x)"
  using assms(1,2)
proof (induction es arbitrary: s os)
  case (Cons e es)
  from Cons.prems(1) obtain xs u ys where u: "f e s = Some (xs, u)" "orun f es u = Some (ys, t)" "os = xs @ ys"
    by (auto simp: bind_eq_Some_conv)
  then show ?case using Cons.IH [OF u(2)] assms(3) [OF Cons.prems(2) u(1)] by auto
qed simp

text \<open>A machine whose steps, seen through \<open>view\<close>, are runs of another one.\<close>

locale simulation =
  fixes cstep :: "'e \<Rightarrow> 'c \<Rightarrow> ('o list \<times> 'c) option"
    and astep :: "'v \<Rightarrow> 's \<Rightarrow> 's option"
    and view :: "'c \<Rightarrow> 's"
  assumes step_runs: "cstep e c = Some (os, c') \<Longrightarrow> \<exists>evs. ofold astep evs (view c) = Some (view c')"
begin

lemma run:
  assumes "orun cstep es c = Some (os, c')"
  shows "\<exists>evs. ofold astep evs (view c) = Some (view c')"
proof -
  have "\<exists>evs. ofold astep evs (view c) = Some (view c)" by (rule exI [of _ "[]"]) simp
  moreover have "\<exists>evs. ofold astep evs (view c) = Some (view b)"
    if a: "\<exists>evs. ofold astep evs (view c) = Some (view a)" and b: "cstep e a = Some (xs, b)" for e a b xs
  proof -
    obtain es fs where "ofold astep es (view c) = Some (view a)" "ofold astep fs (view a) = Some (view b)"
      using a step_runs [OF b] by blast
    then have "ofold astep (es @ fs) (view c) = Some (view b)" by (simp add: ofold_append)
    then show ?thesis by blast
  qed
  ultimately show ?thesis
    using orun_invariant [OF assms, of "\<lambda>d. \<exists>evs. ofold astep evs (view c) = Some (view d)" "\<lambda>_. True"] by blast
qed

lemma invariant_step:
  assumes "cstep e c = Some (os, c')" and "P (view c)" and "\<And>ev a b. P a \<Longrightarrow> astep ev a = Some b \<Longrightarrow> P b"
  shows "P (view c')"
proof -
  obtain evs where "ofold astep evs (view c) = Some (view c')" using step_runs [OF assms(1)] by blast
  then show ?thesis by (rule ofold_invariant) (use assms(2,3) in blast)+
qed

lemma outputs:
  assumes "orun cstep es c = Some (os, c')" and "P (view c)" and "\<And>ev a b. P a \<Longrightarrow> astep ev a = Some b \<Longrightarrow> P b"
    and "\<And>e a b xs. P (view a) \<Longrightarrow> cstep e a = Some (xs, b) \<Longrightarrow> \<forall>x \<in> set xs. Q x"
  shows "P (view c') \<and> (\<forall>x \<in> set os. Q x)"
proof (rule orun_invariant [OF assms(1), of "\<lambda>d. P (view d)"])
  show "P (view c)" by (rule assms(2))
next
  fix e a b xs
  assume a: "P (view a)" "cstep e a = Some (xs, b)"
  then show "P (view b) \<and> (\<forall>x \<in> set xs. Q x)" using invariant_step [OF a(2), of P] assms(3,4) by blast
qed

end

definition app_view :: "'a wnd \<Rightarrow> 'a app \<times> programs" where
  "app_view s = (w_app (wn_win s), wn_programs s)"

lemma app_view_simps [simp]:
  "app_view (on_app f s) = (f (w_app (wn_win s)), wn_programs s)" "app_view (s\<lparr>keystate := ks\<rparr>) = app_view s"
  "app_view (s\<lparr>bgfxInit := b\<rparr>) = app_view s" "app_view (s\<lparr>curWindowRect := r\<rparr>) = app_view s"
  "app_view (init_clock i s) = app_view s" "app_view (wnd_new a ps) = (a, ps)"
  by (simp_all add: app_view_def on_app_def wnd_new_def init_clock_def)

text \<open>The steps of the playback are the frames the application gets.\<close>

lemma deliver_depth_runs:
  assumes "deliver_depth sys p m s = Some s'"
  shows "\<exists>d. app_step sys g hud tick (DepthFrame p m d) (w_app s, ps) = Some (w_app s', ps)"
proof -
  obtain d d' a where "App_OnDepthBuffer sys p m d (w_app s) = Some (d', a)" "s' = s\<lparr>w_app := a\<rparr>"
    using assms by (auto simp: deliver_depth_def bind_eq_Some_conv)
  then show ?thesis by (intro exI [of _ d]) simp
qed

lemma deliver_face_runs:
  assumes "deliver_face p m s = Some s'"
  shows "\<exists>fp vs is. app_step sys g hud tick (FaceFrame p m fp vs is) (w_app s, ps) = Some (w_app s', ps)"
proof -
  obtain fp vs xs where "w_app s' = snd (App_OnFaceData p m fp vs xs (w_app s))"
    using assms by (auto simp: deliver_face_def bind_eq_Some_conv Let_def split: prod.splits) (metis snd_conv)
  then show ?thesis by (intro exI [of _ fp] exI [of _ vs] exI [of _ xs]) simp
qed

lemma one_step: "step ev s = Some t \<Longrightarrow> \<exists>evs. ofold step evs s = Some t"
  by (rule exI [of _ "[ev]"]) simp

lemma no_step: "\<exists>evs. ofold step evs s = Some s"
  by (rule exI [of _ "[]"]) simp

lemma tick_frames_split:
  assumes "tick_frames sys p m loaded s = Some s'"
  shows "\<exists>s0 s1 s2. w_app s0 = w_app s \<and> (deliver_depth sys p m s0 = Some s1 \<or> s1 = s0) \<and>
    (deliver_face p m s1 = Some s2 \<or> s2 = s1) \<and> w_app s' = w_app s2"
proof -
  obtain s0 where s0: "(if w_firsttick s then map_option (\<lambda>f. s\<lparr>w_frames := f, sCurtime := sStartTime f\<rparr>) loaded else Some s) = Some s0"
    using assms by (auto simp: tick_frames_def bind_eq_Some_conv)
  obtain d f s2 s3 where d: "(if w_firsttick s0 \<or> d \<noteq> curDepthIdx s0 then deliver_depth sys p m (s0\<lparr>curDepthIdx := d, curFaceIdx := f\<rparr>)
      else Some (s0\<lparr>curDepthIdx := d, curFaceIdx := f\<rparr>)) = Some s2"
    and f: "(if w_firsttick s0 \<or> f \<noteq> curFaceIdx s0 then deliver_face p m s2 else Some s2) = Some s3"
    and t: "s' = next_time (s3\<lparr>w_firsttick := False\<rparr>)"
    using assms s0 by (fastforce simp: tick_frames_def bind_eq_Some_conv Let_def)
  have "w_app s0 = w_app s" using s0 by (auto split: if_splits)
  then show ?thesis using d f t
    by (intro exI [of _ "s0\<lparr>curDepthIdx := d, curFaceIdx := f\<rparr>"] exI [of _ s2] exI [of _ s3]) (auto split: if_splits)
qed

lemma tick_frames_runs:
  assumes "tick_frames sys p m loaded s = Some s'"
  shows "\<exists>evs. app_run sys g hud tick evs (w_app s, ps) = Some (w_app s', ps)"
proof -
  obtain s0 s1 s2 where f: "w_app s0 = w_app s" "deliver_depth sys p m s0 = Some s1 \<or> s1 = s0"
    "deliver_face p m s1 = Some s2 \<or> s2 = s1" "w_app s' = w_app s2"
    using tick_frames_split [OF assms] by blast
  obtain es where "ofold (app_step sys g hud tick) es (w_app s, ps) = Some (w_app s1, ps)"
    using f(1,2) deliver_depth_runs [of sys p m s0 s1 g hud tick ps] one_step no_step by metis
  moreover obtain fs where "ofold (app_step sys g hud tick) fs (w_app s1, ps) = Some (w_app s2, ps)"
    using f(3) deliver_face_runs [of p m s1 s2 sys g hud tick ps] one_step no_step by metis
  ultimately show ?thesis using f(4) by (intro exI [of _ "es @ fs"]) (simp add: app_run_def ofold_append)
qed

lemma Wnd_Tick_Some:
  assumes "Wnd_Tick sys g hud tick i s = Some (cs, s')" and "bgfxInit s"
  shows "\<exists>evs a ps cmds. app_run sys g hud tick evs (app_view s) = Some (a, ps) \<and>
    draw_frame sys g hud (ti_modeButton i) (ti_recordButton i) (ti_frame i) (a, ps) = (cmds, app_view s') \<and>
    cs = resize_calls (curWindowRect s) (ti_client i) @ [TouchView 0, TouchView 1, Frame cmds]"
proof -
  let ?ps = "wn_programs s"
  obtain w a where w: "tick_frames sys (ti_props i) (ti_mtx i) (ti_loaded i) (wn_win s) = Some w"
    and a: "App_Tick sys tick (ti_vw i) (ti_vh i) (elapsed_time (ti_counter i) s) (sCurtime w) (w_app w) = Some a"
    using assms by (auto simp: Wnd_Tick_def bind_eq_Some_conv)
  obtain cmds a' ps' where d: "draw_frame sys g hud (ti_modeButton i) (ti_recordButton i) (ti_frame i) (a, ?ps) = (cmds, a', ps')"
    by (metis surj_pair)
  obtain evs where "ofold (app_step sys g hud tick) evs (w_app (wn_win s), ?ps) = Some (w_app w, ?ps)"
    using tick_frames_runs [OF w] unfolding app_run_def by blast
  then have "app_run sys g hud tick (evs @ [Tick (ti_vw i) (ti_vh i) (elapsed_time (ti_counter i) s) (sCurtime w)]) (app_view s) = Some (a, ?ps)"
    using a by (simp add: app_run_def ofold_append app_view_def)
  moreover have "cs = resize_calls (curWindowRect s) (ti_client i) @ [TouchView 0, TouchView 1, Frame cmds]" "app_view s' = (a', ps')"
    using assms w a d by (auto simp: Wnd_Tick_def app_view_def)
  ultimately show ?thesis using d by metis
qed

lemma Wnd_Tick_runs:
  assumes "Wnd_Tick sys g hud tick i s = Some (cs, s')"
  shows "\<exists>evs. ofold (app_step sys g hud tick) evs (app_view s) = Some (app_view s')"
proof (cases "bgfxInit s")
  case True
  then obtain evs a ps cmds where r: "app_run sys g hud tick evs (app_view s) = Some (a, ps)"
    "draw_frame sys g hud (ti_modeButton i) (ti_recordButton i) (ti_frame i) (a, ps) = (cmds, app_view s')"
    using Wnd_Tick_Some [OF assms] by blast
  then have "ofold (app_step sys g hud tick) (evs @ [DrawFrame (ti_modeButton i) (ti_recordButton i) (ti_frame i)]) (app_view s) = Some (app_view s')"
    by (simp add: app_run_def ofold_append)
  then show ?thesis by blast
next
  case False
  then show ?thesis using assms by (intro exI [of _ "[]"]) (simp add: Wnd_Tick_def)
qed

lemma wnd_key_runs:
  assumes "wnd_key_msg k s = Some (cs, s')"
  shows "\<exists>evs. ofold (app_step sys g hud tick) evs (app_view s) = Some (app_view s')"
proof -
  obtain ks a where w: "wnd_key k (keystate s, w_app (wn_win s)) = Some (ks, a)" and v: "app_view s' = (a, wn_programs s)"
    using assms by (auto simp: wnd_key_msg_def bind_eq_Some_conv)
  consider "a = w_app (wn_win s)" | n where "a = App_KeyDown (int n) (w_app (wn_win s))" | n where "a = App_KeyUp (int n) (w_app (wn_win s))"
    using w by (cases k) (auto simp: bind_eq_Some_conv split: if_splits)
  then show ?thesis
  proof cases
    case 1
    then show ?thesis using v by (intro exI [of _ "[]"]) (simp add: app_view_def)
  next
    case 2
    then show ?thesis using v by (intro exI [of _ "[KeyDown (int n)]"]) (simp add: app_view_def)
  next
    case 3
    then show ?thesis using v by (intro exI [of _ "[KeyUp (int n)]"]) (simp add: app_view_def)
  qed
qed

lemma WndProc_runs:
  assumes "WndProc sys g hud tick m s = Some (cs, s')"
  shows "\<exists>evs. ofold (app_step sys g hud tick) evs (app_view s) = Some (app_view s')"
proof (cases m)
  case (WM_SIZE r)
  then show ?thesis using assms one_step [of "app_step sys g hud tick" "Resize (fst r) (snd r)" "app_view s"] by (auto simp: app_view_def on_app_def)
next
  case (WM_LBUTTONDOWN x y)
  then show ?thesis using assms one_step [of "app_step sys g hud tick" "TouchDown (coord x) (coord y)" "app_view s"] by (auto simp: app_view_def on_app_def)
next
  case WM_LBUTTONUP
  then show ?thesis using assms one_step [of "app_step sys g hud tick" TouchUp "app_view s"] by (auto simp: app_view_def on_app_def)
next
  case (WM_MOUSEMOVE x y)
  then show ?thesis using assms one_step [of "app_step sys g hud tick" "TouchMove (coord x) (coord y)" "app_view s"] by (auto simp: app_view_def on_app_def)
qed (use assms Wnd_Tick_runs wnd_key_runs no_step in auto)

lemma wnd_step_runs:
  assumes "wnd_step sys g hud tick e s = Some (cs, s')"
  shows "\<exists>evs. ofold (app_step sys g hud tick) evs (app_view s) = Some (app_view s')"
proof (cases e)
  case (Message m)
  then show ?thesis using assms WndProc_runs by auto
next
  case (RecorderRan r)
  then show ?thesis using assms one_step [of "app_step sys g hud tick" "Recorded r" "app_view s"] by (auto simp: app_view_def on_app_def)
next
  case (PlayerRan p)
  then show ?thesis using assms one_step [of "app_step sys g hud tick" "Played p" "app_view s"] by (auto simp: app_view_def on_app_def)
qed

interpretation wnd: simulation "wnd_step sys g hud tick" "app_step sys g hud tick" app_view for sys g hud tick
  by unfold_locales (rule wnd_step_runs)

subsection \<open>The program\<close>

text \<open>The events the loop handles, and the exit code it stops with.\<close>

fun handled :: "got list \<Rightarrow> wnd_event list" where
  "handled [] = []"
| "handled (Quit code # ms) = []"
| "handled (Got accel m # ms) = (if accel then handled ms else Message m # handled ms)"
| "handled (Ran e # ms) = e # handled ms"

fun exit_code :: "got list \<Rightarrow> int option" where
  "exit_code [] = None"
| "exit_code (Quit code # ms) = Some code"
| "exit_code (Got accel m # ms) = exit_code ms"
| "exit_code (Ran e # ms) = exit_code ms"

lemma main_loop_run:
  "main_loop sys g hud tick ms s = map_option (\<lambda>(cs, s). (exit_code ms, cs, s)) (orun (wnd_step sys g hud tick) (handled ms) s)"
proof (induction ms arbitrary: s)
  case (Cons m ms)
  show ?case
  proof (cases m)
    case (Got accel x)
    then show ?thesis
      by (cases "WndProc sys g hud tick x s"; cases "orun (wnd_step sys g hud tick) (handled ms) (snd (the (WndProc sys g hud tick x s)))")
        (auto simp: Cons.IH)
  next
    case (Ran e)
    then show ?thesis
      by (cases "wnd_step sys g hud tick e s"; cases "orun (wnd_step sys g hud tick) (handled ms) (snd (the (wnd_step sys g hud tick e s)))")
        (auto simp: Cons.IH)
  qed simp
qed simp

lemma wWinMain_invariant:
  assumes "wWinMain sys g hud tick i ms s = Some (r, cs, s')" and "P s"
    and step: "\<And>e a b xs. P a \<Longrightarrow> wnd_step sys g hud tick e a = Some (xs, b) \<Longrightarrow> P b \<and> (\<forall>x \<in> set xs. Q x)"
    and init: "\<And>a. P a \<Longrightarrow> P (init_clock i a)" "\<And>a. ii_graphics i \<Longrightarrow> P a \<Longrightarrow> P (init_app i a)"
    and calls: "Q RenderFrame" "\<And>w h. Q (GraphicsInit w h)" "Q SetDebug" "Q (ViewClear 0)" "Q (ViewRect 0)"
  shows "P s' \<and> (\<forall>x \<in> set cs. Q x)"
proof -
  have inv: "P v \<and> (\<forall>x \<in> set os. Q x)" if "orun (wnd_step sys g hud tick) es u = Some (os, v)" "P u" for es u os v
    using orun_invariant [OF that(1), of P Q] that(2) step by blast
  obtain ok cs1 s1 where i: "InitInstance sys g hud tick i s = Some (ok, cs1, s1)"
    using assms(1) by (auto simp: wWinMain_def bind_eq_Some_conv)
  obtain c1 t1 where c1: "orun (wnd_step sys g hud tick) (ii_creating i) s = Some (c1, t1)"
    using i by (auto simp: InitInstance_def bind_eq_Some_conv)
  note p1 = inv [OF c1 assms(2)]
  have "P s1 \<and> (\<forall>x \<in> set cs1. Q x)"
  proof (cases "ii_created i")
    case True
    then obtain c2 t2 where c2: "orun (wnd_step sys g hud tick) (ii_showing i) t1 = Some (c2, t2)"
      using i c1 by (auto simp: InitInstance_def bind_eq_Some_conv)
    note p2 = inv [OF c2 conjunct1 [OF p1]]
    show ?thesis using i c1 c2 True p1 p2 init calls by (auto simp: InitInstance_def Let_def split: if_splits)
  next
    case False
    then show ?thesis using i c1 p1 by (simp add: InitInstance_def)
  qed
  moreover have "s' = s1 \<and> cs = cs1 \<or> (\<exists>c2. orun (wnd_step sys g hud tick) (handled ms) s1 = Some (c2, s') \<and> cs = cs1 @ c2)"
    using assms(1) i by (cases "orun (wnd_step sys g hud tick) (handled ms) s1") (auto simp: wWinMain_def main_loop_run split: if_splits)
  ultimately show ?thesis using inv by auto
qed

text \<open>A frame of a state that events of the application lead to: the visuals of a world that shows its mode, and
  the display on top.\<close>

definition whole_frame ::
  "sys \<Rightarrow> gfx_lib \<Rightarrow> nat \<Rightarrow> ('a \<Rightarrow> fp \<Rightarrow> bool \<times> 'a) \<Rightarrow> scene_base \<Rightarrow> 'a app \<times> programs \<Rightarrow> gfx list \<Rightarrow> bool" where
  "whole_frame sys g hud tick b start cmds \<longleftrightarrow>
     (\<exists>evs a ps mb rb k a' ps'. app_run sys g hud tick evs start = Some (a, ps) \<and>
        draw_frame sys g hud mb rb k (a, ps) = (cmds, a', ps') \<and> shows_mode (m_mode (a_world a)) (a_world a') \<and>
        draw_calls cmds = planes_calls sys b (a_world a') @ points_calls sys b (a_world a') @
          face_calls sys (a_deviceTimestamp a) (a_world a') @ [hud_call sys])"

lemma draw_frame_whole:
  assumes "app_ok sys g b hud start" and "app_run sys g hud tick evs start = Some (a, ps)" and "hud \<notin> {1, 2, 4}"
    and "draw_frame sys g hud mb rb k (a, ps) = (cmds, s')"
  shows "whole_frame sys g hud tick b start cmds"
proof -
  obtain a' ps' where s: "s' = (a', ps')" by fastforce
  note d = draw_frame_ok [OF app_run_ok [OF assms(1,3,2)] assms(3,4) [unfolded s]]
  then have "draw_calls cmds = planes_calls sys b (a_world a') @ points_calls sys b (a_world a') @
      face_calls sys (a_deviceTimestamp a) (a_world a') @ [hud_call sys]" using shown_calls by force
  then show ?thesis using d assms(2,4) s unfolding whole_frame_def by blast
qed

lemma wnd_key_msg_calls: "wnd_key_msg k s = Some (cs, s') \<Longrightarrow> cs = []"
  by (auto simp: wnd_key_msg_def bind_eq_Some_conv split: prod.splits)

lemma resize_no_frame: "Frame cmds \<notin> set (resize_calls old r)"
  by (simp add: resize_calls_def)

lemma wnd_step_frames:
  assumes "wnd_step sys g hud tick e s = Some (cs, s')" and "Frame cmds \<in> set cs"
  shows "bgfxInit s \<and> (\<exists>evs a ps mb rb k. app_run sys g hud tick evs (app_view s) = Some (a, ps) \<and>
    draw_frame sys g hud mb rb k (a, ps) = (cmds, app_view s'))"
proof -
  have "\<exists>i. Wnd_Tick sys g hud tick i s = Some (cs, s')"
  proof (cases e)
    case (Message m)
    then show ?thesis using assms wnd_key_msg_calls by (cases m) fastforce+
  qed (use assms in auto)
  then obtain i where w: "Wnd_Tick sys g hud tick i s = Some (cs, s')" by blast
  then have b: "bgfxInit s" using assms(2) by (auto simp: Wnd_Tick_def split: if_splits)
  show ?thesis using Wnd_Tick_Some [OF w b] assms(2) resize_no_frame b by fastforce
qed

lemma app_run_trans:
  assumes "app_run sys g hud tick es s = Some t" and "app_run sys g hud tick fs t = Some u"
  shows "\<exists>evs. app_run sys g hud tick evs s = Some u"
  by (rule exI [of _ "es @ fs"]) (use assms in \<open>simp add: app_run_def ofold_append\<close>)

text \<open>C12: Whatever messages Windows sends, while the program starts and after, the application only sees a sequence
  of its own events, the documents folder and the size once the graphics are up among them, and every
  frame the program draws consists of the visuals of a world that shows its mode and the display on top.\<close>

theorem program_refines:
  assumes "hud \<notin> {1, 2, 4}" and "\<not> gl_valid g (gl_bad g)" and "\<not> m_isInitialized hb"
    and "start = (Application_new junk (Engine_new near b hb hud) (World_new n) r, programs_new g)"
    and "wWinMain sys g hud tick i ms (wnd_new (fst start) (snd start)) = Some (code, cs, s')"
  shows "(\<exists>evs. app_run sys g hud tick evs start = Some (w_app (wn_win s'), wn_programs s')) \<and>
    (\<forall>cmds. Frame cmds \<in> set cs \<longrightarrow> whole_frame sys g hud tick b start cmds)"
proof -
  define P where "P s \<longleftrightarrow> (\<exists>evs. app_run sys g hud tick evs start = Some (app_view s))" for s
  define Q where "Q x \<longleftrightarrow> (\<forall>cmds. x = Frame cmds \<longrightarrow> whole_frame sys g hud tick b start cmds)" for x
  have ok: "app_ok sys g b hud start" using app_ok_new [OF assms(2,3)] assms(4) by simp
  have "P s' \<and> (\<forall>x \<in> set cs. Q x)"
  proof (rule wWinMain_invariant [OF assms(5)])
    show "P (wnd_new (fst start) (snd start))" unfolding P_def by (rule exI [of _ "[]"]) (simp add: app_run_def)
  next
    fix e a c xs
    assume a: "P a" and w: "wnd_step sys g hud tick e a = Some (xs, c)"
    have "whole_frame sys g hud tick b start cmds" if f: "Frame cmds \<in> set xs" for cmds
    proof -
      obtain es d ps mb rb k where d: "app_run sys g hud tick es (app_view a) = Some (d, ps)"
        "draw_frame sys g hud mb rb k (d, ps) = (cmds, app_view c)" using wnd_step_frames [OF w f] by blast
      obtain fs where "app_run sys g hud tick fs start = Some (d, ps)" using a app_run_trans [OF _ d(1)] unfolding P_def by blast
      then show ?thesis using draw_frame_whole [OF ok _ assms(1) d(2)] by blast
    qed
    then have "\<forall>x \<in> set xs. Q x" by (auto simp: Q_def)
    moreover have "P c" using a wnd_step_runs [OF w] app_run_trans unfolding P_def app_run_def by blast
    ultimately show "P c \<and> (\<forall>x \<in> set xs. Q x)" by blast
  next
    show "P (init_clock i a)" if "P a" for a using that by (simp add: P_def)
  next
    fix a assume "P a"
    moreover have "app_run sys g hud tick [Initialize documents_path, Resize (fst (ii_rect i)) (snd (ii_rect i))] (app_view a) =
        Some (app_view (init_app i a))"
      by (simp add: init_app_def app_view_def on_app_def app_run_def)
    ultimately show "P (init_app i a)" using app_run_trans unfolding P_def by blast
  qed (simp_all add: Q_def)
  then show ?thesis by (simp add: P_def Q_def app_view_def)
qed

lemma bare_frame:
  assumes "\<not> isPaused w" and "m_planevis w = None"
  shows "World_OnDepthBuffer test_sys (tiny_frame\<lparr>dpts := []\<rparr>) w \<noteq> None"
proof -
  have p: "depth_points test_sys (tiny_frame\<lparr>dpts := []\<rparr>) \<noteq> None"
    using tiny_read by (simp add: depth_points_def GetDepthPointsWithColor_def Let_def tiny_frame_def test_props_def depth_intrinsics_def
      video_header_def normalise_yuv_def pairs_by_def ycrcb_bytes_def int_bytes_def aget_def)
  have "filter_face v (tiny_frame\<lparr>dpts := []\<rparr>) = Some (replicate 16 fone)" for v
    by (simp add: filter_face_def tiny_frame_def test_props_def)
  then show ?thesis using assms p tiny_lods(2) by (auto simp: World_OnDepthBuffer_def Let_def show_depth_def)
qed

lemma test_first_tick:
  assumes "w_firsttick s" and "curDepthIdx s = 0" and "curFaceIdx s = 0" and "\<not> isPaused (a_world (w_app s))"
    and "m_planevis (a_world (w_app s)) = None" and "flt (a_sStartTime (w_app s)) fzero"
  shows "tick_frames test_sys test_props identity_matrix (Some test_playback) s \<noteq> None"
proof -
  let ?d = "tiny_frame\<lparr>dpts := []\<rparr>" and ?a = "w_app s"
  have d: "\<lparr>props = test_props, vidData = vidData tiny_frame, depthData = depthData tiny_frame, dpts = [], alignMtx = identity_matrix\<rparr> = ?d"
    by (simp add: tiny_frame_def)
  have "rebase fzero tiny_frame = tiny_frame" by code_simp
  then have r: "rebase fzero ?d = ?d" by (simp add: rebase_def tiny_frame_def)
  have "a_sStartTime (start_time (timestamp (props ?d)) ?a) = fzero" "a_world (start_time (timestamp (props ?d)) ?a) = a_world ?a"
    using assms(6) by (simp_all add: start_time_def)
  then have f: "App_OnDepthBuffer test_sys test_props identity_matrix ?d ?a \<noteq> None"
    using bare_frame [OF assms(4,5)] r by (auto simp: App_OnDepthBuffer_def Let_def)
  have a: "advance [fzero] 0 fzero = Some 0" "advance [fzero, Fin False 2] 0 fzero = Some 0"
    by (simp_all add: advance.simps fle_def fzero_def sval_def)
  have t: "depth_times test_playback = [fzero]" "face_times test_playback = [fzero, Fin False 2]"
    using test_times by (simp_all add: test_win_def)
  have p: "sStartTime test_playback = fzero" "depthFrames test_playback = [\<lparr>df_props = test_props, df_vid = vidData tiny_frame, df_depth = depthData tiny_frame\<rparr>]"
    "length (faceFrames test_playback) = 2"
    by (simp_all add: test_playback_def)
  show ?thesis using f
    by (auto simp: tick_frames_def assms(1-3) a t p Let_def deliver_depth_def deliver_face_def aget_def d split: prod.splits)
qed

lemma tick_frames_player:
  assumes "tick_frames sys p m loaded s = Some s'"
  shows "a_player (w_app s') = a_player (w_app s)"
proof -
  have "a_player (w_app t) = a_player (w_app u)" if "deliver_depth sys p m u = Some t" for u t
    using that by (auto simp: deliver_depth_def App_OnDepthBuffer_def start_time_def bind_eq_Some_conv Let_def)
  moreover have "a_player (w_app t) = a_player (w_app u)" if "deliver_face p m u = Some t" for u t
    using that by (auto simp: deliver_face_def App_OnFaceData_def start_time_def bind_eq_Some_conv Let_def)
  ultimately show ?thesis using tick_frames_split [OF assms] by metis
qed

definition test_tick :: tick_in where
  "test_tick = \<lparr>ti_loaded = Some test_playback, ti_props = test_props, ti_mtx = identity_matrix, ti_vw = 0, ti_vh = 0,
     ti_counter = 170000, ti_client = (800, 600), ti_modeButton = False, ti_recordButton = False, ti_frame = 1\<rparr>"

definition test_init :: init_in where
  "test_init = \<lparr>ii_created = True, ii_creating = [], ii_rect = (1268, 2739), ii_showing = [Message (WM_SIZE (800, 600)), Message (WM_PAINT test_tick)],
     ii_frequency = 10000000, ii_counter = 0, ii_client = (800, 600), ii_graphics = True\<rparr>"

lemma test_tick_draws:
  assumes "bgfxInit s" and "a_player (w_app (wn_win s)) = None" and "w_firsttick (wn_win s)" and "curDepthIdx (wn_win s) = 0"
    and "curFaceIdx (wn_win s) = 0" and "\<not> isPaused (a_world (w_app (wn_win s)))"
    and "m_planevis (a_world (w_app (wn_win s))) = None" and "flt (a_sStartTime (w_app (wn_win s))) fzero"
  shows "\<exists>cs cmds s'. Wnd_Tick test_sys g hud tick test_tick s = Some (cs, s') \<and> Frame cmds \<in> set cs"
proof -
  obtain w where w: "tick_frames test_sys test_props identity_matrix (Some test_playback) (wn_win s) = Some w"
    using test_first_tick [OF assms(3-8)] by blast
  have "App_Tick test_sys tick 0 0 t c (w_app w) \<noteq> None" for t c
    using tick_frames_player [OF w] assms(2) by (simp add: App_Tick_def Let_def Player_new_def GetNextFrame_def start_time_def)
  then obtain a where "App_Tick test_sys tick 0 0 (elapsed_time (ti_counter test_tick) s) (sCurtime w) (w_app w) = Some a" by blast
  then show ?thesis using assms(1) w by (auto simp: Wnd_Tick_def test_tick_def split: prod.split)
qed

definition test_anim :: "unit \<Rightarrow> fp \<Rightarrow> bool \<times> unit" where
  "test_anim n t = (True, n)"

lemma program_refines_witness:
  "\<exists>cs s' cmds. wWinMain test_sys test_gfx 0 test_anim test_init [Got False (WM_TIMER test_tick), Got False WM_DESTROY, Quit 0]
      (wnd_new (fst test_start) (snd test_start)) = Some (Some 0, cs, s') \<and>
     Frame cmds \<in> set cs \<and> whole_frame test_sys test_gfx 0 test_anim test_base test_start cmds"
proof -
  define s1 where "s1 = init_app test_init (init_clock test_init (on_app (App_Resize 800 600) (wnd_new (fst test_start) (snd test_start))))"
  define cs1 where "cs1 = [RenderFrame, GraphicsInit 800 600, SetDebug, ViewClear 0, ViewRect 0]"
  have i: "InitInstance test_sys test_gfx 0 test_anim test_init (wnd_new (fst test_start) (snd test_start)) = Some (True, cs1, s1)"
    by (simp add: InitInstance_def s1_def cs1_def test_init_def Wnd_Tick_def wnd_new_def on_app_def Let_def)
  have "\<exists>cs cmds s'. Wnd_Tick test_sys test_gfx 0 test_anim test_tick s1 = Some (cs, s') \<and> Frame cmds \<in> set cs"
    by (rule test_tick_draws) (use minus_one_neg in \<open>simp_all add: s1_def init_app_def init_clock_def on_app_def wnd_new_def test_start_def
      Application_new_def App_Resize_def App_Initialize_def Layout_def World_new_def\<close>)
  then obtain cs2 cmds s2 where t: "Wnd_Tick test_sys test_gfx 0 test_anim test_tick s1 = Some (cs2, s2)" "Frame cmds \<in> set cs2"
    by blast
  then have w: "wWinMain test_sys test_gfx 0 test_anim test_init [Got False (WM_TIMER test_tick), Got False WM_DESTROY, Quit 0]
      (wnd_new (fst test_start) (snd test_start)) = Some (Some 0, cs1 @ cs2 @ [PostQuit], s2)"
    by (simp add: wWinMain_def i)
  have "whole_frame test_sys test_gfx 0 test_anim test_base test_start cmds"
    using program_refines [OF _ test_gfx_ok _ w] t(2) by (simp add: test_start_def)
  then show ?thesis using w t(2) by auto
qed

subsection \<open>Keys\<close>

lemma keys_ok_vel: "g_vel (a_world b) = g_vel (a_world a) \<Longrightarrow> keys_ok ks b = keys_ok ks a"
  by (simp add: keys_ok_def)

lemma World_OnDepthBuffer_vel: "World_OnDepthBuffer sys d w = Some (d', w') \<Longrightarrow> g_vel w' = g_vel w"
  by (drule World_OnDepthBuffer_cases)
    (auto simp: reset_align_def show_depth_def bind_eq_Some_conv Let_def split: option.splits)

lemma World_Update_vel: "World_Update cp sinf cosf nb junk (e, w) = (e', w') \<Longrightarrow> g_vel w' = g_vel w"
  by (auto simp: World_Update_def make_group_def switch_mode_def Let_def split: if_splits prod.splits)

lemma App_Tick_vel: "App_Tick sys tick vw vh t ts a = Some a' \<Longrightarrow> g_vel (a_world a') = g_vel (a_world a)"
  using World_OnDepthBuffer_vel
  by (auto simp: App_Tick_def bind_eq_Some_conv Let_def split: option.splits prod.splits)

lemma draw_frame_vel:
  assumes "draw_frame sys g hud mb rb k (a, ps) = (cmds, a', ps')"
  shows "g_vel (a_world a') = g_vel (a_world a)"
proof -
  obtain e w where u: "World_Update (sys_program sys) (sys_sin sys) (sys_cos sys) (sys_base sys) (sys_junk sys) (a_engine a, a_world a) = (e, w)"
    by fastforce
  then show ?thesis using assms World_Update_vel [OF u]
    by (auto simp: draw_frame_def App_Draw_def SetMode_def Let_def split: prod.splits if_splits)
qed

lemma tick_frames_vel:
  assumes "tick_frames sys p m loaded s = Some s'"
  shows "g_vel (a_world (w_app s')) = g_vel (a_world (w_app s))"
proof -
  have "g_vel (a_world (w_app t)) = g_vel (a_world (w_app u))" if "deliver_depth sys p m u = Some t" for u t
    using that World_OnDepthBuffer_vel
    by (auto simp: deliver_depth_def App_OnDepthBuffer_def start_time_def bind_eq_Some_conv Let_def)
  moreover have "g_vel (World_OnFaceData p vs is w) = g_vel w" for p vs "is" w
    by (simp add: World_OnFaceData_def locate_face_def Let_def)
  then have "g_vel (a_world (w_app t)) = g_vel (a_world (w_app u))" if "deliver_face p m u = Some t" for u t
    using that by (auto simp: deliver_face_def App_OnFaceData_def start_time_def bind_eq_Some_conv Let_def)
  ultimately show ?thesis using tick_frames_split [OF assms] by metis
qed

lemma Wnd_Tick_keys:
  assumes "Wnd_Tick sys g hud tick i s = Some (cs, s')"
  shows "keystate s' = keystate s \<and> bgfxInit s' = bgfxInit s \<and> g_vel (a_world (w_app (wn_win s'))) = g_vel (a_world (w_app (wn_win s)))"
proof (cases "bgfxInit s")
  case True
  then obtain w a where w: "tick_frames sys (ti_props i) (ti_mtx i) (ti_loaded i) (wn_win s) = Some w"
    and a: "App_Tick sys tick (ti_vw i) (ti_vh i) (elapsed_time (ti_counter i) s) (sCurtime w) (w_app w) = Some a"
    using assms by (auto simp: Wnd_Tick_def bind_eq_Some_conv)
  obtain cmds a' ps' where d: "draw_frame sys g hud (ti_modeButton i) (ti_recordButton i) (ti_frame i) (a, wn_programs s) = (cmds, a', ps')"
    by (metis surj_pair)
  show ?thesis using assms True w a d tick_frames_vel [OF w] App_Tick_vel [OF a] draw_frame_vel [OF d] by (auto simp: Wnd_Tick_def)
next
  case False
  then show ?thesis using assms by (simp add: Wnd_Tick_def)
qed

definition held_ok :: "'a wnd \<Rightarrow> bool" where
  "held_ok s \<longleftrightarrow> keys_ok (keystate s) (w_app (wn_win s))"

lemma wnd_key_held:
  assumes "wnd_key_msg k s = Some (cs, s')" and "held_ok s"
  shows "held_ok s'"
proof -
  obtain ks a where w: "wnd_key k (keystate s, w_app (wn_win s)) = Some (ks, a)" "keystate s' = ks" "w_app (wn_win s') = a"
    using assms(1) by (auto simp: wnd_key_msg_def on_app_def bind_eq_Some_conv)
  have "key_of k < length (keystate s)" using w(1) by (cases k) (auto simp: bind_eq_Some_conv)
  then show ?thesis using keys_ok_step [of "keystate s" "w_app (wn_win s)" k] assms(2) w by (auto simp: held_ok_def keys_ok_def)
qed

lemma on_app_held:
  assumes "held_ok s" and "\<And>a. g_vel (a_world (f a)) = g_vel (a_world a)"
  shows "held_ok (on_app f s)"
  using assms by (simp add: held_ok_def on_app_def keys_ok_def)

lemma wnd_step_held:
  assumes "wnd_step sys g hud tick e s = Some (cs, s')" and "held_ok s"
  shows "held_ok s'"
proof (cases e)
  case (Message m)
  have tick: "held_ok s'" if "Wnd_Tick sys g hud tick i s = Some (cs, s')" for i
    using Wnd_Tick_keys [OF that] assms(2) by (simp add: held_ok_def keys_ok_def)
  have "g_vel (a_world (App_TouchMove x y a)) = g_vel (a_world a)" for x y and a :: "'a app"
    by (simp add: App_TouchMove_def World_TouchDrag_def Let_def split: option.split prod.split)
  then show ?thesis using assms Message tick wnd_key_held
    by (cases m) (auto intro!: on_app_held simp: App_Resize_def Layout_def App_TouchDown_def World_TouchDown_def App_TouchUp_def World_TouchUp_def)
qed (use assms in \<open>auto simp: held_ok_def on_app_def keys_ok_def\<close>)

text \<open>C26: Whatever messages Windows sends, the program never has more velocity along an axis than the speed, once, in a
  direction whose key is held according to its key state: repeated key messages do not add up, and along an
  axis with neither key held there is none. Nothing else the program does changes the velocity.\<close>

theorem held_keys:
  assumes "wWinMain sys g hud tick i ms (wnd_new (Application_new junk e (World_new n) r) ps) = Some (code, cs, s')"
    and "ks = keystate s'" and "v = g_vel (a_world (w_app (wn_win s')))"
  shows "length ks = 256 \<and> axis_ok (ks ! 65) (ks ! 68) (vx v) \<and> axis_ok (ks ! 16) (ks ! 32) (vy v) \<and> axis_ok (ks ! 87) (ks ! 83) (vz v) \<and>
    (\<not> ks ! 65 \<and> \<not> ks ! 68 \<longrightarrow> feq (vx v) fzero) \<and> (\<not> ks ! 16 \<and> \<not> ks ! 32 \<longrightarrow> feq (vy v) fzero) \<and>
    (\<not> ks ! 87 \<and> \<not> ks ! 83 \<longrightarrow> feq (vz v) fzero)"
proof -
  have "held_ok s' \<and> (\<forall>x \<in> set cs. True)"
  proof (rule wWinMain_invariant [OF assms(1)])
    show "held_ok (wnd_new (Application_new junk e (World_new n) r) ps)"
      by (simp add: held_ok_def wnd_new_def keys_ok_def Application_new_def World_new_def vzero_def axis_ok_steps(3))
  next
    show "held_ok (init_clock i a)" if "held_ok a" for a using that by (simp add: init_clock_def held_ok_def)
  next
    show "held_ok (init_app i a)" if "held_ok a" for a
      using that by (simp add: init_app_def on_app_def held_ok_def keys_ok_def App_Resize_def App_Initialize_def Layout_def)
  qed (use wnd_step_held in blast)+
  then show ?thesis unfolding assms(2,3) by (auto simp: held_ok_def keys_ok_def axis_ok_def)
qed

lemma held_keys_witness:
  "\<exists>cs s'. wWinMain test_sys test_gfx 0 test_anim test_init [Got False (WM_KEYDOWN 65), Got False (WM_KEYDOWN 65), Got False (WM_SYSKEYUP 65), Quit 0]
      (wnd_new (fst test_start) (snd test_start)) = Some (Some 0, cs, s') \<and> feq (vx (g_vel (a_world (w_app (wn_win s'))))) fzero"
proof -
  have "\<exists>cs s'. wWinMain test_sys test_gfx 0 test_anim test_init [Got False (WM_KEYDOWN 65), Got False (WM_KEYDOWN 65), Got False (WM_SYSKEYUP 65), Quit 0]
      (wnd_new (fst test_start) (snd test_start)) = Some (Some 0, cs, s') \<and> \<not> keystate s' ! 65 \<and> \<not> keystate s' ! 68"
    by (simp add: wWinMain_def InitInstance_def test_init_def Wnd_Tick_def wnd_new_def on_app_def Let_def init_app_def init_clock_def
      wnd_key_msg_def aget_def)
  then obtain cs s' where w: "wWinMain test_sys test_gfx 0 test_anim test_init
      [Got False (WM_KEYDOWN 65), Got False (WM_KEYDOWN 65), Got False (WM_SYSKEYUP 65), Quit 0]
      (wnd_new (fst test_start) (snd test_start)) = Some (Some 0, cs, s')" and k: "\<not> keystate s' ! 65" "\<not> keystate s' ! 68"
    by blast
  show ?thesis using held_keys [OF _ refl refl, of test_sys test_gfx 0 test_anim test_init] w k by (fastforce simp: test_start_def)
qed

subsection \<open>Starting\<close>

text \<open>When the graphics do not come up, \<open>InitInstance\<close> returns 1, which its caller takes for success: the
  program runs to the end of its messages and never draws.\<close>

lemma wnd_step_graphics:
  assumes "wnd_step sys g hud tick e s = Some (cs, s')"
  shows "bgfxInit s' = bgfxInit s"
proof (cases e)
  case (Message m)
  have "bgfxInit s' = bgfxInit s" if "Wnd_Tick sys g hud tick i s = Some (cs, s')" for i
    using Wnd_Tick_keys [OF that] by blast
  moreover have "bgfxInit s' = bgfxInit s" if "wnd_key_msg k s = Some (cs, s')" for k
    using that by (auto simp: wnd_key_msg_def on_app_def bind_eq_Some_conv)
  ultimately show ?thesis using assms Message by (cases m) (auto simp: on_app_def)
qed (use assms in \<open>auto simp: on_app_def\<close>)

lemma graphics_failed:
  assumes "wWinMain sys g hud tick i ms (wnd_new a ps) = Some (code, cs, s')" and "ii_created i" and "\<not> ii_graphics i"
  shows "code = exit_code ms \<and> \<not> bgfxInit s' \<and> (\<forall>cmds. Frame cmds \<notin> set cs)"
proof -
  have "\<not> bgfxInit s' \<and> (\<forall>x \<in> set cs. \<forall>cmds. x \<noteq> Frame cmds)"
  proof (rule wWinMain_invariant [OF assms(1)])
    fix e a b xs
    assume "\<not> bgfxInit a" and w: "wnd_step sys g hud tick e a = Some (xs, b)"
    then show "\<not> bgfxInit b \<and> (\<forall>x \<in> set xs. \<forall>cmds. x \<noteq> Frame cmds)"
      using wnd_step_graphics [OF w] wnd_step_frames [OF w] by blast
  qed (use assms(3) in \<open>simp_all add: wnd_new_def init_clock_def\<close>)
  moreover have "code = exit_code ms"
    using assms by (auto simp: wWinMain_def InitInstance_def main_loop_run bind_eq_Some_conv Let_def)
  ultimately show ?thesis by blast
qed

text \<open>The size the application starts with is that of the window before it was shown, whatever size messages
  came when it was.\<close>

lemma stale_size:
  assumes "InitInstance sys g hud tick i s = Some (True, cs, s')" and "ii_graphics i"
  shows "(a_width (w_app (wn_win s')), a_height (w_app (wn_win s'))) = ii_rect i"
  using assms by (auto simp: InitInstance_def Let_def bind_eq_Some_conv init_app_def on_app_def App_Resize_def split: if_splits)

end
