(* ===== verification/Codec.thy ===== *)
theory Codec
  imports Player "HOL-Library.Signed_Division" "HOL-Library.Sublist"
begin

text \<open>
  The video streams, \<open>src/core/FFmpeg.cpp\<close>: the writer that the recorder gives planes to, and the
  reader that the player takes planes from. The codec library is not part of the repository: encoder
  and decoder are parameters, as are the results of the calls that open them, and what the theorems
  need of them is stated as \<open>encoder_laws\<close> and \<open>decoder_laws\<close>. A stream is the list of its packets.
  Loops that ask the library until it has no more are partial functions.
\<close>

subsection \<open>Frames of the library\<close>

text \<open>A plane is its bytes from the data pointer on and its line size. An \<open>int\<close> that overflows is \<open>None\<close>.\<close>

type_synonym plane = "u8 list \<times> int"

record av_frame =
  f_width :: int
  f_height :: int
  f_pts :: int
  f_y :: plane
  f_u :: plane
  f_v :: plane

definition int32 :: "int \<Rightarrow> int option" where
  "int32 i = (if - (2 ^ 31) \<le> i \<and> i < 2 ^ 31 then Some i else None)"

record ('c, 'p) av_encoder =
  send_frame :: "'c \<Rightarrow> av_frame option \<Rightarrow> bool \<times> 'c"
  receive_packet :: "'c \<Rightarrow> 'p option \<times> 'c"

datatype received = Again | AtEof | Failed | Got av_frame

record ('d, 'p) av_decoder =
  send_packet :: "'d \<Rightarrow> 'p \<Rightarrow> bool \<times> 'd"
  receive_frame :: "'d \<Rightarrow> received \<times> 'd"
  picture_size :: "'d \<Rightarrow> int \<times> int"

subsection \<open>The writer\<close>

text \<open>What the calls of \<open>StartWrite\<close> return: whether the output context, the encoder and the stream were
  found, the codec context, the opened one, whether the format needs no file, whether the file could be
  opened, and the time base that the stream has in the end.\<close>

record 'c start_calls =
  sc_output :: bool
  sc_encoder :: bool
  sc_stream :: bool
  sc_context :: "'c option"
  sc_open :: "'c \<Rightarrow> bool \<times> 'c"
  sc_nofile :: bool
  sc_io :: bool
  sc_time_base :: "int \<times> int"

text \<open>\<open>os_packets\<close> are the packets handed to the muxer.\<close>

record ('c, 'p) out_streamer =
  os_file :: string
  os_w :: int
  os_h :: int
  os_videoFrame :: bool
  os_cctx :: "(int \<times> int \<times> 'c) option"
  os_frameCounter :: int
  os_ofctx :: bool
  os_stream :: "(int \<times> int) option"
  os_isDepth :: bool
  os_packets :: "'p list"
  os_trailer :: bool

definition fps :: int where
  "fps = 30"

text \<open>The context is used before the error of creating it is looked at. The flag says whether the end was
  reached; the one caller ignores it, and the function returns no value there.\<close>

definition StartWrite :: "'c start_calls \<Rightarrow> int \<Rightarrow> int \<Rightarrow> ('c, 'p) out_streamer \<Rightarrow> (bool \<times> ('c, 'p) out_streamer) option" where
  "StartWrite l width height s =
     (if \<not> sc_output l then None
      else let s = s\<lparr>os_ofctx := True\<rparr>
        in if \<not> sc_encoder l then Some (False, s)
        else if \<not> sc_stream l then Some (False, s)
        else let s = s\<lparr>os_stream := Some (sc_time_base l)\<rparr>
          in case sc_context l of None \<Rightarrow> Some (False, s)
             | Some c \<Rightarrow>
                 let (ok, c) = sc_open l c; s = s\<lparr>os_cctx := Some (width, height, c)\<rparr>
                 in if \<not> ok then Some (False, s)
                    else if \<not> sc_nofile l \<and> \<not> sc_io l then Some (False, s)
                    else Some (True, s))"

definition OutputStreamer_new :: "'c start_calls \<Rightarrow> string \<Rightarrow> u32 \<Rightarrow> u32 \<Rightarrow> bool \<Rightarrow> ('c, 'p) out_streamer option" where
  "OutputStreamer_new l outname w h isDepth =
     map_option snd (StartWrite l (sint w) (sint h)
       \<lparr>os_file = outname, os_w = sint w, os_h = sint h, os_videoFrame = False, os_cctx = None, os_frameCounter = 0, os_ofctx = False,
        os_stream = None, os_isDepth = isDepth, os_packets = [], os_trailer = False\<rparr>)"

text \<open>The time stamp of a frame is its number in units of the stream's time base; the one passed in is not used.\<close>

definition frame_pts :: "int \<times> int \<Rightarrow> int \<Rightarrow> int option" where
  "frame_pts tb k = do {
     a \<leftarrow> int32 (k * snd tb); b \<leftarrow> int32 (fst tb * fps);
     if b = 0 then None else int32 (a sdiv b) }"

definition out_frame :: "int \<Rightarrow> int \<Rightarrow> int \<Rightarrow> yuv_planes \<Rightarrow> av_frame" where
  "out_frame w h pts pl = \<lparr>f_width = w, f_height = h, f_pts = pts, f_y = (ydata pl, w), f_u = (udata pl, w sdiv 2), f_v = (vdata pl, w sdiv 2)\<rparr>"

definition WriteFrameYUV420 :: "('c, 'p) av_encoder \<Rightarrow> bool \<Rightarrow> yuv_planes \<Rightarrow> ('c, 'p) out_streamer \<Rightarrow> ('c, 'p) out_streamer option" where
  "WriteFrameYUV420 E buffer pl s = do {
     (w, h, c) \<leftarrow> os_cctx s;
     if \<not> os_videoFrame s \<and> \<not> buffer then Some (s\<lparr>os_videoFrame := True\<rparr>)
     else do {
       tb \<leftarrow> os_stream s;
       pts \<leftarrow> frame_pts tb (os_frameCounter s);
       counter \<leftarrow> int32 (os_frameCounter s + 1);
       let (ok, c) = send_frame E c (Some (out_frame w h pts pl));
           s = s\<lparr>os_videoFrame := True, os_frameCounter := counter\<rparr>
       in if \<not> ok then Some (s\<lparr>os_cctx := Some (w, h, c)\<rparr>)
          else let (r, c) = receive_packet E c
               in Some (s\<lparr>os_cctx := Some (w, h, c), os_packets := os_packets s @ (case r of None \<Rightarrow> [] | Some p \<Rightarrow> [p])\<rparr>) } }"

partial_function (option) drain :: "('c, 'p) av_encoder \<Rightarrow> 'c \<Rightarrow> 'p list \<Rightarrow> ('c \<times> 'p list) option" where
  "drain E c ps = (case receive_packet E (snd (send_frame E c None)) of (r, c) \<Rightarrow>
     case r of None \<Rightarrow> Some (c, ps) | Some p \<Rightarrow> drain E c (ps @ [p]))"

definition FinishWrite :: "('c, 'p) av_encoder \<Rightarrow> ('c, 'p) out_streamer \<Rightarrow> ('c, 'p) out_streamer option" where
  "FinishWrite E s = do {
     (w, h, c) \<leftarrow> os_cctx s;
     (c, ps) \<leftarrow> drain E c (os_packets s);
     if os_ofctx s then Some (s\<lparr>os_packets := ps, os_trailer := True, os_videoFrame := False, os_cctx := None\<rparr>) else None }"

definition write_all :: "('c, 'p) av_encoder \<Rightarrow> yuv_planes list \<Rightarrow> ('c, 'p) out_streamer \<Rightarrow> ('c, 'p) out_streamer option" where
  "write_all E pls s = ofold (WriteFrameYUV420 E True) pls s"

subsection \<open>The reader\<close>

text \<open>What the calls of \<open>Open\<close> return: the packets of the input with the number of their stream, whether
  the streams could be told, the number of the video stream or an error, the decoder, the opened one.\<close>

record ('d, 'p) open_calls =
  oc_input :: "(int \<times> 'p) list option"
  oc_info :: bool
  oc_best :: int
  oc_context :: "'d option"
  oc_open :: "'d \<Rightarrow> 'd"

record ('d, 'p) in_streamer =
  is_fmt_ctx :: "(int \<times> 'p) list option"
  is_dec_ctx :: "'d option"
  is_index :: int
  is_filename :: string
  is_decoded :: "av_frame list"

definition Open :: "('d, 'p) open_calls \<Rightarrow> ('d, 'p) in_streamer \<Rightarrow> ('d, 'p) in_streamer" where
  "Open l s =
     (case oc_input l of None \<Rightarrow> s
      | Some ps \<Rightarrow>
          let s = s\<lparr>is_fmt_ctx := Some ps\<rparr>
          in if \<not> oc_info l then s
             else if oc_best l < 0 then s
             else let s = s\<lparr>is_index := oc_best l\<rparr>
                  in case oc_context l of None \<Rightarrow> s | Some d \<Rightarrow> s\<lparr>is_dec_ctx := Some (oc_open l d)\<rparr>)"

definition InputStreamer_new :: "('d, 'p) open_calls \<Rightarrow> string \<Rightarrow> ('d, 'p) in_streamer" where
  "InputStreamer_new l filename =
     Open l \<lparr>is_fmt_ctx = None, is_dec_ctx = None, is_index = -1, is_filename = filename, is_decoded = []\<rparr>"

definition GetWidth :: "('d, 'p) av_decoder \<Rightarrow> ('d, 'p) in_streamer \<Rightarrow> int option" where
  "GetWidth D s = map_option (\<lambda>d. fst (picture_size D d)) (is_dec_ctx s)"

definition GetHeight :: "('d, 'p) av_decoder \<Rightarrow> ('d, 'p) in_streamer \<Rightarrow> int option" where
  "GetHeight D s = map_option (\<lambda>d. snd (picture_size D d)) (is_dec_ctx s)"

text \<open>Frames are taken from the decoder until it has none; the flag is whether it failed.\<close>

partial_function (option) receive_frames :: "('d, 'p) av_decoder \<Rightarrow> 'd \<Rightarrow> av_frame list \<Rightarrow> (bool \<times> 'd \<times> av_frame list) option" where
  "receive_frames D d fs = (case receive_frame D d of (r, d) \<Rightarrow>
     case r of Again \<Rightarrow> Some (False, d, fs) | AtEof \<Rightarrow> Some (False, d, fs) | Failed \<Rightarrow> Some (True, d, fs)
     | Got f \<Rightarrow> receive_frames D d (fs @ [f]))"

text \<open>The loop over the packets, from an empty list of frames until there is one.\<close>

fun fill_frames ::
  "('d, 'p) av_decoder \<Rightarrow> int \<Rightarrow> (int \<times> 'p) list \<Rightarrow> 'd option \<Rightarrow> (bool \<times> (int \<times> 'p) list \<times> 'd option \<times> av_frame list) option" where
  "fill_frames D idx [] d = Some (False, [], d, [])"
| "fill_frames D idx ((i, p) # ps) d =
     (if i \<noteq> idx then fill_frames D idx ps d
      else do {
        d \<leftarrow> d;
        let (ok, d) = send_packet D d p
        in if \<not> ok then Some (False, ps, Some d, [])
           else do {
             (failed, d, fs) \<leftarrow> receive_frames D d [];
             if failed then Some (True, ps, Some d, fs)
             else if fs \<noteq> [] then Some (False, ps, Some d, fs)
             else fill_frames D idx ps (Some d) } })"

text \<open>Copying the rows of a plane without the rest of their lines.\<close>

definition copy_row :: "int \<Rightarrow> plane \<Rightarrow> nat \<Rightarrow> u8 list \<Rightarrow> u8 list option" where
  "copy_row w src y out =
     (if 0 \<le> w \<and> 0 \<le> snd src
      then do { row \<leftarrow> ablock (fst src) (y * nat (snd src)) (nat w); ablit out (y * nat w) row } else None)"

definition copy_plane :: "int \<Rightarrow> int \<Rightarrow> plane \<Rightarrow> u8 list \<Rightarrow> u8 list option" where
  "copy_plane w h src out = ofold (copy_row w src) [0..<nat h] out"

definition copy_frame :: "int \<times> int \<Rightarrow> av_frame \<Rightarrow> yuv_planes \<Rightarrow> yuv_planes option" where
  "copy_frame sz f out = (case sz of (w, h) \<Rightarrow> do {
     y \<leftarrow> copy_plane w h (f_y f) (ydata out);
     u \<leftarrow> copy_plane (w sdiv 2) (h sdiv 2) (f_u f) (udata out);
     v \<leftarrow> copy_plane (w sdiv 2) (h sdiv 2) (f_v f) (vdata out);
     Some \<lparr>ydata = y, udata = u, vdata = v\<rparr> })"

definition ReadFrameYUV420 ::
  "('d, 'p) av_decoder \<Rightarrow> yuv_planes \<Rightarrow> ('d, 'p) in_streamer \<Rightarrow> (bool \<times> yuv_planes \<times> ('d, 'p) in_streamer) option" where
  "ReadFrameYUV420 D out s = do {
     (failed, s) \<leftarrow> (if is_decoded s = []
       then do {
         ps \<leftarrow> is_fmt_ctx s;
         (failed, ps, d, fs) \<leftarrow> fill_frames D (is_index s) ps (is_dec_ctx s);
         Some (failed, s\<lparr>is_fmt_ctx := Some ps, is_dec_ctx := d, is_decoded := fs\<rparr>) }
       else Some (False, s));
     if failed then Some (False, out, s)
     else case is_decoded s of [] \<Rightarrow> Some (False, out, s)
       | f # fs \<Rightarrow> do {
           d \<leftarrow> is_dec_ctx s;
           out \<leftarrow> copy_frame (picture_size D d) f out;
           Some (True, out, s\<lparr>is_decoded := fs\<rparr>) } }"

text \<open>The buffers the player makes for a stream of a given size: the heights are rounded down, and the chroma
  areas again.\<close>

definition stream_buffers :: "nat \<Rightarrow> nat \<Rightarrow> yuv_planes" where
  "stream_buffers sw sh =
     (let ySize = sw * (sh div 2); uvSize = sw * (sh div 2) div 4
      in \<lparr>ydata = replicate (ySize * 2) 0, udata = replicate (uvSize * 2) 0, vdata = replicate (uvSize * 2) 0\<rparr>)"

text \<open>\<open>n\<close> reads, each into new buffers.\<close>

fun read_n :: "('d, 'p) av_decoder \<Rightarrow> yuv_planes \<Rightarrow> nat \<Rightarrow> ('d, 'p) in_streamer \<Rightarrow> (yuv_planes option list \<times> ('d, 'p) in_streamer) option" where
  "read_n D out 0 s = Some ([], s)"
| "read_n D out (Suc n) s = do {
     (ok, pl, s) \<leftarrow> ReadFrameYUV420 D out s;
     (xs, s) \<leftarrow> read_n D out n s;
     Some ((if ok then Some pl else None) # xs, s) }"

subsection \<open>What is assumed of the encoder\<close>

text \<open>The packet of the last of some frames follows from all of them. An encoder is seen as the frames it has
  accepted, how many packets it has given, and whether it is being flushed: it gives the packets of its
  frames in order, when it likes, and all of them once it is flushed.\<close>

definition coded :: "(av_frame list \<Rightarrow> 'p) \<Rightarrow> av_frame list \<Rightarrow> 'p list" where
  "coded code fs = map (\<lambda>i. code (take (Suc i) fs)) [0..<length fs]"

record ('c, 'p) encoder_view =
  ev_frames :: "'c \<Rightarrow> av_frame list"
  ev_given :: "'c \<Rightarrow> nat"
  ev_flushed :: "'c \<Rightarrow> bool"
  ev_code :: "av_frame list \<Rightarrow> 'p"

definition encoder_laws :: "('c, 'p) av_encoder \<Rightarrow> ('c, 'p) encoder_view \<Rightarrow> bool" where
  "encoder_laws E V \<longleftrightarrow>
     (\<forall>c f ok c'. send_frame E c (Some f) = (ok, c') \<longrightarrow>
        ev_frames V c' = ev_frames V c @ (if ok then [f] else []) \<and> ev_given V c' = ev_given V c) \<and>
     (\<forall>c ok c'. send_frame E c None = (ok, c') \<longrightarrow>
        ev_frames V c' = ev_frames V c \<and> ev_given V c' = ev_given V c \<and> ev_flushed V c') \<and>
     (\<forall>c p c'. receive_packet E c = (Some p, c') \<longrightarrow>
        ev_given V c < length (ev_frames V c) \<and> p = ev_code V (take (Suc (ev_given V c)) (ev_frames V c)) \<and>
        ev_frames V c' = ev_frames V c \<and> ev_given V c' = Suc (ev_given V c)) \<and>
     (\<forall>c c'. receive_packet E c = (None, c') \<longrightarrow>
        ev_frames V c' = ev_frames V c \<and> ev_given V c' = ev_given V c \<and>
        (ev_flushed V c \<longrightarrow> ev_given V c = length (ev_frames V c)))"

lemma encoder_send:
  "encoder_laws E V \<Longrightarrow> send_frame E c (Some f) = (ok, c') \<Longrightarrow>
     ev_frames V c' = ev_frames V c @ (if ok then [f] else []) \<and> ev_given V c' = ev_given V c"
  unfolding encoder_laws_def by blast

lemma encoder_flush:
  "encoder_laws E V \<Longrightarrow> send_frame E c None = (ok, c') \<Longrightarrow>
     ev_frames V c' = ev_frames V c \<and> ev_given V c' = ev_given V c \<and> ev_flushed V c'"
  unfolding encoder_laws_def by blast

lemma encoder_packet:
  "encoder_laws E V \<Longrightarrow> receive_packet E c = (Some p, c') \<Longrightarrow>
     ev_given V c < length (ev_frames V c) \<and> p = ev_code V (take (Suc (ev_given V c)) (ev_frames V c)) \<and>
     ev_frames V c' = ev_frames V c \<and> ev_given V c' = Suc (ev_given V c)"
  unfolding encoder_laws_def by blast

lemma encoder_no_packet:
  "encoder_laws E V \<Longrightarrow> receive_packet E c = (None, c') \<Longrightarrow>
     ev_frames V c' = ev_frames V c \<and> ev_given V c' = ev_given V c \<and> (ev_flushed V c \<longrightarrow> ev_given V c = length (ev_frames V c))"
  unfolding encoder_laws_def by blast

lemma length_coded [simp]: "length (coded code fs) = length fs"
  by (simp add: coded_def)

lemma coded_Nil [simp]: "coded code [] = []"
  by (simp add: coded_def)

lemma take_coded: "take n (coded code fs) = coded code (take n fs)"
  by (rule nth_equalityI) (simp_all add: coded_def)

lemma nth_coded: "i < length fs \<Longrightarrow> coded code fs ! i = code (take (Suc i) fs)"
  by (simp add: coded_def)

lemma coded_append: "take n (coded code (fs @ gs)) = take n (coded code fs)" if "n \<le> length fs"
  using that by (simp add: take_coded)

text \<open>The packets handed on are those given so far.\<close>

definition given_packets :: "('c, 'p) encoder_view \<Rightarrow> 'c \<Rightarrow> 'p list" where
  "given_packets V c = take (ev_given V c) (coded (ev_code V) (ev_frames V c))"

definition encoder_ok :: "('c, 'p) encoder_view \<Rightarrow> 'c \<Rightarrow> bool" where
  "encoder_ok V c \<longleftrightarrow> ev_given V c \<le> length (ev_frames V c)"

lemma given_send:
  assumes "encoder_laws E V" and "encoder_ok V c" and "send_frame E c (Some f) = (ok, c')"
  shows "encoder_ok V c' \<and> given_packets V c' = given_packets V c"
  using encoder_send [OF assms(1,3)] assms(2) by (auto simp: encoder_ok_def given_packets_def coded_append)

lemma given_receive:
  assumes "encoder_laws E V" and "encoder_ok V c" and "receive_packet E c = (r, c')"
  shows "encoder_ok V c' \<and> ev_frames V c' = ev_frames V c \<and>
    given_packets V c' = given_packets V c @ (case r of None \<Rightarrow> [] | Some p \<Rightarrow> [p])"
proof (cases r)
  case None
  then show ?thesis using encoder_no_packet [OF assms(1)] assms by (simp add: encoder_ok_def given_packets_def)
next
  case (Some p)
  then have "receive_packet E c = (Some p, c')" using assms(3) by simp
  note e = encoder_packet [OF assms(1) this]
  then have "given_packets V c' = given_packets V c @ [coded (ev_code V) (ev_frames V c) ! ev_given V c]"
    by (simp add: given_packets_def take_Suc_conv_app_nth)
  then show ?thesis using e Some by (simp add: encoder_ok_def nth_coded)
qed

subsection \<open>Writing a stream\<close>

lemma drain_all:
  assumes "encoder_laws E V" and "encoder_ok V c"
  shows "\<exists>c'. drain E c (given_packets V c) = Some (c', coded (ev_code V) (ev_frames V c))"
  using assms(2)
proof (induction "length (ev_frames V c) - ev_given V c" arbitrary: c rule: less_induct)
  case less
  obtain ok c1 where f: "send_frame E c None = (ok, c1)" by fastforce
  obtain r c2 where r: "receive_packet E c1 = (r, c2)" by fastforce
  have c1: "ev_frames V c1 = ev_frames V c" "ev_given V c1 = ev_given V c" "ev_flushed V c1" "encoder_ok V c1"
      "given_packets V c1 = given_packets V c"
    using encoder_flush [OF assms(1) f] less.prems by (simp_all add: encoder_ok_def given_packets_def)
  note c2 = given_receive [OF assms(1) c1(4) r]
  show ?case
  proof (cases r)
    case None
    then have "given_packets V c = coded (ev_code V) (ev_frames V c)"
      using encoder_no_packet [OF assms(1)] r c1 by (simp add: given_packets_def)
    then show ?thesis using f r None by (simp add: drain.simps [of E c])
  next
    case (Some p)
    have "length (ev_frames V c2) - ev_given V c2 < length (ev_frames V c) - ev_given V c"
      using encoder_packet [OF assms(1), of c1 p c2] r c1 Some by (simp add: diff_less_mono2)
    then obtain c' where "drain E c2 (given_packets V c2) = Some (c', coded (ev_code V) (ev_frames V c2))"
      using less.hyps c2 by blast
    then show ?thesis using c1 c2 f r Some by (simp add: drain.simps [of E c])
  qed
qed

text \<open>Numbered frames, as the writer makes them.\<close>

definition numbered :: "int \<times> int \<Rightarrow> int \<Rightarrow> int \<Rightarrow> nat \<Rightarrow> yuv_planes list \<Rightarrow> av_frame list" where
  "numbered tb w h k pls = map (\<lambda>i. out_frame w h (int (k + i) * snd tb sdiv (fst tb * fps)) (pls ! i)) [0..<length pls]"

lemma numbered_Nil [simp]: "numbered tb w h k [] = []"
  by (simp add: numbered_def)

lemma numbered_Cons: "numbered tb w h k (pl # pls) = out_frame w h (int k * snd tb sdiv (fst tb * fps)) pl # numbered tb w h (Suc k) pls"
  by (simp add: numbered_def upt_conv_Cons map_Suc_upt [symmetric] comp_def add.left_commute add.commute del: upt_Suc)

lemma int32_Some: "int32 i = Some j \<longleftrightarrow> j = i \<and> - (2 ^ 31) \<le> i \<and> i < 2 ^ 31"
  by (auto simp: int32_def)

lemma frame_pts_value: "frame_pts tb k = Some p \<Longrightarrow> p = k * snd tb sdiv (fst tb * fps)"
  by (auto simp: frame_pts_def bind_eq_Some_conv int32_Some split: if_splits)

text \<open>A writer in use.\<close>

definition writing :: "('c, 'p) encoder_view \<Rightarrow> int \<times> int \<Rightarrow> int \<Rightarrow> int \<Rightarrow> nat \<Rightarrow> av_frame list \<Rightarrow> ('c, 'p) out_streamer \<Rightarrow> bool" where
  "writing V tb w h k fs s \<longleftrightarrow> (\<exists>c. os_cctx s = Some (w, h, c) \<and> encoder_ok V c \<and> ev_frames V c = fs \<and>
     os_packets s = given_packets V c) \<and> os_stream s = Some tb \<and> os_frameCounter s = int k \<and> os_ofctx s"

lemma write_frame:
  assumes "encoder_laws E V" and "writing V tb w h k fs s" and "WriteFrameYUV420 E True pl s = Some s'"
  shows "\<exists>ok. writing V tb w h (Suc k) (fs @ (if ok then [out_frame w h (int k * snd tb sdiv (fst tb * fps)) pl] else [])) s' \<and>
    ((\<forall>c f. fst (send_frame E c (Some f))) \<longrightarrow> ok)"
proof -
  let ?f = "out_frame w h (int k * snd tb sdiv (fst tb * fps)) pl"
  obtain c where c: "os_cctx s = Some (w, h, c)" "encoder_ok V c" "ev_frames V c = fs" "os_packets s = given_packets V c"
    "os_stream s = Some tb" "os_frameCounter s = int k" "os_ofctx s" using assms(2) by (auto simp: writing_def)
  obtain ok c1 where s: "send_frame E c (Some ?f) = (ok, c1)" by fastforce
  obtain r c2 where r: "receive_packet E c1 = (r, c2)" by fastforce
  have c1: "encoder_ok V c1" "given_packets V c1 = given_packets V c" "ev_frames V c1 = fs @ (if ok then [?f] else [])"
    using given_send [OF assms(1) c(2) s] encoder_send [OF assms(1) s] c(3) by simp_all
  obtain pts where "frame_pts tb (int k) = Some pts" and k: "int32 (int k + 1) = Some (int k + 1)"
    using assms(3) c by (auto simp: WriteFrameYUV420_def bind_eq_Some_conv int32_Some)
  then have pts: "frame_pts tb (int k) = Some (int k * snd tb sdiv (fst tb * fps))" using frame_pts_value by fastforce
  have "writing V tb w h (Suc k) (fs @ (if ok then [?f] else [])) s'"
    using assms(3) c c1 given_receive [OF assms(1) c1(1) r] pts k s r
    by (cases ok) (auto simp: WriteFrameYUV420_def writing_def)
  then show ?thesis using s by (metis fst_conv)
qed

lemma write_frames:
  assumes "encoder_laws E V" and "writing V tb w h k fs s" and "write_all E pls s = Some s'"
  shows "\<exists>gs. writing V tb w h (k + length pls) (fs @ gs) s' \<and> subseq gs (numbered tb w h k pls) \<and>
    ((\<forall>c f. fst (send_frame E c (Some f))) \<longrightarrow> gs = numbered tb w h k pls)"
  using assms(2,3)
proof (induction pls arbitrary: k fs s)
  case Nil
  then show ?case by (intro exI [of _ "[]"]) (simp add: write_all_def)
next
  case (Cons pl pls)
  let ?f = "out_frame w h (int k * snd tb sdiv (fst tb * fps)) pl"
  obtain s1 where s1: "WriteFrameYUV420 E True pl s = Some s1" "write_all E pls s1 = Some s'"
    using Cons.prems(2) by (auto simp: write_all_def bind_eq_Some_conv)
  obtain ok where ok: "writing V tb w h (Suc k) (fs @ (if ok then [?f] else [])) s1" "(\<forall>c f. fst (send_frame E c (Some f))) \<longrightarrow> ok"
    using write_frame [OF assms(1) Cons.prems(1) s1(1)] by blast
  obtain gs where "writing V tb w h (Suc k + length pls) ((fs @ (if ok then [?f] else [])) @ gs) s'"
    "subseq gs (numbered tb w h (Suc k) pls)" "(\<forall>c f. fst (send_frame E c (Some f))) \<longrightarrow> gs = numbered tb w h (Suc k) pls"
    using Cons.IH [OF ok(1) s1(2)] by blast
  then show ?case using ok(2) by (intro exI [of _ "(if ok then [?f] else []) @ gs"]) (auto simp: numbered_Cons)
qed

lemma finish_write:
  assumes "encoder_laws E V" and "writing V tb w h k fs s"
  shows "\<exists>s'. FinishWrite E s = Some s' \<and> os_packets s' = coded (ev_code V) fs \<and> os_cctx s' = None"
  using assms drain_all [OF assms(1)] by (fastforce simp: writing_def FinishWrite_def)

lemma start_writing:
  assumes "OutputStreamer_new l file sw sh depth = Some s" and "os_cctx s = Some (w, h, c)" and "ev_frames V c = []" and "ev_given V c = 0"
  shows "writing V (sc_time_base l) w h 0 [] s \<and> w = sint sw \<and> h = sint sh"
  using assms by (auto simp: OutputStreamer_new_def StartWrite_def writing_def encoder_ok_def given_packets_def Let_def
      split: if_splits option.splits prod.splits)

subsection \<open>Time stamps\<close>

lemma sdiv_nonneg: "0 \<le> (a :: int) \<Longrightarrow> 0 < b \<Longrightarrow> a sdiv b = a div b"
  by (simp add: signed_divide_int_def sgn_if abs_if)

lemma frame_pts_defined:
  assumes "0 < num" and "num * fps < 2 ^ 31" and "0 < den"
  shows "frame_pts (num, den) (int k) \<noteq> None \<longleftrightarrow> int k * den < 2 ^ 31"
proof -
  have f: "0 < num * fps" using assms(1) by (simp add: fps_def)
  have "int32 (int k * den) \<noteq> None \<longleftrightarrow> int k * den < 2 ^ 31"
  proof -
    have "0 \<le> int k * den" using assms(3) by simp
    then show ?thesis by (auto simp: int32_def)
  qed
  moreover have "int32 (int k * den sdiv (num * fps)) \<noteq> None" if "int k * den < 2 ^ 31"
  proof -
    have n: "0 \<le> int k * den" using assms(3) by simp
    then have "int k * den div (num * fps) \<le> int k * den" using f n zdiv_mono2 [of "int k * den" 1 "num * fps"] by simp
    moreover have "0 \<le> int k * den div (num * fps)" using f n by (simp add: pos_imp_zdiv_nonneg_iff)
    ultimately show ?thesis using that n f by (auto simp: int32_def sdiv_nonneg)
  qed
  moreover have "frame_pts (num, den) (int k) = int32 (int k * den) \<bind> (\<lambda>a. int32 (a sdiv (num * fps)))"
  proof -
    have "int32 (num * fps) = Some (num * fps)" using f assms(2) by (simp add: int32_def)
    moreover have "num \<noteq> 0" "fps \<noteq> 0" using f by auto
    ultimately show ?thesis by (simp add: frame_pts_def)
  qed
  ultimately show ?thesis by (cases "int32 (int k * den)") (auto simp: int32_Some)
qed

lemma write_defined:
  assumes "os_cctx s = Some (w, h, c)" and "os_stream s = Some (num, den)" and "os_frameCounter s = int k"
    and "0 < num" and "num * fps < 2 ^ 31" and "1 < den"
  shows "WriteFrameYUV420 E True pl s \<noteq> None \<longleftrightarrow> int k * den < 2 ^ 31"
    and "WriteFrameYUV420 E True pl s = Some s' \<Longrightarrow>
      (\<exists>c. os_cctx s' = Some (w, h, c)) \<and> os_stream s' = Some (num, den) \<and> os_frameCounter s' = int (Suc k)"
proof -
  have "int32 (int k + 1) \<noteq> None" if "int k * den < 2 ^ 31"
  proof -
    have "int k * 2 \<le> int k * den" using assms(6) by (intro mult_left_mono) simp_all
    then show ?thesis using that by (simp add: int32_def)
  qed
  then show "WriteFrameYUV420 E True pl s \<noteq> None \<longleftrightarrow> int k * den < 2 ^ 31"
    using frame_pts_defined [of num den k] assms
    by (auto simp: WriteFrameYUV420_def bind_eq_None_conv Let_def split: prod.splits if_splits)
  show "WriteFrameYUV420 E True pl s = Some s' \<Longrightarrow>
      (\<exists>c. os_cctx s' = Some (w, h, c)) \<and> os_stream s' = Some (num, den) \<and> os_frameCounter s' = int (Suc k)"
    using assms by (auto simp: WriteFrameYUV420_def bind_eq_Some_conv int32_Some Let_def case_prod_unfold split: if_splits)
qed

lemma writes_defined:
  assumes "os_cctx s = Some (w, h, c)" and "os_stream s = Some (num, den)" and "os_frameCounter s = int k"
    and "0 < num" and "num * fps < 2 ^ 31" and "1 < den"
  shows "write_all E pls s \<noteq> None \<longleftrightarrow> pls = [] \<or> int (k + length pls - 1) * den < 2 ^ 31"
  using assms(1-3)
proof (induction pls arbitrary: s c k)
  case Nil
  then show ?case by (simp add: write_all_def)
next
  case (Cons pl pls)
  note d = write_defined [OF Cons.prems assms(4-6)]
  show ?case
  proof (cases "WriteFrameYUV420 E True pl s")
    case None
    then have "2 ^ 31 \<le> int k * den" using d(1) [of E pl] by auto
    also have "\<dots> \<le> int (k + length (pl # pls) - 1) * den" using assms(6) by (intro mult_right_mono) auto
    finally show ?thesis using None by (simp add: write_all_def)
  next
    case (Some s1)
    then obtain c1 where c1: "os_cctx s1 = Some (w, h, c1)" "os_stream s1 = Some (num, den)" "os_frameCounter s1 = int (Suc k)"
      using d(2) by blast
    have "int k * den < 2 ^ 31" using d(1) Some by auto
    then show ?thesis using Cons.IH [OF c1] Some by (cases pls) (simp_all add: write_all_def)
  qed
qed

subsection \<open>Copying pictures\<close>

definition plane_fits :: "int \<Rightarrow> int \<Rightarrow> plane \<Rightarrow> bool" where
  "plane_fits w h src \<longleftrightarrow> 0 \<le> w \<and> 0 \<le> snd src \<and> (\<forall>y < nat h. y * nat (snd src) + nat w \<le> length (fst src))"

definition plane_rows :: "nat \<Rightarrow> nat \<Rightarrow> plane \<Rightarrow> u8 list" where
  "plane_rows w n src = concat (map (\<lambda>y. take w (drop (y * nat (snd src)) (fst src))) [0..<n])"

lemma length_plane_rows: "\<forall>y < n. y * nat (snd src) + w \<le> length (fst src) \<Longrightarrow> length (plane_rows w n src) = n * w"
  by (induction n) (auto simp: plane_rows_def min_def)

lemma copy_rows:
  assumes "0 \<le> w" and "0 \<le> snd src" and "\<forall>y < n. y * nat (snd src) + nat w \<le> length (fst src)"
  shows "ofold (copy_row w src) [0..<n] out =
    (if n * nat w \<le> length out then Some (plane_rows (nat w) n src @ drop (n * nat w) out) else None)"
  using assms(3)
proof (induction n)
  case 0
  then show ?case by (simp add: plane_rows_def)
next
  case (Suc n)
  let ?row = "take (nat w) (drop (n * nat (snd src)) (fst src))"
  have n: "\<forall>y < n. y * nat (snd src) + nat w \<le> length (fst src)" and row: "n * nat (snd src) + nat w \<le> length (fst src)" using Suc.prems by auto
  have len: "length (plane_rows (nat w) n src) = n * nat w" "length ?row = nat w" using length_plane_rows [OF n] row by simp_all
  have rows: "plane_rows (nat w) (Suc n) src = plane_rows (nat w) n src @ ?row" by (simp add: plane_rows_def)
  have b: "ablock (fst src) (n * nat (snd src)) (nat w) = Some ?row" using row by (simp add: ablock_def)
  show ?case
    using Suc.IH [OF n] assms(1,2) len b
    by (auto simp: ofold_append copy_row_def ablit_def rows add.commute min_def)
qed

lemma copy_plane_value:
  assumes "plane_fits w h src"
  shows "copy_plane w h src out =
    (if nat h * nat w \<le> length out then Some (plane_rows (nat w) (nat h) src @ drop (nat h * nat w) out) else None)"
  using assms copy_rows [of w src "nat h" out] by (simp add: copy_plane_def plane_fits_def)

definition frame_fits :: "int \<times> int \<Rightarrow> av_frame \<Rightarrow> bool" where
  "frame_fits sz f \<longleftrightarrow> (case sz of (w, h) \<Rightarrow>
     plane_fits w h (f_y f) \<and> plane_fits (w sdiv 2) (h sdiv 2) (f_u f) \<and> plane_fits (w sdiv 2) (h sdiv 2) (f_v f))"

definition buffers_fit :: "int \<times> int \<Rightarrow> yuv_planes \<Rightarrow> bool" where
  "buffers_fit sz out \<longleftrightarrow> (case sz of (w, h) \<Rightarrow> nat h * nat w \<le> length (ydata out) \<and>
     nat (h sdiv 2) * nat (w sdiv 2) \<le> length (udata out) \<and> nat (h sdiv 2) * nat (w sdiv 2) \<le> length (vdata out))"

definition picture :: "int \<times> int \<Rightarrow> av_frame \<Rightarrow> yuv_planes" where
  "picture sz f = (case sz of (w, h) \<Rightarrow>
     \<lparr>ydata = plane_rows (nat w) (nat h) (f_y f), udata = plane_rows (nat (w sdiv 2)) (nat (h sdiv 2)) (f_u f),
      vdata = plane_rows (nat (w sdiv 2)) (nat (h sdiv 2)) (f_v f)\<rparr>)"

text \<open>The planes in front of what the buffers held.\<close>

definition over :: "yuv_planes \<Rightarrow> yuv_planes \<Rightarrow> yuv_planes" where
  "over p out = \<lparr>ydata = ydata p @ drop (length (ydata p)) (ydata out), udata = udata p @ drop (length (udata p)) (udata out),
     vdata = vdata p @ drop (length (vdata p)) (vdata out)\<rparr>"

lemma plane_fits_rows: "plane_fits w h src \<Longrightarrow> length (plane_rows (nat w) (nat h) src) = nat h * nat w"
  by (simp add: plane_fits_def length_plane_rows)

lemma copy_frame_value:
  assumes "frame_fits sz f"
  shows "copy_frame sz f out = (if buffers_fit sz out then Some (over (picture sz f) out) else None)"
proof -
  obtain w h where sz: "sz = (w, h)" by fastforce
  have p: "plane_fits w h (f_y f)" "plane_fits (w sdiv 2) (h sdiv 2) (f_u f)" "plane_fits (w sdiv 2) (h sdiv 2) (f_v f)"
    using assms by (simp_all add: frame_fits_def sz)
  show ?thesis
    by (simp add: copy_frame_def sz copy_plane_value [OF p(1)] copy_plane_value [OF p(2)] copy_plane_value [OF p(3)]
        buffers_fit_def over_def picture_def plane_fits_rows [OF p(1)] plane_fits_rows [OF p(2)] plane_fits_rows [OF p(3)])
qed

subsection \<open>What is assumed of the decoder\<close>

text \<open>A decoder is seen as the packets it was sent and how many frames it has shown: the frame that goes with a
  packet follows from the packets up to it. It shows them in order, when it likes, and does not fail. A
  prompt one has shown them all when it has no more. All pictures have one size.\<close>

record ('d, 'p) decoder_view =
  dv_packets :: "'d \<Rightarrow> 'p list"
  dv_shown :: "'d \<Rightarrow> nat"
  dv_pic :: "'p list \<Rightarrow> av_frame"
  dv_size :: "int \<times> int"
  dv_prompt :: bool

definition decoder_laws :: "('d, 'p) av_decoder \<Rightarrow> ('d, 'p) decoder_view \<Rightarrow> bool" where
  "decoder_laws D V \<longleftrightarrow>
     (\<forall>d. picture_size D d = dv_size V) \<and>
     (\<forall>d p ok d'. send_packet D d p = (ok, d') \<longrightarrow> ok \<and> dv_packets V d' = dv_packets V d @ [p] \<and> dv_shown V d' = dv_shown V d) \<and>
     (\<forall>d r d'. receive_frame D d = (r, d') \<longrightarrow> dv_packets V d' = dv_packets V d \<and>
        (case r of
           Got f \<Rightarrow> dv_shown V d < length (dv_packets V d) \<and> f = dv_pic V (take (Suc (dv_shown V d)) (dv_packets V d)) \<and>
             dv_shown V d' = Suc (dv_shown V d)
         | Failed \<Rightarrow> False
         | _ \<Rightarrow> dv_shown V d' = dv_shown V d \<and> (dv_prompt V \<longrightarrow> length (dv_packets V d) \<le> dv_shown V d)))"

lemma decoder_size: "decoder_laws D V \<Longrightarrow> picture_size D d = dv_size V"
  unfolding decoder_laws_def by blast

lemma decoder_send:
  "decoder_laws D V \<Longrightarrow> send_packet D d p = (ok, d') \<Longrightarrow> ok \<and> dv_packets V d' = dv_packets V d @ [p] \<and> dv_shown V d' = dv_shown V d"
  unfolding decoder_laws_def by blast

lemma decoder_receive:
  "decoder_laws D V \<Longrightarrow> receive_frame D d = (r, d') \<Longrightarrow> dv_packets V d' = dv_packets V d \<and>
     (case r of
        Got f \<Rightarrow> dv_shown V d < length (dv_packets V d) \<and> f = dv_pic V (take (Suc (dv_shown V d)) (dv_packets V d)) \<and>
          dv_shown V d' = Suc (dv_shown V d)
      | Failed \<Rightarrow> False
      | _ \<Rightarrow> dv_shown V d' = dv_shown V d \<and> (dv_prompt V \<longrightarrow> length (dv_packets V d) \<le> dv_shown V d))"
  unfolding decoder_laws_def by blast

subsection \<open>Reading a stream\<close>

text \<open>The frames from one number to another.\<close>

definition shown_frames :: "('d, 'p) decoder_view \<Rightarrow> 'p list \<Rightarrow> nat \<Rightarrow> nat \<Rightarrow> av_frame list" where
  "shown_frames V ps a b = map (\<lambda>i. dv_pic V (take (Suc i) ps)) [a..<b]"

lemma shown_frames_append: "b \<le> length ps \<Longrightarrow> shown_frames V (ps @ qs) a b = shown_frames V ps a b"
  by (simp add: shown_frames_def)

lemma shown_frames_Cons: "a < b \<Longrightarrow> shown_frames V ps a b = dv_pic V (take (Suc a) ps) # shown_frames V ps (Suc a) b"
  by (simp add: shown_frames_def upt_conv_Cons)

lemma shown_frames_Nil [simp]: "shown_frames V ps a b = [] \<longleftrightarrow> b \<le> a"
  by (auto simp: shown_frames_def)

lemma shown_frames_same [simp]: "shown_frames V ps a a = []"
  by simp

lemma receive_all:
  assumes "decoder_laws D V" and "dv_shown V d \<le> length (dv_packets V d)"
  shows "\<exists>d'. receive_frames D d fs = Some (False, d', fs @ shown_frames V (dv_packets V d) (dv_shown V d) (dv_shown V d')) \<and>
    dv_packets V d' = dv_packets V d \<and> dv_shown V d \<le> dv_shown V d' \<and> dv_shown V d' \<le> length (dv_packets V d) \<and>
    (dv_prompt V \<longrightarrow> dv_shown V d' = length (dv_packets V d))"
  using assms(2)
proof (induction "length (dv_packets V d) - dv_shown V d" arbitrary: d fs rule: less_induct)
  case less
  obtain r d1 where r: "receive_frame D d = (r, d1)" by fastforce
  note l = decoder_receive [OF assms(1) r]
  show ?case
  proof (cases "\<exists>f. r = Got f")
    case True
    then obtain f where f: "r = Got f" by blast
    have d1: "dv_shown V d < length (dv_packets V d)" "f = dv_pic V (take (Suc (dv_shown V d)) (dv_packets V d))"
      "dv_shown V d1 = Suc (dv_shown V d)" "dv_packets V d1 = dv_packets V d" using l f by simp_all
    obtain d' where d': "receive_frames D d1 (fs @ [f]) = Some (False, d', (fs @ [f]) @ shown_frames V (dv_packets V d1) (dv_shown V d1) (dv_shown V d'))"
      "dv_packets V d' = dv_packets V d1" "dv_shown V d1 \<le> dv_shown V d'" "dv_shown V d' \<le> length (dv_packets V d1)"
      "dv_prompt V \<longrightarrow> dv_shown V d' = length (dv_packets V d1)"
      using less.hyps [of d1 "fs @ [f]"] d1 by (auto simp: diff_less_mono2)
    then show ?thesis using r f d1 by (intro exI [of _ d']) (simp add: receive_frames.simps [of D d] shown_frames_Cons)
  next
    case False
    then have "r = Again \<or> r = AtEof" using l by (cases r) auto
    then show ?thesis using r l less.prems
      by (intro exI [of _ d1]) (auto simp: receive_frames.simps [of D d])
  qed
qed

definition video :: "int \<Rightarrow> (int \<times> 'p) list \<Rightarrow> 'p list" where
  "video idx ps = map snd (filter (\<lambda>p. fst p = idx) ps)"

lemma video_simps [simp]: "video idx [] = []" "video idx ((i, p) # ps) = (if i = idx then p # video idx ps else video idx ps)"
  by (simp_all add: video_def)

text \<open>A decoder between two calls: what is left of the input follows what it was sent.\<close>

definition decoding :: "('d, 'p) decoder_view \<Rightarrow> int \<Rightarrow> 'p list \<Rightarrow> (int \<times> 'p) list \<Rightarrow> 'd \<Rightarrow> bool" where
  "decoding V idx P ps d \<longleftrightarrow> dv_packets V d @ video idx ps = P \<and> dv_shown V d \<le> length (dv_packets V d) \<and>
     (dv_prompt V \<longrightarrow> dv_shown V d = length (dv_packets V d))"

lemma fill_frames_spec:
  assumes "decoder_laws D V" and "decoding V idx P ps d"
  shows "\<exists>ps' d'. fill_frames D idx ps (Some d) = Some (False, ps', Some d', shown_frames V P (dv_shown V d) (dv_shown V d')) \<and>
    decoding V idx P ps' d' \<and> dv_shown V d \<le> dv_shown V d' \<and> (dv_shown V d' = dv_shown V d \<longrightarrow> ps' = [])"
  using assms(2)
proof (induction ps arbitrary: d)
  case Nil
  then show ?case by (intro exI [of _ "[]"] exI [of _ d]) simp
next
  case (Cons q ps)
  obtain i p where q: "q = (i, p)" by fastforce
  show ?case
  proof (cases "i = idx")
    case False
    then have "decoding V idx P ps d" using Cons.prems by (simp add: q decoding_def)
    then show ?thesis using Cons.IH False by (simp add: q)
  next
    case True
    obtain ok d1 where s: "send_packet D d p = (ok, d1)" by fastforce
    have d1: "ok" "dv_packets V d1 = dv_packets V d @ [p]" "dv_shown V d1 = dv_shown V d"
      using decoder_send [OF assms(1) s] by simp_all
    have P: "P = dv_packets V d1 @ video idx ps" and "dv_shown V d1 \<le> length (dv_packets V d1)"
      using Cons.prems d1 True by (simp_all add: decoding_def q)
    then obtain d2 where r: "receive_frames D d1 [] = Some (False, d2, shown_frames V (dv_packets V d1) (dv_shown V d1) (dv_shown V d2))"
      and d2: "dv_packets V d2 = dv_packets V d1" "dv_shown V d1 \<le> dv_shown V d2" "dv_shown V d2 \<le> length (dv_packets V d1)"
        "dv_prompt V \<longrightarrow> dv_shown V d2 = length (dv_packets V d1)"
      using receive_all [OF assms(1), of d1 "[]"] by auto
    have dec: "decoding V idx P ps d2" using P d2 by (simp add: decoding_def)
    have fr: "shown_frames V (dv_packets V d1) (dv_shown V d1) (dv_shown V d2) = shown_frames V P (dv_shown V d) (dv_shown V d2)"
      using shown_frames_append d2(3) P d1(3) by metis
    show ?thesis
    proof (cases "dv_shown V d2 = dv_shown V d")
      case False
      then show ?thesis using True s d1 r fr dec d2(2)
        by (intro exI [of _ ps] exI [of _ d2]) (simp add: q)
    next
      case shown: True
      then show ?thesis using Cons.IH [OF dec] True s d1 r fr by (simp add: q)
    qed
  qed
qed

text \<open>A reader after \<open>k\<close> frames of the video packets \<open>P\<close>.\<close>

definition reading :: "('d, 'p) decoder_view \<Rightarrow> 'p list \<Rightarrow> nat \<Rightarrow> ('d, 'p) in_streamer \<Rightarrow> bool" where
  "reading V P k s \<longleftrightarrow> (\<exists>d ps. is_dec_ctx s = Some d \<and> is_fmt_ctx s = Some ps \<and> decoding V (is_index s) P ps d \<and>
     is_decoded s = shown_frames V P k (dv_shown V d) \<and> k \<le> dv_shown V d)"

definition ended :: "('d, 'p) in_streamer \<Rightarrow> bool" where
  "ended s \<longleftrightarrow> is_fmt_ctx s = Some [] \<and> is_decoded s = []"

lemma read_frame:
  assumes "decoder_laws D V" and "reading V P k s"
    and "\<forall>i < length P. frame_fits (dv_size V) (dv_pic V (take (Suc i) P))" and "buffers_fit (dv_size V) out"
  shows "(k < length P \<and> (\<exists>s'. ReadFrameYUV420 D out s = Some (True, over (picture (dv_size V) (dv_pic V (take (Suc k) P))) out, s') \<and>
        reading V P (Suc k) s')) \<or>
    ((dv_prompt V \<longrightarrow> k = length P) \<and> (\<exists>s'. ReadFrameYUV420 D out s = Some (False, out, s') \<and> ended s'))"
proof -
  obtain d ps where s: "is_dec_ctx s = Some d" "is_fmt_ctx s = Some ps" "decoding V (is_index s) P ps d"
    "is_decoded s = shown_frames V P k (dv_shown V d)" "k \<le> dv_shown V d" using assms(2) by (auto simp: reading_def)
  define fetched where "fetched = (if is_decoded s = []
       then do {
         ps \<leftarrow> is_fmt_ctx s;
         (failed, ps, d, fs) \<leftarrow> fill_frames D (is_index s) ps (is_dec_ctx s);
         Some (failed, s\<lparr>is_fmt_ctx := Some ps, is_dec_ctx := d, is_decoded := fs\<rparr>) }
       else Some (False, s))"
  have "\<exists>s1 d1 ps1. fetched = Some (False, s1) \<and> is_dec_ctx s1 = Some d1 \<and> is_fmt_ctx s1 = Some ps1 \<and> is_index s1 = is_index s \<and>
      decoding V (is_index s) P ps1 d1 \<and> is_decoded s1 = shown_frames V P k (dv_shown V d1) \<and> k \<le> dv_shown V d1 \<and>
      (dv_shown V d1 = k \<longrightarrow> ps1 = [])"
  proof (cases "is_decoded s = []")
    case True
    then have k: "dv_shown V d = k" using s(4,5) by simp
    obtain ps' d' where "fill_frames D (is_index s) ps (Some d) = Some (False, ps', Some d', shown_frames V P (dv_shown V d) (dv_shown V d'))"
      "decoding V (is_index s) P ps' d'" "dv_shown V d \<le> dv_shown V d'" "dv_shown V d' = dv_shown V d \<longrightarrow> ps' = []"
      using fill_frames_spec [OF assms(1) s(3)] by blast
    then show ?thesis using True s(1,2) k by (simp add: fetched_def)
  next
    case False
    then show ?thesis using s by (auto simp: fetched_def)
  qed
  then obtain s1 d1 ps1 where s1: "fetched = Some (False, s1)" "is_dec_ctx s1 = Some d1" "is_fmt_ctx s1 = Some ps1" "is_index s1 = is_index s"
    "decoding V (is_index s) P ps1 d1" "is_decoded s1 = shown_frames V P k (dv_shown V d1)" "k \<le> dv_shown V d1" "dv_shown V d1 = k \<longrightarrow> ps1 = []"
    by blast
  have "length P = length (dv_packets V d1) + length (video (is_index s) ps1)" using s1(5) by (auto simp: decoding_def)
  then have le: "dv_shown V d1 \<le> length P" using s1(5) by (auto simp: decoding_def)
  show ?thesis
  proof (cases "dv_shown V d1 = k")
    case True
    then have "ReadFrameYUV420 D out s = Some (False, out, s1)" "ended s1" using s1
      by (simp_all add: ReadFrameYUV420_def fetched_def [symmetric] ended_def)
    moreover have "dv_prompt V \<longrightarrow> k = length P" using True s1(5,8) by (auto simp: decoding_def)
    ultimately show ?thesis by blast
  next
    case False
    then have k: "k < dv_shown V d1" using s1(7) by simp
    let ?f = "dv_pic V (take (Suc k) P)"
    have "copy_frame (picture_size D d1) ?f out = Some (over (picture (dv_size V) ?f) out)"
      using assms(3,4) k le by (simp add: decoder_size [OF assms(1)] copy_frame_value)
    moreover have "is_decoded s1 = ?f # shown_frames V P (Suc k) (dv_shown V d1)" using s1(6) shown_frames_Cons [OF k, of V P] by simp
    ultimately have "ReadFrameYUV420 D out s =
        Some (True, over (picture (dv_size V) ?f) out, s1\<lparr>is_decoded := shown_frames V P (Suc k) (dv_shown V d1)\<rparr>)"
      using s1(1,2) by (simp add: ReadFrameYUV420_def fetched_def [symmetric])
    moreover have "reading V P (Suc k) (s1\<lparr>is_decoded := shown_frames V P (Suc k) (dv_shown V d1)\<rparr>)"
      using s1 k by (simp add: reading_def)
    ultimately show ?thesis using k le by auto
  qed
qed

lemma read_ended: "ended s \<Longrightarrow> ReadFrameYUV420 D out s = Some (False, out, s)"
  by (cases s) (simp add: ended_def ReadFrameYUV420_def)

lemma read_n_ended: "ended s \<Longrightarrow> read_n D out n s = Some (replicate n None, s)"
  by (induction n) (simp_all add: read_ended)

lemma read_frames:
  assumes "decoder_laws D V" and "reading V P k s"
    and "\<forall>i < length P. frame_fits (dv_size V) (dv_pic V (take (Suc i) P))" and "buffers_fit (dv_size V) out"
  shows "\<exists>m s'. read_n D out n s =
      Some (map (\<lambda>i. Some (over (picture (dv_size V) (dv_pic V (take (Suc i) P))) out)) [k..<k + m] @ replicate (n - m) None, s') \<and>
    m \<le> n \<and> k + m \<le> length P \<and> (dv_prompt V \<longrightarrow> m = min n (length P - k))"
  using assms(2)
proof (induction n arbitrary: k s)
  case 0
  then have "k \<le> length P" by (auto simp: reading_def decoding_def)
  then show ?case by simp
next
  case (Suc n)
  note r = read_frame [OF assms(1) Suc.prems assms(3,4)]
  have kP: "k \<le> length P" using Suc.prems by (auto simp: reading_def decoding_def)
  from r show ?case
  proof (elim disjE conjE exE)
    fix s1 assume k: "k < length P" and s1: "ReadFrameYUV420 D out s = Some (True, over (picture (dv_size V) (dv_pic V (take (Suc k) P))) out, s1)"
      "reading V P (Suc k) s1"
    obtain m s' where m: "read_n D out n s1 =
        Some (map (\<lambda>i. Some (over (picture (dv_size V) (dv_pic V (take (Suc i) P))) out)) [Suc k..<Suc k + m] @ replicate (n - m) None, s')"
      "m \<le> n" "Suc k + m \<le> length P" "dv_prompt V \<longrightarrow> m = min n (length P - Suc k)"
      using Suc.IH [OF s1(2)] by blast
    then show ?thesis using s1(1) k by (intro exI [of _ "Suc m"] exI [of _ s']) (auto simp: upt_conv_Cons simp del: upt_Suc)
  next
    fix s1 assume s1: "dv_prompt V \<longrightarrow> k = length P" "ReadFrameYUV420 D out s = Some (False, out, s1)" "ended s1"
    then show ?thesis using read_n_ended [OF s1(3), of D out n] kP by (intro exI [of _ 0] exI [of _ s1]) auto
  qed
qed

end
