(* ===== verification/VideoStream.thy ===== *)
theory VideoStream
  imports Codec
begin

text \<open>
  The way of a frame through the video stream: the planes the recorder makes (\<open>src/core/Record.cpp\<close>), the
  writer, the packets, the reader (\<open>src/core/FFmpeg.cpp\<close>), the buffers and the queue of the player
  (\<open>src/core/Player.cpp\<close>).
\<close>

subsection \<open>Streams from writer to reader\<close>

text \<open>C17: What the writer hands on is a prefix of the packets of the frames that the encoder accepted, in order,
  each numbered by its place among the frames written; finishing ends and hands on the rest. An encoder that
  accepts every frame loses none.\<close>

theorem stream_written:
  assumes "encoder_laws E V" and "OutputStreamer_new l file sw sh depth = Some s"
    and "os_cctx s = Some (w, h, c)" and "ev_frames V c = []" and "ev_given V c = 0" and "write_all E pls s = Some s'"
  shows "\<exists>gs s''. subseq gs (numbered (sc_time_base l) (sint sw) (sint sh) 0 pls) \<and> prefix (os_packets s') (coded (ev_code V) gs) \<and>
    FinishWrite E s' = Some s'' \<and> os_packets s'' = coded (ev_code V) gs \<and>
    ((\<forall>c f. fst (send_frame E c (Some f))) \<longrightarrow> gs = numbered (sc_time_base l) (sint sw) (sint sh) 0 pls)"
proof -
  have st: "writing V (sc_time_base l) w h 0 [] s" "w = sint sw" "h = sint sh" using start_writing [OF assms(2-5)] by blast+
  obtain gs where gs: "writing V (sc_time_base l) w h (length pls) gs s'" "subseq gs (numbered (sc_time_base l) w h 0 pls)"
    "(\<forall>c f. fst (send_frame E c (Some f))) \<longrightarrow> gs = numbered (sc_time_base l) w h 0 pls"
    using write_frames [OF assms(1) st(1) assms(6)] by auto
  have "prefix (os_packets s') (coded (ev_code V) gs)" using gs(1) by (auto simp: writing_def given_packets_def take_is_prefix)
  then show ?thesis using finish_write [OF assms(1) gs(1)] gs(2,3) st(2,3) by blast
qed

text \<open>C29: With a time base of one in \<open>den\<close> units, writing frames is defined exactly as long as the number of
  the last one times \<open>den\<close> is an \<open>int\<close>: at 90000 units a second, the 23862nd frame, after 13 minutes, overflows.\<close>

theorem write_overflow:
  assumes "OutputStreamer_new l file sw sh depth = Some s" and "os_cctx s \<noteq> None" and "sc_time_base l = (1, den)" and "1 < den"
  shows "write_all E pls s \<noteq> None \<longleftrightarrow> pls = [] \<or> int (length pls - 1) * den < 2 ^ 31"
proof -
  have s: "os_stream s = Some (1, den)" "os_frameCounter s = int 0" and c: "\<exists>w h c. os_cctx s = Some (w, h, c)"
    using assms(1-3) by (auto simp: OutputStreamer_new_def StartWrite_def Let_def split: if_splits option.splits prod.splits)
  obtain w h c where "os_cctx s = Some (w, h, c)" using c by blast
  from writes_defined [OF this s _ _ assms(4), of E pls] show ?thesis by (simp add: fps_def)
qed

text \<open>The pictures that a decoder gives back for what an encoder made of frames.\<close>

definition codec_pair :: "('c, 'p) encoder_view \<Rightarrow> ('d, 'p) decoder_view \<Rightarrow> (yuv_planes \<Rightarrow> yuv_planes) \<Rightarrow> bool" where
  "codec_pair V W q \<longleftrightarrow> (\<forall>fs f. frame_fits (dv_size W) f \<longrightarrow>
     frame_fits (dv_size W) (dv_pic W (coded (ev_code V) (fs @ [f]))) \<and>
     picture (dv_size W) (dv_pic W (coded (ev_code V) (fs @ [f]))) = q (picture (dv_size W) f))"

lemma codec_pair_shown:
  assumes "codec_pair V W q" and "\<forall>f \<in> set fs. frame_fits (dv_size W) f" and "i < length fs"
  shows "frame_fits (dv_size W) (dv_pic W (take (Suc i) (coded (ev_code V) fs))) \<and>
    picture (dv_size W) (dv_pic W (take (Suc i) (coded (ev_code V) fs))) = q (picture (dv_size W) (fs ! i))"
proof -
  have "take (Suc i) (coded (ev_code V) fs) = coded (ev_code V) (take i fs @ [fs ! i])"
    using assms(3) by (simp add: take_coded take_Suc_conv_app_nth)
  then show ?thesis using assms by (simp add: codec_pair_def)
qed

lemma plane_rows_tight: "n * w \<le> length bs \<Longrightarrow> plane_rows w n (bs, int w) = take (n * w) bs"
proof (induction n)
  case (Suc n)
  then show ?case by (simp add: plane_rows_def take_add [symmetric] add.commute)
qed (simp add: plane_rows_def)

definition planes_fit :: "nat \<Rightarrow> nat \<Rightarrow> yuv_planes \<Rightarrow> bool" where
  "planes_fit w h pl \<longleftrightarrow> h * w \<le> length (ydata pl) \<and> (h div 2) * (w div 2) \<le> length (udata pl) \<and> (h div 2) * (w div 2) \<le> length (vdata pl)"

definition cropped :: "nat \<Rightarrow> nat \<Rightarrow> yuv_planes \<Rightarrow> yuv_planes" where
  "cropped w h pl = \<lparr>ydata = take (h * w) (ydata pl), udata = take ((h div 2) * (w div 2)) (udata pl), vdata = take ((h div 2) * (w div 2)) (vdata pl)\<rparr>"

lemma half_int: "int n sdiv 2 = int (n div 2)"
  by (simp add: sdiv_nonneg zdiv_int)

lemma tight_fits: "n * w \<le> length bs \<Longrightarrow> plane_fits (int w) (int n) (bs, int w)"
proof -
  assume l: "n * w \<le> length bs"
  have "y * w + w \<le> length bs" if "y < n" for y
  proof -
    have "Suc y * w \<le> n * w" using that by (intro mult_le_mono1) simp
    then show ?thesis using l by simp
  qed
  then show ?thesis by (simp add: plane_fits_def)
qed

lemma out_frame_picture:
  assumes "planes_fit w h pl"
  shows "frame_fits (int w, int h) (out_frame (int w) (int h) pts pl) \<and> picture (int w, int h) (out_frame (int w) (int h) pts pl) = cropped w h pl"
  using assms by (simp add: planes_fit_def frame_fits_def picture_def out_frame_def half_int tight_fits plane_rows_tight cropped_def)

lemma numbered_nth: "i < length pls \<Longrightarrow> numbered tb w h k pls ! i = out_frame w h (int (k + i) * snd tb sdiv (fst tb * fps)) (pls ! i)"
  by (simp add: numbered_def)

lemma length_numbered [simp]: "length (numbered tb w h k pls) = length pls"
  by (simp add: numbered_def)

text \<open>A writer and a reader that were just opened.\<close>

definition opened_writer :: "('c, 'p) encoder_view \<Rightarrow> 'c start_calls \<Rightarrow> nat \<Rightarrow> nat \<Rightarrow> ('c, 'p) out_streamer \<Rightarrow> bool" where
  "opened_writer V l w h s \<longleftrightarrow> w < 2 ^ 31 \<and> h < 2 ^ 31 \<and>
     (\<exists>file depth. OutputStreamer_new l file (word_of_nat w) (word_of_nat h) depth = Some s) \<and>
     (\<exists>cw ch c. os_cctx s = Some (cw, ch, c) \<and> ev_frames V c = [] \<and> ev_given V c = 0)"

definition opened_reader :: "('d, 'p) decoder_view \<Rightarrow> 'p list \<Rightarrow> ('d, 'p) in_streamer \<Rightarrow> bool" where
  "opened_reader W P r \<longleftrightarrow> (\<exists>l name ps d0. r = InputStreamer_new l name \<and> oc_input l = Some ps \<and> oc_info l \<and> 0 \<le> oc_best l \<and>
     oc_context l = Some d0 \<and> dv_packets W (oc_open l d0) = [] \<and> dv_shown W (oc_open l d0) = 0 \<and> video (oc_best l) ps = P)"

lemma start_stream:
  assumes "opened_writer V l w h s"
  shows "writing V (sc_time_base l) (int w) (int h) 0 [] s"
proof -
  obtain name depth cw ch c where s: "OutputStreamer_new l name (word_of_nat w) (word_of_nat h) depth = Some s" "os_cctx s = Some (cw, ch, c)"
    "ev_frames V c = []" "ev_given V c = 0" "w < 2 ^ 31" "h < 2 ^ 31" using assms by (auto simp: opened_writer_def)
  show ?thesis using start_writing [OF s(1-4)] sint_small [OF s(5)] sint_small [OF s(6)] by metis
qed

lemma start_reading: "opened_reader W P r \<Longrightarrow> reading W P 0 r"
  by (auto simp: opened_reader_def InputStreamer_new_def Open_def reading_def decoding_def)

text \<open>A codec for pictures of one size: its encoder accepts every frame, and its decoder gives back the picture
  of each as \<open>q\<close> has it.\<close>

definition codec ::
  "('c, 'p) av_encoder \<Rightarrow> ('c, 'p) encoder_view \<Rightarrow> ('d, 'p) av_decoder \<Rightarrow> ('d, 'p) decoder_view \<Rightarrow> (yuv_planes \<Rightarrow> yuv_planes) \<Rightarrow> nat \<Rightarrow> nat \<Rightarrow> bool" where
  "codec E V D W q w h \<longleftrightarrow> encoder_laws E V \<and> (\<forall>c f. fst (send_frame E c (Some f))) \<and> decoder_laws D W \<and> dv_size W = (int w, int h) \<and>
     codec_pair V W q"

lemma map_nth_take: "m \<le> length xs \<Longrightarrow> map (\<lambda>i. f (xs ! i)) [0..<m] = map f (take m xs)"
  by (rule nth_equalityI) simp_all

text \<open>Reading a stream that carries the packets of a writer gives the images of the first frames written, each as
  the codec reproduces it, in order and without a gap, and then nothing; the program never finishes a
  stream, so as many as the encoder gave packets for, if the decoder holds no frames back.\<close>

lemma stream_carries:
  assumes c: "codec E V D W q w h" and "opened_writer V l w h s" and w: "write_all E pls s = Some s'" and fit: "\<forall>pl \<in> set pls. planes_fit w h pl"
    and r: "opened_reader W (os_packets s') r" and out: "buffers_fit (int w, int h) out"
  shows "\<exists>m r'. read_n D out n r = Some (map (\<lambda>pl. Some (over (q (cropped w h pl)) out)) (take m pls) @ replicate (n - m) None, r') \<and>
    m \<le> n \<and> m \<le> length (os_packets s') \<and> length (os_packets s') \<le> length pls \<and> (dv_prompt W \<longrightarrow> m = min n (length (os_packets s')))"
proof -
  define P where "P = os_packets s'"
  let ?fs = "numbered (sc_time_base l) (int w) (int h) 0 pls"
  have E: "encoder_laws E V" and D: "decoder_laws D W" and sz: "dv_size W = (int w, int h)" and pair: "codec_pair V W q"
    and acc: "\<forall>c f. fst (send_frame E c (Some f))" using c by (simp_all add: codec_def)
  obtain k where P: "P = take k (coded (ev_code V) ?fs)"
    using write_frames [OF E start_stream [OF assms(2)] w] acc by (auto simp: writing_def given_packets_def P_def)
  have fits: "\<forall>f \<in> set ?fs. frame_fits (dv_size W) f"
    using sz fit out_frame_picture by (simp add: all_set_conv_all_nth numbered_nth)
  have img: "frame_fits (dv_size W) (dv_pic W (take (Suc i) P)) \<and> picture (dv_size W) (dv_pic W (take (Suc i) P)) = q (cropped w h (pls ! i))"
    if "i < length P" for i
  proof -
    have i: "i < length pls" "i < k" using that by (simp_all add: P)
    then have "take (Suc i) P = take (Suc i) (coded (ev_code V) ?fs)" by (simp add: P)
    moreover have "picture (dv_size W) (?fs ! i) = cropped w h (pls ! i)"
      using i(1) sz fit out_frame_picture by (simp add: numbered_nth)
    ultimately show ?thesis using codec_pair_shown [OF pair fits, of i] i(1) by simp
  qed
  obtain m r' where m: "read_n D out n r =
      Some (map (\<lambda>i. Some (over (picture (dv_size W) (dv_pic W (take (Suc i) P))) out)) [0..<m] @ replicate (n - m) None, r')"
    "m \<le> n" "m \<le> length P" "dv_prompt W \<longrightarrow> m = min n (length P)"
    using read_frames [OF D start_reading [OF r], of out n] img sz out by (auto simp: P_def)
  have len: "length P \<le> length pls" by (simp add: P)
  have "map (\<lambda>i. Some (over (picture (dv_size W) (dv_pic W (take (Suc i) P))) out)) [0..<m] =
      map (\<lambda>i. Some (over (q (cropped w h (pls ! i))) out)) [0..<m]"
    by (rule map_cong) (use img m(3) in auto)
  also have "\<dots> = map (\<lambda>pl. Some (over (q (cropped w h pl)) out)) (take m pls)"
    using m(3) len by (intro map_nth_take) simp
  finally show ?thesis using m len by (auto simp: P_def)
qed

subsection \<open>The planes of the program\<close>

text \<open>The chroma values of the pictures are held by two areas that are each rounded down, unless their number
  is odd and there is no spare width.\<close>

definition chroma_fits :: "nat \<Rightarrow> nat \<Rightarrow> bool" where
  "chroma_fits w h \<longleftrightarrow> even (h * (w div 2)) \<or> odd w \<and> 2 \<le> h"

lemma chroma_area: "h * (w div 2) \<le> 2 * (w * h div 4) \<longleftrightarrow> chroma_fits w h"
proof (cases "even w")
  case True
  then obtain b where w: "w = 2 * b" by blast
  have "w * h div 4 = b * h div 2" by (simp add: w)
  moreover have "b * h \<le> 2 * (b * h div 2) \<longleftrightarrow> even (b * h)" by presburger
  ultimately show ?thesis by (simp add: w mult.commute chroma_fits_def)
next
  case False
  then obtain b where w: "w = 2 * b + 1" by (meson oddE)
  define x where "x = h * b"
  have "w * h = 2 * x + h" by (simp add: w x_def algebra_simps)
  moreover have "x \<le> 2 * ((2 * x + h) div 4) \<longleftrightarrow> even x \<or> 2 \<le> h"
  proof (cases "even x")
    case True
    then obtain k where "x = 2 * k" by blast
    then show ?thesis by simp
  next
    case False
    then obtain k where k: "x = 2 * k + 1" by (meson oddE)
    have "k < (4 * k + 2 + h) div 4 \<longleftrightarrow> 2 \<le> h" using div_le_mono [of "4 * (k + 1)" "4 * k + 2 + h" 4] by (auto simp: less_eq_Suc_le)
    then show ?thesis using False by (auto simp: k)
  qed
  moreover have "w div 2 = b" by (simp add: w)
  ultimately show ?thesis using False by (simp add: chroma_fits_def x_def)
qed

lemma chroma_fits_even: "even w \<Longrightarrow> chroma_fits w h \<longleftrightarrow> 4 dvd w * h"
proof -
  assume "even w"
  then obtain b where w: "w = 2 * b" by blast
  show ?thesis using nat_mult_dvd_cancel_disj [of 2 2 "b * h"] by (simp add: w mult.assoc chroma_fits_def mult.commute)
qed

lemma stream_planes_lengths:
  assumes "stream_planes d = Some pl"
  shows "length (ydata pl) = unat (depthWidth (props d) * depthHeight (props d)) * 2 \<and>
    length (udata pl) = unat (depthWidth (props d) * depthHeight (props d)) div 4 * 2 \<and>
    length (vdata pl) = unat (depthWidth (props d) * depthHeight (props d)) div 4 * 2"
proof -
  have luma: "length ys' = length ys" if "sample_luma p hdr vid n ys = Some ys'" for p hdr vid n ys ys'
    using that unfolding sample_luma_def
    by (rule ofold_invariant [where P = "\<lambda>x. length x = length ys"]) (auto simp: bind_eq_Some_conv)
  have chroma: "length (fst uv') = length (fst uv) \<and> length (snd uv') = length (snd uv)" if "sample_chroma p hdr vid n uv = Some uv'" for p hdr vid n uv uv'
    using that unfolding sample_chroma_def Let_def
    by (rule ofold_invariant [where P = "\<lambda>x. length (fst x) = length (fst uv) \<and> length (snd x) = length (snd uv)"])
       (auto simp: bind_eq_Some_conv)
  show ?thesis
    using assms by (fastforce simp: stream_planes_def Let_def bind_eq_Some_conv dest!: ConvertDepthToYUV_lengths luma chroma)
qed

text \<open>C28: The planes the recorder makes of a frame have the size that the encoder reads, an image of the depth
  width and twice its height, exactly when the number \<open>h * (w div 2)\<close> of chroma values is even, or the width
  is odd and the height at least 2; for even widths that is when the depth area is a multiple of four.
  Otherwise the encoder reads chroma values past their end.\<close>

theorem recorded_planes_fit:
  assumes "stream_planes d = Some pl" and "w = unat (depthWidth (props d))" and "h = unat (depthHeight (props d))"
    and "w * h < 2 ^ 32"
  shows "(planes_fit w (2 * h) pl \<longleftrightarrow> even (h * (w div 2)) \<or> odd w \<and> 2 \<le> h) \<and>
    (even w \<longrightarrow> (planes_fit w (2 * h) pl \<longleftrightarrow> 4 dvd w * h))"
proof -
  have "unat (depthWidth (props d) * depthHeight (props d)) = w * h" using assms(2-4) by (simp add: unat_word_ariths)
  then have "planes_fit w (2 * h) pl \<longleftrightarrow> chroma_fits w h"
    using stream_planes_lengths [OF assms(1)] chroma_area [of h w] by (simp add: planes_fit_def mult.commute)
  then show ?thesis using chroma_fits_even [of w h] by (simp add: chroma_fits_def)
qed

text \<open>C27: Reading a frame into the buffers that the player makes for the stream stays inside them exactly when the
  height is even and the number \<open>(h div 2) * (w div 2)\<close> of chroma values is even, or the width is odd and the
  height at least 4; for even widths that is when the height is even and the area a multiple of eight.\<close>

theorem player_buffers_fit:
  assumes "is_decoded s = f # fs" and "is_dec_ctx s = Some d" and "picture_size D d = (int w, int h)" and "frame_fits (int w, int h) f"
    and "0 < w"
  shows "(ReadFrameYUV420 D (stream_buffers w h) s \<noteq> None \<longleftrightarrow>
      even h \<and> (even (h div 2 * (w div 2)) \<or> odd w \<and> 4 \<le> h)) \<and>
    (even w \<longrightarrow> (ReadFrameYUV420 D (stream_buffers w h) s \<noteq> None \<longleftrightarrow> even h \<and> 8 dvd w * h))"
proof -
  have "ReadFrameYUV420 D (stream_buffers w h) s \<noteq> None \<longleftrightarrow> buffers_fit (int w, int h) (stream_buffers w h)"
    using assms(1-3) copy_frame_value [OF assms(4)] by (auto simp: ReadFrameYUV420_def)
  also have "\<dots> \<longleftrightarrow> h * w \<le> w * (h div 2) * 2 \<and> h div 2 * (w div 2) \<le> 2 * (w * (h div 2) div 4)"
    by (auto simp: buffers_fit_def stream_buffers_def Let_def half_int)
  also have "\<dots> \<longleftrightarrow> even h \<and> chroma_fits w (h div 2)"
  proof -
    have "h * w \<le> w * (h div 2) * 2 \<longleftrightarrow> w * h \<le> w * (h div 2 * 2)" by (simp add: ac_simps)
    also have "\<dots> \<longleftrightarrow> h \<le> h div 2 * 2" using assms(5) by simp
    also have "\<dots> \<longleftrightarrow> even h" by presburger
    finally show ?thesis using chroma_area [of "h div 2" w] by simp
  qed
  finally have R: "ReadFrameYUV420 D (stream_buffers w h) s \<noteq> None \<longleftrightarrow> even h \<and> chroma_fits w (h div 2)" .
  have "4 dvd w * (h div 2) \<longleftrightarrow> 8 dvd w * h" if "even h"
  proof -
    obtain a where "h = 2 * a" using \<open>even h\<close> by blast
    then show ?thesis using nat_mult_dvd_cancel_disj [of 2 4 "w * a"] by (simp add: ac_simps)
  qed
  moreover have "2 \<le> h div 2 \<longleftrightarrow> 4 \<le> h" by presburger
  ultimately show ?thesis unfolding R using chroma_fits_even [of w "h div 2"] by (auto simp: chroma_fits_def)
qed

subsection \<open>From decoder to player\<close>

lemma same_size_fits:
  assumes d: "same_size d w h" and s: "stream_planes d = Some pl"
  shows "planes_fit w (2 * h) pl \<and> over (cropped w (2 * h) pl) (stream_buffers w (2 * h)) = pl"
proof -
  have w: "w < 2 ^ 15" "h < 2 ^ 15" "even w" "even h" "w = unat (depthWidth (props d))" "h = unat (depthHeight (props d))"
    using d by (auto simp: same_size_def)
  have area: "unat (depthWidth (props d) * depthHeight (props d)) = w * h"
    using area_bound [OF w(1,2)] by (simp add: w(5,6) unat_word_ariths)
  have "w * h div 4 * 2 = h * (w div 2)" using half_areas [OF w(3,4)] w(4) by auto
  then have l: "length (ydata pl) = 2 * h * w" "length (udata pl) = h * (w div 2)" "length (vdata pl) = h * (w div 2)" "w * h div 4 * 2 = h * (w div 2)"
    using stream_planes_lengths [OF s] by (simp_all add: area)
  then show ?thesis by (simp add: planes_fit_def over_def cropped_def stream_buffers_def Let_def)
qed

lemma buffers_same_size:
  assumes "even w" and "even h"
  shows "buffers_fit (int w, int (2 * h)) (stream_buffers w (2 * h))"
proof -
  have "w * h div 4 * 2 = h * (w div 2)" using half_areas [OF assms] assms(2) by auto
  moreover have "nat (int (2 * h)) = 2 * h" "int (2 * h) sdiv 2 = int h" using half_int [of "2 * h"] by simp_all
  ultimately show ?thesis by (simp add: buffers_fit_def stream_buffers_def Let_def half_int del: of_nat_mult)
qed
















subsection \<open>A codec that meets the laws\<close>

text \<open>The encoder holds back the last frame until it is flushed; packets are the frames themselves. The decoder
  shows them at once.\<close>

definition test_encoder :: "(av_frame list \<times> av_frame list \<times> bool, av_frame) av_encoder" where
  "test_encoder = \<lparr>send_frame = (\<lambda>(gs, hs, fl) x. case x of None \<Rightarrow> (True, gs, hs, True) | Some f \<Rightarrow> (True, gs, hs @ [f], fl)),
     receive_packet = (\<lambda>(gs, hs, fl). case hs of [] \<Rightarrow> (None, gs, hs, fl)
       | f # fs \<Rightarrow> if fl \<or> fs \<noteq> [] then (Some f, gs @ [f], fs, fl) else (None, gs, hs, fl))\<rparr>"

definition test_encoder_view :: "(av_frame list \<times> av_frame list \<times> bool, av_frame) encoder_view" where
  "test_encoder_view = \<lparr>ev_frames = (\<lambda>(gs, hs, fl). gs @ hs), ev_given = (\<lambda>(gs, hs, fl). length gs), ev_flushed = (\<lambda>(gs, hs, fl). fl),
     ev_code = last\<rparr>"

definition test_decoder :: "int \<times> int \<Rightarrow> (av_frame list \<times> nat, av_frame) av_decoder" where
  "test_decoder sz = \<lparr>send_packet = (\<lambda>(ps, n) p. (True, ps @ [p], n)),
     receive_frame = (\<lambda>(ps, n). if n < length ps then (Got (ps ! n), ps, Suc n) else (Again, ps, n)), picture_size = (\<lambda>d. sz)\<rparr>"

definition test_decoder_view :: "int \<times> int \<Rightarrow> (av_frame list \<times> nat, av_frame) decoder_view" where
  "test_decoder_view sz = \<lparr>dv_packets = fst, dv_shown = snd, dv_pic = last, dv_size = sz, dv_prompt = True\<rparr>"

lemma last_take_nth: "n < length fs \<Longrightarrow> last (take (Suc n) fs) = fs ! n"
  by (simp add: take_Suc_conv_app_nth)

lemma test_encoder_laws: "encoder_laws test_encoder test_encoder_view"
  by (auto simp: encoder_laws_def test_encoder_def test_encoder_view_def split: if_splits list.splits)

lemma test_decoder_laws: "decoder_laws (test_decoder sz) (test_decoder_view sz)"
  by (auto simp: decoder_laws_def test_decoder_def test_decoder_view_def last_take_nth split: if_splits)

lemma last_coded: "last (coded last (fs @ [f])) = f"
  by (simp add: coded_def)

lemma test_codec: "codec test_encoder test_encoder_view (test_decoder (int w, int h)) (test_decoder_view (int w, int h)) id w h"
  using test_encoder_laws test_decoder_laws
  by (auto simp: codec_def codec_pair_def last_coded test_decoder_view_def test_encoder_view_def test_encoder_def)

definition test_start :: "(av_frame list \<times> av_frame list \<times> bool) start_calls" where
  "test_start = \<lparr>sc_output = True, sc_encoder = True, sc_stream = True, sc_context = Some ([], [], False), sc_open = (\<lambda>c. (True, c)),
     sc_nofile = False, sc_io = True, sc_time_base = (1, 90000)\<rparr>"

definition test_writer :: "nat \<Rightarrow> nat \<Rightarrow> (av_frame list \<times> av_frame list \<times> bool, av_frame) out_streamer" where
  "test_writer w h = the (OutputStreamer_new test_start ''udp'' (word_of_nat w) (word_of_nat h) True)"

definition test_open :: "av_frame list \<Rightarrow> (av_frame list \<times> nat, av_frame) open_calls" where
  "test_open ps = \<lparr>oc_input = Some (map (\<lambda>p. (0, p)) ps), oc_info = True, oc_best = 0, oc_context = Some ([], 0), oc_open = id\<rparr>"

lemma test_writer_new: "OutputStreamer_new test_start ''udp'' (word_of_nat w) (word_of_nat h) True = Some (test_writer w h)"
  by (simp add: test_writer_def OutputStreamer_new_def StartWrite_def test_start_def)

lemma test_writer_context: "os_cctx (test_writer w h) = Some (sint (word_of_nat w :: u32), sint (word_of_nat h :: u32), [], [], False)"
  by (simp add: test_writer_def OutputStreamer_new_def StartWrite_def test_start_def)

lemma test_writer_opened: "w < 2 ^ 31 \<Longrightarrow> h < 2 ^ 31 \<Longrightarrow> opened_writer test_encoder_view test_start w h (test_writer w h)"
  using test_writer_new [of w h] test_writer_context [of w h] by (auto simp: opened_writer_def test_encoder_view_def)

lemma video_all [simp]: "video i (map (\<lambda>p. (i, p)) ps) = ps"
  by (induction ps) simp_all

lemma test_reader_opened: "opened_reader (test_decoder_view sz) ps (InputStreamer_new (test_open ps) ''udp'')"
  unfolding opened_reader_def
  by (intro exI [of _ "test_open ps"] exI [of _ "''udp''"]) (simp add: test_open_def test_decoder_view_def)

text \<open>Two frames written, one handed on.\<close>

lemma test_write:
  "\<exists>s' f. write_all test_encoder [pl, pl'] (test_writer w h) = Some s' \<and> os_packets s' = [f]"
  by (simp add: write_all_def test_writer_def OutputStreamer_new_def StartWrite_def test_start_def WriteFrameYUV420_def test_encoder_def
      frame_pts_def int32_def fps_def sdiv_nonneg)

subsection \<open>The properties on a stream\<close>

definition no_planes :: yuv_planes where
  "no_planes = \<lparr>ydata = [], udata = [], vdata = []\<rparr>"

lemma test_context_new: "ev_frames test_encoder_view ([], [], False) = []" "ev_given test_encoder_view ([], [], False) = 0"
  by (simp_all add: test_encoder_view_def)

lemma stream_written_witness:
  "\<exists>s' s'' f. write_all test_encoder [no_planes, no_planes] (test_writer 16 4) = Some s' \<and> os_packets s' = [f] \<and>
     FinishWrite test_encoder s' = Some s'' \<and> os_packets s'' = coded last (numbered (1, 90000) 16 4 0 [no_planes, no_planes])"
proof -
  obtain s' f where w: "write_all test_encoder [no_planes, no_planes] (test_writer 16 4) = Some s'" "os_packets s' = [f]"
    using test_write by blast
  have "\<forall>c f. fst (send_frame test_encoder c (Some f))" by (auto simp: test_encoder_def)
  then obtain s'' where "FinishWrite test_encoder s' = Some s''"
    "os_packets s'' = coded (ev_code test_encoder_view) (numbered (sc_time_base test_start) (sint (word_of_nat 16 :: u32)) (sint (word_of_nat 4 :: u32)) 0 [no_planes, no_planes])"
    using stream_written [OF test_encoder_laws test_writer_new test_writer_context test_context_new w(1)] by blast
  then show ?thesis using w by (simp add: test_encoder_view_def test_start_def)
qed

lemma write_overflow_witness:
  "write_all test_encoder (replicate 23861 no_planes) (test_writer 16 4) \<noteq> None \<and>
   write_all test_encoder (replicate 23862 no_planes) (test_writer 16 4) = None"
proof -
  have w: "write_all test_encoder (replicate n no_planes) (test_writer 16 4) \<noteq> None \<longleftrightarrow>
      replicate n (no_planes) = [] \<or> int (n - 1) * 90000 < 2 ^ 31" for n
    using write_overflow [OF test_writer_new [of 16 4], of 90000 test_encoder "replicate n no_planes"]
    by (simp add: test_writer_context test_start_def)
  have "write_all test_encoder (replicate 23861 no_planes) (test_writer 16 4) \<noteq> None" unfolding w by simp
  moreover have "\<not> write_all test_encoder (replicate 23862 no_planes) (test_writer 16 4) \<noteq> None" unfolding w by simp
  ultimately show ?thesis by simp
qed

lemma recorded_planes_fit_witness:
  "\<exists>pl. stream_planes (test_frame 16 2) = Some pl \<and> planes_fit 16 (2 * 2) pl"
proof -
  obtain pl where "stream_planes (test_frame 16 2) = Some pl" using test_frame_survives by blast
  then show ?thesis using recorded_planes_fit [of "test_frame 16 2" pl 16 2] by (simp add: test_frame_def)
qed

definition small_picture :: av_frame where
  "small_picture = \<lparr>f_width = 2, f_height = 2, f_pts = 0, f_y = (replicate 4 0, 2), f_u = ([0], 1), f_v = ([0], 1)\<rparr>"

lemma player_buffers_fit_witness:
  "ReadFrameYUV420 (test_decoder (2, 2)) (stream_buffers 2 2)
     ((InputStreamer_new (test_open []) ''udp'')\<lparr>is_decoded := [small_picture]\<rparr>) = None"
proof -
  have f: "frame_fits (int 2, int 2) small_picture"
    by (simp add: frame_fits_def plane_fits_def small_picture_def signed_divide_int_def numeral_2_eq_2 All_less_Suc)
  have "even (2 :: nat) \<longrightarrow> (ReadFrameYUV420 (test_decoder (2, 2)) (stream_buffers 2 2)
     ((InputStreamer_new (test_open []) ''udp'')\<lparr>is_decoded := [small_picture]\<rparr>) \<noteq> None \<longleftrightarrow> even (2 :: nat) \<and> 8 dvd 2 * (2 :: nat))"
    by (rule player_buffers_fit [OF _ _ _ f, THEN conjunct2]) (simp_all add: InputStreamer_new_def Open_def test_open_def test_decoder_def)
  moreover have "even (2 :: nat)" "\<not> 8 dvd 2 * (2 :: nat)" by simp_all
  ultimately show ?thesis by blast
qed

text \<open>The planes of a frame go through this codec unchanged.\<close>

lemma test_stream_carries:
  assumes pl: "stream_planes (test_frame 16 2) = Some pl"
  shows "\<exists>s' r'. write_all test_encoder [pl, pl] (test_writer 16 4) = Some s' \<and>
     read_n (test_decoder (16, 4)) (stream_buffers 16 4) 2 (InputStreamer_new (test_open (os_packets s')) ''udp'') = Some ([Some pl, None], r')"
proof -
  obtain s' f where w: "write_all test_encoder [pl, pl] (test_writer 16 4) = Some s'" "os_packets s' = [f]" using test_write by blast
  have c: "codec test_encoder test_encoder_view (test_decoder (16, 4)) (test_decoder_view (16, 4)) id 16 4"
    using test_codec [of 16 4] by simp
  have o: "opened_writer test_encoder_view test_start 16 4 (test_writer 16 4)" using test_writer_opened [of 16 4] by simp
  have fit: "\<forall>q \<in> set [pl, pl]. planes_fit 16 4 q" "over (cropped 16 4 pl) (stream_buffers 16 4) = pl"
    using same_size_fits [OF test_frame_size(1) pl] by simp_all
  have b: "buffers_fit (int 16, int 4) (stream_buffers 16 4)" using buffers_same_size [of 16 2] by simp
  have pr: "dv_prompt (test_decoder_view (16, 4))" by (simp add: test_decoder_view_def)
  obtain m r' where "read_n (test_decoder (16, 4)) (stream_buffers 16 4) 2 (InputStreamer_new (test_open (os_packets s')) ''udp'') =
      Some (map (\<lambda>q. Some (over (id (cropped 16 4 q)) (stream_buffers 16 4))) (take m [pl, pl]) @ replicate (2 - m) None, r')"
    "dv_prompt (test_decoder_view (16, 4)) \<longrightarrow> m = min 2 (length (os_packets s'))"
    using stream_carries [OF c o w(1) fit(1) test_reader_opened b, of 2] by blast
  then show ?thesis using fit(2) pr w by simp
qed




end
