(* ===== verification/FloatOrder.thy ===== *)
theory FloatOrder
  imports PtOps
begin

text \<open>
  Rounded arithmetic keeps order: sums, squares of differences and square roots of non-negative
  floats. Searching with rounded distances rests on these facts.
\<close>

subsection \<open>Rounding gives representable values\<close>

lemma rne_rnd_bound:
  assumes "0 < q" and p: "0 < fprec F"
  shows "0 \<le> rne (q / 2 powi fquantum F q)" and "rne (q / 2 powi fquantum F q) \<le> 2 ^ fprec F"
proof -
  let ?e = "fquantum F q"
  have e: "ilog2 q + 1 \<le> ?e + int (fprec F)" by (simp add: fquantum_def)
  have pe: "0 < (2::rat) powi ?e" by simp
  have "q < 2 powi (ilog2 q + 1)" using ilog2_bounds(2) [OF assms(1)] .
  also have "\<dots> \<le> 2 powi (?e + int (fprec F))" using e by (intro power_int_increasing) simp_all
  also have "\<dots> = of_int (2 ^ fprec F) * 2 powi ?e" by (simp add: power_int_add)
  finally have "q / 2 powi ?e \<le> of_int (2 ^ fprec F)" using pe by (simp add: divide_le_eq)
  then show "rne (q / 2 powi ?e) \<le> 2 ^ fprec F" by (rule rne_le_int)
  have "of_int 0 \<le> q / 2 powi ?e" using assms(1) pe by simp
  then show "0 \<le> rne (q / 2 powi ?e)" by (rule rne_ge_int)
qed

lemma representable_rnd:
  assumes "0 \<le> q" and p: "0 < fprec F"
  shows "representable F (rnd F q)"
proof (cases "q = 0")
  case True
  have "(0 :: rat) = of_int 0 * 2 powi fqmin F" by simp
  then show ?thesis using True by (simp add: rnd_def representable_def) (metis order_refl)
next
  case False
  let ?e = "fquantum F q" and ?n = "rne (q / 2 powi fquantum F q)"
  have q: "0 < q" using assms(1) False by simp
  have r: "rnd F q = of_int ?n * 2 powi ?e" using False by (simp add: rnd_def Let_def)
  have b: "0 \<le> ?n" "?n \<le> 2 ^ fprec F" using rne_rnd_bound [OF q p] by blast+
  have e: "fqmin F \<le> ?e" by (simp add: fquantum_def)
  show ?thesis
  proof (cases "?n = 2 ^ fprec F")
    case True
    obtain k where k: "fprec F = Suc k" using p by (cases "fprec F") auto
    have "rnd F q = of_int (2 ^ k) * 2 powi (?e + 1)" unfolding r True k by (simp add: power_int_add)
    moreover have "\<bar>2 ^ k :: int\<bar> < 2 ^ fprec F" by (simp add: k)
    ultimately show ?thesis using e unfolding representable_def by (metis add_increasing2 zero_le_one)
  next
    case False
    then have "\<bar>?n\<bar> < 2 ^ fprec F" using b by simp
    then show ?thesis using e r unfolding representable_def by blast
  qed
qed

subsection \<open>Square roots keep order\<close>

definition rsqi :: "rat \<Rightarrow> nat" where
  "rsqi x = (let n = isqrt (nat \<lfloor>x\<rfloor>); h = (of_nat n + 1/2) * (of_nat n + 1/2)
     in if x < h then n else if h < x then n + 1 else if even n then n else n + 1)"

lemma rsqrt_rsqi: "rsqrt F q = (let e = max (fqmin F) (ilog2 q div 2 - int (fprec F) + 1) in of_nat (rsqi (q / 2 powi (2 * e))) * 2 powi e)"
  by (simp add: rsqrt_def rsqi_def Let_def)

lemma isqrt_unique: "r * r \<le> n \<Longrightarrow> n < Suc r * Suc r \<Longrightarrow> isqrt n = r"
proof -
  assume a: "r * r \<le> n" "n < Suc r * Suc r"
  have b: "isqrt n * isqrt n \<le> n" "n < Suc (isqrt n) * Suc (isqrt n)" using isqrt_bounds [of n] by auto
  have "r < Suc (isqrt n)"
    using a(1) b(2) by (metis le_less_trans mult_le_mono not_less order_le_less_trans)
  moreover have "isqrt n < Suc r"
    using a(2) b(1) by (metis le_less_trans mult_le_mono not_less order_le_less_trans)
  ultimately show ?thesis by simp
qed

lemma isqrt_mono: "m \<le> n \<Longrightarrow> isqrt m \<le> isqrt n"
proof -
  assume "m \<le> n"
  then have "isqrt m * isqrt m < Suc (isqrt n) * Suc (isqrt n)"
    using isqrt_bounds [of m] isqrt_bounds [of n] by linarith
  then show ?thesis by (metis mult_le_mono not_less less_Suc_eq_le)
qed

lemma rsqi_mono: "x \<le> y \<Longrightarrow> rsqi x \<le> rsqi y"
proof -
  assume le: "x \<le> y"
  then have n: "isqrt (nat \<lfloor>x\<rfloor>) \<le> isqrt (nat \<lfloor>y\<rfloor>)" by (intro isqrt_mono nat_mono floor_mono)
  show ?thesis
  proof (cases "isqrt (nat \<lfloor>x\<rfloor>) = isqrt (nat \<lfloor>y\<rfloor>)")
    case True
    then show ?thesis using le by (auto simp: rsqi_def Let_def)
  next
    case False
    then have "isqrt (nat \<lfloor>x\<rfloor>) + 1 \<le> isqrt (nat \<lfloor>y\<rfloor>)" using n by simp
    moreover have "rsqi x \<le> isqrt (nat \<lfloor>x\<rfloor>) + 1" "isqrt (nat \<lfloor>y\<rfloor>) \<le> rsqi y" by (simp_all add: rsqi_def Let_def)
    ultimately show ?thesis by linarith
  qed
qed

lemma rsqi_square: "rsqi (of_nat n * of_nat n) = n"
proof -
  have "nat \<lfloor>of_nat n * of_nat n :: rat\<rfloor> = n * n" by (metis floor_of_nat of_nat_mult nat_int)
  then have i: "isqrt (nat \<lfloor>of_nat n * of_nat n :: rat\<rfloor>) = n" by (simp add: isqrt_unique)
  have "(of_nat n * of_nat n :: rat) < (of_nat n + 1/2) * (of_nat n + 1/2)" by (simp add: field_simps)
  then show ?thesis by (simp add: rsqi_def i Let_def)
qed

lemma rsqrt_mono:
  assumes "0 < x" and "x \<le> y" and p: "0 < fprec F"
  shows "rsqrt F x \<le> rsqrt F y"
proof -
  define ex ey where "ex = max (fqmin F) (ilog2 x div 2 - int (fprec F) + 1)" and "ey = max (fqmin F) (ilog2 y div 2 - int (fprec F) + 1)"
  have rx: "rsqrt F x = of_nat (rsqi (x / 2 powi (2 * ex))) * 2 powi ex" and ry: "rsqrt F y = of_nat (rsqi (y / 2 powi (2 * ey))) * 2 powi ey"
    by (simp_all add: rsqrt_rsqi ex_def ey_def Let_def)
  have y0: "0 < y" using assms by simp
  have lg: "ilog2 x div 2 \<le> ilog2 y div 2" using ilog2_mono [OF assms(1,2)] by (intro zdiv_mono1) simp_all
  then have le: "ex \<le> ey" by (simp add: ex_def ey_def)
  have px: "0 < (2::rat) powi (2 * ex)" "0 < (2::rat) powi ex" and py: "0 < (2::rat) powi (2 * ey)" "0 < (2::rat) powi ey" by simp_all
  show ?thesis
  proof (cases "ex = ey")
    case True
    have "rsqi (x / 2 powi (2 * ex)) \<le> rsqi (y / 2 powi (2 * ex))"
      using assms(2) px by (intro rsqi_mono divide_right_mono) simp_all
    then show ?thesis unfolding rx ry True [symmetric] using px by (intro mult_right_mono) simp_all
  next
    case False
    define k where "k = ey + int (fprec F) - 1"
    have iy: "ilog2 y div 2 = k" and ix: "ilog2 x div 2 < k"
      using le False p by (auto simp: k_def ex_def ey_def max_def split: if_splits)
    define a b where "a = nat (k - ex)" and "b = nat (k - ey)"
    have ka: "k = int a + ex" "k = int b + ey" using le p by (auto simp: a_def b_def k_def)
    have sq: "(2::rat) powi (2 * k) = of_nat (2 ^ c) * of_nat (2 ^ c) * 2 powi (2 * e)" if "k = int c + e" for c e
    proof -
      have "(2::rat) powi k = of_nat (2 ^ c) * 2 powi e" using that by (simp add: power_int_add)
      moreover have "(2::rat) powi (2 * j) = 2 powi j * 2 powi j" for j :: int
        unfolding mult_2 by (rule power_int_add) simp
      ultimately show ?thesis by (simp only: ac_simps)
    qed
    have "ilog2 x + 1 \<le> 2 * k" using ix by linarith
    then have "x \<le> 2 powi (2 * k)" using ilog2_bounds(2) [OF assms(1)]
      by (metis less_le_not_le order.strict_trans2 power_int_increasing one_le_numeral less_imp_le)
    then have "x / 2 powi (2 * ex) \<le> of_nat (2 ^ a) * of_nat (2 ^ a)" using px sq [OF ka(1)] by (simp add: divide_le_eq)
    then have 1: "rsqi (x / 2 powi (2 * ex)) \<le> 2 ^ a" using rsqi_mono rsqi_square by metis
    have "2 * k \<le> ilog2 y" using iy by linarith
    then have "2 powi (2 * k) \<le> y" using ilog2_bounds(1) [OF y0]
      by (metis order.trans power_int_increasing one_le_numeral)
    then have "of_nat (2 ^ b) * of_nat (2 ^ b) \<le> y / 2 powi (2 * ey)" using py sq [OF ka(2)] by (simp add: le_divide_eq)
    then have 2: "2 ^ b \<le> rsqi (y / 2 powi (2 * ey))" using rsqi_mono rsqi_square by metis
    have "rsqrt F x \<le> of_nat (2 ^ a) * 2 powi ex" unfolding rx by (rule mult_right_mono [OF of_nat_mono [OF 1] less_imp_le [OF px(2)]])
    also have "\<dots> = 2 powi k" unfolding ka(1) by (simp add: power_int_add)
    also have "\<dots> = of_nat (2 ^ b) * 2 powi ey" unfolding ka(2) by (simp add: power_int_add)
    also have "\<dots> \<le> rsqrt F y" unfolding ry by (rule mult_right_mono [OF of_nat_mono [OF 2] less_imp_le [OF py(2)]])
    finally show ?thesis .
  qed
qed


lemma rsqrt_nonneg: "0 \<le> rsqrt F q"
  by (simp add: rsqrt_rsqi Let_def)

subsection \<open>The order of the values that are not NaN\<close>

declare fle_self [simp]
declare fle_trans [trans]

lemma fle_not_nan: "fle x y \<Longrightarrow> x \<noteq> NaN \<and> y \<noteq> NaN"
  by auto

lemma fle_linear: "x \<noteq> NaN \<Longrightarrow> y \<noteq> NaN \<Longrightarrow> fle x y \<or> fle y x"
  by (cases x; cases y) (auto simp: fle_def)

text \<open>The values of a format from \<open>+0\<close> up.\<close>

fun fnn :: "fmt \<Rightarrow> fp \<Rightarrow> bool" where
  "fnn F NaN = False"
| "fnn F (Inf s) = (\<not> s)"
| "fnn F (Fin s a) = (\<not> s \<and> 0 \<le> a \<and> a \<le> ffmax F \<and> representable F a)"

abbreviation fmt_ok :: "fmt \<Rightarrow> bool" where
  "fmt_ok F \<equiv> 0 < fprec F \<and> 0 \<le> ffmax F"

lemma fnn_not_nan [simp]: "fnn F x \<Longrightarrow> x \<noteq> NaN"
  by auto

lemma representable_zero [simp]: "representable F 0"
  unfolding representable_def by (rule exI [of _ 0]) auto

lemma fnn_fzero [simp]: "fmt_ok F \<Longrightarrow> fnn F fzero"
  by (simp add: fzero_def)

lemma fnn_fround: "fmt_ok F \<Longrightarrow> 0 \<le> q \<Longrightarrow> fnn F (fround F False q)"
  by (simp add: fround_def Let_def rnd_nonneg representable_rnd)

lemma fround_mono: "fmt_ok F \<Longrightarrow> 0 \<le> p \<Longrightarrow> p \<le> q \<Longrightarrow> fle (fround F False p) (fround F False q)"
  using rnd_mono [of p q F] by (auto simp: fround_def Let_def fle_def sval_def)

lemma fround_ge:
  assumes "fmt_ok F" and "fnn F (Fin False a)" and "a \<le> q"
  shows "fle (Fin False a) (fround F False q)"
  using fround_mono [of F a q] fround_exact [of F a False] assms by simp

lemma fadd_fnn:
  assumes ok: "fmt_ok F" and "fnn F x" and "fnn F y"
  shows "fnn F (fadd F x y)" and "fle x (fadd F x y)" and "fle y (fadd F x y)"
proof -
  have "fnn F (fadd F x y) \<and> fle x (fadd F x y) \<and> fle y (fadd F x y)"
  proof (cases x)
    case x: (Fin s a)
    show ?thesis
    proof (cases y)
      case y: (Fin t b)
      have ab: "0 \<le> a" "0 \<le> b" "\<not> s" "\<not> t" using assms x y by auto
      then have "fadd F x y = (if a + b = 0 then Fin False 0 else fround F False (a + b))"
        by (simp add: x y sval_def)
      then show ?thesis
        using assms x y ab fnn_fround [OF ok, of "a + b"] fround_ge [OF ok, of a "a + b"] fround_ge [OF ok, of b "a + b"]
        by (auto simp: fle_def sval_def split: if_splits)
    qed (use assms x in \<open>auto simp: fle_def\<close>)
  next
    case (Inf s)
    then show ?thesis using assms by (cases y) (auto simp: fle_def)
  qed (use assms in auto)
  then show "fnn F (fadd F x y)" and "fle x (fadd F x y)" and "fle y (fadd F x y)" by auto
qed

lemma fsqrt_mono:
  assumes "fmt_ok F" and "fnn F x" and "fnn F y" and "fle x y"
  shows "fle (fsqrt F x) (fsqrt F y)"
proof (cases x)
  case x: (Fin s a)
  show ?thesis
  proof (cases y)
    case (Fin t b)
    then show ?thesis using assms x rsqrt_mono [of a b F] rsqrt_nonneg [of F b]
      by (auto simp: fle_def sval_def)
  qed (use assms x in \<open>auto simp: fle_def\<close>)
next
  case (Inf s)
  then show ?thesis using assms by (cases y) (auto simp: fle_def)
qed (use assms in auto)

lemma fsqrt_not_nan: "fnn F x \<Longrightarrow> fsqrt F x \<noteq> NaN"
  by (cases x) auto

subsection \<open>Squared differences\<close>

text \<open>A difference of finite values is a sign and a rounded magnitude.\<close>

lemma fsub_fin:
  "isfin x \<Longrightarrow> isfin y \<Longrightarrow> 0 \<le> ffmax F \<Longrightarrow>
   \<exists>s. fsub F x y = fround F s \<bar>(case x of Fin s a \<Rightarrow> sval s a) - (case y of Fin s a \<Rightarrow> sval s a)\<bar>"
  by (cases x; cases y) (auto simp: fsub_def sval_def Let_def intro: exI [of _ True] exI [of _ False])

lemma square_fround:
  assumes "fmt_ok F" and "0 \<le> q"
  shows "fmul F (fround F s q) (fround F s q) = fmul F (fround F False q) (fround F False q)"
  by (simp add: fround_def Let_def)

lemma square_mono:
  assumes "fmt_ok F" and "fnn F x" and "fnn F y" and "fle x y"
  shows "fle (fmul F x x) (fmul F y y)"
proof (cases x)
  case x: (Fin s a)
  show ?thesis
  proof (cases y)
    case (Fin t b)
    then have "\<not> s" "\<not> t" "0 \<le> a" "a \<le> b" using assms x by (auto simp: fle_def sval_def)
    then show ?thesis using fround_mono [OF assms(1), of "a * a" "b * b"]
      by (simp add: x Fin mult_mono)
  next
    case (Inf t)
    then show ?thesis using assms x fround_def
      by (cases "fround F False (a * a)") (auto simp: fle_def Let_def fround_def split: if_splits)
  qed (use assms in auto)
next
  case (Inf s)
  then show ?thesis using assms by (cases y) (auto simp: fle_def)
qed (use assms in auto)

lemma square_fnn: "fmt_ok F \<Longrightarrow> fnn F x \<Longrightarrow> fnn F (fmul F x x)"
  by (cases x) (auto intro: fnn_fround)

end
