(* ===== verification/KdTree.thy ===== *)
theory KdTree
  imports FloatOrder
begin

text \<open>
  The k-d tree of \<^verbatim>\<open>kdtree++/kdtree.hpp\<close>, with its default accessor
  (\<open>operator[]\<close>, the parameter \<open>acc\<close>), comparison (\<open>std::less\<close> on \<open>float\<close>) and
  distance. A node is a tree cell and a node pointer the path that leads to it from the root, its
  last step first, so that the parent of a node is the tail of its path; the header node, which
  is the root's parent and the end of the iteration, is a pointer of its own.
  \<open>std::nth_element\<close> is a parameter of which only the standard's contract is used.
\<close>

subsection \<open>Nodes and pointers\<close>

datatype 'v kdnode = is_KNil: KNil | KNode "'v kdnode" 'v "'v kdnode"

type_synonym kdpath = "bool list"

datatype kdptr = Null | Header | At kdpath

record 'v kdtree =
  kd_root :: "'v kdnode"
  kd_leftmost :: kdptr
  kd_rightmost :: kdptr
  kd_count :: nat

definition kd_empty :: "'v kdtree" where
  "kd_empty = \<lparr>kd_root = KNil, kd_leftmost = Header, kd_rightmost = Header, kd_count = 0\<rparr>"

definition kd_leaf :: "'v \<Rightarrow> 'v kdnode" where
  "kd_leaf v = KNode KNil v KNil"

fun node_at :: "'v kdnode \<Rightarrow> kdpath \<Rightarrow> 'v kdnode" where
  "node_at t [] = t"
| "node_at t (d # p) = (case node_at t p of KNil \<Rightarrow> KNil | KNode l v r \<Rightarrow> if d then r else l)"

definition kd_child :: "'v kdnode \<Rightarrow> bool \<Rightarrow> kdpath \<Rightarrow> kdptr" where
  "kd_child t d p = (if is_KNil (node_at t (d # p)) then Null else At (d # p))"

fun kd_parent :: "kdptr \<Rightarrow> kdptr" where
  "kd_parent (At []) = Header"
| "kd_parent (At (d # p)) = At p"
| "kd_parent _ = Null"

definition node_less :: "nat \<Rightarrow> ('v \<Rightarrow> nat \<Rightarrow> fp) \<Rightarrow> nat \<Rightarrow> 'v \<Rightarrow> 'v \<Rightarrow> bool" where
  "node_less k acc L a b = flt (acc a (L mod k)) (acc b (L mod k))"

subsection \<open>Insertion\<close>

text \<open>
  \<open>_M_insert\<close> at the node with path \<open>p\<close> on level \<open>L\<close>; \<open>rm\<close> is the rightmost
  pointer. The result is the changed subtree and the path of the new node.
\<close>

fun M_insert :: "nat \<Rightarrow> ('v \<Rightarrow> nat \<Rightarrow> fp) \<Rightarrow> kdptr \<Rightarrow> 'v \<Rightarrow> nat \<Rightarrow> kdpath \<Rightarrow> 'v kdnode \<Rightarrow> 'v kdnode \<times> kdpath" where
  "M_insert k acc rm v L p KNil = (KNil, p)"
| "M_insert k acc rm v L p (KNode l u r) =
     (if node_less k acc L v u
      then if is_KNil l then (KNode (kd_leaf v) u r, False # p)
        else case M_insert k acc rm v (Suc L) (False # p) l of (l', q) \<Rightarrow> (KNode l' u r, q)
      else if is_KNil r \<or> At p = rm then (KNode l u (kd_leaf v), True # p)
        else case M_insert k acc rm v (Suc L) (True # p) r of (r', q) \<Rightarrow> (KNode l u r', q))"

definition kd_insert :: "nat \<Rightarrow> ('v \<Rightarrow> nat \<Rightarrow> fp) \<Rightarrow> 'v \<Rightarrow> 'v kdtree \<Rightarrow> 'v kdtree \<times> kdptr" where
  "kd_insert k acc v t =
     (if is_KNil (kd_root t)
      then (\<lparr>kd_root = kd_leaf v, kd_leftmost = At [], kd_rightmost = At [], kd_count = kd_count t + 1\<rparr>, At [])
      else case M_insert k acc (kd_rightmost t) v 0 [] (kd_root t) of (n, q) \<Rightarrow>
        (\<lparr>kd_root = n,
          kd_leftmost = (if \<not> hd q \<and> At (tl q) = kd_leftmost t then At q else kd_leftmost t),
          kd_rightmost = (if hd q \<and> At (tl q) = kd_rightmost t then At q else kd_rightmost t),
          kd_count = kd_count t + 1\<rparr>, At q))"

definition kd_insert_range :: "nat \<Rightarrow> ('v \<Rightarrow> nat \<Rightarrow> fp) \<Rightarrow> 'v list \<Rightarrow> 'v kdtree \<Rightarrow> 'v kdtree" where
  "kd_insert_range k acc vs t = fold (\<lambda>v t. fst (kd_insert k acc v t)) vs t"

subsection \<open>Iteration\<close>

text \<open>\<open>while (_M_node->_M_left) _M_node = _M_node->_M_left\<close> from the node \<open>n\<close> at \<open>p\<close>.\<close>

fun kd_minimum :: "'v kdnode \<Rightarrow> kdpath \<Rightarrow> kdpath" where
  "kd_minimum (KNode l v r) p = (if is_KNil l then p else kd_minimum l (False # p))"
| "kd_minimum KNil p = p"

text \<open>
  The climb of \<open>_M_increment\<close>: on while the node is its parent's right child. At the root the
  parent is the header, and the iteration ends there: when the root is also the header's right
  link the loop takes one step more, finds no parent and stays at the header.
\<close>

fun kd_climb :: "kdpath \<Rightarrow> kdptr" where
  "kd_climb [] = Header"
| "kd_climb (True # p) = kd_climb p"
| "kd_climb (False # p) = At p"

definition kd_increment :: "'v kdnode \<Rightarrow> kdpath \<Rightarrow> kdptr" where
  "kd_increment t p =
     (if \<not> is_KNil (node_at t (True # p)) then At (kd_minimum (node_at t (True # p)) (True # p))
      else kd_climb p)"

text \<open>\<open>std::vector v(begin(), end())\<close>.\<close>

partial_function (option) kd_collect :: "'v kdnode \<Rightarrow> kdptr \<Rightarrow> 'v list \<Rightarrow> 'v list option" where
  "kd_collect t it vs =
     (case it of Header \<Rightarrow> Some vs
      | Null \<Rightarrow> None
      | At p \<Rightarrow> (case node_at t p of KNil \<Rightarrow> None
          | KNode l v r \<Rightarrow> kd_collect t (kd_increment t p) (vs @ [v])))"

definition kd_values :: "'v kdtree \<Rightarrow> 'v list option" where
  "kd_values t = kd_collect (kd_root t) (kd_leftmost t) []"

subsection \<open>Rebuilding\<close>

definition kd_clear :: "'v kdtree \<Rightarrow> 'v kdtree" where
  "kd_clear t = t\<lparr>kd_root := KNil, kd_leftmost := Header, kd_rightmost := Header, kd_count := 0\<rparr>"

type_synonym 'v nth_elem = "('v \<Rightarrow> 'v \<Rightarrow> bool) \<Rightarrow> nat \<Rightarrow> 'v list \<Rightarrow> 'v list"

text \<open>\<open>_M_optimise\<close> on the range \<open>xs\<close>; the parts before and after the median are ranges of it.\<close>

function M_optimise :: "nat \<Rightarrow> ('v \<Rightarrow> nat \<Rightarrow> fp) \<Rightarrow> 'v nth_elem \<Rightarrow> 'v list \<Rightarrow> nat \<Rightarrow> 'v kdtree \<Rightarrow> 'v kdtree" where
  "M_optimise k acc nthe xs L t =
     (if xs = [] then t
      else let m = length xs div 2;
               ys = nthe (node_less k acc L) m xs;
               t1 = fst (kd_insert k acc (ys ! m) t);
               t2 = (if m \<noteq> 0 then M_optimise k acc nthe (take m ys) (Suc L) t1 else t1)
           in if Suc m \<noteq> length xs
              then M_optimise k acc nthe (take (length xs - Suc m) (drop (Suc m) ys)) (Suc L) t2
              else t2)"
  by pat_completeness auto

termination M_optimise
  by (relation "measure (\<lambda>(k, acc, nthe, xs, L, t). length xs)")
     (auto intro: min.strict_coboundedI2)

declare M_optimise.simps [simp del]

definition kd_optimise :: "nat \<Rightarrow> ('v \<Rightarrow> nat \<Rightarrow> fp) \<Rightarrow> 'v nth_elem \<Rightarrow> 'v kdtree \<Rightarrow> 'v kdtree option" where
  "kd_optimise k acc nthe t = map_option (\<lambda>vs. M_optimise k acc nthe vs 0 (kd_clear t)) (kd_values t)"

definition kd_replace_optimise :: "nat \<Rightarrow> ('v \<Rightarrow> nat \<Rightarrow> fp) \<Rightarrow> 'v nth_elem \<Rightarrow> 'v list \<Rightarrow> 'v kdtree \<Rightarrow> 'v kdtree" where
  "kd_replace_optimise k acc nthe vs t = M_optimise k acc nthe vs 0 (kd_clear t)"

subsection \<open>The order check\<close>

fun check_children :: "nat \<Rightarrow> ('v \<Rightarrow> nat \<Rightarrow> fp) \<Rightarrow> 'v kdnode \<Rightarrow> 'v \<Rightarrow> nat \<Rightarrow> bool \<Rightarrow> bool" where
  "check_children k acc KNil u L left = True"
| "check_children k acc (KNode l c r) u L left \<longleftrightarrow>
     (\<not> left \<or> \<not> node_less k acc L u c) \<and> (left \<or> \<not> node_less k acc L c u) \<and>
     check_children k acc l u L left \<and> check_children k acc r u L left"

fun check_node :: "nat \<Rightarrow> ('v \<Rightarrow> nat \<Rightarrow> fp) \<Rightarrow> 'v kdnode \<Rightarrow> nat \<Rightarrow> bool" where
  "check_node k acc KNil L = True"
| "check_node k acc (KNode l u r) L \<longleftrightarrow>
     check_children k acc l u L True \<and> check_children k acc r u L False \<and>
     check_node k acc l (Suc L) \<and> check_node k acc r (Suc L)"

definition check_tree :: "nat \<Rightarrow> ('v \<Rightarrow> nat \<Rightarrow> fp) \<Rightarrow> 'v kdtree \<Rightarrow> bool" where
  "check_tree k acc t = check_node k acc (kd_root t) 0"

subsection \<open>Paths\<close>

lemma node_at_append: "node_at t (q @ p) = node_at (node_at t p) q"
  by (induction q) simp_all

lemma kd_leaf_simps [simp]: "\<not> is_KNil (kd_leaf v)" "set_kdnode (kd_leaf v) = {v}"
  by (simp_all add: kd_leaf_def)

text \<open>The last node on the way down that always takes direction \<open>d\<close>.\<close>

fun kd_edge :: "bool \<Rightarrow> 'v kdnode \<Rightarrow> kdpath \<Rightarrow> kdpath" where
  "kd_edge d KNil p = p"
| "kd_edge d (KNode l v r) p =
     (let c = (if d then r else l) in if is_KNil c then p else kd_edge d c (d # p))"

lemma kd_minimum_edge: "kd_minimum t p = kd_edge False t p"
  by (induction t p rule: kd_minimum.induct) simp_all

lemma kd_edge_suffix: "\<exists>w. kd_edge d t p = w @ p"
proof (induction t arbitrary: p)
  case (KNode l v r)
  obtain w where "kd_edge d (if d then r else l) (d # p) = (w @ [d]) @ p"
    using KNode.IH(1) [of "d # p"] KNode.IH(2) [of "d # p"] by (cases d) auto
  then show ?case by (cases "is_KNil (if d then r else l)") (auto simp: Let_def simp del: append_assoc)
qed simp

lemma kd_edge_child: "is_KNil (node_at (node_at t (kd_edge d t [])) [d])"
proof -
  have "is_KNil (node_at T (d # kd_edge d t p))" if "node_at T p = t" for T t :: "'v kdnode" and p
    using that by (induction t arbitrary: p) (auto simp: Let_def)
  from this [of t "[]" t] show ?thesis by simp
qed

subsection \<open>What insertion does\<close>

fun kd_inorder :: "'v kdnode \<Rightarrow> 'v list" where
  "kd_inorder KNil = []"
| "kd_inorder (KNode l v r) = kd_inorder l @ v # kd_inorder r"

lemma set_kd_inorder [simp]: "set (kd_inorder t) = set_kdnode t"
  by (induction t) auto

lemma kd_inorder_Nil [simp]: "kd_inorder t = [] \<longleftrightarrow> t = KNil"
  by (cases t) simp_all

text \<open>
  \<open>M_insert\<close> below the node at \<open>p\<close>, when the node that the rightmost pointer names has
  no right child: one new leaf, everything else in place.
\<close>

definition rm_ok :: "kdptr \<Rightarrow> 'v kdnode \<Rightarrow> bool" where
  "rm_ok rm T \<longleftrightarrow> (\<forall>m. rm = At m \<longrightarrow> is_KNil (node_at T (True # m)))"

lemma rm_ok_right: "rm_ok rm T \<Longrightarrow> node_at T p = KNode l u r \<Longrightarrow> \<not> is_KNil r \<Longrightarrow> At p \<noteq> rm"
  by (auto simp: rm_ok_def)

lemma M_insert_inorder:
  assumes "rm_ok rm T" and "node_at T p = t" and "t \<noteq> KNil" and "M_insert k acc rm v L p t = (n, q)"
  shows "n \<noteq> KNil \<and> mset (kd_inorder n) = add_mset v (mset (kd_inorder t))"
  using assms(2-)
proof (induction t arbitrary: p L n q)
  case (KNode l u r)
  have down: "node_at T (True # p) = r" "node_at T (False # p) = l" using KNode.prems(1) by simp_all
  obtain l' q1 where i1: "M_insert k acc rm v (Suc L) (False # p) l = (l', q1)" by fastforce
  obtain r' q2 where i2: "M_insert k acc rm v (Suc L) (True # p) r = (r', q2)" by fastforce
  consider "node_less k acc L v u" "l = KNil" | "node_less k acc L v u" "l \<noteq> KNil"
    | "\<not> node_less k acc L v u" "r = KNil" | "\<not> node_less k acc L v u" "r \<noteq> KNil" "At p \<noteq> rm"
    using rm_ok_right [OF assms(1) KNode.prems(1)] by (auto simp: is_KNil_def)
  then show ?case
  proof cases
    case 2
    then show ?thesis using KNode.prems(3) KNode.IH(1) [OF down(2) _ i1] i1 by (auto simp: is_KNil_def)
  next
    case 4
    then show ?thesis using KNode.prems(3) KNode.IH(2) [OF down(1) _ i2] i2 by (auto simp: is_KNil_def)
  qed (use KNode.prems(3) in \<open>auto simp: kd_leaf_def\<close>)
qed simp

lemma M_insert_set:
  assumes "rm_ok rm T" and "node_at T p = t" and "t \<noteq> KNil" and "M_insert k acc rm v L p t = (n, q)"
  shows "set_kdnode n = insert v (set_kdnode t)"
  using M_insert_inorder [OF assms] by (metis set_kd_inorder set_mset_add_mset_insert set_mset_mset)

lemma check_children_iff:
  "check_children k acc t u L left \<longleftrightarrow>
   (\<forall>c \<in> set_kdnode t. if left then \<not> node_less k acc L u c else \<not> node_less k acc L c u)"
  by (induction t) auto

lemma node_less_asym: "node_less k acc L a b \<Longrightarrow> \<not> node_less k acc L b a"
  unfolding node_less_def using flt_trans flt_irrefl by blast

lemma M_insert_check:
  assumes "rm_ok rm T" and "node_at T p = t" and "t \<noteq> KNil" and "M_insert k acc rm v L p t = (n, q)"
    and "check_node k acc t L"
  shows "check_node k acc n L"
  using assms(2-)
proof (induction t arbitrary: p L n q)
  case (KNode l u r)
  have down: "node_at T (True # p) = r" "node_at T (False # p) = l" using KNode.prems(1) by simp_all
  show ?case
  proof (cases "node_less k acc L v u")
    case True
    show ?thesis
    proof (cases "is_KNil l")
      case False
      obtain l' q' where i: "M_insert k acc rm v (Suc L) (False # p) l = (l', q')" by fastforce
      show ?thesis
        using KNode.prems True False KNode.IH(1) [OF down(2) _ i] M_insert_set [OF assms(1) down(2) _ i] i
        by (auto simp: check_children_iff is_KNil_def dest: node_less_asym)
    qed (use KNode.prems True in \<open>auto simp: check_children_iff kd_leaf_def dest: node_less_asym\<close>)
  next
    case False
    show ?thesis
    proof (cases "is_KNil r")
      case nn: False
      obtain r' q' where i: "M_insert k acc rm v (Suc L) (True # p) r = (r', q')" by fastforce
      show ?thesis
        using KNode.prems False nn KNode.IH(2) [OF down(1) _ i] M_insert_set [OF assms(1) down(1) _ i] i
          rm_ok_right [OF assms(1) KNode.prems(1) nn]
        by (auto simp: check_children_iff is_KNil_def)
    qed (use KNode.prems False in \<open>auto simp: check_children_iff kd_leaf_def\<close>)
  qed
qed simp

lemma M_insert_path:
  assumes "t \<noteq> KNil" and "M_insert k acc rm v L p t = (n, q)"
  shows "\<exists>d w. q = (d # w) @ p"
  using assms
proof (induction t arbitrary: p L n q)
  case (KNode l u r)
  obtain l' q1 where i1: "M_insert k acc rm v (Suc L) (False # p) l = (l', q1)" by fastforce
  obtain r' q2 where i2: "M_insert k acc rm v (Suc L) (True # p) r = (r', q2)" by fastforce
  have "q = False # p \<or> q = True # p \<or> (l \<noteq> KNil \<and> q = q1) \<or> (r \<noteq> KNil \<and> q = q2)"
    using KNode.prems(2) i1 i2 by (auto simp: is_KNil_def split: if_splits)
  then show ?case using KNode.IH(1) [OF _ i1] KNode.IH(2) [OF _ i2] by fastforce
qed simp

text \<open>The end of the left or right spine moves exactly when the new leaf extends it.\<close>

lemma path_neq: "xs @ c # p \<noteq> p" "xs @ c # p \<noteq> ys @ (\<not> c) # p"
proof -
  show "xs @ c # p \<noteq> p" by (metis append_Cons append_Nil append_assoc append_self_conv2 list.distinct(1) snoc_eq_iff_butlast)
  have "(xs @ [c]) @ p \<noteq> (ys @ [\<not> c]) @ p" by (simp only: append_same_eq) simp
  then show "xs @ c # p \<noteq> ys @ (\<not> c) # p" by simp
qed

lemma kd_edge_KNode:
  "kd_edge d (KNode l u r) p = p \<or> (\<exists>ys. kd_edge d (KNode l u r) p = ys @ d # p)"
  using kd_edge_suffix [of d l "d # p"] kd_edge_suffix [of d r "d # p"] by (cases d) (auto simp: Let_def)

lemma kd_edge_other:
  assumes "q = (b # w) @ p" and "last (b # w) \<noteq> d"
  shows "\<not> (hd q = d \<and> tl q = kd_edge d (KNode l u r) p)"
proof (cases w rule: rev_cases)
  case Nil
  then show ?thesis using assms by simp
next
  case (snoc xs c)
  then have t: "tl q = xs @ c # p" and d: "d = (\<not> c)" using assms by auto
  have "xs @ c # p \<noteq> kd_edge d (KNode l u r) p"
    using kd_edge_KNode [of d l u r p] path_neq(1) [of xs c p] path_neq(2) [of xs c p] unfolding d by auto
  then show ?thesis using t by simp
qed

lemma M_insert_edge:
  assumes "rm_ok rm T" and "node_at T p = t" and "t \<noteq> KNil" and "M_insert k acc rm v L p t = (n, q)"
  shows "kd_edge d n p = (if hd q = d \<and> tl q = kd_edge d t p then q else kd_edge d t p)"
  using assms(2-)
proof (induction t arbitrary: p L n q)
  case (KNode l u r)
  have down: "node_at T (True # p) = r" "node_at T (False # p) = l" using KNode.prems(1) by simp_all
  define c where "c = (\<not> node_less k acc L v u)"
  define x where "x = (if c then r else l)"
  obtain x' q' where i: "M_insert k acc rm v (Suc L) (c # p) x = (x', q')" by fastforce
  have down': "node_at T (c # p) = x" using down by (cases c) (simp_all add: x_def)
  show ?case
  proof (cases "x = KNil")
    case True
    then have n: "n = (if c then KNode l u (kd_leaf v) else KNode (kd_leaf v) u r)" "q = c # p"
      using KNode.prems(3) by (auto simp: c_def x_def split: if_splits)
    show ?thesis
    proof (cases "d = c")
      case True
      then show ?thesis using n \<open>x = KNil\<close> by (auto simp: x_def kd_leaf_def Let_def)
    next
      case False
      then have "kd_edge d n p = kd_edge d (KNode l u r) p" using n(1) by (auto simp: Let_def)
      then show ?thesis using False n(2) by simp
    qed
  next
    case False
    have n: "n = (if c then KNode l u x' else KNode x' u r)" "q = q'"
      using KNode.prems(3) False i rm_ok_right [OF assms(1) KNode.prems(1)]
      by (auto simp: c_def x_def is_KNil_def split: if_splits)
    have x': "x' \<noteq> KNil" using M_insert_inorder [OF assms(1) down' False i] by simp
    obtain b w where q: "q = (b # w) @ c # p" using M_insert_path [OF False i] n(2) by auto
    show ?thesis
    proof (cases "d = c")
      case True
      have "kd_edge d x' (c # p) = (if hd q = d \<and> tl q = kd_edge d x (c # p) then q else kd_edge d x (c # p))"
        using KNode.IH down' False i n(2) by (cases c) (auto simp: x_def)
      then show ?thesis using n(1) True False x' by (auto simp: x_def is_KNil_def Let_def)
    next
      case dc: False
      then have "kd_edge d n p = kd_edge d (KNode l u r) p" using n(1) by (auto simp: Let_def)
      moreover have "\<not> (hd q = d \<and> tl q = kd_edge d (KNode l u r) p)"
        using dc q by (intro kd_edge_other [of q b "w @ [c]"]) simp_all
      ultimately show ?thesis by (auto simp del: kd_edge.simps)
    qed
  qed
qed simp

subsection \<open>The invariant of the container\<close>

text \<open>
  The header's links name the ends of the two spines, the count is the number of values, and the
  order check passes.
\<close>

definition kd_wf :: "nat \<Rightarrow> ('v \<Rightarrow> nat \<Rightarrow> fp) \<Rightarrow> 'v kdtree \<Rightarrow> bool" where
  "kd_wf k acc t \<longleftrightarrow>
     kd_leftmost t = (if is_KNil (kd_root t) then Header else At (kd_edge False (kd_root t) [])) \<and>
     kd_rightmost t = (if is_KNil (kd_root t) then Header else At (kd_edge True (kd_root t) [])) \<and>
     kd_count t = length (kd_inorder (kd_root t)) \<and> check_tree k acc t"

lemma kd_wf_empty [simp]: "kd_wf k acc kd_empty" "kd_wf k acc (kd_clear t)"
  by (simp_all add: kd_wf_def kd_empty_def kd_clear_def check_tree_def)

lemma kd_clear_root [simp]: "kd_root (kd_clear t) = KNil"
  by (simp add: kd_clear_def)

lemma kd_insert_keeps:
  assumes "kd_wf k acc t" and "kd_insert k acc v t = (t', it)"
  shows "kd_wf k acc t'" and "mset (kd_inorder (kd_root t')) = add_mset v (mset (kd_inorder (kd_root t)))"
proof -
  have "kd_wf k acc t' \<and> mset (kd_inorder (kd_root t')) = add_mset v (mset (kd_inorder (kd_root t)))"
  proof (cases "kd_root t = KNil")
    case True
    then show ?thesis using assms by (auto simp: kd_insert_def kd_wf_def kd_leaf_def check_tree_def)
  next
    case False
    obtain n q where i: "M_insert k acc (kd_rightmost t) v 0 [] (kd_root t) = (n, q)" by fastforce
    have rm: "rm_ok (kd_rightmost t) (kd_root t)"
      using assms(1) False kd_edge_child [of "kd_root t" True]
      by (auto simp: rm_ok_def kd_wf_def is_KNil_def)
    note N = M_insert_inorder [OF rm _ False i] M_insert_check [OF rm _ False i]
      M_insert_edge [OF rm _ False i]
    have sz: "length (kd_inorder n) = Suc (length (kd_inorder (kd_root t)))"
      using N(1) by (metis node_at.simps(1) size_add_mset size_mset)
    have t': "kd_root t' = n" "kd_count t' = kd_count t + 1"
      "kd_leftmost t' = (if \<not> hd q \<and> At (tl q) = kd_leftmost t then At q else kd_leftmost t)"
      "kd_rightmost t' = (if hd q \<and> At (tl q) = kd_rightmost t then At q else kd_rightmost t)"
      using assms(2) False i by (auto simp: kd_insert_def is_KNil_def)
    have E: "kd_edge False n [] = (if \<not> hd q \<and> tl q = kd_edge False (kd_root t) [] then q else kd_edge False (kd_root t) [])"
      "kd_edge True n [] = (if hd q \<and> tl q = kd_edge True (kd_root t) [] then q else kd_edge True (kd_root t) [])"
      using N(3) [of False] N(3) [of True] by simp_all
    have L: "kd_leftmost t = At (kd_edge False (kd_root t) [])" "kd_rightmost t = At (kd_edge True (kd_root t) [])"
      and c: "kd_count t = length (kd_inorder (kd_root t))" "check_node k acc (kd_root t) 0"
      using assms(1) False by (simp_all add: kd_wf_def check_tree_def is_KNil_def)
    have "n \<noteq> KNil" using N(1) by simp
    then have "kd_wf k acc t'"
      unfolding kd_wf_def check_tree_def t' L using E c sz N(2)
      by (simp add: is_KNil_def)
    then show ?thesis using t'(1) N(1) by simp
  qed
  then show "kd_wf k acc t'" and "mset (kd_inorder (kd_root t')) = add_mset v (mset (kd_inorder (kd_root t)))" by auto
qed

lemma kd_insert_range_keeps:
  "kd_wf k acc t \<Longrightarrow> kd_wf k acc (kd_insert_range k acc vs t) \<and>
   mset (kd_inorder (kd_root (kd_insert_range k acc vs t))) = mset vs + mset (kd_inorder (kd_root t))"
proof (induction vs arbitrary: t)
  case (Cons v vs)
  obtain t' it where "kd_insert k acc v t = (t', it)" by fastforce
  then show ?case using Cons.IH [of t'] kd_insert_keeps [OF Cons.prems] by (simp add: kd_insert_range_def)
qed (simp add: kd_insert_range_def)

subsection \<open>Iteration visits the values in order\<close>

lemma kd_collect_step:
  "node_at t p = KNode l v r \<Longrightarrow> kd_collect t (At p) vs = kd_collect t (kd_increment t p) (vs @ [v])"
  by (simp add: kd_collect.simps)

lemma kd_collect_subtree:
  "node_at t p = s \<Longrightarrow> s \<noteq> KNil \<Longrightarrow>
   kd_collect t (At (kd_minimum s p)) vs = kd_collect t (kd_climb p) (vs @ kd_inorder s)"
proof (induction s arbitrary: p vs)
  case (KNode l v r)
  have down: "node_at t (True # p) = r" "node_at t (False # p) = l" using KNode.prems(1) by simp_all
  have here: "kd_collect t (At p) ws = kd_collect t (kd_climb p) (ws @ v # kd_inorder r)" for ws
  proof (cases "r = KNil")
    case True
    then show ?thesis using kd_collect_step [OF KNode.prems(1)] down by (simp add: kd_increment_def)
  next
    case False
    then show ?thesis using kd_collect_step [OF KNode.prems(1)] down KNode.IH(2) [OF down(1) False]
      by (simp add: kd_increment_def is_KNil_def)
  qed
  show ?case
  proof (cases "l = KNil")
    case True
    then show ?thesis using here [of vs] by simp
  next
    case False
    then show ?thesis using KNode.IH(1) [OF down(2) False] here by (simp add: is_KNil_def)
  qed
qed simp

lemma kd_values_inorder: "kd_wf k acc t \<Longrightarrow> kd_values t = Some (kd_inorder (kd_root t))"
proof (cases "kd_root t = KNil")
  case True
  assume "kd_wf k acc t"
  then show ?thesis using True by (simp add: kd_values_def kd_wf_def kd_collect.simps)
next
  case False
  assume "kd_wf k acc t"
  then have "kd_values t = kd_collect (kd_root t) (At (kd_minimum (kd_root t) [])) []"
    using False by (simp add: kd_values_def kd_wf_def is_KNil_def kd_minimum_edge)
  then show ?thesis using kd_collect_subtree [of "kd_root t" "[]", OF _ False] by (simp add: kd_collect.simps)
qed

subsection \<open>Rebuilding keeps the values\<close>

text \<open>What the standard promises of \<open>nth_element\<close> and the container needs: it permutes the range.\<close>

locale nth_element =
  fixes nthe :: "'v nth_elem"
  assumes nthe_mset: "mset (nthe le m xs) = mset xs"
begin

lemma nthe_length: "length (nthe le m xs) = length xs"
  by (metis nthe_mset size_mset)

lemma nthe_split:
  assumes "m < length xs"
  shows "mset xs = add_mset (nthe le m xs ! m) (mset (take m (nthe le m xs)) + mset (drop (Suc m) (nthe le m xs)))"
  using assms id_take_nth_drop [of m "nthe le m xs"] nthe_length [of le m xs] nthe_mset [of le m xs]
  by (metis mset.simps(2) mset_append union_mset_add_mset_right)

lemma optimise_keeps:
  "kd_wf k acc t \<Longrightarrow> kd_wf k acc (M_optimise k acc nthe xs L t) \<and>
   mset (kd_inorder (kd_root (M_optimise k acc nthe xs L t))) = mset xs + mset (kd_inorder (kd_root t))"
proof (induction "length xs" arbitrary: xs L t rule: less_induct)
  case less
  show ?case
  proof (cases "xs = []")
    case True
    then show ?thesis using less.prems by (simp add: M_optimise.simps)
  next
    case False
    define m where "m = length xs div 2"
    define ys where "ys = nthe (node_less k acc L) m xs"
    define a b where "a = take m ys" and "b = take (length xs - Suc m) (drop (Suc m) ys)"
    obtain t1 it where i: "kd_insert k acc (ys ! m) t = (t1, it)" by fastforce
    have t1: "t1 = fst (kd_insert k acc (ys ! m) t)" using i by simp
    define t2 where "t2 = (if m \<noteq> 0 then M_optimise k acc nthe a (Suc L) t1 else t1)"
    have m: "m < length xs" using False by (simp add: m_def)
    have len: "length ys = length xs" by (simp add: ys_def nthe_length)
    have b: "b = drop (Suc m) ys" by (simp add: b_def len)
    have sum: "mset xs = add_mset (ys ! m) (mset a + mset b)" using nthe_split [OF m] by (simp add: a_def b ys_def)
    have 1: "kd_wf k acc t1" "mset (kd_inorder (kd_root t1)) = add_mset (ys ! m) (mset (kd_inorder (kd_root t)))"
      using kd_insert_keeps [OF less.prems i] by auto
    have 2: "kd_wf k acc t2 \<and> mset (kd_inorder (kd_root t2)) = mset a + mset (kd_inorder (kd_root t1))"
      
    proof (cases "m = 0")
      case False
      then have "length a < length xs" using m len by (simp add: a_def)
      then show ?thesis using less.hyps [of a t1 "Suc L"] 1(1) False by (simp add: t2_def)
    qed (use 1(1) in \<open>simp add: t2_def a_def\<close>)
    have 3: "M_optimise k acc nthe xs L t = (if Suc m \<noteq> length xs then M_optimise k acc nthe b (Suc L) t2 else t2)"
      unfolding t2_def a_def b_def t1 ys_def m_def M_optimise.simps [of k acc nthe xs L t] Let_def if_not_P [OF False]
      by (rule refl)
    show ?thesis
    proof (cases "Suc m = length xs")
      case True
      then have "b = []" by (simp add: b_def)
      then show ?thesis unfolding 3 using 2 1(2) sum True by simp
    next
      case ne: False
      have "length b < length xs" using m len by (simp add: b)
      then show ?thesis unfolding 3 using less.hyps [of b t2 "Suc L"] 2 1(2) sum ne by simp
    qed
  qed
qed

lemma kd_optimise_keeps:
  assumes "kd_wf k acc t"
  shows "\<exists>t'. kd_optimise k acc nthe t = Some t' \<and> kd_wf k acc t' \<and>
              mset (kd_inorder (kd_root t')) = mset (kd_inorder (kd_root t))"
  using kd_values_inorder [OF assms] optimise_keeps [OF kd_wf_empty(2)] by (simp add: kd_optimise_def)

end

text \<open>An instance: the range sorted by insertion.\<close>

fun insert_by :: "('v \<Rightarrow> 'v \<Rightarrow> bool) \<Rightarrow> 'v \<Rightarrow> 'v list \<Rightarrow> 'v list" where
  "insert_by le x [] = [x]"
| "insert_by le x (y # ys) = (if le y x then y # insert_by le x ys else x # y # ys)"

definition nth_by_sorting :: "'v nth_elem" where
  "nth_by_sorting le m xs = foldr (insert_by le) xs []"

lemma mset_insert_by [simp]: "mset (insert_by le x xs) = add_mset x (mset xs)"
  by (induction xs) auto

interpretation nth_sorted: nth_element nth_by_sorting
proof
  show "mset (nth_by_sorting le m xs) = mset xs" for le m and xs :: "'v list"
    unfolding nth_by_sorting_def by (induction xs) simp_all
qed

end
