(* ===== verification/KdNearest.thy ===== *)
theory KdNearest
  imports KdTree
begin

text \<open>
  Nearest-neighbour search in the k-d tree: \<^verbatim>\<open>_S_node_nearest\<close> of \<^verbatim>\<open>kdtree++/node.hpp\<close>, a
  descent to a leaf followed by a climb that probes the subtrees left aside, with explicit node
  pointers and parent links; and the three searches of \<^verbatim>\<open>kdtree.hpp\<close> that call it. The loops are
  shown to end and to be a recursive search, and the search to find a value at the least distance.
\<close>

subsection \<open>Distances\<close>

definition squared_difference :: "fp \<Rightarrow> fp \<Rightarrow> fp" where
  "squared_difference a b = (let d = fsub F32 a b in fmul F32 d d)"

definition node_distance :: "nat \<Rightarrow> ('v \<Rightarrow> nat \<Rightarrow> fp) \<Rightarrow> 'v \<Rightarrow> 'v \<Rightarrow> fp" where
  "node_distance i acc a b = squared_difference (acc a i) (acc b i)"

definition acc_distance :: "nat \<Rightarrow> ('v \<Rightarrow> nat \<Rightarrow> fp) \<Rightarrow> 'v \<Rightarrow> 'v \<Rightarrow> fp" where
  "acc_distance k acc a b = fold (\<lambda>i d. fadd F32 d (node_distance i acc a b)) [0..<k] fzero"

definition kd_dist :: "nat \<Rightarrow> ('v \<Rightarrow> nat \<Rightarrow> fp) \<Rightarrow> 'v \<Rightarrow> 'v \<Rightarrow> fp" where
  "kd_dist k acc a b = fsqrt F32 (acc_distance k acc a b)"

subsection \<open>The search with pointers\<close>

text \<open>The variables \<open>__best\<close>, \<open>__max\<close> and \<open>__dim\<close>.\<close>

record near =
  nr_best :: kdptr
  nr_max :: fp
  nr_dim :: nat

definition near_test :: "nat \<Rightarrow> ('v \<Rightarrow> nat \<Rightarrow> fp) \<Rightarrow> ('v \<Rightarrow> bool) \<Rightarrow> 'v \<Rightarrow> kdpath \<Rightarrow> nat \<Rightarrow> 'v \<Rightarrow> near \<Rightarrow> near" where
  "near_test k acc pr v p d u s =
     (if pr u \<and> fle (kd_dist k acc v u) (nr_max s)
      then \<lparr>nr_best = At p, nr_max = kd_dist k acc v u, nr_dim = d\<rparr> else s)"

text \<open>Does the plane of the node with value \<open>u\<close> on level \<open>d\<close> meet the sphere around \<open>v\<close>?\<close>

definition near_plane :: "nat \<Rightarrow> ('v \<Rightarrow> nat \<Rightarrow> fp) \<Rightarrow> 'v \<Rightarrow> nat \<Rightarrow> 'v \<Rightarrow> fp \<Rightarrow> bool" where
  "near_plane k acc v d u m = fle (fsqrt F32 (node_distance (d mod k) acc v u)) m"

text \<open>
  The descent from the node at \<open>p\<close> on level \<open>d\<close>: every node below it on the way is tested, and the
  last one is returned with its level.
\<close>

fun near_descend :: "nat \<Rightarrow> ('v \<Rightarrow> nat \<Rightarrow> fp) \<Rightarrow> ('v \<Rightarrow> bool) \<Rightarrow> 'v \<Rightarrow> kdpath \<Rightarrow> nat \<Rightarrow> 'v kdnode \<Rightarrow> near \<Rightarrow> near \<times> kdpath \<times> nat" where
  "near_descend k acc pr v p d KNil s = (s, p, d)"
| "near_descend k acc pr v p d (KNode l u r) s =
     (if node_less k acc d v u
      then case l of KNil \<Rightarrow> (s, p, d)
        | KNode _ w _ \<Rightarrow> near_descend k acc pr v (False # p) (Suc d) l (near_test k acc pr v (False # p) (Suc d) w s)
      else case r of KNil \<Rightarrow> (s, p, d)
        | KNode _ w _ \<Rightarrow> near_descend k acc pr v (True # p) (Suc d) r (near_test k acc pr v (True # p) (Suc d) w s))"

text \<open>One round of the inner loop, on \<open>probe\<close>, \<open>pprobe\<close>, \<open>probe_dim\<close> and the best so far.\<close>

type_synonym probe = "kdptr \<times> kdptr \<times> nat \<times> near"

definition near_step :: "nat \<Rightarrow> ('v \<Rightarrow> nat \<Rightarrow> fp) \<Rightarrow> ('v \<Rightarrow> bool) \<Rightarrow> 'v \<Rightarrow> 'v kdnode \<Rightarrow> kdpath \<Rightarrow> 'v \<Rightarrow> kdptr \<Rightarrow> nat \<Rightarrow> near \<Rightarrow> probe" where
  "near_step k acc pr v T p u pprobe pd s =
     (let lt = node_less k acc pd v u;
          near_node = kd_child T (\<not> lt) p;
          far_node = kd_child T lt p
      in if pprobe = kd_parent (At p)
         then let s' = near_test k acc pr v p pd u s
              in if near_node \<noteq> Null then (near_node, At p, Suc pd, s')
                 else if far_node \<noteq> Null \<and> near_plane k acc v pd u (nr_max s') then (far_node, At p, Suc pd, s')
                 else (kd_parent (At p), At p, pd - 1, s')
         else if pprobe = near_node \<and> far_node \<noteq> Null \<and> near_plane k acc v pd u (nr_max s)
              then (far_node, At p, Suc pd, s)
              else (kd_parent (At p), At p, pd - 1, s))"

partial_function (option) near_probe :: "nat \<Rightarrow> ('v \<Rightarrow> nat \<Rightarrow> fp) \<Rightarrow> ('v \<Rightarrow> bool) \<Rightarrow> 'v \<Rightarrow> 'v kdnode \<Rightarrow> kdptr \<Rightarrow> probe \<Rightarrow> near option" where
  "near_probe k acc pr v T cur st =
     (case st of (probe, pprobe, pd, s) \<Rightarrow>
        if probe = cur then Some s
        else case probe of Null \<Rightarrow> None | Header \<Rightarrow> None
          | At p \<Rightarrow> (case node_at T p of KNil \<Rightarrow> None
              | KNode l u r \<Rightarrow> near_probe k acc pr v T cur (near_step k acc pr v T p u pprobe pd s)))"

text \<open>
  The outer loop with \<open>cur\<close> at \<open>p\<close> on level \<open>d\<close>: the child in direction \<open>b\<close>, the one that was not
  visited, is probed when it exists and the plane meets the sphere; then \<open>cur\<close> moves to its
  parent, until it is the header.
\<close>

fun near_climb :: "nat \<Rightarrow> ('v \<Rightarrow> nat \<Rightarrow> fp) \<Rightarrow> ('v \<Rightarrow> bool) \<Rightarrow> 'v \<Rightarrow> 'v kdnode \<Rightarrow> kdpath \<Rightarrow> nat \<Rightarrow> bool \<Rightarrow> near \<Rightarrow> near option" where
  "near_climb k acc pr v T p d b s =
     (case node_at T p of KNil \<Rightarrow> None
      | KNode l u r \<Rightarrow>
          let near_node = kd_child T b p;
              st = (if near_node \<noteq> Null \<and> near_plane k acc v d u (nr_max s)
                    then (near_node, At p, Suc d, s) else (At p, At p, d, s))
          in case near_probe k acc pr v T (At p) st of None \<Rightarrow> None
             | Some s' \<Rightarrow> (case p of [] \<Rightarrow> Some s' | c # q \<Rightarrow> near_climb k acc pr v T q (d - 1) (\<not> c) s'))"

declare near_climb.simps [simp del]

definition node_nearest :: "nat \<Rightarrow> ('v \<Rightarrow> nat \<Rightarrow> fp) \<Rightarrow> ('v \<Rightarrow> bool) \<Rightarrow> 'v \<Rightarrow> 'v kdnode \<Rightarrow> kdptr \<Rightarrow> fp \<Rightarrow> near option" where
  "node_nearest k acc pr v T best m =
     (case near_descend k acc pr v [] 0 T \<lparr>nr_best = best, nr_max = m, nr_dim = 0\<rparr> of (s, p, d) \<Rightarrow>
        case node_at T p of KNil \<Rightarrow> None
        | KNode l u r \<Rightarrow> near_climb k acc pr v T p d (node_less k acc d v u) s)"

subsection \<open>The searches of the container\<close>

definition find_nearest :: "nat \<Rightarrow> ('v \<Rightarrow> nat \<Rightarrow> fp) \<Rightarrow> 'v kdtree \<Rightarrow> 'v \<Rightarrow> (kdptr \<times> fp) option" where
  "find_nearest k acc t v =
     (case kd_root t of KNil \<Rightarrow> Some (Header, fzero)
      | KNode l u r \<Rightarrow> map_option (\<lambda>s. (nr_best s, nr_max s))
          (node_nearest k acc (\<lambda>_. True) v (kd_root t) (At []) (fsqrt F32 (acc_distance k acc u v))))"

definition find_nearest_max :: "nat \<Rightarrow> ('v \<Rightarrow> nat \<Rightarrow> fp) \<Rightarrow> 'v kdtree \<Rightarrow> 'v \<Rightarrow> fp \<Rightarrow> (kdptr \<times> fp) option" where
  "find_nearest_max k acc t v m =
     (case kd_root t of KNil \<Rightarrow> Some (Header, m)
      | KNode l u r \<Rightarrow>
          let root_dist = fsqrt F32 (acc_distance k acc u v);
              cand = fle root_dist m;
              m' = (if cand then root_dist else m)
          in map_option (\<lambda>s. if cand \<or> nr_best s \<noteq> At [] then (nr_best s, nr_max s) else (Header, m'))
               (node_nearest k acc (\<lambda>_. True) v (kd_root t) (At []) m'))"

definition find_nearest_if :: "nat \<Rightarrow> ('v \<Rightarrow> nat \<Rightarrow> fp) \<Rightarrow> 'v kdtree \<Rightarrow> 'v \<Rightarrow> fp \<Rightarrow> ('v \<Rightarrow> bool) \<Rightarrow> (kdptr \<times> fp) option" where
  "find_nearest_if k acc t v m pr =
     (case kd_root t of KNil \<Rightarrow> Some (Header, m)
      | KNode l u r \<Rightarrow>
          let cand = (pr u \<and> fle (fsqrt F32 (acc_distance k acc u v)) m)
          in map_option (\<lambda>s. if cand \<or> nr_best s \<noteq> At [] then (nr_best s, nr_max s) else (Header, m))
               (node_nearest k acc pr v (kd_root t) (At []) m))"

subsection \<open>The loops are a recursive search\<close>

fun kd_visit :: "nat \<Rightarrow> ('v \<Rightarrow> nat \<Rightarrow> fp) \<Rightarrow> ('v \<Rightarrow> bool) \<Rightarrow> 'v \<Rightarrow> kdpath \<Rightarrow> nat \<Rightarrow> 'v kdnode \<Rightarrow> near \<Rightarrow> near" where
  "kd_visit k acc pr v p d KNil s = s"
| "kd_visit k acc pr v p d (KNode l u r) s =
     (let s1 = near_test k acc pr v p d u s
      in if node_less k acc d v u
         then let s2 = kd_visit k acc pr v (False # p) (Suc d) l s1
              in if near_plane k acc v d u (nr_max s2) then kd_visit k acc pr v (True # p) (Suc d) r s2 else s2
         else let s2 = kd_visit k acc pr v (True # p) (Suc d) r s1
              in if near_plane k acc v d u (nr_max s2) then kd_visit k acc pr v (False # p) (Suc d) l s2 else s2)"

text \<open>A subtree that does not contain \<open>cur\<close> is visited, and the probe goes on from its parent.\<close>

lemma near_probe_step:
  "At p \<noteq> cur \<Longrightarrow> node_at T p = KNode l u r \<Longrightarrow>
   near_probe k acc pr v T cur (At p, pp, pd, s) = near_probe k acc pr v T cur (near_step k acc pr v T p u pp pd s)"
  by (subst near_probe.simps) simp

lemma near_probe_stop: "near_probe k acc pr v T cur (cur, pp, pd, s) = Some s"
  by (subst near_probe.simps) simp

definition outside :: "kdptr \<Rightarrow> kdpath \<Rightarrow> bool" where
  "outside cur p \<longleftrightarrow> (\<forall>w. cur \<noteq> At (w @ p))"

lemma outside_self: "outside cur p \<Longrightarrow> At p \<noteq> cur"
  by (metis append_Nil outside_def)

lemma outside_child: "outside cur p \<Longrightarrow> outside cur (b # p)"
  by (metis append.assoc append_Cons append_Nil outside_def)

lemma outside_parent: "outside (At p) (b # p)"
  using path_neq(1) by (auto simp: outside_def)

lemma kd_child_Null: "kd_child T b p = Null \<longleftrightarrow> is_KNil (node_at T (b # p))"
  by (simp add: kd_child_def)

lemma near_probe_subtree:
  assumes "node_at T (b # p) = t" and "t \<noteq> KNil" and "outside cur (b # p)"
  shows "near_probe k acc pr v T cur (At (b # p), At p, Suc d, s) =
         near_probe k acc pr v T cur (At p, At (b # p), d, kd_visit k acc pr v (b # p) (Suc d) t s)"
  using assms
proof (induction t arbitrary: b p d s)
  case (KNode l u r)
  let ?P = "near_probe k acc pr v T cur" and ?q = "b # p" and ?V = "kd_visit k acc pr v"
  define lt where "lt = node_less k acc (Suc d) v u"
  define nr fr where "nr = (if lt then l else r)" and "fr = (if lt then r else l)"
  have at: "node_at T ((\<not> lt) # ?q) = nr" "node_at T (lt # ?q) = fr"
    using KNode.prems(1) by (simp_all add: nr_def fr_def del: node_at.simps) (simp_all)
  have ne: "At ?q \<noteq> cur" using outside_self [OF KNode.prems(3)] .
  have step: "?P (At ?q, pp, Suc d, s) = ?P (near_step k acc pr v T ?q u pp (Suc d) s)" for pp s
    by (rule near_probe_step [OF ne KNode.prems(1)])
  have sub: "?P (At (c # ?q), At ?q, Suc (Suc d), s) = ?P (At ?q, At (c # ?q), Suc d, ?V (c # ?q) (Suc (Suc d)) x s)"
    if "x = (if c then r else l)" "x \<noteq> KNil" for c x s
    using KNode.IH(1) [of c ?q] KNode.IH(2) [of c ?q] KNode.prems(1) outside_child [OF KNode.prems(3)] that
    by (cases c) auto
  have ch: "kd_child T (\<not> lt) ?q = (if nr = KNil then Null else At ((\<not> lt) # ?q))"
    "kd_child T lt ?q = (if fr = KNil then Null else At (lt # ?q))"
    unfolding kd_child_def at by (simp_all add: is_KNil_def)
  note near_step = near_step_def [of k acc pr v T ?q u _ "Suc d", folded lt_def, unfolded Let_def ch]
  have up: "?P (At ?q, At (c # ?q), Suc d, s) = ?P (At p, At ?q, d, s)"
    if "c = lt \<or> fr = KNil \<or> \<not> near_plane k acc v (Suc d) u (nr_max s)" for c s
    using that unfolding step near_step by auto
  have far: "?P (At (lt # ?q), At ?q, Suc (Suc d), s) = ?P (At p, At ?q, d, ?V (lt # ?q) (Suc (Suc d)) fr s)"
    if "fr \<noteq> KNil" for s
    using sub [of fr lt s] up [of lt] that by (simp add: fr_def)
  define s1 s2 where "s1 = near_test k acc pr v ?q (Suc d) u s" and "s2 = ?V ((\<not> lt) # ?q) (Suc (Suc d)) nr s1"
  have visit: "?V ?q (Suc d) (KNode l u r) s =
      (if near_plane k acc v (Suc d) u (nr_max s2) then ?V (lt # ?q) (Suc (Suc d)) fr s2 else s2)"
    by (simp add: Let_def lt_def [symmetric] s1_def s2_def nr_def fr_def)
  have tail: "?P (At ?q, At ((\<not> lt) # ?q), Suc d, s2) = ?P (At p, At ?q, d, ?V ?q (Suc d) (KNode l u r) s)" if "nr \<noteq> KNil"
  proof (cases "fr \<noteq> KNil \<and> near_plane k acc v (Suc d) u (nr_max s2)")
    case True
    have "?P (At ?q, At ((\<not> lt) # ?q), Suc d, s2) = ?P (At (lt # ?q), At ?q, Suc (Suc d), s2)"
      using True that unfolding step near_step by simp
    then show ?thesis using far True visit by simp
  next
    case False
    then have "?V ?q (Suc d) (KNode l u r) s = s2" using visit by auto
    then show ?thesis using up [of "\<not> lt" s2] False by auto
  qed
  show ?case
  proof (cases "nr = KNil")
    case False
    have "?P (At ?q, At p, Suc d, s) = ?P (At ((\<not> lt) # ?q), At ?q, Suc (Suc d), s1)"
      using False unfolding step near_step s1_def by simp
    also have "\<dots> = ?P (At ?q, At ((\<not> lt) # ?q), Suc d, s2)"
      unfolding s2_def by (rule sub [OF _ False]) (simp add: nr_def)
    also note tail [OF False]
    finally show ?thesis .
  next
    case True
    then have s2: "s2 = s1" by (simp add: s2_def)
    show ?thesis
      using far [of s1] True visit unfolding step near_step s1_def [symmetric] s2 by auto
  qed
qed simp

text \<open>The whole search: the descent with its tests, and on the way back the subtrees left aside.\<close>

fun kd_search :: "nat \<Rightarrow> ('v \<Rightarrow> nat \<Rightarrow> fp) \<Rightarrow> ('v \<Rightarrow> bool) \<Rightarrow> 'v \<Rightarrow> kdpath \<Rightarrow> nat \<Rightarrow> 'v kdnode \<Rightarrow> near \<Rightarrow> near" where
  "kd_search k acc pr v p d KNil s = s"
| "kd_search k acc pr v p d (KNode l u r) s =
     (if node_less k acc d v u
      then let s1 = (case l of KNil \<Rightarrow> s
             | KNode _ w _ \<Rightarrow> kd_search k acc pr v (False # p) (Suc d) l (near_test k acc pr v (False # p) (Suc d) w s))
           in if near_plane k acc v d u (nr_max s1) then kd_visit k acc pr v (True # p) (Suc d) r s1 else s1
      else let s1 = (case r of KNil \<Rightarrow> s
             | KNode _ w _ \<Rightarrow> kd_search k acc pr v (True # p) (Suc d) r (near_test k acc pr v (True # p) (Suc d) w s))
           in if near_plane k acc v d u (nr_max s1) then kd_visit k acc pr v (False # p) (Suc d) l s1 else s1)"

definition climb_on :: "nat \<Rightarrow> ('v \<Rightarrow> nat \<Rightarrow> fp) \<Rightarrow> ('v \<Rightarrow> bool) \<Rightarrow> 'v \<Rightarrow> 'v kdnode \<Rightarrow> kdpath \<Rightarrow> nat \<Rightarrow> near \<Rightarrow> near option" where
  "climb_on k acc pr v T p d s = (case p of [] \<Rightarrow> Some s | c # q \<Rightarrow> near_climb k acc pr v T q (d - 1) (\<not> c) s)"

lemma near_climb_visit:
  assumes "node_at T p = KNode l u r"
  shows "near_climb k acc pr v T p d b s = climb_on k acc pr v T p d
           (if near_plane k acc v d u (nr_max s) then kd_visit k acc pr v (b # p) (Suc d) (if b then r else l) s else s)"
proof (cases "(if b then r else l) \<noteq> KNil \<and> near_plane k acc v d u (nr_max s)")
  case True
  have at: "node_at T (b # p) = (if b then r else l)" using assms by simp
  have "near_probe k acc pr v T (At p) (At (b # p), At p, Suc d, s) =
        Some (kd_visit k acc pr v (b # p) (Suc d) (if b then r else l) s)"
    using near_probe_subtree [OF at] True outside_parent by (metis near_probe_stop)
  moreover have "kd_child T b p = At (b # p)" using True at by (auto simp: kd_child_def is_KNil_def)
  ultimately show ?thesis using True by (subst near_climb.simps) (simp add: assms climb_on_def)
next
  case False
  then have "\<not> (kd_child T b p \<noteq> Null \<and> near_plane k acc v d u (nr_max s))"
    using assms by (auto simp: kd_child_Null is_KNil_def)
  then have "near_climb k acc pr v T p d b s = climb_on k acc pr v T p d s"
    by (subst near_climb.simps) (auto simp: assms climb_on_def Let_def near_probe_stop)
  then show ?thesis using False by auto
qed

lemma near_descend_climb:
  assumes "node_at T p = t" and "t \<noteq> KNil"
  shows "(case near_descend k acc pr v p d t s of (s1, pl, dl) \<Rightarrow>
            case node_at T pl of KNil \<Rightarrow> None
            | KNode l u r \<Rightarrow> near_climb k acc pr v T pl dl (node_less k acc dl v u) s1) =
         climb_on k acc pr v T p d (kd_search k acc pr v p d t s)"
  using assms
proof (induction t arbitrary: p d s)
  case (KNode l u r)
  have down: "node_at T (True # p) = r" "node_at T (False # p) = l" using KNode.prems(1) by simp_all
  have up: "climb_on k acc pr v T (b # p) (Suc d) s = near_climb k acc pr v T p d (\<not> b) s" for b s
    by (simp add: climb_on_def)
  note climb = near_climb_visit [OF KNode.prems(1)]
  show ?case
  proof (cases "node_less k acc d v u")
    case True
    then show ?thesis
    proof (cases l)
      case KNil
      then show ?thesis using True KNode.prems(1) climb by simp
    next
      case (KNode l1 w r1)
      then show ?thesis using True KNode.IH(1) [OF down(2)] up climb by (simp add: Let_def)
    qed
  next
    case False
    then show ?thesis
    proof (cases r)
      case KNil
      then show ?thesis using False KNode.prems(1) climb by simp
    next
      case (KNode l1 w r1)
      then show ?thesis using False KNode.IH(2) [OF down(1)] up climb by (simp add: Let_def)
    qed
  qed
qed simp

lemma node_nearest_search:
  "T \<noteq> KNil \<Longrightarrow> node_nearest k acc pr v T best m =
   Some (kd_search k acc pr v [] 0 T \<lparr>nr_best = best, nr_max = m, nr_dim = 0\<rparr>)"
  using near_descend_climb [of T "[]" T k acc pr v 0] by (simp add: node_nearest_def climb_on_def)

subsection \<open>Distances are ordered\<close>

lemma F32_ok [simp]: "fmt_ok F32"
  by simp

fun fval :: "fp \<Rightarrow> rat" where
  "fval (Fin s a) = sval s a"
| "fval x = 0"

lemma squared_difference_fin:
  assumes "isfin a" and "isfin b"
  shows "squared_difference a b =
         (let d = fround F32 False \<bar>fval a - fval b\<bar> in fmul F32 d d)"
proof -
  obtain s where "fsub F32 a b = fround F32 s \<bar>fval a - fval b\<bar>"
    using fsub_fin [of a b F32] assms by (cases a; cases b) auto
  then show ?thesis using square_fround [OF F32_ok, of "\<bar>fval a - fval b\<bar>" s]
    by (simp add: squared_difference_def Let_def)
qed

lemma squared_difference_sym: "isfin a \<Longrightarrow> isfin b \<Longrightarrow> squared_difference a b = squared_difference b a"
  by (simp add: squared_difference_fin abs_minus_commute)

lemma squared_difference_fnn: "isfin a \<Longrightarrow> isfin b \<Longrightarrow> fnn F32 (squared_difference a b)"
  by (simp add: squared_difference_fin Let_def square_fnn fnn_fround)

text \<open>A plane between two points is no farther from one than the other point is.\<close>

lemma squared_difference_between:
  assumes "isfin v" and "isfin n" and "isfin p"
    and "flt v n \<and> \<not> flt p n \<or> \<not> flt v n \<and> \<not> flt n p"
  shows "fle (squared_difference v n) (squared_difference v p)"
proof -
  have "\<bar>fval v - fval n\<bar> \<le> \<bar>fval v - fval p\<bar>"
    using assms by (cases v; cases n; cases p) auto
  then show ?thesis
    using assms by (simp add: squared_difference_fin Let_def square_mono fnn_fround fround_mono)
qed

definition fin_coords :: "nat \<Rightarrow> ('v \<Rightarrow> nat \<Rightarrow> fp) \<Rightarrow> 'v \<Rightarrow> bool" where
  "fin_coords k acc v \<longleftrightarrow> (\<forall>i < k. isfin (acc v i))"

lemma node_distance_fnn:
  "fin_coords k acc a \<Longrightarrow> fin_coords k acc b \<Longrightarrow> i < k \<Longrightarrow> fnn F32 (node_distance i acc a b)"
  by (simp add: node_distance_def fin_coords_def squared_difference_fnn)

lemma acc_distance_Suc:
  "acc_distance (Suc k) acc a b = fadd F32 (acc_distance k acc a b) (node_distance k acc a b)"
  by (simp add: acc_distance_def)

lemma fin_coords_Suc: "fin_coords (Suc k) acc v \<Longrightarrow> fin_coords k acc v"
  by (simp add: fin_coords_def)

lemma acc_distance_sym:
  "fin_coords k acc a \<Longrightarrow> fin_coords k acc b \<Longrightarrow> acc_distance k acc a b = acc_distance k acc b a"
proof (induction k)
  case (Suc k)
  then show ?case
    using squared_difference_sym [of "acc a k" "acc b k"]
    by (simp add: acc_distance_Suc fin_coords_Suc node_distance_def) (simp add: fin_coords_def)
qed (simp add: acc_distance_def)

lemma acc_distance_fnn:
  "fin_coords k acc a \<Longrightarrow> fin_coords k acc b \<Longrightarrow> fnn F32 (acc_distance k acc a b)"
proof (induction k)
  case (Suc k)
  then show ?case
    by (simp add: acc_distance_Suc fadd_fnn(1) fin_coords_Suc node_distance_fnn [of "Suc k"])
qed (simp add: acc_distance_def)

lemma acc_distance_ge:
  "fin_coords k acc a \<Longrightarrow> fin_coords k acc b \<Longrightarrow> i < k \<Longrightarrow>
   fle (node_distance i acc a b) (acc_distance k acc a b)"
proof (induction k)
  case (Suc k)
  have n: "fnn F32 (acc_distance k acc a b)" "fnn F32 (node_distance k acc a b)"
    using Suc.prems by (simp_all add: acc_distance_fnn fin_coords_Suc node_distance_fnn [of "Suc k"])
  show ?case
  proof (cases "i = k")
    case True
    then show ?thesis using fadd_fnn(3) [OF F32_ok n] by (simp add: acc_distance_Suc)
  next
    case False
    then have "fle (node_distance i acc a b) (acc_distance k acc a b)" using Suc by (simp add: fin_coords_Suc)
    then show ?thesis unfolding acc_distance_Suc using fadd_fnn(2) [OF F32_ok n] by (rule fle_trans)
  qed
qed simp

lemma kd_dist_not_nan: "fin_coords k acc a \<Longrightarrow> fin_coords k acc b \<Longrightarrow> kd_dist k acc a b \<noteq> NaN"
  by (simp add: kd_dist_def acc_distance_fnn fsqrt_not_nan)

text \<open>What lies on the far side of a plane is at least as far as the plane.\<close>

lemma far_side:
  assumes "0 < k" and "fin_coords k acc v" and "fin_coords k acc u" and "fin_coords k acc w"
    and "node_less k acc d v u \<and> \<not> node_less k acc d w u \<or> \<not> node_less k acc d v u \<and> \<not> node_less k acc d u w"
  shows "fle (fsqrt F32 (node_distance (d mod k) acc v u)) (kd_dist k acc v w)"
proof -
  let ?i = "d mod k"
  have i: "?i < k" using assms(1) by simp
  have "fle (node_distance ?i acc v u) (node_distance ?i acc v w)"
    using assms i unfolding node_distance_def
    by (intro squared_difference_between) (auto simp: fin_coords_def node_less_def)
  also have "fle \<dots> (acc_distance k acc v w)" using assms i by (intro acc_distance_ge)
  finally show ?thesis
    using assms i by (simp add: kd_dist_def fsqrt_mono node_distance_fnn acc_distance_fnn)
qed

subsection \<open>The search finds a least distance\<close>

fun kd_nodes :: "kdpath \<Rightarrow> 'v kdnode \<Rightarrow> (kdpath \<times> 'v) set" where
  "kd_nodes p KNil = {}"
| "kd_nodes p (KNode l u r) = insert (p, u) (kd_nodes (False # p) l \<union> kd_nodes (True # p) r)"

lemma kd_nodes_values: "snd ` kd_nodes p t = set_kdnode t"
  by (induction t arbitrary: p) (auto simp: image_Un)

lemma kd_nodes_at: "(q, u) \<in> kd_nodes p t \<Longrightarrow> node_at T p = t \<Longrightarrow> \<exists>l r. node_at T q = KNode l u r"
proof (induction t arbitrary: p)
  case (KNode l w r)
  have down: "node_at T (True # p) = r" "node_at T (False # p) = l" using KNode.prems(2) by simp_all
  show ?case using KNode.prems KNode.IH(1) [OF _ down(2)] KNode.IH(2) [OF _ down(1)] by auto
qed simp

text \<open>
  What a part of the search does to the best so far when it looks at the nodes \<open>N\<close>: the distance
  does not grow, no node of \<open>N\<close> is nearer, and the best is one of \<open>N\<close> with its distance, or the
  old one when all of \<open>N\<close> is farther.
\<close>

definition looked_at :: "nat \<Rightarrow> ('v \<Rightarrow> nat \<Rightarrow> fp) \<Rightarrow> ('v \<Rightarrow> bool) \<Rightarrow> 'v \<Rightarrow> (kdpath \<times> 'v) set \<Rightarrow> near \<Rightarrow> near \<Rightarrow> bool" where
  "looked_at k acc pr v N s s' \<longleftrightarrow>
     fle (nr_max s') (nr_max s) \<and>
     (nr_best s' = nr_best s \<and> nr_max s' = nr_max s \<and>
        (\<forall>(q, u) \<in> N. pr u \<longrightarrow> \<not> fle (kd_dist k acc v u) (nr_max s)) \<or>
      (\<exists>(q, u) \<in> N. pr u \<and> nr_best s' = At q \<and> nr_max s' = kd_dist k acc v u)) \<and>
     (\<forall>(q, u) \<in> N. pr u \<longrightarrow> fle (nr_max s') (kd_dist k acc v u))"

lemma looked_at_nothing: "nr_max s \<noteq> NaN \<Longrightarrow> looked_at k acc pr v {} s s"
  by (simp add: looked_at_def)

lemma looked_at_trans:
  assumes a: "looked_at k acc pr v N s s1" and b: "looked_at k acc pr v M s1 s2"
  shows "looked_at k acc pr v (N \<union> M) s s2"
proof -
  have "fle (nr_max s2) (nr_max s1)" "fle (nr_max s1) (nr_max s)" using a b by (auto simp: looked_at_def)
  then have "fle (nr_max s2) (nr_max s)" and "\<forall>x. fle (nr_max s1) x \<longrightarrow> fle (nr_max s2) x"
    using fle_trans by blast+
  moreover have "nr_best s2 = nr_best s \<and> nr_max s2 = nr_max s \<and>
        (\<forall>(q, u) \<in> N \<union> M. pr u \<longrightarrow> \<not> fle (kd_dist k acc v u) (nr_max s)) \<or>
      (\<exists>(q, u) \<in> N \<union> M. pr u \<and> nr_best s2 = At q \<and> nr_max s2 = kd_dist k acc v u)"
  proof (cases "nr_best s2 = nr_best s1 \<and> nr_max s2 = nr_max s1 \<and>
      (\<forall>(q, u) \<in> M. pr u \<longrightarrow> \<not> fle (kd_dist k acc v u) (nr_max s1))")
    case True
    then show ?thesis using a unfolding looked_at_def by auto
  next
    case False
    then show ?thesis using b unfolding looked_at_def by blast
  qed
  ultimately show ?thesis using a b unfolding looked_at_def by auto
qed

lemma looked_at_test:
  "nr_max s \<noteq> NaN \<Longrightarrow> kd_dist k acc v u \<noteq> NaN \<Longrightarrow>
   looked_at k acc pr v {(p, u)} s (near_test k acc pr v p d u s)"
  using fle_linear by (auto simp: looked_at_def near_test_def)

text \<open>A side that the plane test leaves out holds nothing nearer.\<close>

lemma looked_at_skip:
  assumes "nr_max s \<noteq> NaN" and "\<forall>(q, w) \<in> N. fle m (kd_dist k acc v w)" and "\<not> fle m (nr_max s)"
  shows "looked_at k acc pr v N s s"
proof -
  have "fle (nr_max s) (kd_dist k acc v w) \<and> \<not> fle (kd_dist k acc v w) (nr_max s)" if "(q, w) \<in> N" for q w
  proof -
    have m: "fle m (kd_dist k acc v w)" using assms(2) that by auto
    then have "fle (nr_max s) m" using assms(1,3) fle_linear fle_not_nan by blast
    then show ?thesis using m assms(3) fle_trans by blast
  qed
  then show ?thesis using assms(1) by (auto simp: looked_at_def)
qed

lemma looked_at_max: "looked_at k acc pr v N s s' \<Longrightarrow> nr_max s' \<noteq> NaN"
  using fle_not_nan by (auto simp: looked_at_def)

definition searchable :: "nat \<Rightarrow> ('v \<Rightarrow> nat \<Rightarrow> fp) \<Rightarrow> 'v \<Rightarrow> nat \<Rightarrow> 'v kdnode \<Rightarrow> bool" where
  "searchable k acc v d t \<longleftrightarrow>
     0 < k \<and> fin_coords k acc v \<and> (\<forall>u \<in> set_kdnode t. fin_coords k acc u) \<and> check_node k acc t d"

lemma searchable_child:
  "searchable k acc v d (KNode l u r) \<Longrightarrow>
   searchable k acc v (Suc d) l \<and> searchable k acc v (Suc d) r \<and> kd_dist k acc v u \<noteq> NaN"
  by (simp add: searchable_def kd_dist_not_nan)

lemma searchable_far:
  assumes "searchable k acc v d (KNode l u r)"
    and "(q, w) \<in> kd_nodes p (if node_less k acc d v u then r else l)"
  shows "fle (fsqrt F32 (node_distance (d mod k) acc v u)) (kd_dist k acc v w)"
proof -
  have "w \<in> set_kdnode (if node_less k acc d v u then r else l)"
    using assms(2) kd_nodes_values by (metis image_eqI snd_conv)
  then show ?thesis using assms(1)
    by (intro far_side) (auto simp: searchable_def check_children_iff split: if_splits)
qed

lemma looked_at_far:
  assumes "searchable k acc v d (KNode l u r)" and "t = (if node_less k acc d v u then r else l)"
    and "nr_max s \<noteq> NaN" and "looked_at k acc pr v (kd_nodes p t) s s'"
  shows "looked_at k acc pr v (kd_nodes p t) s (if near_plane k acc v d u (nr_max s) then s' else s)"
proof (cases "near_plane k acc v d u (nr_max s)")
  case False
  then have "looked_at k acc pr v (kd_nodes p t) s s"
    using assms(2,3) searchable_far [OF assms(1), of _ _ p]
    by (intro looked_at_skip [where m = "fsqrt F32 (node_distance (d mod k) acc v u)"]) (auto simp: near_plane_def)
  then show ?thesis using False by simp
qed (use assms(4) in simp)

lemma kd_visit_looked_at:
  "searchable k acc v d t \<Longrightarrow> nr_max s \<noteq> NaN \<Longrightarrow>
   looked_at k acc pr v (kd_nodes p t) s (kd_visit k acc pr v p d t s)"
proof (induction t arbitrary: p d s)
  case KNil
  then show ?case by (simp add: looked_at_nothing)
next
  case (KNode l u r)
  let ?L = "looked_at k acc pr v" and ?V = "kd_visit k acc pr v"
  note ch = searchable_child [OF KNode.prems(1)]
  define lt where "lt = node_less k acc d v u"
  define nr fr where "nr = (if lt then l else r)" and "fr = (if lt then r else l)"
  define s1 where "s1 = near_test k acc pr v p d u s"
  define s2 where "s2 = ?V ((\<not> lt) # p) (Suc d) nr s1"
  define s3 where "s3 = ?V (lt # p) (Suc d) fr s2"
  have 1: "?L {(p, u)} s s1" unfolding s1_def using KNode.prems(2) ch by (intro looked_at_test) auto
  have 2: "?L (kd_nodes ((\<not> lt) # p) nr) s1 s2"
    unfolding s2_def nr_def using KNode.IH ch looked_at_max [OF 1] by (cases lt) auto
  have "?L (kd_nodes (lt # p) fr) s2 s3"
    unfolding s3_def fr_def using KNode.IH ch looked_at_max [OF 2] by (cases lt) auto
  then have 3: "?L (kd_nodes (lt # p) fr) s2 (if near_plane k acc v d u (nr_max s2) then s3 else s2)"
    using looked_at_max [OF 2] by (intro looked_at_far [OF KNode.prems(1)]) (simp_all add: fr_def lt_def)
  have "kd_visit k acc pr v p d (KNode l u r) s = (if near_plane k acc v d u (nr_max s2) then s3 else s2)"
    by (simp add: Let_def lt_def [symmetric] s1_def s2_def s3_def nr_def fr_def)
  moreover have "kd_nodes p (KNode l u r) = {(p, u)} \<union> kd_nodes ((\<not> lt) # p) nr \<union> kd_nodes (lt # p) fr"
    by (auto simp: nr_def fr_def)
  ultimately show ?case using looked_at_trans [OF looked_at_trans [OF 1 2] 3] by simp
qed

lemma kd_search_looked_at:
  "searchable k acc v d t \<Longrightarrow> nr_max s \<noteq> NaN \<Longrightarrow>
   case t of KNil \<Rightarrow> True | KNode l u r \<Rightarrow>
     looked_at k acc pr v (kd_nodes (False # p) l \<union> kd_nodes (True # p) r) s (kd_search k acc pr v p d t s)"
proof (induction t arbitrary: p d s)
  case KNil
  then show ?case by simp
next
  case (KNode l u r)
  let ?L = "looked_at k acc pr v"
  note ch = searchable_child [OF KNode.prems(1)]
  define lt where "lt = node_less k acc d v u"
  define nr fr where "nr = (if lt then l else r)" and "fr = (if lt then r else l)"
  define q where "q = (\<not> lt) # p"
  define s1 where "s1 = (case nr of KNil \<Rightarrow> s
    | KNode _ w _ \<Rightarrow> kd_search k acc pr v q (Suc d) nr (near_test k acc pr v q (Suc d) w s))"
  define s2 where "s2 = kd_visit k acc pr v (lt # p) (Suc d) fr s1"
  have 1: "?L (kd_nodes q nr) s s1"
  proof (cases nr)
    case KNil
    then show ?thesis using KNode.prems(2) by (simp add: s1_def looked_at_nothing)
  next
    case n: (KNode l1 w r1)
    have sn: "searchable k acc v (Suc d) (KNode l1 w r1)" using ch n by (auto simp: nr_def split: if_splits)
    have t: "?L {(q, w)} s (near_test k acc pr v q (Suc d) w s)"
      using KNode.prems(2) searchable_child [OF sn] by (intro looked_at_test) auto
    have "?L (kd_nodes (False # q) l1 \<union> kd_nodes (True # q) r1) (near_test k acc pr v q (Suc d) w s)
      (kd_search k acc pr v q (Suc d) (KNode l1 w r1) (near_test k acc pr v q (Suc d) w s))"
      using KNode.IH(1) [of "Suc d" "near_test k acc pr v q (Suc d) w s" q]
        KNode.IH(2) [of "Suc d" "near_test k acc pr v q (Suc d) w s" q] n sn looked_at_max [OF t]
      by (cases lt) (simp_all add: nr_def del: kd_search.simps)
    from looked_at_trans [OF t this] show ?thesis by (simp add: s1_def n)
  qed
  have "?L (kd_nodes (lt # p) fr) s1 s2"
    unfolding s2_def fr_def using ch looked_at_max [OF 1] kd_visit_looked_at by (cases lt) auto
  then have 2: "?L (kd_nodes (lt # p) fr) s1 (if near_plane k acc v d u (nr_max s1) then s2 else s1)"
    using looked_at_max [OF 1] by (intro looked_at_far [OF KNode.prems(1)]) (simp_all add: fr_def lt_def)
  have "kd_search k acc pr v p d (KNode l u r) s = (if near_plane k acc v d u (nr_max s1) then s2 else s1)"
    by (cases lt) (simp_all add: Let_def lt_def [symmetric] s1_def s2_def nr_def fr_def q_def cong: kdnode.case_cong)
  moreover have "kd_nodes (False # p) l \<union> kd_nodes (True # p) r = kd_nodes q nr \<union> kd_nodes (lt # p) fr"
    by (auto simp: nr_def fr_def q_def)
  ultimately show ?case using looked_at_trans [OF 1 2] by simp
qed

definition kd_searchable :: "nat \<Rightarrow> ('v \<Rightarrow> nat \<Rightarrow> fp) \<Rightarrow> 'v kdtree \<Rightarrow> 'v \<Rightarrow> bool" where
  "kd_searchable k acc t v \<longleftrightarrow>
     0 < k \<and> kd_wf k acc t \<and> fin_coords k acc v \<and> (\<forall>u \<in> set_kdnode (kd_root t). fin_coords k acc u)"

lemma kd_searchable_root: "kd_searchable k acc t v \<Longrightarrow> searchable k acc v 0 (kd_root t)"
  by (simp add: kd_searchable_def searchable_def kd_wf_def check_tree_def)

lemma node_nearest_looked_at:
  assumes "kd_searchable k acc t v" and "kd_root t = KNode l u r" and "m \<noteq> NaN"
  obtains s where "node_nearest k acc pr v (kd_root t) best m = Some s"
    and "looked_at k acc pr v (kd_nodes [False] l \<union> kd_nodes [True] r) \<lparr>nr_best = best, nr_max = m, nr_dim = 0\<rparr> s"
  using node_nearest_search [of "kd_root t"] kd_search_looked_at [OF kd_searchable_root [OF assms(1)]] assms(2,3) that
  by (auto simp del: kd_search.simps)

lemma root_distance:
  assumes "kd_searchable k acc t v" and "kd_root t = KNode l u r"
  shows "fsqrt F32 (acc_distance k acc u v) = kd_dist k acc v u" and "kd_dist k acc v u \<noteq> NaN"
  using assms acc_distance_sym [of k acc u v] kd_dist_not_nan [of k acc v u]
  by (simp_all add: kd_searchable_def kd_dist_def)

lemma below_root:
  assumes "kd_root t = KNode l u r" and "(q, w) \<in> kd_nodes [False] l \<union> kd_nodes [True] r"
  shows "\<exists>l r. node_at (kd_root t) q = KNode l w r" and "q \<noteq> []" and "w \<in> set_kdnode l \<union> set_kdnode r"
proof -
  show "\<exists>l r. node_at (kd_root t) q = KNode l w r"
    using assms kd_nodes_at [of q w "[False]" l "kd_root t"] kd_nodes_at [of q w "[True]" r "kd_root t"] by auto
  have "(q, w) \<in> kd_nodes (b # p) x \<Longrightarrow> q \<noteq> []" for b p and x :: "'a kdnode"
    by (induction x arbitrary: b p) auto
  then show "q \<noteq> []" using assms(2) by blast
  show "w \<in> set_kdnode l \<union> set_kdnode r"
    using assms(2) kd_nodes_values [of "[False]" l] kd_nodes_values [of "[True]" r] by (force simp: image_iff)
qed

lemma below_root_ex:
  "w \<in> set_kdnode l \<union> set_kdnode r \<Longrightarrow> \<exists>q. (q, w) \<in> kd_nodes [False] l \<union> kd_nodes [True] r"
  using kd_nodes_values [of "[False]" l] kd_nodes_values [of "[True]" r] by (force simp: image_iff)

lemma find_nearest_least:
  assumes "kd_searchable k acc t v" and "kd_root t \<noteq> KNil"
  shows "\<exists>q l u r. find_nearest k acc t v = Some (At q, kd_dist k acc v u) \<and> node_at (kd_root t) q = KNode l u r \<and>
           (\<forall>w \<in> set_kdnode (kd_root t). fle (kd_dist k acc v u) (kd_dist k acc v w))"
proof -
  obtain l u r where t: "kd_root t = KNode l u r" using assms(2) by (cases "kd_root t") auto
  note dist = root_distance [OF assms(1) t]
  obtain s where s: "node_nearest k acc (\<lambda>_. True) v (kd_root t) (At []) (kd_dist k acc v u) = Some s"
    and at: "looked_at k acc (\<lambda>_. True) v (kd_nodes [False] l \<union> kd_nodes [True] r)
       \<lparr>nr_best = At [], nr_max = kd_dist k acc v u, nr_dim = 0\<rparr> s"
    using node_nearest_looked_at [OF assms(1) t dist(2)] by blast
  have "find_nearest k acc t v = Some (nr_best s, nr_max s)" using s t dist(1) by (simp add: find_nearest_def)
  moreover have "\<forall>w \<in> set_kdnode (kd_root t). fle (nr_max s) (kd_dist k acc v w)"
    using at below_root_ex [of _ l r] t by (fastforce simp: looked_at_def)
  moreover have "\<exists>q l u r. nr_best s = At q \<and> nr_max s = kd_dist k acc v u \<and> node_at (kd_root t) q = KNode l u r"
    using at below_root(1) [OF t] t unfolding looked_at_def by fastforce
  ultimately show ?thesis by force
qed

text \<open>With a bound: the nearest value within the bound, or the end when there is none.\<close>

lemma find_nearest_max_least:
  assumes "kd_searchable k acc t v" and "kd_root t \<noteq> KNil" and "m \<noteq> NaN"
  shows "(\<exists>q l u r. find_nearest_max k acc t v m = Some (At q, kd_dist k acc v u) \<and>
             node_at (kd_root t) q = KNode l u r \<and> fle (kd_dist k acc v u) m \<and>
             (\<forall>w \<in> set_kdnode (kd_root t). fle (kd_dist k acc v u) (kd_dist k acc v w))) \<or>
         find_nearest_max k acc t v m = Some (Header, m) \<and>
           (\<forall>w \<in> set_kdnode (kd_root t). \<not> fle (kd_dist k acc v w) m)"
proof -
  obtain l u r where t: "kd_root t = KNode l u r" using assms(2) by (cases "kd_root t") auto
  note dist = root_distance [OF assms(1) t]
  define cand where "cand = fle (kd_dist k acc v u) m"
  define m' where "m' = (if cand then kd_dist k acc v u else m)"
  let ?N = "kd_nodes [False] l \<union> kd_nodes [True] r"
  have m': "m' \<noteq> NaN" "fle m' m" "fle m' (kd_dist k acc v u)"
    using assms(3) dist(2) fle_linear [of m "kd_dist k acc v u"] by (auto simp: m'_def cand_def)
  then obtain s where s: "node_nearest k acc (\<lambda>_. True) v (kd_root t) (At []) m' = Some s"
    and at: "looked_at k acc (\<lambda>_. True) v ?N \<lparr>nr_best = At [], nr_max = m', nr_dim = 0\<rparr> s"
    using node_nearest_looked_at [OF assms(1) t] by blast
  have res: "find_nearest_max k acc t v m =
      Some (if cand \<or> nr_best s \<noteq> At [] then (nr_best s, nr_max s) else (Header, m'))"
    unfolding find_nearest_max_def t kdnode.case Let_def dist(1) cand_def [symmetric] m'_def [symmetric]
    using s [unfolded t] by simp
  have max: "fle (nr_max s) m'" using at by (simp add: looked_at_def)
  have le: "fle (nr_max s) (kd_dist k acc v w)" if "w \<in> set_kdnode (kd_root t)" for w
    using that at below_root_ex [of w l r] t fle_trans [OF max m'(3)] by (auto simp: looked_at_def)
  consider (same) "nr_best s = At []" "nr_max s = m'" "\<forall>(q, w) \<in> ?N. \<not> fle (kd_dist k acc v w) m'"
    | (below) q w where "(q, w) \<in> ?N" "nr_best s = At q" "nr_max s = kd_dist k acc v w"
    using at by (auto simp: looked_at_def)
  then show ?thesis
  proof cases
    case below
    then show ?thesis using res le fle_trans [OF max m'(2)] below_root(1,2) [OF t below(1)] by auto
  next
    case same
    show ?thesis
    proof (cases cand)
      case True
      then show ?thesis using res same le fle_trans [OF max m'(2)] t by (auto simp: m'_def intro!: exI [of _ "[]"])
    next
      case False
      have "\<not> fle (kd_dist k acc v w) m" if "w \<in> set_kdnode (kd_root t)" for w
        using that same(3) below_root_ex [of w l r] t False by (auto simp: m'_def cand_def)
      then show ?thesis using res same False by (simp add: m'_def)
    qed
  qed
qed

text \<open>
  \<open>find_nearest_if\<close> leaves the bound as it is when the root is a candidate (the assignment is the
  wrong way round), so that any other value within the bound takes the root's place.
\<close>

lemma find_nearest_if_root_lost:
  assumes "kd_searchable k acc t v" and "kd_root t = KNode l u r" and "m \<noteq> NaN"
    and "w \<in> set_kdnode l \<union> set_kdnode r" and "pr w" and "fle (kd_dist k acc v w) m"
  shows "\<exists>q x. q \<noteq> [] \<and> find_nearest_if k acc t v m pr = Some (At q, kd_dist k acc v x) \<and>
               x \<in> set_kdnode l \<union> set_kdnode r"
proof -
  let ?N = "kd_nodes [False] l \<union> kd_nodes [True] r"
  obtain s where s: "node_nearest k acc pr v (kd_root t) (At []) m = Some s"
    and at: "looked_at k acc pr v ?N \<lparr>nr_best = At [], nr_max = m, nr_dim = 0\<rparr> s"
    using node_nearest_looked_at [OF assms(1,2,3)] by blast
  obtain q' where "(q', w) \<in> ?N" using below_root_ex [OF assms(4)] by blast
  then obtain q x where "(q, x) \<in> ?N" "nr_best s = At q" "nr_max s = kd_dist k acc v x"
    using at assms(5,6) by (fastforce simp: looked_at_def)
  then show ?thesis using s assms(2) below_root(2,3) [OF assms(2)]
    by (intro exI [of _ q] exI [of _ x]) (auto simp: find_nearest_if_def Let_def)
qed

lemma node_at_value: "node_at t q = KNode l u r \<Longrightarrow> u \<in> set_kdnode t"
proof -
  have "set_kdnode (node_at t q) \<subseteq> set_kdnode t" for t :: "'v kdnode" and q
    by (induction q) (auto split: kdnode.splits if_splits)
  then show "node_at t q = KNode l u r \<Longrightarrow> u \<in> set_kdnode t" by (metis insertI1 insert_subset kdnode.simps(15) subsetD kdnode.set_intros(2))
qed

section \<open>Properties\<close>

lemma kd_built:
  assumes "\<forall>le m (xs :: 'v list). mset (nthe le m xs) = mset xs"
  shows "\<exists>t. kd_optimise k acc nthe (kd_insert_range k acc pts kd_empty) = Some t \<and> kd_wf k acc t \<and>
           mset (kd_inorder (kd_root t)) = mset pts"
proof -
  have n: "nth_element nthe" using assms by (auto intro!: nth_element.intro)
  have i: "kd_wf k acc (kd_insert_range k acc pts kd_empty)"
    "mset (kd_inorder (kd_root (kd_insert_range k acc pts kd_empty))) = mset pts"
    using kd_insert_range_keeps [OF kd_wf_empty(1), of k acc pts] by (simp_all add: kd_empty_def)
  show ?thesis using nth_element.kd_optimise_keeps [OF n i(1)] i(2) by simp
qed

lemma nearest_built:
  assumes "\<forall>le m (xs :: 'v list). mset (nthe le m xs) = mset xs"
    and "0 < k" and "fin_coords k acc v" and "\<forall>p \<in> set pts. fin_coords k acc p" and "pts \<noteq> []"
  shows "\<exists>t q l u r. kd_optimise k acc nthe (kd_insert_range k acc pts kd_empty) = Some t \<and>
           find_nearest k acc t v = Some (At q, kd_dist k acc v u) \<and> node_at (kd_root t) q = KNode l u r \<and>
           u \<in> set pts \<and> (\<forall>p \<in> set pts. fle (kd_dist k acc v u) (kd_dist k acc v p))"
proof -
  obtain t where t: "kd_optimise k acc nthe (kd_insert_range k acc pts kd_empty) = Some t" "kd_wf k acc t"
    "mset (kd_inorder (kd_root t)) = mset pts"
    using kd_built [OF assms(1)] by blast
  have vs: "set_kdnode (kd_root t) = set pts" using t(3) by (metis set_kd_inorder set_mset_mset)
  then have "kd_searchable k acc t v" "kd_root t \<noteq> KNil" using assms t(2) by (auto simp: kd_searchable_def)
  from find_nearest_least [OF this] obtain q l u r where
    n: "find_nearest k acc t v = Some (At q, kd_dist k acc v u)" "node_at (kd_root t) q = KNode l u r"
    "\<forall>p \<in> set pts. fle (kd_dist k acc v u) (kd_dist k acc v p)"
    unfolding vs by blast
  then have "u \<in> set pts" using vs node_at_value [of "kd_root t" q l u r] by simp
  then show ?thesis using t(1) n
    by (intro exI [of _ t] exI [of _ q] exI [of _ l] exI [of _ u] exI [of _ r]) simp
qed

text \<open>Coordinates for the witnesses: integers of a list.\<close>

definition int_coord :: "int list \<Rightarrow> nat \<Rightarrow> fp" where
  "int_coord v i = Fin (v ! i < 0) \<bar>of_int (v ! i)\<bar>"

lemma int_coord_fin [simp]: "fin_coords k int_coord v"
  by (simp add: fin_coords_def int_coord_def)

text \<open>Inserting points into an empty tree and rebuilding it, with any \<open>nth_element\<close> that permutes
  its range, ends and gives a tree that passes \<open>check_tree\<close>, has the right count, and whose
  iteration, from the leftmost node by in-order successors to the header, lists these points.
\<close>

lemma kd_build_ok:
  assumes "\<forall>le m (xs :: 'v list). mset (nthe le m xs) = mset xs"
  shows "\<exists>t vs. kd_optimise k acc nthe (kd_insert_range k acc pts kd_empty) = Some t \<and>
           check_tree k acc t \<and> kd_count t = length pts \<and> kd_values t = Some vs \<and> mset vs = mset pts"
proof -
  obtain t where t: "kd_optimise k acc nthe (kd_insert_range k acc pts kd_empty) = Some t" "kd_wf k acc t"
    "mset (kd_inorder (kd_root t)) = mset pts"
    using kd_built [OF assms] by blast
  have "kd_count t = size (mset (kd_inorder (kd_root t)))" using t(2) by (simp add: kd_wf_def)
  then show ?thesis using t kd_values_inorder [OF t(2)] by (simp add: kd_wf_def)
qed

text \<open>C4: The nearest-neighbour search returns, for a tree built from points with finite coordinates, a
  node whose value is one of the points and whose distance, with the code's rounding, is the one
  returned and is at most that of every point. The pointer loops end, and the plane tests leave out
  no nearer point in spite of rounding and overflow.
\<close>

theorem find_nearest_built:
  assumes "\<forall>le m (xs :: 'v list). mset (nthe le m xs) = mset xs"
    and "0 < k" and "fin_coords k acc v" and "\<forall>p \<in> set pts. fin_coords k acc p" and "pts \<noteq> []"
  shows "\<exists>t q l u r. kd_optimise k acc nthe (kd_insert_range k acc pts kd_empty) = Some t \<and>
           find_nearest k acc t v = Some (At q, kd_dist k acc v u) \<and> node_at (kd_root t) q = KNode l u r \<and>
           u \<in> set pts \<and> (\<forall>p \<in> set pts. fle (kd_dist k acc v u) (kd_dist k acc v p))"
  using assms by (rule nearest_built)

theorem find_nearest_built_witness:
  "\<exists>t q l u r. kd_optimise 2 int_coord nth_by_sorting (kd_insert_range 2 int_coord [[3, 1], [1, 2]] kd_empty) = Some t \<and>
     find_nearest 2 int_coord t [2, 2] = Some (At q, kd_dist 2 int_coord [2, 2] u) \<and>
     node_at (kd_root t) q = KNode l u r \<and> u \<in> set [[3, 1], [1, 2]] \<and>
     (\<forall>p \<in> set [[3, 1], [1, 2]]. fle (kd_dist 2 int_coord [2, 2] u) (kd_dist 2 int_coord [2, 2] p))"
  by (rule find_nearest_built) (simp_all add: nth_sorted.nthe_mset)

text \<open>\<open>find_nearest_if\<close> can miss the nearest value: when the root is the nearest value and is within
  the bound, but another value that the predicate accepts is within the bound too, the search
  returns a node below the root with a distance greater than the root's.
\<close>

lemma find_nearest_if_misses_root:
  assumes "kd_searchable k acc t v" and "kd_root t = KNode l u r" and "pr u" and "fle (kd_dist k acc v u) m"
    and "\<forall>x \<in> set_kdnode l \<union> set_kdnode r. flt (kd_dist k acc v u) (kd_dist k acc v x)"
    and "w \<in> set_kdnode l \<union> set_kdnode r" and "pr w" and "fle (kd_dist k acc v w) m"
  shows "\<exists>q d. find_nearest_if k acc t v m pr = Some (At q, d) \<and> q \<noteq> [] \<and> flt (kd_dist k acc v u) d"
proof -
  have "m \<noteq> NaN" using assms(8) fle_not_nan by blast
  then obtain q x where "q \<noteq> []" "find_nearest_if k acc t v m pr = Some (At q, kd_dist k acc v x)"
    "x \<in> set_kdnode l \<union> set_kdnode r"
    using find_nearest_if_root_lost [where pr = pr and w = w and m = m, OF assms(1,2)] assms(6,7,8) by blast
  then show ?thesis using assms(5) by auto
qed

end
