(* ===== verification/AlignGrad.thy ===== *)
theory AlignGrad
  imports GmtlInv
begin

text \<open>
  The derivatives in \<^verbatim>\<open>core/Alignment.cpp\<close>: how the squared distance between a point and its
  match changes with the rotation and the translation. The formulas are those of the source, over
  any type with \<open>+ - *\<close>. On floats each operation rounds; over the reals, where nothing is lost,
  they are shown to be the partial derivatives of the squared distance.
\<close>

subsection \<open>Float arithmetic\<close>

text \<open>The operators on \<open>fp\<close> are those of the C++ type \<open>float\<close>.\<close>

instantiation fp :: "{plus, minus, times, uminus}"
begin

definition plus_fp :: "fp \<Rightarrow> fp \<Rightarrow> fp" where
  "plus_fp a b = addf a b"

definition minus_fp :: "fp \<Rightarrow> fp \<Rightarrow> fp" where
  "minus_fp a b = subf a b"

definition times_fp :: "fp \<Rightarrow> fp \<Rightarrow> fp" where
  "times_fp a b = mulf a b"

definition uminus_fp :: "fp \<Rightarrow> fp" where
  "uminus_fp a = fneg a"

instance ..

end

type_synonym 'a triple = "'a \<times> 'a \<times> 'a"

text \<open>Cosine and sine of the three angles.\<close>

type_synonym 'a trig = "'a \<times> 'a \<times> 'a \<times> 'a \<times> 'a \<times> 'a"

subsection \<open>Derivatives for three angles\<close>

fun derivrx :: "'a::{plus, minus, times, uminus} \<Rightarrow> 'a trig \<Rightarrow> 'a triple \<Rightarrow> 'a triple \<Rightarrow> 'a triple \<Rightarrow> 'a" where
  "derivrx c2 (cosrx, sinrx, cosry, sinry, cosrz, sinrz) (tx, ty, tz) (x_src, y_src, z_src) (x_dst, y_dst, z_dst) =
     c2 * (- tx + x_dst - cosry * x_src - sinrx * sinry * y_src - cosrx * sinry * z_src) * (- cosrx * sinry * y_src +
     sinrx * sinry * z_src) + c2 * (- (cosrx * cosry * cosrz - sinrx * sinrz) * y_src - (- cosry * cosrz * sinrx -
     cosrx * sinrz) * z_src) * (- tz + cosrz * sinry * x_src - (cosry * cosrz * sinrx + cosrx * sinrz) * y_src + z_dst -
     (cosrx * cosry * cosrz - sinrx * sinrz) * z_src) + c2 * (- ty - sinry * sinrz * x_src + y_dst - (cosrx * cosrz -
     cosry * sinrx * sinrz) * y_src - (- cosrz * sinrx - cosrx * cosry * sinrz) * z_src) * (- (- cosrz * sinrx -
     cosrx * cosry * sinrz) * y_src - (- cosrx * cosrz + cosry * sinrx * sinrz) * z_src)"

fun derivry :: "'a::{plus, minus, times, uminus} \<Rightarrow> 'a trig \<Rightarrow> 'a triple \<Rightarrow> 'a triple \<Rightarrow> 'a triple \<Rightarrow> 'a" where
  "derivry c2 (cosrx, sinrx, cosry, sinry, cosrz, sinrz) (tx, ty, tz) (x_src, y_src, z_src) (x_dst, y_dst, z_dst) =
     c2 * (sinry * x_src - cosry * sinrx * y_src - cosrx * cosry * z_src) * (- tx + x_dst - cosry * x_src - sinrx * sinry * y_src
     - cosrx * sinry * z_src) + c2 * (- cosry * sinrz * x_src - sinrx * sinry * sinrz * y_src -
     cosrx * sinry * sinrz * z_src) * (- ty - sinry * sinrz * x_src + y_dst - (cosrx * cosrz - cosry * sinrx * sinrz) * y_src -
     (- cosrz * sinrx - cosrx * cosry * sinrz) * z_src) + c2 * (cosry * cosrz * x_src + cosrz * sinrx * sinry * y_src +
     cosrx * cosrz * sinry * z_src) * (- tz + cosrz * sinry * x_src - (cosry * cosrz * sinrx + cosrx * sinrz) * y_src + z_dst -
     (cosrx * cosry * cosrz - sinrx * sinrz) * z_src)"

fun derivrz :: "'a::{plus, minus, times, uminus} \<Rightarrow> 'a trig \<Rightarrow> 'a triple \<Rightarrow> 'a triple \<Rightarrow> 'a triple \<Rightarrow> 'a" where
  "derivrz c2 (cosrx, sinrx, cosry, sinry, cosrz, sinrz) (tx, ty, tz) (x_src, y_src, z_src) (x_dst, y_dst, z_dst) =
     c2 * (- sinry * sinrz * x_src - (cosrx * cosrz - cosry * sinrx * sinrz) * y_src - (- cosrz * sinrx -
     cosrx * cosry * sinrz) * z_src) * (- tz + cosrz * sinry * x_src - (cosry * cosrz * sinrx + cosrx * sinrz) * y_src + z_dst -
     (cosrx * cosry * cosrz - sinrx * sinrz) * z_src) + c2 * (- ty - sinry * sinrz * x_src + y_dst - (cosrx * cosrz -
     cosry * sinrx * sinrz) * y_src - (- cosrz * sinrx - cosrx * cosry * sinrz) * z_src) * (- cosrz * sinry * x_src -
     (- cosry * cosrz * sinrx - cosrx * sinrz) * y_src - (- cosrx * cosry * cosrz + sinrx * sinrz) * z_src)"

fun derivtx :: "'a::{plus, minus, times, uminus} \<Rightarrow> 'a trig \<Rightarrow> 'a triple \<Rightarrow> 'a triple \<Rightarrow> 'a triple \<Rightarrow> 'a" where
  "derivtx c2 (cosrx, sinrx, cosry, sinry, cosrz, sinrz) (tx, ty, tz) (x_src, y_src, z_src) (x_dst, y_dst, z_dst) =
     - c2 * (- tx + x_dst - cosry * x_src - sinrx * sinry * y_src - cosrx * sinry * z_src)"

fun derivty :: "'a::{plus, minus, times, uminus} \<Rightarrow> 'a trig \<Rightarrow> 'a triple \<Rightarrow> 'a triple \<Rightarrow> 'a triple \<Rightarrow> 'a" where
  "derivty c2 (cosrx, sinrx, cosry, sinry, cosrz, sinrz) (tx, ty, tz) (x_src, y_src, z_src) (x_dst, y_dst, z_dst) =
     - c2 * (- ty - sinry * sinrz * x_src + y_dst - (cosrx * cosrz - cosry * sinrx * sinrz) * y_src - (- cosrz * sinrx -
     cosrx * cosry * sinrz) * z_src)"

fun derivtz :: "'a::{plus, minus, times, uminus} \<Rightarrow> 'a trig \<Rightarrow> 'a triple \<Rightarrow> 'a triple \<Rightarrow> 'a triple \<Rightarrow> 'a" where
  "derivtz c2 (cosrx, sinrx, cosry, sinry, cosrz, sinrz) (tx, ty, tz) (x_src, y_src, z_src) (x_dst, y_dst, z_dst) =
     - c2 * (- tz + cosrz * sinry * x_src - (cosry * cosrz * sinrx + cosrx * sinrz) * y_src + z_dst - (cosrx * cosry * cosrz -
     sinrx * sinrz) * z_src)"

subsection \<open>Derivatives for an axis and an angle\<close>

fun dr :: "'a::{plus, minus, times, uminus} \<Rightarrow> 'a \<Rightarrow> 'a \<times> 'a \<Rightarrow> 'a triple \<Rightarrow> 'a triple \<Rightarrow> 'a triple \<Rightarrow> 'a triple \<Rightarrow> 'a" where
  "dr c1 c2 (cos_r, sin_r) (ux, uy, uz) (tx, ty, tz) (x_src, y_src, z_src) (x_dst, y_dst, z_dst) =
     c2 * ((- tx) + x_dst - ((ux * ux) * (c1 - cos_r) + cos_r) * x_src - (ux * uy * (c1 - cos_r) + uz * sin_r) * y_src -
     (ux * uz * (c1 - cos_r) - uy * sin_r) * z_src) * ((- ((- sin_r) + (ux * ux) * sin_r)) * x_src - (uz * cos_r +
     ux * uy * sin_r) * y_src - ((- uy) * cos_r + ux * uz * sin_r) * z_src) + c2 * ((- ty) - (ux * uy * (c1 - cos_r) -
     uz * sin_r) * x_src + y_dst - ((uy * uy) * (c1 - cos_r) + cos_r) * y_src - (uy * uz * (c1 - cos_r) +
     ux * sin_r) * z_src) * ((- ((- uz) * cos_r + ux * uy * sin_r)) * x_src - ((- sin_r) + (uy * uy) * sin_r) * y_src -
     (ux * cos_r + uy * uz * sin_r) * z_src) + c2 * ((- tz) - (ux * uz * (c1 - cos_r) + uy * sin_r) * x_src - (uy * uz * (c1 -
     cos_r) - ux * sin_r) * y_src + z_dst - ((uz * uz) * (c1 - cos_r) + cos_r) * z_src) * ((- (uy * cos_r +
     ux * uz * sin_r)) * x_src - ((- ux) * cos_r + uy * uz * sin_r) * y_src - ((- sin_r) + (uz * uz) * sin_r) * z_src)"

fun dux :: "'a::{plus, minus, times, uminus} \<Rightarrow> 'a \<Rightarrow> 'a \<times> 'a \<Rightarrow> 'a triple \<Rightarrow> 'a triple \<Rightarrow> 'a triple \<Rightarrow> 'a triple \<Rightarrow> 'a" where
  "dux c1 c2 (cos_r, sin_r) (ux, uy, uz) (tx, ty, tz) (x_src, y_src, z_src) (x_dst, y_dst, z_dst) =
     c2 * ((- uz) * (c1 - cos_r) * x_src + sin_r * y_src) * ((- tz) - (ux * uz * (c1 - cos_r) + uy * sin_r) * x_src -
     (uy * uz * (c1 - cos_r) - ux * sin_r) * y_src + z_dst - ((uz * uz) * (c1 - cos_r) + cos_r) * z_src) + c2 * ((- uy) * (c1 -
     cos_r) * x_src - sin_r * z_src) * ((- ty) - (ux * uy * (c1 - cos_r) - uz * sin_r) * x_src + y_dst - ((uy * uy) * (c1 - cos_r)
     + cos_r) * y_src - (uy * uz * (c1 - cos_r) + ux * sin_r) * z_src) + c2 * ((- c2) * ux * (c1 - cos_r) * x_src - uy * (c1 -
     cos_r) * y_src - uz * (c1 - cos_r) * z_src) * ((- tx) + x_dst - ((ux * ux) * (c1 - cos_r) + cos_r) * x_src - (ux * uy * (c1 -
     cos_r) + uz * sin_r) * y_src - (ux * uz * (c1 - cos_r) - uy * sin_r) * z_src)"

fun duy :: "'a::{plus, minus, times, uminus} \<Rightarrow> 'a \<Rightarrow> 'a \<times> 'a \<Rightarrow> 'a triple \<Rightarrow> 'a triple \<Rightarrow> 'a triple \<Rightarrow> 'a triple \<Rightarrow> 'a" where
  "duy c1 c2 (cos_r, sin_r) (ux, uy, uz) (tx, ty, tz) (x_src, y_src, z_src) (x_dst, y_dst, z_dst) =
     c2 * ((- sin_r) * x_src - uz * (c1 - cos_r) * y_src) * ((- tz) - (ux * uz * (c1 - cos_r) + uy * sin_r) * x_src -
     (uy * uz * (c1 - cos_r) - ux * sin_r) * y_src + z_dst - ((uz * uz) * (c1 - cos_r) + cos_r) * z_src) + c2 * ((- ux) * (c1 -
     cos_r) * x_src - c2 * uy * (c1 - cos_r) * y_src - uz * (c1 - cos_r) * z_src) * ((- ty) - (ux * uy * (c1 - cos_r) -
     uz * sin_r) * x_src + y_dst - ((uy * uy) * (c1 - cos_r) + cos_r) * y_src - (uy * uz * (c1 - cos_r) + ux * sin_r) * z_src) +
     c2 * ((- ux) * (c1 - cos_r) * y_src + sin_r * z_src) * ((- tx) + x_dst - ((ux * ux) * (c1 - cos_r) + cos_r) * x_src -
     (ux * uy * (c1 - cos_r) + uz * sin_r) * y_src - (ux * uz * (c1 - cos_r) - uy * sin_r) * z_src)"

fun duz :: "'a::{plus, minus, times, uminus} \<Rightarrow> 'a \<Rightarrow> 'a \<times> 'a \<Rightarrow> 'a triple \<Rightarrow> 'a triple \<Rightarrow> 'a triple \<Rightarrow> 'a triple \<Rightarrow> 'a" where
  "duz c1 c2 (cos_r, sin_r) (ux, uy, uz) (tx, ty, tz) (x_src, y_src, z_src) (x_dst, y_dst, z_dst) =
     c2 * ((- ux) * (c1 - cos_r) * x_src - uy * (c1 - cos_r) * y_src - c2 * uz * (c1 - cos_r) * z_src) * ((- tz) - (ux * uz * (c1
     - cos_r) + uy * sin_r) * x_src - (uy * uz * (c1 - cos_r) - ux * sin_r) * y_src + z_dst - ((uz * uz) * (c1 - cos_r) +
     cos_r) * z_src) + c2 * (sin_r * x_src - uy * (c1 - cos_r) * z_src) * ((- ty) - (ux * uy * (c1 - cos_r) - uz * sin_r) * x_src
     + y_dst - ((uy * uy) * (c1 - cos_r) + cos_r) * y_src - (uy * uz * (c1 - cos_r) + ux * sin_r) * z_src) +
     c2 * ((- sin_r) * y_src - ux * (c1 - cos_r) * z_src) * ((- tx) + x_dst - ((ux * ux) * (c1 - cos_r) + cos_r) * x_src -
     (ux * uy * (c1 - cos_r) + uz * sin_r) * y_src - (ux * uz * (c1 - cos_r) - uy * sin_r) * z_src)"

fun dtx :: "'a::{plus, minus, times, uminus} \<Rightarrow> 'a \<Rightarrow> 'a \<times> 'a \<Rightarrow> 'a triple \<Rightarrow> 'a triple \<Rightarrow> 'a triple \<Rightarrow> 'a triple \<Rightarrow> 'a" where
  "dtx c1 c2 (cos_r, sin_r) (ux, uy, uz) (tx, ty, tz) (x_src, y_src, z_src) (x_dst, y_dst, z_dst) =
     (- c2) * ((- tx) + x_dst - ((ux * ux) * (c1 - cos_r) + cos_r) * x_src - (ux * uy * (c1 - cos_r) + uz * sin_r) * y_src -
     (ux * uz * (c1 - cos_r) - uy * sin_r) * z_src)"

fun dty :: "'a::{plus, minus, times, uminus} \<Rightarrow> 'a \<Rightarrow> 'a \<times> 'a \<Rightarrow> 'a triple \<Rightarrow> 'a triple \<Rightarrow> 'a triple \<Rightarrow> 'a triple \<Rightarrow> 'a" where
  "dty c1 c2 (cos_r, sin_r) (ux, uy, uz) (tx, ty, tz) (x_src, y_src, z_src) (x_dst, y_dst, z_dst) =
     (- c2) * ((- ty) - (ux * uy * (c1 - cos_r) - uz * sin_r) * x_src + y_dst - ((uy * uy) * (c1 - cos_r) + cos_r) * y_src -
     (uy * uz * (c1 - cos_r) + ux * sin_r) * z_src)"

fun dtz :: "'a::{plus, minus, times, uminus} \<Rightarrow> 'a \<Rightarrow> 'a \<times> 'a \<Rightarrow> 'a triple \<Rightarrow> 'a triple \<Rightarrow> 'a triple \<Rightarrow> 'a triple \<Rightarrow> 'a" where
  "dtz c1 c2 (cos_r, sin_r) (ux, uy, uz) (tx, ty, tz) (x_src, y_src, z_src) (x_dst, y_dst, z_dst) =
     (- c2) * ((- tz) - (ux * uz * (c1 - cos_r) + uy * sin_r) * x_src - (uy * uz * (c1 - cos_r) - ux * sin_r) * y_src + z_dst -
     ((uz * uz) * (c1 - cos_r) + cos_r) * z_src)"

subsection \<open>They are the partial derivatives\<close>

text \<open>
  The squared distance that \<open>GetDerivatives\<close> descends: the source point turned about the x axis by
  the first angle, about the y axis by the second, about the x axis by the third, moved by the
  translation, and compared with its match.
\<close>

fun rot_x :: "real \<Rightarrow> real triple \<Rightarrow> real triple" where
  "rot_x a (x, y, z) = (x, cos a * y - sin a * z, sin a * y + cos a * z)"

fun rot_y :: "real \<Rightarrow> real triple \<Rightarrow> real triple" where
  "rot_y a (x, y, z) = (cos a * x + sin a * z, y, cos a * z - sin a * x)"

fun dist_sq :: "real triple \<Rightarrow> real triple \<Rightarrow> real" where
  "dist_sq (x, y, z) (x', y', z') = (x - x')\<^sup>2 + (y - y')\<^sup>2 + (z - z')\<^sup>2"

fun move :: "real triple \<Rightarrow> real triple \<Rightarrow> real triple" where
  "move (tx, ty, tz) (x, y, z) = (x + tx, y + ty, z + tz)"

definition euler_error :: "real \<Rightarrow> real \<Rightarrow> real \<Rightarrow> real triple \<Rightarrow> real triple \<Rightarrow> real triple \<Rightarrow> real" where
  "euler_error rx ry rz t src dst = dist_sq dst (move t (rot_x rz (rot_y ry (rot_x rx src))))"

definition trig_of :: "real \<Rightarrow> real \<Rightarrow> real \<Rightarrow> real trig" where
  "trig_of rx ry rz = (cos rx, sin rx, cos ry, sin ry, cos rz, sin rz)"

text \<open>The square of a residual, by its derivative.\<close>

lemma sum_sq_deriv:
  assumes "(f has_real_derivative f') (at a)" and "(g has_real_derivative g') (at a)" and "(h has_real_derivative h') (at a)"
    and "D = 2 * f a * f' + 2 * g a * g' + 2 * h a * h'"
  shows "((\<lambda>a. (f a)\<^sup>2 + (g a)\<^sup>2 + (h a)\<^sup>2) has_real_derivative D) (at a)"
  using assms by (auto intro!: derivative_eq_intros simp: power2_eq_square)

lemma euler_rx:
  "((\<lambda>a. euler_error a ry rz (tx, ty, tz) (x, y, z) (x', y', z')) has_real_derivative
      derivrx 2 (trig_of rx ry rz) (tx, ty, tz) (x, y, z) (x', y', z')) (at rx)"
  unfolding euler_error_def rot_x.simps rot_y.simps move.simps dist_sq.simps trig_of_def derivrx.simps
  apply (rule sum_sq_deriv)
     apply (rule derivative_eq_intros refl | simp)+
  apply (simp add: algebra_simps)
  done

lemma euler_ry:
  "((\<lambda>a. euler_error rx a rz (tx, ty, tz) (x, y, z) (x', y', z')) has_real_derivative
      derivry 2 (trig_of rx ry rz) (tx, ty, tz) (x, y, z) (x', y', z')) (at ry)"
  unfolding euler_error_def rot_x.simps rot_y.simps move.simps dist_sq.simps trig_of_def derivry.simps
  apply (rule sum_sq_deriv)
     apply (rule derivative_eq_intros refl | simp)+
  apply (simp add: algebra_simps)
  done

lemma euler_rz:
  "((\<lambda>a. euler_error rx ry a (tx, ty, tz) (x, y, z) (x', y', z')) has_real_derivative
      derivrz 2 (trig_of rx ry rz) (tx, ty, tz) (x, y, z) (x', y', z')) (at rz)"
  unfolding euler_error_def rot_x.simps rot_y.simps move.simps dist_sq.simps trig_of_def derivrz.simps
  apply (rule sum_sq_deriv)
     apply (rule derivative_eq_intros refl | simp)+
  apply (simp add: algebra_simps)
  done

lemma euler_tx:
  "((\<lambda>a. euler_error rx ry rz (a, ty, tz) (x, y, z) (x', y', z')) has_real_derivative
      derivtx 2 (trig_of rx ry rz) (tx, ty, tz) (x, y, z) (x', y', z')) (at tx)"
  unfolding euler_error_def rot_x.simps rot_y.simps move.simps dist_sq.simps trig_of_def derivtx.simps
  apply (rule sum_sq_deriv)
     apply (rule derivative_eq_intros refl | simp)+
  apply (simp add: algebra_simps)
  done

lemma euler_ty:
  "((\<lambda>a. euler_error rx ry rz (tx, a, tz) (x, y, z) (x', y', z')) has_real_derivative
      derivty 2 (trig_of rx ry rz) (tx, ty, tz) (x, y, z) (x', y', z')) (at ty)"
  unfolding euler_error_def rot_x.simps rot_y.simps move.simps dist_sq.simps trig_of_def derivty.simps
  apply (rule sum_sq_deriv)
     apply (rule derivative_eq_intros refl | simp)+
  apply (simp add: algebra_simps)
  done

lemma euler_tz:
  "((\<lambda>a. euler_error rx ry rz (tx, ty, a) (x, y, z) (x', y', z')) has_real_derivative
      derivtz 2 (trig_of rx ry rz) (tx, ty, tz) (x, y, z) (x', y', z')) (at tz)"
  unfolding euler_error_def rot_x.simps rot_y.simps move.simps dist_sq.simps trig_of_def derivtz.simps
  apply (rule sum_sq_deriv)
     apply (rule derivative_eq_intros refl | simp)+
  apply (simp add: algebra_simps)
  done

text \<open>
  For the axis and angle the source point is turned by Rodrigues' formula, with the axis not required
  to be a unit vector and the angle counted backwards.
\<close>

fun rodrigues :: "real triple \<Rightarrow> real \<Rightarrow> real triple \<Rightarrow> real triple" where
  "rodrigues (ux, uy, uz) r (x, y, z) =
     (let d = (ux * x + uy * y + uz * z) * (1 - cos r)
      in (cos r * x + d * ux - sin r * (uy * z - uz * y),
          cos r * y + d * uy - sin r * (uz * x - ux * z),
          cos r * z + d * uz - sin r * (ux * y - uy * x)))"

definition axis_error :: "real triple \<Rightarrow> real \<Rightarrow> real triple \<Rightarrow> real triple \<Rightarrow> real triple \<Rightarrow> real" where
  "axis_error u r t src dst = dist_sq dst (move t (rodrigues u r src))"

lemma axis_r:
  "((\<lambda>a. axis_error (ux, uy, uz) a (tx, ty, tz) (x, y, z) (x', y', z')) has_real_derivative
      dr 1 2 (cos r, sin r) (ux, uy, uz) (tx, ty, tz) (x, y, z) (x', y', z')) (at r)"
  unfolding axis_error_def rodrigues.simps Let_def move.simps dist_sq.simps dr.simps
  apply (rule sum_sq_deriv)
     apply (rule derivative_eq_intros refl | simp)+
  apply (simp add: algebra_simps)
  done

lemma axis_ux:
  "((\<lambda>a. axis_error (a, uy, uz) r (tx, ty, tz) (x, y, z) (x', y', z')) has_real_derivative
      dux 1 2 (cos r, sin r) (ux, uy, uz) (tx, ty, tz) (x, y, z) (x', y', z')) (at ux)"
  unfolding axis_error_def rodrigues.simps Let_def move.simps dist_sq.simps dux.simps
  apply (rule sum_sq_deriv)
     apply (rule derivative_eq_intros refl | simp)+
  apply (simp add: algebra_simps)
  done

lemma axis_uy:
  "((\<lambda>a. axis_error (ux, a, uz) r (tx, ty, tz) (x, y, z) (x', y', z')) has_real_derivative
      duy 1 2 (cos r, sin r) (ux, uy, uz) (tx, ty, tz) (x, y, z) (x', y', z')) (at uy)"
  unfolding axis_error_def rodrigues.simps Let_def move.simps dist_sq.simps duy.simps
  apply (rule sum_sq_deriv)
     apply (rule derivative_eq_intros refl | simp)+
  apply (simp add: algebra_simps)
  done

lemma axis_uz:
  "((\<lambda>a. axis_error (ux, uy, a) r (tx, ty, tz) (x, y, z) (x', y', z')) has_real_derivative
      duz 1 2 (cos r, sin r) (ux, uy, uz) (tx, ty, tz) (x, y, z) (x', y', z')) (at uz)"
  unfolding axis_error_def rodrigues.simps Let_def move.simps dist_sq.simps duz.simps
  apply (rule sum_sq_deriv)
     apply (rule derivative_eq_intros refl | simp)+
  apply (simp add: algebra_simps)
  done

lemma axis_tx:
  "((\<lambda>a. axis_error (ux, uy, uz) r (a, ty, tz) (x, y, z) (x', y', z')) has_real_derivative
      dtx 1 2 (cos r, sin r) (ux, uy, uz) (tx, ty, tz) (x, y, z) (x', y', z')) (at tx)"
  unfolding axis_error_def rodrigues.simps Let_def move.simps dist_sq.simps dtx.simps
  apply (rule sum_sq_deriv)
     apply (rule derivative_eq_intros refl | simp)+
  apply (simp add: algebra_simps)
  done

lemma axis_ty:
  "((\<lambda>a. axis_error (ux, uy, uz) r (tx, a, tz) (x, y, z) (x', y', z')) has_real_derivative
      dty 1 2 (cos r, sin r) (ux, uy, uz) (tx, ty, tz) (x, y, z) (x', y', z')) (at ty)"
  unfolding axis_error_def rodrigues.simps Let_def move.simps dist_sq.simps dty.simps
  apply (rule sum_sq_deriv)
     apply (rule derivative_eq_intros refl | simp)+
  apply (simp add: algebra_simps)
  done

lemma axis_tz:
  "((\<lambda>a. axis_error (ux, uy, uz) r (tx, ty, a) (x, y, z) (x', y', z')) has_real_derivative
      dtz 1 2 (cos r, sin r) (ux, uy, uz) (tx, ty, tz) (x, y, z) (x', y', z')) (at tz)"
  unfolding axis_error_def rodrigues.simps Let_def move.simps dist_sq.simps dtz.simps
  apply (rule sum_sq_deriv)
     apply (rule derivative_eq_intros refl | simp)+
  apply (simp add: algebra_simps)
  done

text \<open>C7: The formulas of \<open>GetDerivatives\<close>, computed over the reals, are exactly the six partial derivatives
  of the squared distance between a matched point and the moved source point, where the source point
  is turned about the axes x, y, x by the angles in order and then moved.
\<close>

theorem derivatives_exact:
  "((\<lambda>a. euler_error a ry rz (tx, ty, tz) src dst) has_real_derivative
      derivrx 2 (trig_of rx ry rz) (tx, ty, tz) src dst) (at rx) \<and>
   ((\<lambda>a. euler_error rx a rz (tx, ty, tz) src dst) has_real_derivative
      derivry 2 (trig_of rx ry rz) (tx, ty, tz) src dst) (at ry) \<and>
   ((\<lambda>a. euler_error rx ry a (tx, ty, tz) src dst) has_real_derivative
      derivrz 2 (trig_of rx ry rz) (tx, ty, tz) src dst) (at rz) \<and>
   ((\<lambda>a. euler_error rx ry rz (a, ty, tz) src dst) has_real_derivative
      derivtx 2 (trig_of rx ry rz) (tx, ty, tz) src dst) (at tx) \<and>
   ((\<lambda>a. euler_error rx ry rz (tx, a, tz) src dst) has_real_derivative
      derivty 2 (trig_of rx ry rz) (tx, ty, tz) src dst) (at ty) \<and>
   ((\<lambda>a. euler_error rx ry rz (tx, ty, a) src dst) has_real_derivative
      derivtz 2 (trig_of rx ry rz) (tx, ty, tz) src dst) (at tz)"
  by (cases src rule: prod_cases3; cases dst rule: prod_cases3; simp only:)
     (intro conjI euler_rx euler_ry euler_rz euler_tx euler_ty euler_tz)

end
