(* ===== verification/Alignment.thy ===== *)
theory Alignment
  imports KdNearest AlignGrad
begin

text \<open>
  Alignment of two point clouds (\<^verbatim>\<open>core/Alignment.cpp\<close>): \<open>PtScorer\<close>, which scores a transform by the
  distances of matched points, and \<open>PTCloudAlign\<close>, which improves a transform step by step. Points are
  matched by nearest-neighbour search in a k-d tree, and the motion of a step comes from a fixed
  number of gradient steps. The C library's \<open>sin\<close>, \<open>cos\<close> and \<open>log10\<close> are arguments, as is
  \<open>std::nth_element\<close>. Dereferencing the end of the tree and indices out of range are \<open>None\<close>; where
  a loop need not end, the result is a \<open>loop_result\<close>, which tells undefined behaviour from a loop
  that is still running.
\<close>

subsection \<open>Points in the tree\<close>

record anode =
  an_pos :: vec3
  an_idx :: nat

definition point_at :: "vec3 \<Rightarrow> nat \<Rightarrow> fp" where
  "point_at p n = (if n = 0 then vx p else if n = 1 then vy p else vz p)"

definition anode_at :: "anode \<Rightarrow> nat \<Rightarrow> fp" where
  "anode_at a n = point_at (an_pos a) n"

record match =
  distsq :: fp
  m_idx :: nat
  matchedIdx :: int

definition Match_new :: "nat \<Rightarrow> match" where
  "Match_new i = \<lparr>distsq = Fin True 1, m_idx = i, matchedIdx = -1\<rparr>"

definition anodes :: "vec3 list \<Rightarrow> anode list" where
  "anodes pts = map (\<lambda>i. \<lparr>an_pos = pts ! i, an_idx = i\<rparr>) [0..<length pts]"

definition build_tree :: "anode nth_elem \<Rightarrow> vec3 list \<Rightarrow> anode kdtree \<Rightarrow> anode kdtree option" where
  "build_tree nthe pts t = kd_optimise 3 anode_at nthe (kd_insert_range 3 anode_at (anodes pts) t)"

text \<open>\<open>itFound.first->idx\<close> for the nearest node of a point.\<close>

definition nearest_idx :: "anode kdtree \<Rightarrow> vec3 \<Rightarrow> nat option" where
  "nearest_idx t p =
     (case find_nearest 3 anode_at t \<lparr>an_pos = p, an_idx = 0\<rparr> of
        Some (At q, d) \<Rightarrow> (case node_at (kd_root t) q of KNil \<Rightarrow> None | KNode l n r \<Rightarrow> Some (an_idx n))
      | _ \<Rightarrow> None)"

text \<open>
  One transformed point, the one with index \<open>j\<close>: the match of its nearest point takes it when it has
  none yet or a farther one.
\<close>

definition match_point :: "anode kdtree \<Rightarrow> vec3 list \<Rightarrow> nat \<times> vec3 \<Rightarrow> match list \<Rightarrow> match list option" where
  "match_point t pts0 = (\<lambda>(j, tpt) ms. do {
     i \<leftarrow> nearest_idx t tpt;
     if i < length ms \<and> i < length pts0 then
       let d = vlengthSquared (vsub tpt (pts0 ! i))
       in Some (if matchedIdx (ms ! i) < 0 \<or> flt d (distsq (ms ! i))
                then ms[i := (ms ! i)\<lparr>distsq := d, matchedIdx := int j\<rparr>] else ms)
     else None })"

definition match_points :: "anode kdtree \<Rightarrow> vec3 list \<Rightarrow> vec3 list \<Rightarrow> match list \<Rightarrow> match list option" where
  "match_points t pts0 tpts ms = ofold (match_point t pts0) (zip [0..<length tpts] tpts) ms"

definition matched :: "match list \<Rightarrow> match list" where
  "matched ms = filter (\<lambda>m. 0 \<le> matchedIdx m) ms"

subsection \<open>The scorer\<close>

record scorer =
  sc_pts0 :: "vec3 list"
  sc_matches :: "match list"
  sc_pts1 :: "vec3 list"
  sc_tpts1 :: "vec3 list"
  sc_transform :: matrix
  sc_kdtree :: "anode kdtree"
  sc_isinit :: bool
  sc_frameIdx :: int

definition PtScorer_new :: "vec3 list \<Rightarrow> vec3 list \<Rightarrow> matrix \<Rightarrow> int \<Rightarrow> scorer" where
  "PtScorer_new pts0 pts1 pMat frameIdx =
     \<lparr>sc_pts0 = pts0, sc_matches = [], sc_pts1 = pts1, sc_tpts1 = [], sc_transform = pMat\<lparr>mState := st_AFFINE\<rparr>,
      sc_kdtree = kd_empty, sc_isinit = False, sc_frameIdx = frameIdx\<rparr>"

definition Scorer_Init :: "anode nth_elem \<Rightarrow> scorer \<Rightarrow> scorer option" where
  "Scorer_Init nthe s = do {
     t \<leftarrow> build_tree nthe (sc_pts0 s) (sc_kdtree s);
     let tpts = map (xform_point3 (sc_transform s)) (sc_pts1 s);
     ms \<leftarrow> match_points t (sc_pts0 s) tpts (map Match_new [0..<length (sc_pts0 s)]);
     Some (s\<lparr>sc_kdtree := t, sc_tpts1 := tpts, sc_matches := sc_matches s @ matched ms, sc_isinit := True\<rparr>) }"

text \<open>The sum of squared distances of the matches under a transform.\<close>

definition score_match :: "scorer \<Rightarrow> matrix \<Rightarrow> match \<Rightarrow> fp \<Rightarrow> fp option" where
  "score_match s test m acc =
     (if m_idx m < length (sc_pts0 s) \<and> 0 \<le> matchedIdx m \<and> nat (matchedIdx m) < length (sc_pts1 s)
      then Some (addf acc (vlengthSquared
        (vsub (xform_point3 test (sc_pts1 s ! nat (matchedIdx m))) (sc_pts0 s ! m_idx m))))
      else None)"

definition Scorer_GetScore :: "(fp \<Rightarrow> fp) \<Rightarrow> anode nth_elem \<Rightarrow> matrix \<Rightarrow> scorer \<Rightarrow> (scorer \<times> fp) option" where
  "Scorer_GetScore log10f nthe test s = do {
     s \<leftarrow> (if sc_isinit s then Some s else Scorer_Init nthe s);
     total \<leftarrow> ofold (score_match s test) (sc_matches s) fzero;
     let score = divf total (f_of_int F32 (int (length (sc_matches s))));
     Some (s, fcvt F32 (log10f (fdiv F64 fone (fcvt F64 score)))) }"

subsection \<open>Gradient steps\<close>

definition triple_of :: "vec3 \<Rightarrow> fp triple" where
  "triple_of v = (vx v, vy v, vz v)"

definition inv_count :: "nat \<Rightarrow> fp" where
  "inv_count n = fcvt F32 (fdiv F64 fone (f_of_int F64 (int n)))"

definition GetDerivatives :: "(fp \<Rightarrow> fp) \<Rightarrow> (fp \<Rightarrow> fp) \<Rightarrow> vec3 list \<Rightarrow> vec3 list \<Rightarrow> vec3 \<Rightarrow> vec3 \<Rightarrow> (vec3 \<times> vec3) option" where
  "GetDerivatives sinf cosf ptsStart ptsEnd rotateVec translate =
     (if length ptsEnd < length ptsStart then None
      else let trig = (cosf (vx rotateVec), sinf (vx rotateVec), cosf (vy rotateVec), sinf (vy rotateVec),
                       cosf (vz rotateVec), sinf (vz rotateVec));
               t = triple_of translate;
               (ud, td) = fold (\<lambda>i (ud, td).
                 let src = triple_of (ptsEnd ! i); dst = triple_of (ptsStart ! i)
                 in (vadd ud (V3 (derivrx two trig t src dst) (derivry two trig t src dst) (derivrz two trig t src dst)),
                     vadd td (V3 (derivtx two trig t src dst) (derivty two trig t src dst) (derivtz two trig t src dst))))
                 [0..<length ptsStart] (vzero, vzero);
               invlen = inv_count (length ptsStart)
           in Some (vscale ud invlen, vscale td invlen))"

definition BestFit_step :: "(fp \<Rightarrow> fp) \<Rightarrow> (fp \<Rightarrow> fp) \<Rightarrow> vec3 list \<Rightarrow> vec3 list \<Rightarrow> vec4 \<Rightarrow> vec3 \<times> vec3 \<times> fp \<Rightarrow> (vec3 \<times> vec3 \<times> fp) option" where
  "BestFit_step sinf cosf ptsStart ptsEnd dvals = (\<lambda>(trans, rot, _). do {
     (uScore, tScore) \<leftarrow> GetDerivatives sinf cosf ptsStart ptsEnd rot trans;
     Some (vadd trans (vscale tScore (wx dvals)),
           V3 (addf (vx rot) (mulf (vx uScore) (wy dvals))) (addf (vy rot) (mulf (vy uScore) (wz dvals)))
              (addf (vz rot) (mulf (vz uScore) (ww dvals))),
           ffabs (addf (vlength uScore) (vlength tScore))) })"

definition BestFit :: "(fp \<Rightarrow> fp) \<Rightarrow> (fp \<Rightarrow> fp) \<Rightarrow> vec3 list \<Rightarrow> vec3 list \<Rightarrow> vec4 \<Rightarrow> (vec3 \<times> vec3 \<times> fp) option" where
  "BestFit sinf cosf ptsStart ptsEnd dvals =
     ofold (\<lambda>_. BestFit_step sinf cosf ptsStart ptsEnd dvals) [0..<100] (vzero, vzero, fzero)"

text \<open>The variant with an axis and an angle; \<open>normalize\<close> is applied to the first three components.\<close>

definition wlength :: "vec4 \<Rightarrow> fp" where
  "wlength v = (let r = addf (mulf (ww v) (ww v)) (addf (mulf (wz v) (wz v)) (addf (mulf (wy v) (wy v)) (mulf (wx v) (wx v))))
     in if feq r fzero then fzero else fsqrt F32 r)"

definition GetDerivatives2 :: "(fp \<Rightarrow> fp) \<Rightarrow> (fp \<Rightarrow> fp) \<Rightarrow> vec3 list \<Rightarrow> vec3 list \<Rightarrow> vec4 \<Rightarrow> vec3 \<Rightarrow> (vec4 \<times> vec3) option" where
  "GetDerivatives2 sinf cosf ptsStart ptsEnd rotateVec translate =
     (if length ptsEnd < length ptsStart then None
      else let r = (cosf (ww rotateVec), sinf (ww rotateVec));
               u = (wx rotateVec, wy rotateVec, wz rotateVec);
               t = triple_of translate;
               (ud, td) = fold (\<lambda>i (ud, td).
                 let src = triple_of (ptsEnd ! i); dst = triple_of (ptsStart ! i)
                 in (V4 (addf (wx ud) (dux fone two r u t src dst)) (addf (wy ud) (duy fone two r u t src dst))
                        (addf (wz ud) (duz fone two r u t src dst)) (addf (ww ud) (dr fone two r u t src dst)),
                     V3 (addf (vx td) (dtx fone two r u t src dst)) (addf (vy td) (dty fone two r u t src dst))
                        (addf (vz td) (dtz fone two r u t src dst))))
                 [0..<length ptsStart] (V4 fzero fzero fzero fzero, vzero);
               invlen = inv_count (length ptsStart)
           in Some (V4 (mulf (wx ud) invlen) (mulf (wy ud) invlen) (mulf (wz ud) invlen) (mulf (ww ud) invlen),
                    vscale td invlen))"

definition BestFit2_step :: "(fp \<Rightarrow> fp) \<Rightarrow> (fp \<Rightarrow> fp) \<Rightarrow> vec3 list \<Rightarrow> vec3 list \<Rightarrow> vec4 \<Rightarrow> vec3 \<times> vec4 \<times> fp \<Rightarrow> (vec3 \<times> vec4 \<times> fp) option" where
  "BestFit2_step sinf cosf ptsStart ptsEnd dvals = (\<lambda>(trans, rot, _). do {
     (uScore, tScore) \<leftarrow> GetDerivatives2 sinf cosf ptsStart ptsEnd rot trans;
     let axis = vnormalize (V3 (addf (wx rot) (mulf (wx uScore) (wy dvals))) (addf (wy rot) (mulf (wy uScore) (wy dvals)))
                               (addf (wz rot) (mulf (wz uScore) (wy dvals))));
     Some (vadd trans (vscale tScore (wx dvals)),
           V4 (vx axis) (vy axis) (vz axis) (addf (ww rot) (mulf (ww uScore) (wz dvals))),
           ffabs (addf (wlength uScore) (vlength tScore))) })"

definition BestFit2 :: "(fp \<Rightarrow> fp) \<Rightarrow> (fp \<Rightarrow> fp) \<Rightarrow> vec3 list \<Rightarrow> vec3 list \<Rightarrow> vec4 \<Rightarrow> (vec3 \<times> vec4 \<times> fp) option" where
  "BestFit2 sinf cosf ptsStart ptsEnd dvals =
     ofold (\<lambda>_. BestFit2_step sinf cosf ptsStart ptsEnd dvals) [0..<100] (vzero, V4 fone fzero fzero fzero, fzero)"

text \<open>The exported \<open>BestFit\<close>, with the table \<open>scores\<close> that it allocates on first use.\<close>

definition BestFit_export :: "(fp \<Rightarrow> fp) \<Rightarrow> (fp \<Rightarrow> fp) \<Rightarrow> vec3 list \<Rightarrow> vec3 list \<Rightarrow> int list \<Rightarrow> (vec3 \<times> vec4 \<times> int list) option" where
  "BestFit_export sinf cosf pts0 pts1 scores = do {
     (translate2, rotate2, minval) \<leftarrow> BestFit2 sinf cosf pts0 pts1
       (V4 (flit F32 (-1/10)) (flit F32 (-11/2)) (flit F32 (-4/100)) fzero);
     Some (translate2, rotate2, if scores = [] then replicate 1600 0 else scores) }"

subsection \<open>The alignment\<close>

record align =
  al_prev :: matrix
  al_cur :: matrix
  al_step :: int
  al_pts0 :: "vec3 list"
  al_pts1 :: "vec3 list"
  al_score :: fp
  al_kdtree :: "anode kdtree"
  al_allNodes :: "anode list"
  al_matches :: "match list"

definition PTCloudAlign_new :: "vec3 list \<Rightarrow> vec3 list \<Rightarrow> align" where
  "PTCloudAlign_new pts0 pts1 =
     \<lparr>al_prev = identity_matrix, al_cur = identity_matrix, al_step = -1, al_pts0 = pts0, al_pts1 = pts1,
      al_score = Fin False (ffmax F32), al_kdtree = kd_empty, al_allNodes = [], al_matches = []\<rparr>"

text \<open>\<open>CreatePtCloudAlign\<close> divides the numbers of points by 3, as if they counted floats.\<close>

definition CreatePtCloudAlign :: "vec3 list \<Rightarrow> nat \<Rightarrow> vec3 list \<Rightarrow> nat \<Rightarrow> align option" where
  "CreatePtCloudAlign pts0 ptCount0 pts1 ptCount1 =
     (if ptCount0 div 3 \<le> length pts0 \<and> ptCount1 div 3 \<le> length pts1
      then Some (PTCloudAlign_new (take (ptCount0 div 3) pts0) (take (ptCount1 div 3) pts1)) else None)"

definition align_start :: "anode nth_elem \<Rightarrow> align \<Rightarrow> align option" where
  "align_start nthe a =
     (if al_step a < 0 then do {
        t \<leftarrow> build_tree nthe (al_pts0 a) (al_kdtree a);
        Some (a\<lparr>al_matches := map Match_new [0..<length (al_pts0 a)], al_allNodes := al_allNodes a @ anodes (al_pts0 a),
                al_kdtree := t, al_step := int (length (al_pts0 a) div 10)\<rparr>) }
      else Some a)"

text \<open>Every \<open>m_curstepsize\<close>-th point, transformed; with a step of 0 the loop never ends.\<close>

partial_function (option) align_sample :: "matrix \<Rightarrow> vec3 list \<Rightarrow> nat \<Rightarrow> nat \<Rightarrow> vec3 list \<Rightarrow> vec3 list option" where
  "align_sample tr pts step idx acc =
     (if idx < length pts then align_sample tr pts step (idx + step) (acc @ [xform_point3 tr (pts ! idx)]) else Some acc)"

definition rematch :: "vec3 list \<Rightarrow> vec3 list \<Rightarrow> match \<Rightarrow> match option" where
  "rematch pts0 pts1t m = do {
     p \<leftarrow> aget pts0 (m_idx m);
     q \<leftarrow> iget pts1t (matchedIdx m);
     Some (m\<lparr>distsq := vlengthSquared (vsub p q)\<rparr>) }"

text \<open>The average is never summed up: it is zero, or NaN without matches.\<close>

definition avg_limit :: "nat \<Rightarrow> fp" where
  "avg_limit n = fcvt F32 (fmul F64 (fcvt F64 (divf fzero (f_of_int F32 (int n)))) (Fin False 4))"

definition align_dvals :: vec4 where
  "align_dvals = V4 (flit F32 (-396472 / 10 ^ 6)) (flit F32 (-382595 / 10 ^ 6)) (flit F32 (-329096 / 10 ^ 6)) (flit F32 (-10193 / 10 ^ 6))"

definition fit_transform :: "(fp \<Rightarrow> fp) \<Rightarrow> (fp \<Rightarrow> fp) \<Rightarrow> vec3 \<Rightarrow> vec3 \<Rightarrow> matrix" where
  "fit_transform sinf cosf translate2 rotate2 =
     (let qx = quat_of_axis sinf cosf (vx rotate2) (V3 fone fzero fzero);
          qy = quat_of_axis sinf cosf (vy rotate2) (V3 fzero fone fzero);
          qz = quat_of_axis sinf cosf (vz rotate2) (V3 fone fzero fzero)
      in mult (makeRot (qmul (qmul qx qy) qz)) (makeTrans translate2))"

definition fit_score :: "matrix \<Rightarrow> (vec3 \<times> vec3) list \<Rightarrow> fp" where
  "fit_score transform ps =
     divf (fold (\<lambda>(p0, p1) s. addf s (vlengthSquared (vsub p0 (xform_point3 transform p1)))) ps fzero)
          (f_of_int F32 (int (length ps * length ps)))"

text \<open>The end of a step: a worse score halves the step size, a better one keeps the transform.\<close>

definition align_finish :: "matrix \<Rightarrow> fp \<Rightarrow> align \<Rightarrow> (align \<times> int) option" where
  "align_finish transform score a =
     (if flt (al_score a) score then
        if al_step a = 0 then None
        else let nsteps = int (length (al_pts0 a)) div al_step a
             in Some (a\<lparr>al_step := al_step a div 2, al_prev := al_cur a\<rparr>, if 100 < nsteps then 2 else 1)
      else Some (a\<lparr>al_cur := mult (al_cur a) transform, al_score := score\<rparr>, 0))"

text \<open>What a step does with the transformed samples of the second cloud.\<close>

definition align_fit :: "(fp \<Rightarrow> fp) \<Rightarrow> (fp \<Rightarrow> fp) \<Rightarrow> vec3 list \<Rightarrow> align \<Rightarrow> (align \<times> int \<times> matrix) option" where
  "align_fit sinf cosf pts1t a = do {
     ms \<leftarrow> match_points (al_kdtree a) (al_pts0 a) pts1t
             (map (\<lambda>m. m\<lparr>matchedIdx := -1, distsq := fzero\<rparr>) (al_matches a));
     let a = a\<lparr>al_matches := ms\<rparr>;
     found \<leftarrow> omap (rematch (al_pts0 a) pts1t) (matched ms);
     let kept = filter (\<lambda>m. \<not> flt (distsq m) (avg_limit (length found))) found;
     let vecs0 = map (\<lambda>m. al_pts0 a ! m_idx m) kept;
     let vecs1 = map (\<lambda>m. pts1t ! nat (matchedIdx m)) kept;
     (translate2, rotate2, total) \<leftarrow> BestFit sinf cosf vecs0 vecs1 align_dvals;
     let transform = fit_transform sinf cosf translate2 rotate2;
     (a, retstg) \<leftarrow> align_finish transform (fit_score transform (zip vecs0 vecs1)) a;
     Some (a, retstg, al_cur a) }"

text \<open>A step: the sampling loop is the only part of it that may not end.\<close>

definition AlignStep :: "(fp \<Rightarrow> fp) \<Rightarrow> (fp \<Rightarrow> fp) \<Rightarrow> anode nth_elem \<Rightarrow> align \<Rightarrow> (align \<times> int \<times> matrix) loop_result" where
  "AlignStep sinf cosf nthe a = lbind (checked (align_start nthe a)) (\<lambda>a.
     case align_sample (al_cur a) (al_pts1 a) (nat (al_step a)) 0 [] of
       None \<Rightarrow> Unfinished
     | Some pts1t \<Rightarrow> checked (align_fit sinf cosf pts1t a))"

text \<open>The loop of \<open>World::OnDepthBuffer\<close> that calls it until it answers 2, for \<open>fuel\<close> calls.\<close>

fun align_loop :: "(fp \<Rightarrow> fp) \<Rightarrow> (fp \<Rightarrow> fp) \<Rightarrow> anode nth_elem \<Rightarrow> nat \<Rightarrow> align \<Rightarrow> (align \<times> matrix) loop_result" where
  "align_loop sinf cosf nthe 0 a = Unfinished"
| "align_loop sinf cosf nthe (Suc fuel) a = lbind (AlignStep sinf cosf nthe a) (\<lambda>(a', retstg, m).
     if retstg < 2 then align_loop sinf cosf nthe fuel a' else Returned (a', m))"

subsection \<open>Nearest points\<close>

definition vfin :: "vec3 \<Rightarrow> bool" where
  "vfin p \<longleftrightarrow> isfin (vx p) \<and> isfin (vy p) \<and> isfin (vz p)"

text \<open>The distance by which the tree compares points.\<close>

definition pt_dist :: "vec3 \<Rightarrow> vec3 \<Rightarrow> fp" where
  "pt_dist p q = kd_dist 3 anode_at \<lparr>an_pos = p, an_idx = 0\<rparr> \<lparr>an_pos = q, an_idx = 0\<rparr>"

lemma kd_dist_pos: "kd_dist 3 anode_at \<lparr>an_pos = p, an_idx = i\<rparr> \<lparr>an_pos = q, an_idx = j\<rparr> = pt_dist p q"
  by (simp add: pt_dist_def kd_dist_def acc_distance_def node_distance_def anode_at_def)

lemma vfin_coords: "vfin p \<Longrightarrow> fin_coords 3 anode_at \<lparr>an_pos = p, an_idx = i\<rparr>"
  by (auto simp: vfin_def fin_coords_def anode_at_def point_at_def)

lemma anodes_set: "a \<in> set (anodes pts) \<longleftrightarrow> an_idx a < length pts \<and> a = \<lparr>an_pos = pts ! an_idx a, an_idx = an_idx a\<rparr>"
  by (auto simp: anodes_def)

abbreviation permutes_range :: "'v nth_elem \<Rightarrow> bool" where
  "permutes_range nthe \<equiv> \<forall>le m xs. mset (nthe le m xs) = mset xs"

lemma build_tree_nearest:
  assumes "permutes_range nthe" and "pts \<noteq> []" and "\<forall>p \<in> set pts. vfin p"
  shows "\<exists>t. build_tree nthe pts kd_empty = Some t \<and>
    (\<forall>p. vfin p \<longrightarrow> (\<exists>i < length pts. nearest_idx t p = Some i \<and> (\<forall>j < length pts. fle (pt_dist p (pts ! i)) (pt_dist p (pts ! j)))))"
proof -
  have fin: "\<forall>a \<in> set (anodes pts). fin_coords 3 anode_at a" and ne: "anodes pts \<noteq> []"
    using assms(2,3) vfin_coords by (auto simp: anodes_def)
  obtain t where t: "build_tree nthe pts kd_empty = Some t"
    using kd_built [OF assms(1), of 3 anode_at "anodes pts"] by (auto simp: build_tree_def)
  have "\<exists>i < length pts. nearest_idx t p = Some i \<and> (\<forall>j < length pts. fle (pt_dist p (pts ! i)) (pt_dist p (pts ! j)))"
    if "vfin p" for p
  proof -
    let ?v = "\<lparr>an_pos = p, an_idx = 0\<rparr>"
    note v = vfin_coords [OF that, of 0]
    obtain q l u r where n: "find_nearest 3 anode_at t ?v = Some (At q, kd_dist 3 anode_at ?v u)"
      "node_at (kd_root t) q = KNode l u r" "u \<in> set (anodes pts)"
      "\<forall>a \<in> set (anodes pts). fle (kd_dist 3 anode_at ?v u) (kd_dist 3 anode_at ?v a)"
      using nearest_built [OF assms(1) _ v fin ne] t by (auto simp: build_tree_def)
    have u: "an_idx u < length pts" "u = \<lparr>an_pos = pts ! an_idx u, an_idx = an_idx u\<rparr>" using n(3) anodes_set by auto
    have "fle (pt_dist p (pts ! an_idx u)) (pt_dist p (pts ! j))" if "j < length pts" for j
    proof -
      have "\<lparr>an_pos = pts ! j, an_idx = j\<rparr> \<in> set (anodes pts)" using that by (simp add: anodes_def)
      then show ?thesis using n(4) u(2) kd_dist_pos by metis
    qed
    then show ?thesis using n(1,2) u(1) by (intro exI [of _ "an_idx u"]) (simp add: nearest_idx_def)
  qed
  then show ?thesis using t by blast
qed

subsection \<open>Squared lengths\<close>

lemma square_fp: "isfin a \<Longrightarrow> isfin b \<Longrightarrow> fnn F32 (mulf (subf a b) (subf a b))"
  using squared_difference_fnn [of a b] by (simp add: squared_difference_def Let_def)

lemma vlengthSquared_fnn: "vfin a \<Longrightarrow> vfin b \<Longrightarrow> fnn F32 (vlengthSquared (vsub a b))"
  by (simp add: vlengthSquared_def vdot_def vsub_def vfin_def square_fp fadd_fnn(1))

subsection \<open>The matching loop\<close>

text \<open>
  The match of point \<open>i\<close> after the first \<open>J\<close> points, when point \<open>j\<close> belongs to \<open>nn j\<close> at the squared
  distance \<open>d j\<close>: none, or the first of the nearest.
\<close>

definition first_least :: "(nat \<Rightarrow> nat) \<Rightarrow> (nat \<Rightarrow> fp) \<Rightarrow> nat \<Rightarrow> nat \<Rightarrow> nat \<Rightarrow> bool" where
  "first_least nn d J i j \<longleftrightarrow> j < J \<and> nn j = i \<and>
     (\<forall>j' < J. nn j' = i \<longrightarrow> \<not> flt (d j') (d j) \<and> (j' < j \<longrightarrow> flt (d j) (d j')))"

definition slot_ok :: "(nat \<Rightarrow> nat) \<Rightarrow> (nat \<Rightarrow> fp) \<Rightarrow> nat \<Rightarrow> nat \<Rightarrow> match \<Rightarrow> bool" where
  "slot_ok nn d J i m \<longleftrightarrow> m_idx m = i \<and>
     (if \<exists>j < J. nn j = i then \<exists>j. first_least nn d J i j \<and> matchedIdx m = int j \<and> distsq m = d j
      else matchedIdx m = -1)"

lemma slot_other: "nn J \<noteq> i \<Longrightarrow> slot_ok nn d (Suc J) i m \<longleftrightarrow> slot_ok nn d J i m"
  by (auto simp: slot_ok_def first_least_def less_Suc_eq)

lemma slot_new:
  assumes "slot_ok nn d J i m" and "matchedIdx m < 0" and "nn J = i"
  shows "slot_ok nn d (Suc J) i (m\<lparr>distsq := d J, matchedIdx := int J\<rparr>)"
proof -
  have "\<forall>j < J. nn j \<noteq> i" using assms(1,2) by (auto simp: slot_ok_def split: if_splits)
  then have "first_least nn d (Suc J) i J" using assms(3) by (auto simp: first_least_def less_Suc_eq)
  then show ?thesis using assms(1,3) by (auto simp: slot_ok_def)
qed

lemma slot_replace:
  assumes "slot_ok nn d J i m" and "\<not> matchedIdx m < 0" and "nn J = i" and nan: "\<forall>j \<le> J. d j \<noteq> NaN"
  shows "slot_ok nn d (Suc J) i (if flt (d J) (distsq m) then m\<lparr>distsq := d J, matchedIdx := int J\<rparr> else m)"
proof -
  obtain j where j: "first_least nn d J i j" "matchedIdx m = int j" "distsq m = d j" and m: "m_idx m = i"
    using assms(1,2) by (auto simp: slot_ok_def split: if_splits)
  have jJ: "j < J" "nn j = i" using j(1) by (auto simp: first_least_def)
  show ?thesis
  proof (cases "flt (d J) (d j)")
    case True
    have "\<not> flt (d j') (d J) \<and> flt (d J) (d j')" if "j' < J" "nn j' = i" for j'
    proof
      have no: "\<not> flt (d j') (d j)" using j(1) that by (auto simp: first_least_def)
      show "\<not> flt (d j') (d J)" using no True flt_trans by blast
      show "flt (d J) (d j')" using no True flt_negtrans [of "d j'" "d J" "d j"] nan that(1) by auto
    qed
    then have "first_least nn d (Suc J) i J" using assms(3) by (auto simp: first_least_def less_Suc_eq)
    then show ?thesis using True assms(3) j(3) m by (auto simp: slot_ok_def)
  next
    case False
    then have "first_least nn d (Suc J) i j" using j(1) jJ by (auto simp: first_least_def less_Suc_eq)
    moreover have "\<exists>j < Suc J. nn j = i" using jJ by (auto intro: less_SucI)
    ultimately show ?thesis using False j(2,3) m by (auto simp: slot_ok_def)
  qed
qed

definition slots_ok :: "(nat \<Rightarrow> nat) \<Rightarrow> (nat \<Rightarrow> fp) \<Rightarrow> nat \<Rightarrow> nat \<Rightarrow> match list \<Rightarrow> bool" where
  "slots_ok nn d n J ms \<longleftrightarrow> length ms = n \<and> (\<forall>i < n. slot_ok nn d J i (ms ! i))"

lemma match_point_ok:
  assumes "slots_ok nn d (length pts0) J ms" and "nearest_idx t p = Some (nn J)" and "nn J < length pts0"
    and "d J = vlengthSquared (vsub p (pts0 ! nn J))" and "\<forall>j \<le> J. d j \<noteq> NaN"
  shows "\<exists>ms'. match_point t pts0 (J, p) ms = Some ms' \<and> slots_ok nn d (length pts0) (Suc J) ms'"
proof -
  let ?i = "nn J"
  define m where "m = (if matchedIdx (ms ! ?i) < 0 \<or> flt (d J) (distsq (ms ! ?i))
    then (ms ! ?i)\<lparr>distsq := d J, matchedIdx := int J\<rparr> else ms ! ?i)"
  have i: "?i < length ms" using assms(1,3) by (simp add: slots_ok_def)
  have ms': "match_point t pts0 (J, p) ms = Some (ms[?i := m])"
    using assms(2,3,4) i by (simp add: match_point_def m_def Let_def)
  have "slot_ok nn d J ?i (ms ! ?i)" using assms(1,3) by (simp add: slots_ok_def)
  then have "slot_ok nn d (Suc J) ?i m"
    using slot_new [of nn d J ?i "ms ! ?i"] slot_replace [of nn d J ?i "ms ! ?i"] assms(5)
    by (cases "matchedIdx (ms ! ?i) < 0") (simp_all add: m_def)
  then have "slot_ok nn d (Suc J) i (ms[?i := m] ! i)" if "i < length pts0" for i
    using that assms(1) slot_other [of nn J i d "ms ! i"] by (cases "i = ?i") (simp_all add: slots_ok_def)
  then have "slots_ok nn d (length pts0) (Suc J) (ms[?i := m])"
    using assms(1) by (simp add: slots_ok_def)
  then show ?thesis using ms' by blast
qed

lemma match_points_ok:
  assumes "slots_ok nn d (length pts0) 0 ms"
    and "\<forall>j < length ps. nearest_idx t (ps ! j) = Some (nn j) \<and> nn j < length pts0 \<and>
           d j = vlengthSquared (vsub (ps ! j) (pts0 ! nn j)) \<and> d j \<noteq> NaN"
  shows "\<exists>ms'. match_points t pts0 ps ms = Some ms' \<and> slots_ok nn d (length pts0) (length ps) ms'"
proof -
  have "\<exists>ms'. ofold (match_point t pts0) (map (\<lambda>j. (j, ps ! j)) [0..<J]) ms = Some ms' \<and> slots_ok nn d (length pts0) J ms'"
    if "J \<le> length ps" for J
    using that
  proof (induction J)
    case (Suc J)
    then obtain m1 where "ofold (match_point t pts0) (map (\<lambda>j. (j, ps ! j)) [0..<J]) ms = Some m1"
      "slots_ok nn d (length pts0) J m1" by auto
    moreover have "\<forall>j \<le> J. d j \<noteq> NaN"
    proof (intro allI impI)
      fix j assume "j \<le> J"
      then have "j < length ps" using Suc.prems by simp
      then show "d j \<noteq> NaN" using assms(2) by blast
    qed
    ultimately show ?case
      using match_point_ok [of nn d pts0 J m1 t "ps ! J"] assms(2) [rule_format, of J] Suc.prems
      by (cases "match_point t pts0 (J, ps ! J) m1") (auto simp: ofold_append)
  qed (use assms(1) in simp)
  moreover have "zip [0..<length ps] ps = map (\<lambda>j. (j, ps ! j)) [0..<length ps]"
    by (intro nth_equalityI) simp_all
  ultimately show ?thesis by (simp add: match_points_def)
qed

lemma matched_slots:
  assumes "slots_ok nn d n J ms"
  shows "map m_idx (matched ms) = filter (\<lambda>i. \<exists>j < J. nn j = i) [0..<n]"
    and "\<forall>m \<in> set (matched ms). \<exists>j. first_least nn d J (m_idx m) j \<and> matchedIdx m = int j \<and> distsq m = d j"
proof -
  have len: "length ms = n" and ok: "\<And>i. i < n \<Longrightarrow> slot_ok nn d J i (ms ! i)" using assms by (auto simp: slots_ok_def)
  have iff: "0 \<le> matchedIdx (ms ! i) \<longleftrightarrow> (\<exists>j < J. nn j = i)" "m_idx (ms ! i) = i" if "i < n" for i
    using ok [OF that] by (auto simp: slot_ok_def split: if_splits)
  have "ms = map ((!) ms) [0..<n]" using len by (simp flip: len add: map_nth)
  then have "matched ms = map ((!) ms) (filter (\<lambda>i. 0 \<le> matchedIdx (ms ! i)) [0..<n])"
    unfolding matched_def by (metis (no_types, lifting) comp_apply filter_cong filter_map)
  then have f: "matched ms = map ((!) ms) (filter (\<lambda>i. \<exists>j < J. nn j = i) [0..<n])"
    using iff(1) by (auto intro!: map_cong filter_cong)
  have "map m_idx (matched ms) = map (\<lambda>i. i) (filter (\<lambda>i. \<exists>j < J. nn j = i) [0..<n])"
    unfolding f map_map by (rule map_cong) (auto simp: iff(2))
  then show "map m_idx (matched ms) = filter (\<lambda>i. \<exists>j < J. nn j = i) [0..<n]" by simp
  show "\<forall>m \<in> set (matched ms). \<exists>j. first_least nn d J (m_idx m) j \<and> matchedIdx m = int j \<and> distsq m = d j"
    unfolding f using ok iff(2) by (auto simp: slot_ok_def split: if_splits)
qed

lemma slots_start: "slots_ok nn d n 0 (map Match_new [0..<n])"
  by (simp add: slots_ok_def slot_ok_def Match_new_def)

subsection \<open>The outcome of a step\<close>

text \<open>With a step size of 0 the sampling loop does not end unless there is nothing to sample.\<close>

lemma align_sample_steps:
  assumes "align_sample tr pts step idx acc = Some ys"
  shows "step \<noteq> 0 \<or> length pts \<le> idx"
proof (rule align_sample.raw_induct [where P = "\<lambda>tr pts step idx acc ys. step \<noteq> 0 \<or> length pts \<le> idx", OF _ assms])
  fix f tr step acc ys and pts :: "vec3 list" and idx :: nat
  assume "\<And>tr pts step idx acc ys. f tr pts step idx acc = Some ys \<Longrightarrow> step \<noteq> 0 \<or> length pts \<le> idx"
    and "(if idx < length pts then f tr pts step (idx + step) (acc @ [xform_point3 tr (pts ! idx)]) else Some acc) = Some ys"
  then show "step \<noteq> 0 \<or> length pts \<le> idx" by (cases "idx < length pts") fastforce+
qed

lemma align_sample_hangs: "pts \<noteq> [] \<Longrightarrow> align_sample tr pts 0 0 acc = None"
  using align_sample_steps [of tr pts 0 0 acc] by (cases "align_sample tr pts 0 0 acc") auto

text \<open>With any other step size it ends.\<close>

lemma align_sample_ends: "0 < step \<Longrightarrow> \<exists>ys. align_sample tr pts step idx acc = Some ys"
proof (induction "length pts - idx" arbitrary: idx acc rule: less_induct)
  case less
  show ?case
  proof (cases "idx < length pts")
    case True
    then show ?thesis using less.hyps [of "idx + step"] less.prems by (subst align_sample.simps) simp
  next
    case False
    then show ?thesis by (subst align_sample.simps) simp
  qed
qed

lemma align_sample_iff: "align_sample tr pts step 0 [] = None \<longleftrightarrow> step = 0 \<and> pts \<noteq> []"
proof (cases "step = 0 \<and> pts \<noteq> []")
  case False
  have "\<exists>ys. align_sample tr pts step 0 [] = Some ys"
  proof (cases "0 < step")
    case True
    then show ?thesis by (rule align_sample_ends)
  next
    case no: False
    then show ?thesis using False by (subst align_sample.simps) simp
  qed
  then show ?thesis using False by auto
qed (simp add: align_sample_hangs)

text \<open>Nothing is taken out as an outlier: the limit is zero or NaN.\<close>

lemma avg_limit_zero: "avg_limit n = NaN \<or> (\<exists>s. avg_limit n = Fin s 0)"
proof -
  have "f_of_int F32 (int n) \<noteq> NaN" by (simp add: f_of_int_def flit_def)
  then have "divf fzero (f_of_int F32 (int n)) = NaN \<or> (\<exists>s. divf fzero (f_of_int F32 (int n)) = Fin s 0)"
    by (cases "f_of_int F32 (int n)") (auto simp: fzero_def)
  then show ?thesis by (auto simp: avg_limit_def)
qed

lemma outliers_kept:
  assumes "omap (rematch pts0 pts1t) ms = Some found"
  shows "filter (\<lambda>m. \<not> flt (distsq m) (avg_limit n)) found = found"
proof -
  define P where "P x \<longleftrightarrow> (\<forall>s q. x \<noteq> Inf True \<and> (x = Fin s q \<longrightarrow> \<not> s \<and> 0 \<le> q))" for x
  have fr: "0 \<le> q \<Longrightarrow> P (fround F32 False q)" for q by (simp add: P_def fround_def Let_def rnd_nonneg)
  have sq: "P (mulf a a)" for a by (cases a) (auto simp: fr, auto simp: P_def)
  have add: "P (addf a b)" if "P a" "P b" for a b
  proof (cases a)
    case a: (Fin s p)
    show ?thesis
    proof (cases b)
      case (Fin t q)
      then have "\<not> s" "\<not> t" "0 \<le> p" "0 \<le> q" using that a by (auto simp: P_def)
      then show ?thesis using fr [of "p + q"] by (auto simp: a Fin sval_def P_def Let_def)
    qed (use that a in \<open>auto simp: P_def\<close>)
  next
    case (Inf s)
    then show ?thesis using that by (cases b) (auto simp: P_def)
  qed (simp add: P_def)
  have "\<not> flt (vlengthSquared v) (avg_limit n)" for v
  proof -
    have "P (vlengthSquared v)" unfolding vlengthSquared_def vdot_def by (intro add sq)
    then show ?thesis using avg_limit_zero [of n] by (cases "vlengthSquared v") (auto simp: P_def sval_def split: if_splits)
  qed
  moreover have "\<exists>v. distsq m = vlengthSquared v" if m: "m \<in> set found" for m
  proof -
    obtain i where i: "i < length found" "m = found ! i" using m by (auto simp: in_set_conv_nth)
    have "rematch pts0 pts1t (ms ! i) = Some m"
      using omap_nth [OF assms, of i] i omap_length [OF assms] by simp
    then show ?thesis by (auto simp: rematch_def bind_eq_Some_conv)
  qed
  ultimately have "\<forall>m \<in> set found. \<not> flt (distsq m) (avg_limit n)" by metis
  then show ?thesis by (simp add: filter_id_conv)
qed

subsection \<open>Exact values\<close>

text \<open>A float that denotes a rational exactly, up to the sign of zero, and the rationals floats denote.\<close>

definition denotes :: "fp \<Rightarrow> rat \<Rightarrow> bool" where
  "denotes x a \<longleftrightarrow> (\<exists>s. x = Fin s \<bar>a\<bar> \<and> sval s \<bar>a\<bar> = a)"

definition exact :: "rat \<Rightarrow> bool" where
  "exact a \<longleftrightarrow> representable F32 \<bar>a\<bar> \<and> \<bar>a\<bar> \<le> ffmax F32"

lemma exact_fround: "exact a \<Longrightarrow> fround F32 s \<bar>a\<bar> = Fin s \<bar>a\<bar>"
  unfolding exact_def by (intro fround_exact) simp_all

lemma exact_simps [simp]: "exact 0" "exact (- a) = exact a" "exact 1" "exact 2"
  using representable_int [of 1 F32] representable_int [of 2 F32] by (simp_all add: exact_def)

lemma denotes_zero: "denotes x 0 \<longleftrightarrow> (\<exists>s. x = Fin s 0)"
  by (auto simp: denotes_def sval_def)

lemma denotes_isfin: "denotes x a \<Longrightarrow> isfin x"
  by (auto simp: denotes_def)

lemma denotes_sign: "a \<noteq> 0 \<Longrightarrow> denotes (Fin (a < 0) \<bar>a\<bar>) a"
  by (simp add: denotes_def sval_def)

lemma denotes_neg: "denotes x a \<Longrightarrow> denotes (- x) (- a)"
proof -
  assume "denotes x a"
  then obtain s where "x = Fin s \<bar>a\<bar>" "sval s \<bar>a\<bar> = a" by (auto simp: denotes_def)
  then show ?thesis unfolding denotes_def uminus_fp_def by (intro exI [of _ "\<not> s"]) (auto simp: sval_def)
qed

lemma denotes_add: "denotes x a \<Longrightarrow> denotes y b \<Longrightarrow> exact (a + b) \<Longrightarrow> denotes (x + y) (a + b)"
proof -
  assume "denotes x a" "denotes y b" and e: "exact (a + b)"
  then obtain s t where "x = Fin s \<bar>a\<bar>" "sval s \<bar>a\<bar> = a" "y = Fin t \<bar>b\<bar>" "sval t \<bar>b\<bar> = b" by (auto simp: denotes_def)
  then have "x + y = (if a + b = 0 then Fin (s \<and> t) 0 else Fin (a + b < 0) \<bar>a + b\<bar>)"
    using exact_fround [OF e] by (simp add: plus_fp_def Let_def)
  then show ?thesis using denotes_sign [of "a + b"] by (auto simp: denotes_zero)
qed

lemma denotes_sub: "denotes x a \<Longrightarrow> denotes y b \<Longrightarrow> exact (a - b) \<Longrightarrow> denotes (x - y) (a - b)"
  using denotes_add [OF _ denotes_neg, of x a y b] by (simp add: minus_fp_def plus_fp_def uminus_fp_def fsub_def)

lemma denotes_mul: "denotes x a \<Longrightarrow> denotes y b \<Longrightarrow> exact (a * b) \<Longrightarrow> denotes (x * y) (a * b)"
proof -
  assume "denotes x a" "denotes y b" and e: "exact (a * b)"
  then obtain s t where xy: "x = Fin s \<bar>a\<bar>" "sval s \<bar>a\<bar> = a" "y = Fin t \<bar>b\<bar>" "sval t \<bar>b\<bar> = b" by (auto simp: denotes_def)
  have "x * y = Fin (s \<noteq> t) \<bar>a * b\<bar>"
    using exact_fround [OF e, of "s \<noteq> t"] by (simp add: xy times_fp_def flip: abs_mult)
  moreover have "sval (s \<noteq> t) \<bar>a * b\<bar> = sval s \<bar>a\<bar> * sval t \<bar>b\<bar>"
    by (cases s; cases t) (simp_all add: sval_def abs_mult)
  then have "sval (s \<noteq> t) \<bar>a * b\<bar> = a * b" unfolding xy .
  ultimately show ?thesis unfolding denotes_def by blast
qed

lemma denotes_zero_mul: "denotes x 0 \<Longrightarrow> isfin y \<Longrightarrow> denotes (x * y) 0"
  by (cases y) (auto simp: denotes_zero times_fp_def)

lemma denotes_consts: "denotes fzero 0" "denotes fone 1" "denotes two 2"
  using denotes_sign [of 1] denotes_sign [of 2] by (auto simp: denotes_zero fzero_def fone_def two_def)

lemmas denotes_ops = denotes_add denotes_sub denotes_mul denotes_neg

definition small :: "fp \<Rightarrow> bool" where
  "small x \<longleftrightarrow> (\<exists>s q. x = Fin s q \<and> 0 \<le> q \<and> q \<le> 2 ^ 126 \<and> representable F32 q)"

lemma representable_double: "representable F q \<Longrightarrow> representable F (2 * q)"
proof -
  assume "representable F q"
  then obtain n e where "q = of_int n * 2 powi e" "\<bar>n\<bar> < 2 ^ fprec F" "fqmin F \<le> e" by (auto simp: representable_def)
  then show ?thesis unfolding representable_def
    by (intro exI [of _ n] exI [of _ "e + 1"]) (simp add: power_int_add)
qed

lemma small_denotes: "small x \<Longrightarrow> \<exists>a. denotes x a \<and> exact a \<and> exact (2 * a)"
proof -
  assume "small x"
  then obtain s q where x: "x = Fin s q" "0 \<le> q" "q \<le> 2 ^ 126" "representable F32 q" by (auto simp: small_def)
  have "\<bar>sval s q\<bar> = q" "\<bar>2 * sval s q\<bar> = 2 * q" using x(2) by (auto simp: sval_def)
  then show ?thesis
    using x representable_double [OF x(4)]
    by (intro exI [of _ "sval s q"]) (auto simp: denotes_def exact_def)
qed

text \<open>Without rotation and translation, a point matched with itself gives derivatives of zero.\<close>

lemma derivs_value:
  assumes c: "denotes c1 1" "denotes c2 1" "denotes c3 1" and s: "denotes s1 0" "denotes s2 0" "denotes s3 0"
    and t: "denotes tx 0" "denotes ty 0" "denotes tz 0"
    and p: "denotes x X" "denotes y Y" "denotes z Z"
    and [simp]: "exact X" "exact Y" "exact Z" "exact (2 * X)" "exact (2 * Y)" "exact (2 * Z)"
  shows "\<exists>v. denotes (derivrx two (c1, s1, c2, s2, c3, s3) (tx, ty, tz) (x, y, z) (x, y, z)) v \<and> v = 0"
    and "\<exists>v. denotes (derivry two (c1, s1, c2, s2, c3, s3) (tx, ty, tz) (x, y, z) (x, y, z)) v \<and> v = 0"
    and "\<exists>v. denotes (derivrz two (c1, s1, c2, s2, c3, s3) (tx, ty, tz) (x, y, z) (x, y, z)) v \<and> v = 0"
    and "\<exists>v. denotes (derivtx two (c1, s1, c2, s2, c3, s3) (tx, ty, tz) (x, y, z) (x, y, z)) v \<and> v = 0"
    and "\<exists>v. denotes (derivty two (c1, s1, c2, s2, c3, s3) (tx, ty, tz) (x, y, z) (x, y, z)) v \<and> v = 0"
    and "\<exists>v. denotes (derivtz two (c1, s1, c2, s2, c3, s3) (tx, ty, tz) (x, y, z) (x, y, z)) v \<and> v = 0"
  unfolding derivrx.simps derivry.simps derivrz.simps derivtx.simps derivty.simps derivtz.simps
  by ((rule exI, rule conjI, (rule denotes_ops | rule c s t p denotes_consts | simp)+) [1])+

subsection \<open>A cloud fitted to itself\<close>

definition vdenotes :: "vec3 \<Rightarrow> rat \<Rightarrow> rat \<Rightarrow> rat \<Rightarrow> bool" where
  "vdenotes v a b c \<longleftrightarrow> denotes (vx v) a \<and> denotes (vy v) b \<and> denotes (vz v) c"

abbreviation vzeros :: "vec3 \<Rightarrow> bool" where
  "vzeros v \<equiv> vdenotes v 0 0 0"

definition vsmall :: "vec3 \<Rightarrow> bool" where
  "vsmall p \<longleftrightarrow> small (vx p) \<and> small (vy p) \<and> small (vz p)"

lemma vzeros_vzero [simp]: "vzeros vzero"
  by (simp add: vdenotes_def vzero_def denotes_consts)

lemma vzeros_add: "vzeros a \<Longrightarrow> vzeros b \<Longrightarrow> vzeros (vadd a b)"
  using denotes_add [where a = 0 and b = 0] by (simp add: vdenotes_def vadd_def flip: plus_fp_def)

lemma vzeros_scale: "vzeros a \<Longrightarrow> isfin s \<Longrightarrow> vzeros (vscale a s)"
  using denotes_zero_mul by (simp add: vdenotes_def vscale_def flip: times_fp_def)

lemma vzeros_length: "vzeros v \<Longrightarrow> vlength v = fzero"
  by (auto simp: vdenotes_def denotes_zero vlength_def vlengthSquared_def vdot_def Let_def feq_zero_iff sval_def)

lemma inv_count_fin: "0 < n \<Longrightarrow> isfin (inv_count n)"
proof -
  assume n: "0 < n"
  have one: "rnd F64 1 = 1" using rnd_exact [of F64 1] representable_int [of 1 F64] by simp
  have le1: "isfin (fround F s q)" if "0 \<le> q" "q \<le> 1" "F = F32 \<or> F = F64" for F s q
    using rnd_mono [of q 1 F] rnd_exact [of F 1] representable_int [of 1 F] that
    by (auto simp: fround_def Let_def)
  show ?thesis
  proof (cases "f_of_int F64 (int n)")
    case (Fin s b)
    have "1 \<le> rnd F64 (of_int (int n))" using rnd_mono [of 1 "of_int (int n)" F64] n one by simp
    then have b: "1 \<le> b" using Fin by (auto simp: f_of_int_def flit_def fround_def Let_def split: if_splits)
    then have "fdiv F64 fone (Fin s b) = fround F64 s (1 / b)" by (simp add: fone_def)
    moreover have "isfin (fcvt F32 (fround F64 s (1 / b)))"
    proof -
      have r: "0 \<le> rnd F64 (1 / b)" "rnd F64 (1 / b) \<le> 1" using rnd_nonneg [of "1 / b"] rnd_mono [of "1 / b" 1 F64] b one by simp_all
      then have "fround F64 s (1 / b) = Fin s (rnd F64 (1 / b))" by (simp add: fround_def Let_def)
      then show ?thesis using le1 [OF r] by simp
    qed
    ultimately show ?thesis by (simp add: inv_count_def Fin)
  next
    case (Inf s)
    then show ?thesis by (simp add: inv_count_def fone_def)
  next
    case NaN
    then show ?thesis by (simp add: f_of_int_def flit_def)
  qed
qed

text \<open>What the C library's sine and cosine return for zero.\<close>

definition trig_at_zero :: "(fp \<Rightarrow> fp) \<Rightarrow> (fp \<Rightarrow> fp) \<Rightarrow> bool" where
  "trig_at_zero sinf cosf \<longleftrightarrow> (\<forall>s. sinf (Fin s 0) = Fin s 0 \<and> cosf (Fin s 0) = fone)"

lemma sin_denotes: "trig_at_zero sinf cosf \<Longrightarrow> denotes x 0 \<Longrightarrow> denotes (sinf x) 0"
  by (auto simp: denotes_zero trig_at_zero_def)

lemma cos_denotes: "trig_at_zero sinf cosf \<Longrightarrow> denotes x 0 \<Longrightarrow> denotes (cosf x) 1"
  using denotes_consts by (auto simp: denotes_zero trig_at_zero_def)

lemma derivs_at_self:
  assumes "trig_at_zero sinf cosf" and "vzeros rot" and "vzeros t" and "vsmall p"
  defines "trig \<equiv> (cosf (vx rot), sinf (vx rot), cosf (vy rot), sinf (vy rot), cosf (vz rot), sinf (vz rot))"
  shows "vzeros (V3 (derivrx two trig (triple_of t) (triple_of p) (triple_of p))
            (derivry two trig (triple_of t) (triple_of p) (triple_of p)) (derivrz two trig (triple_of t) (triple_of p) (triple_of p)))"
    and "vzeros (V3 (derivtx two trig (triple_of t) (triple_of p) (triple_of p))
            (derivty two trig (triple_of t) (triple_of p) (triple_of p)) (derivtz two trig (triple_of t) (triple_of p) (triple_of p)))"
proof -
  obtain a b c where p: "denotes (vx p) a" "denotes (vy p) b" "denotes (vz p) c"
    and e: "exact a" "exact b" "exact c" "exact (2 * a)" "exact (2 * b)" "exact (2 * c)"
    using small_denotes assms(4) unfolding vsmall_def by metis
  have r: "denotes (vx rot) 0" "denotes (vy rot) 0" "denotes (vz rot) 0"
    and t: "denotes (vx t) 0" "denotes (vy t) 0" "denotes (vz t) 0" using assms(2,3) by (simp_all add: vdenotes_def)
  note co = cos_denotes [OF assms(1)] and si = sin_denotes [OF assms(1)]
  note z = derivs_value [OF co [OF r(1)] co [OF r(2)] co [OF r(3)] si [OF r(1)] si [OF r(2)] si [OF r(3)] t p e]
  show "vzeros (V3 (derivrx two trig (triple_of t) (triple_of p) (triple_of p))
            (derivry two trig (triple_of t) (triple_of p) (triple_of p)) (derivrz two trig (triple_of t) (triple_of p) (triple_of p)))"
    and "vzeros (V3 (derivtx two trig (triple_of t) (triple_of p) (triple_of p))
            (derivty two trig (triple_of t) (triple_of p) (triple_of p)) (derivtz two trig (triple_of t) (triple_of p) (triple_of p)))"
    using z by (simp_all add: vdenotes_def triple_of_def trig_def del: derivrx.simps derivry.simps derivrz.simps derivtx.simps derivty.simps derivtz.simps)
qed

lemma GetDerivatives_self:
  assumes "trig_at_zero sinf cosf" and "vzeros rot" and "vzeros t" and "\<forall>p \<in> set pts. vsmall p" and "pts \<noteq> []"
  shows "\<exists>u v. GetDerivatives sinf cosf pts pts rot t = Some (u, v) \<and> vzeros u \<and> vzeros v"
proof -
  define trig where "trig = (cosf (vx rot), sinf (vx rot), cosf (vy rot), sinf (vy rot), cosf (vz rot), sinf (vz rot))"
  define f where "f = (\<lambda>i (ud, td).
     let src = triple_of (pts ! i); dst = triple_of (pts ! i)
     in (vadd ud (V3 (derivrx two trig (triple_of t) src dst) (derivry two trig (triple_of t) src dst) (derivrz two trig (triple_of t) src dst)),
         vadd td (V3 (derivtx two trig (triple_of t) src dst) (derivty two trig (triple_of t) src dst) (derivtz two trig (triple_of t) src dst))))"
  have "vzeros (fst (fold f is (ud, td))) \<and> vzeros (snd (fold f is (ud, td)))"
    if "set is \<subseteq> {..<length pts}" "vzeros ud" "vzeros td" for "is" ud td
    using that
  proof (induction "is" arbitrary: ud td)
    case (Cons i js)
    then have "vsmall (pts ! i)" using assms(4) by simp
    then show ?case using Cons derivs_at_self [OF assms(1,2,3), of "pts ! i"]
      by (simp add: f_def Let_def trig_def vzeros_add del: derivrx.simps derivry.simps derivrz.simps derivtx.simps derivty.simps derivtz.simps)
  qed simp
  from this [of "[0..<length pts]" vzero vzero] have z: "vzeros (fst (fold f [0..<length pts] (vzero, vzero)))"
    "vzeros (snd (fold f [0..<length pts] (vzero, vzero)))" by (auto simp: subset_iff)
  have "GetDerivatives sinf cosf pts pts rot t = (case fold f [0..<length pts] (vzero, vzero) of (ud, td) \<Rightarrow>
      Some (vscale ud (inv_count (length pts)), vscale td (inv_count (length pts))))"
    unfolding GetDerivatives_def f_def trig_def Let_def by simp
  then show ?thesis using z inv_count_fin [of "length pts"] assms(5)
    by (cases "fold f [0..<length pts] (vzero, vzero)") (auto intro: vzeros_scale)
qed

lemma BestFit_self:
  assumes "trig_at_zero sinf cosf" and "\<forall>p \<in> set pts. vsmall p" and "pts \<noteq> []"
    and d: "isfin (wx dvals)" "isfin (wy dvals)" "isfin (wz dvals)" "isfin (ww dvals)"
  shows "\<exists>t r. BestFit sinf cosf pts pts dvals = Some (t, r, fzero) \<and> vzeros t \<and> vzeros r"
proof -
  let ?P = "\<lambda>(t, r, e). vzeros t \<and> vzeros r \<and> e = fzero"
  have step: "\<exists>b. BestFit_step sinf cosf pts pts dvals a = Some b \<and> ?P b" if P: "?P a" for a
  proof -
    obtain t r where a: "a = (t, r, fzero)" "vzeros t" "vzeros r" using P by (cases a) auto
    obtain u v where g: "GetDerivatives sinf cosf pts pts r t = Some (u, v)" "vzeros u" "vzeros v"
      using GetDerivatives_self [OF assms(1) a(3,2) assms(2,3)] by blast
    have z: "denotes (addf x (mulf y c)) 0" if "denotes x 0" "denotes y 0" "isfin c" for x y c
      using denotes_add [where a = 0 and b = 0] denotes_zero_mul that by (simp flip: plus_fp_def times_fp_def)
    have "ffabs (addf (vlength u) (vlength v)) = fzero"
      by (simp add: vzeros_length [OF g(2)] vzeros_length [OF g(3)] fzero_def sval_def)
    then show ?thesis using a g d vzeros_add [OF a(2) vzeros_scale [OF g(3) d(1)]]
      by (auto simp: BestFit_step_def vdenotes_def intro!: z)
  qed
  obtain x where "BestFit sinf cosf pts pts dvals = Some x" "?P x"
    using ofold_total [of ?P "(vzero, vzero, fzero)" "[0..<100]" "\<lambda>_. BestFit_step sinf cosf pts pts dvals"] step
    unfolding BestFit_def by auto
  then show ?thesis by (cases x) auto
qed

text \<open>The transform made from zero angles and a zero translation moves no point.\<close>

definition mat_identity :: "matrix \<Rightarrow> bool" where
  "mat_identity m \<longleftrightarrow> (\<forall>i < 4. \<forall>j < 4. denotes (mat_at m i j) (if i = j then 1 else 0))"

lemma all_less_4: "(\<forall>i < 4. P i) \<longleftrightarrow> P 0 \<and> P 1 \<and> P 2 \<and> P (3 :: nat)"
  by (auto simp: numeral_eq_Suc less_Suc_eq)

lemma mat_of_at: "i < 4 \<Longrightarrow> j < 4 \<Longrightarrow> mat_at \<lparr>mData = mat_of f, mState = st\<rparr> i j = f i j"
  by (simp add: mat_at_def mat_of_def)

lemma mult_at:
  "i < 4 \<Longrightarrow> j < 4 \<Longrightarrow> mat_at (mult a b) i j = fzero + mat_at a i 0 * mat_at b 0 j + mat_at a i 1 * mat_at b 1 j +
     mat_at a i 2 * mat_at b 2 j + mat_at a i 3 * mat_at b 3 j"
  by (simp add: mult_def mat_of_at plus_fp_def times_fp_def upt_conv_Cons numeral_eq_Suc)

text \<open>A row of a matrix that is the identity picks one component.\<close>

lemma pick_row:
  assumes "\<forall>k < 4. denotes (m k) (if i = k then 1 else 0)" and "i < 4"
    and "\<forall>k < 4. denotes (x k) (X k) \<and> exact (X k)"
  shows "denotes (fzero + m 0 * x 0 + m 1 * x 1 + m 2 * x 2 + m 3 * x (3 :: nat)) (X i)"
proof -
  have m: "denotes (m 0) (if i = 0 then 1 else 0)" "denotes (m 1) (if i = 1 then 1 else 0)"
    "denotes (m 2) (if i = 2 then 1 else 0)" "denotes (m 3) (if i = 3 then 1 else 0)"
    and x: "denotes (x 0) (X 0)" "denotes (x 1) (X 1)" "denotes (x 2) (X 2)" "denotes (x 3) (X 3)"
    and [simp]: "exact (X 0)" "exact (X 1)" "exact (X 2)" "exact (X 3)"
    using assms by auto
  have i: "i = 0 \<or> i = 1 \<or> i = 2 \<or> i = 3" using assms(2) by auto
  have "\<exists>v. denotes (fzero + m 0 * x 0 + m 1 * x 1 + m 2 * x 2 + m 3 * x 3) v \<and> v = X i"
    using i by (elim disjE) ((rule exI, rule conjI, (rule denotes_ops | rule m x denotes_consts | simp del: One_nat_def)+) [1])+
  then show ?thesis by blast
qed

lemma mult_identity:
  assumes "mat_identity a" and "mat_identity b"
  shows "mat_identity (mult a b)"
  unfolding mat_identity_def
proof (intro allI impI)
  fix i j :: nat assume ij: "i < 4" "j < 4"
  have "denotes (mat_at (mult a b) i j) ((\<lambda>k. if k = j then 1 else 0) i)"
    unfolding mult_at [OF ij] by (rule pick_row) (use assms ij in \<open>auto simp: mat_identity_def\<close>)
  then show "denotes (mat_at (mult a b) i j) (if i = j then 1 else 0)" by simp
qed

lemma flit_small: "\<exists>q. flit F32 (1 / 10000) = Fin False q \<and> q \<le> 1 / 2"
proof -
  have "representable F32 (1 / 2)" unfolding representable_def by (rule exI [of _ 1], rule exI [of _ "-1"]) simp
  then have "rnd F32 (1 / 10000) \<le> 1 / 2" by (intro rnd_le_representable) simp_all
  then show ?thesis by (simp add: flit_def fround_def Let_def)
qed

lemma xform_identity:
  assumes "mat_identity m" and p: "denotes (vx p) a" "denotes (vy p) b" "denotes (vz p) c" and e: "exact a" "exact b" "exact c"
  shows "vdenotes (xform_point3 m p) a b c"
proof -
  let ?v = "V4 (vx p) (vy p) (vz p) fone"
  define x X where "x = (\<lambda>k::nat. if k = 0 then vx p else if k = 1 then vy p else if k = 2 then vz p else fone)"
    and "X = (\<lambda>k::nat. if k = 0 then a else if k = 1 then b else if k = 2 then c else 1 :: rat)"
  have row: "xform_row m i ?v = fzero + mat_at m i 0 * x 0 + mat_at m i 1 * x 1 + mat_at m i 2 * x 2 + mat_at m i 3 * x 3" for i
    by (simp add: xform_row_def x_def plus_fp_def times_fp_def)
  have r: "denotes (xform_row m i ?v) (X i)" if "i < 4" for i
    unfolding row by (rule pick_row) (use assms that in \<open>auto simp: mat_identity_def x_def X_def denotes_consts\<close>)
  have w: "denotes (xform_row m 3 ?v) 1" using r [of 3] by (simp add: X_def)
  then have w1: "xform_row m 3 ?v = fone" by (auto simp: denotes_def sval_def fone_def split: if_splits)
  obtain q where q: "flit F32 (1 / 10000) = Fin False q" "q \<le> 1 / 2" using flit_small by blast
  have one: "fround F32 s 1 = Fin s 1" for s using exact_fround [of 1 s] by simp
  have "\<not> isEqualf fone fzero (flit F32 (1 / 10000))" "divf fone fone = fone"
    using q by (simp_all add: isEqualf_def fone_def fzero_def fsub_def sval_def one fle_def)
  then have "xform_point3 m p = V3 (xform_row m 0 ?v * fone) (xform_row m 1 ?v * fone) (xform_row m 2 ?v * fone)"
    by (simp add: xform_point3_def xform_divide_def xform_vec4_def w1 times_fp_def)
  then show ?thesis
    using denotes_mul [OF r denotes_consts(2), of 0] denotes_mul [OF r denotes_consts(2), of 1] denotes_mul [OF r denotes_consts(2), of 2] e
    by (simp add: vdenotes_def X_def)
qed

text \<open>A quaternion that denotes the identity rotation.\<close>

definition quat_identity :: "quat \<Rightarrow> bool" where
  "quat_identity q \<longleftrightarrow> (\<exists>a b c. q = Quat (Fin a 0) (Fin b 0) (Fin c 0) fone)"

lemmas identity_simps = fone_def fzero_def fsub_def sval_def fround_one Let_def

lemma quat_of_axis_identity:
  assumes "trig_at_zero sinf cosf" and "denotes angle 0" and "axis \<in> {V3 fone fzero fzero, V3 fzero fone fzero}"
  shows "quat_identity (quat_of_axis sinf cosf angle axis)"
proof -
  have "isfin (flit F32 (1 / 2))"
    using rnd_le_representable [of "1 / 2" 1 F32] representable_int [of 1 F32] by (simp add: flit_def fround_def Let_def)
  then have "denotes (mulf angle (flit F32 (1 / 2))) 0"
    using denotes_zero_mul [OF assms(2)] by (simp add: times_fp_def)
  then obtain s where "mulf angle (flit F32 (1 / 2)) = Fin s 0" using denotes_zero by blast
  then show ?thesis
    using assms(1,3) by (auto simp: quat_identity_def quat_of_axis_def trig_at_zero_def identity_simps)
qed

lemma qmul_identity: "quat_identity a \<Longrightarrow> quat_identity b \<Longrightarrow> quat_identity (qmul a b)"
  by (auto simp: quat_identity_def qmul_def identity_simps)

lemma makeRot_identity: "quat_identity q \<Longrightarrow> mat_identity (makeRot q)"
  by (auto simp: quat_identity_def mat_identity_def all_less_4 makeRot_def setRot_def mat_upd_def mat_at_def
      identity_matrix_def mat_of_def upt_conv_Cons denotes_zero identity_simps)
     (auto simp: denotes_def sval_def)

lemma makeTrans_identity: "vzeros t \<Longrightarrow> mat_identity (makeTrans t)"
  by (auto simp: vdenotes_def mat_identity_def all_less_4 makeTrans_def setTrans_def mat_upd_def mat_at_def
      identity_matrix_def mat_of_def upt_conv_Cons identity_simps)
     (auto simp: denotes_def sval_def)

lemma fit_transform_identity:
  assumes "trig_at_zero sinf cosf" and "vzeros t" and "vzeros r"
  shows "mat_identity (fit_transform sinf cosf t r)"
proof -
  have r: "denotes (vx r) 0" "denotes (vy r) 0" "denotes (vz r) 0" using assms(3) by (simp_all add: vdenotes_def)
  show ?thesis unfolding fit_transform_def Let_def
    by (intro mult_identity makeRot_identity qmul_identity quat_of_axis_identity [OF assms(1)] makeTrans_identity r assms(2)) simp_all
qed

subsection \<open>Every search in a filled tree finds a value\<close>

text \<open>Whatever the coordinates are, also NaN, the best pointer is at a node of the tree.\<close>

definition in_tree :: "'v kdnode \<Rightarrow> near \<Rightarrow> bool" where
  "in_tree T s \<longleftrightarrow> (\<exists>q. nr_best s = At q \<and> node_at T q \<noteq> KNil)"

lemma near_test_best: "node_at T p \<noteq> KNil \<Longrightarrow> in_tree T s \<Longrightarrow> in_tree T (near_test k acc pr v p d u s)"
  by (simp add: near_test_def in_tree_def)

lemma node_at_child: "node_at T p = KNode l u r \<Longrightarrow> node_at T (c # p) = (if c then r else l)"
  by simp

lemma kd_visit_best: "node_at T p = t \<Longrightarrow> in_tree T s \<Longrightarrow> in_tree T (kd_visit k acc pr v p d t s)"
proof (induction t arbitrary: p d s)
  case (KNode l u r)
  note at = node_at_child [OF KNode.prems(1)]
  have s1: "in_tree T (near_test k acc pr v p d u s)" using KNode.prems by (intro near_test_best) simp_all
  have l: "in_tree T (kd_visit k acc pr v (False # p) (Suc d) l s')" if "in_tree T s'" for s'
    using KNode.IH(1) [OF _ that] at by simp
  have r: "in_tree T (kd_visit k acc pr v (True # p) (Suc d) r s')" if "in_tree T s'" for s'
    using KNode.IH(2) [OF _ that] at by simp
  show ?case using l [OF s1] r [OF s1] l [OF r [OF s1]] r [OF l [OF s1]]
    by (auto simp: Let_def)
qed simp

lemma kd_search_best: "node_at T p = t \<Longrightarrow> in_tree T s \<Longrightarrow> in_tree T (kd_search k acc pr v p d t s)"
proof (induction t arbitrary: p d s)
  case (KNode l u r)
  note at = node_at_child [OF KNode.prems(1)]
  have l: "in_tree T (case l of KNil \<Rightarrow> s
      | KNode _ w _ \<Rightarrow> kd_search k acc pr v (False # p) (Suc d) l (near_test k acc pr v (False # p) (Suc d) w s))"
  proof (cases l)
    case (KNode l1 w r1)
    then have "in_tree T (kd_search k acc pr v (False # p) (Suc d) l (near_test k acc pr v (False # p) (Suc d) w s))"
      using at KNode.prems(2) by (intro KNode.IH(1) near_test_best) simp_all
    then show ?thesis using KNode by simp
  qed (use KNode.prems in simp)
  have r: "in_tree T (case r of KNil \<Rightarrow> s
      | KNode _ w _ \<Rightarrow> kd_search k acc pr v (True # p) (Suc d) r (near_test k acc pr v (True # p) (Suc d) w s))"
  proof (cases r)
    case (KNode l1 w r1)
    then have "in_tree T (kd_search k acc pr v (True # p) (Suc d) r (near_test k acc pr v (True # p) (Suc d) w s))"
      using at KNode.prems(2) by (intro KNode.IH(2) near_test_best) simp_all
    then show ?thesis using KNode by simp
  qed (use KNode.prems in simp)
  have "in_tree T (kd_visit k acc pr v (True # p) (Suc d) r s')" "in_tree T (kd_visit k acc pr v (False # p) (Suc d) l s')"
    if "in_tree T s'" for s'
    using kd_visit_best [OF _ that] at by simp_all
  then show ?case using l r by (simp add: Let_def)
qed simp

lemma node_at_subset: "node_at T q = KNode l u r \<Longrightarrow> set_kdnode (node_at T q) \<subseteq> set_kdnode T"
proof (induction q arbitrary: l u r)
  case (Cons b q)
  then obtain l' u' r' where "node_at T q = KNode l' u' r'" by (cases "node_at T q") auto
  with Cons.IH [OF this] show ?case by auto
qed simp

lemma find_nearest_answers:
  assumes "kd_root t \<noteq> KNil"
  shows "\<exists>q m l u r. find_nearest k acc t v = Some (At q, m) \<and> node_at (kd_root t) q = KNode l u r \<and> u \<in> set_kdnode (kd_root t)"
proof -
  obtain l0 u0 r0 where T: "kd_root t = KNode l0 u0 r0" using assms by (cases "kd_root t") auto
  have "find_nearest k acc t v = map_option (\<lambda>s. (nr_best s, nr_max s))
      (node_nearest k acc (\<lambda>_. True) v (kd_root t) (At []) (fsqrt F32 (acc_distance k acc u0 v)))"
    unfolding find_nearest_def T by simp
  then obtain m s where s: "s = kd_search k acc (\<lambda>_. True) v [] 0 (kd_root t) \<lparr>nr_best = At [], nr_max = m, nr_dim = 0\<rparr>"
    "find_nearest k acc t v = Some (nr_best s, nr_max s)"
    unfolding node_nearest_search [OF assms] by auto
  have "in_tree (kd_root t) s" unfolding s(1) using assms by (intro kd_search_best) (simp_all add: in_tree_def)
  then obtain q where q: "nr_best s = At q" "node_at (kd_root t) q \<noteq> KNil" by (auto simp: in_tree_def)
  then obtain l u r where n: "node_at (kd_root t) q = KNode l u r" by (cases "node_at (kd_root t) q") auto
  then have "u \<in> set_kdnode (kd_root t)" using node_at_subset [OF n] by auto
  then show ?thesis using n s(2) q(1) by auto
qed

lemma nearest_idx_answers:
  assumes "permutes_range nthe" and "pts \<noteq> []" and "build_tree nthe pts kd_empty = Some t"
  shows "\<exists>i < length pts. nearest_idx t p = Some i"
proof -
  have ms: "mset (kd_inorder (kd_root t)) = mset (anodes pts)"
    using kd_built [OF assms(1), of 3 anode_at "anodes pts"] assms(3) by (auto simp: build_tree_def)
  then have vs: "set_kdnode (kd_root t) = set (anodes pts)" by (metis set_kd_inorder set_mset_mset)
  moreover have "anodes pts \<noteq> []" using assms(2) by (simp add: anodes_def)
  ultimately have "kd_root t \<noteq> KNil" by auto
  from find_nearest_answers [OF this] obtain q m l u r where
    q: "find_nearest 3 anode_at t \<lparr>an_pos = p, an_idx = 0\<rparr> = Some (At q, m)" "node_at (kd_root t) q = KNode l u r"
    "u \<in> set_kdnode (kd_root t)" by blast
  then have "an_idx u < length pts" using vs anodes_set by auto
  then show ?thesis using q(1,2) by (simp add: nearest_idx_def)
qed

subsection \<open>No step is undefined\<close>

text \<open>The state between steps: a new alignment, or one whose tree and matches are of its first cloud.\<close>

definition al_ok :: "anode nth_elem \<Rightarrow> align \<Rightarrow> bool" where
  "al_ok nthe a \<longleftrightarrow> (0 < al_step a \<longrightarrow> al_pts0 a \<noteq> []) \<and>
     (if al_step a < 0 then al_kdtree a = kd_empty
      else build_tree nthe (al_pts0 a) kd_empty = Some (al_kdtree a) \<and>
           map m_idx (al_matches a) = [0..<length (al_pts0 a)])"

lemma al_ok_new: "al_ok nthe (PTCloudAlign_new pts0 pts1)"
  by (simp add: al_ok_def PTCloudAlign_new_def)

text \<open>The step size that the step samples with.\<close>

definition next_step :: "align \<Rightarrow> int" where
  "next_step a = (if al_step a < 0 then int (length (al_pts0 a) div 10) else al_step a)"

lemma align_start_ok:
  assumes "permutes_range nthe" and "al_ok nthe a"
  shows "\<exists>a'. align_start nthe a = Some a' \<and> al_ok nthe a' \<and> al_step a' = next_step a \<and> 0 \<le> al_step a' \<and>
    al_pts0 a' = al_pts0 a \<and> al_pts1 a' = al_pts1 a"
proof (cases "al_step a < 0")
  case True
  obtain t where t: "build_tree nthe (al_pts0 a) kd_empty = Some t"
    using kd_built [OF assms(1), of 3 anode_at "anodes (al_pts0 a)"] by (auto simp: build_tree_def)
  have "map m_idx (map Match_new [0..<length (al_pts0 a)]) = [0..<length (al_pts0 a)]"
    by (simp add: Match_new_def comp_def)
  then show ?thesis using True assms(2) t by (auto simp: align_start_def al_ok_def next_step_def)
next
  case False
  then show ?thesis using assms(2) by (simp add: align_start_def next_step_def)
qed

text \<open>Matches whose indices are inside the two clouds.\<close>

definition match_bounds :: "nat \<Rightarrow> nat \<Rightarrow> match list \<Rightarrow> bool" where
  "match_bounds n J ms \<longleftrightarrow> map m_idx ms = [0..<n] \<and> (\<forall>m \<in> set ms. matchedIdx m < int J)"

lemma match_points_total:
  assumes "\<forall>p \<in> set tpts. \<exists>i < length pts0. nearest_idx t p = Some i"
    and "match_bounds (length pts0) (length tpts) ms"
  shows "\<exists>ms'. match_points t pts0 tpts ms = Some ms' \<and> match_bounds (length pts0) (length tpts) ms'"
  unfolding match_points_def
proof (rule ofold_total [where P = "match_bounds (length pts0) (length tpts)", OF assms(2)])
  fix x ms assume x: "x \<in> set (zip [0..<length tpts] tpts)" and ms: "match_bounds (length pts0) (length tpts) ms"
  obtain j p where jp: "x = (j, p)" "j < length tpts" "p \<in> set tpts"
    using x by (metis atLeastLessThan_iff set_upt set_zip_leftD set_zip_rightD surj_pair)
  then obtain i where i: "i < length pts0" "nearest_idx t p = Some i" using assms(1) by blast
  have len: "length ms = length pts0" using ms unfolding match_bounds_def by (metis length_map length_upt minus_nat.diff_0)
  have idx: "map m_idx (ms[i := (ms ! i)\<lparr>distsq := d, matchedIdx := int j\<rparr>]) = map m_idx ms" for d
    using i(1) len by (intro nth_equalityI) (simp_all add: nth_list_update)
  have "match_bounds (length pts0) (length tpts) (ms[i := (ms ! i)\<lparr>distsq := d, matchedIdx := int j\<rparr>])" for d
    using ms idx [of d] jp(2) by (auto simp: match_bounds_def dest!: set_update_subset_insert [THEN subsetD])
  then show "\<exists>b. match_point t pts0 x ms = Some b \<and> match_bounds (length pts0) (length tpts) b"
    using ms i len jp(1) by (auto simp: match_point_def Let_def)
qed

lemma BestFit_total:
  assumes "length ptsStart = length ptsEnd"
  shows "\<exists>r. BestFit sinf cosf ptsStart ptsEnd dvals = Some r"
proof -
  have "\<exists>r. BestFit sinf cosf ptsStart ptsEnd dvals = Some r \<and> True"
    unfolding BestFit_def
    by (rule ofold_total) (simp_all add: BestFit_step_def GetDerivatives_def assms Let_def split: prod.splits)
  then show ?thesis by blast
qed

text \<open>Without matches the score is \<open>0 / 0\<close>, which is not worse than any.\<close>

lemma fit_score_Nil: "fit_score tr [] = NaN"
  by (simp add: fit_score_def f_of_int_def flit_def fzero_def)

lemma align_fit_total:
  assumes "permutes_range nthe" and "al_ok nthe a" and "0 \<le> al_step a"
    and "al_step a = 0 \<longrightarrow> pts1t = []" and "length (al_pts0 a) \<le> 100"
  shows "\<exists>a' c. align_fit sinf cosf pts1t a = Some (a', c, al_cur a') \<and> c \<in> {0, 1} \<and> al_ok nthe a' \<and>
    0 \<le> al_step a' \<and> al_pts0 a' = al_pts0 a \<and> al_pts1 a' = al_pts1 a"
proof -
  let ?n = "length (al_pts0 a)"
  define ms0 where "ms0 = map (\<lambda>m. m\<lparr>matchedIdx := -1, distsq := fzero\<rparr>) (al_matches a)"
  have ok: "build_tree nthe (al_pts0 a) kd_empty = Some (al_kdtree a)" "map m_idx (al_matches a) = [0..<?n]"
    using assms(2,3) by (auto simp: al_ok_def)
  have "match_bounds ?n (length pts1t) ms0" using ok(2) by (auto simp: match_bounds_def ms0_def comp_def)
  moreover have "\<forall>p \<in> set pts1t. \<exists>i < ?n. nearest_idx (al_kdtree a) p = Some i"
    using nearest_idx_answers [OF assms(1) _ ok(1)] assms(2-4) by (cases "al_step a = 0") (auto simp: al_ok_def)
  ultimately obtain ms where ms: "match_points (al_kdtree a) (al_pts0 a) pts1t ms0 = Some ms" "match_bounds ?n (length pts1t) ms"
    using match_points_total by blast
  have "\<exists>f. rematch (al_pts0 a) pts1t m = Some f" if "m \<in> set (matched ms)" for m
  proof -
    have "m_idx m \<in> set [0..<?n]" using that ms(2) unfolding match_bounds_def matched_def by (metis filter_is_subset imageI image_set subsetD)
    then show ?thesis using that ms(2) by (auto simp: rematch_def iget_def match_bounds_def matched_def bind_eq_Some_conv nat_less_iff)
  qed
  then have "omap (rematch (al_pts0 a) pts1t) (matched ms) = Some (map (\<lambda>m. the (rematch (al_pts0 a) pts1t m)) (matched ms))"
    by (intro omap_Some_map) force
  then obtain found where found: "omap (rematch (al_pts0 a) pts1t) (matched ms) = Some found" by blast
  define kept where "kept = filter (\<lambda>m. \<not> flt (distsq m) (avg_limit (length found))) found"
  define vecs0 vecs1 where "vecs0 = map (\<lambda>m. al_pts0 a ! m_idx m) kept"
    and "vecs1 = map (\<lambda>m. pts1t ! nat (matchedIdx m)) kept"
  obtain translate2 rotate2 total where fit: "BestFit sinf cosf vecs0 vecs1 align_dvals = Some (translate2, rotate2, total)"
    using BestFit_total [of vecs0 vecs1 sinf cosf align_dvals] by (auto simp: vecs0_def vecs1_def)
  define tr sc where "tr = fit_transform sinf cosf translate2 rotate2" and "sc = fit_score tr (zip vecs0 vecs1)"
  have "sc = NaN" if "al_step a = 0"
  proof -
    have "pts1t = []" using that assms(4) by simp
    then have "matched ms = []" using ms(2) by (auto simp: match_bounds_def matched_def filter_empty_conv)
    then have "vecs0 = []" using found by (simp add: vecs0_def kept_def)
    then show ?thesis by (simp add: sc_def fit_score_Nil)
  qed
  then have "\<exists>a' c. align_finish tr sc (a\<lparr>al_matches := ms\<rparr>) = Some (a', c)" by (auto simp: align_finish_def Let_def)
  then obtain a' c where fin: "align_finish tr sc (a\<lparr>al_matches := ms\<rparr>) = Some (a', c)" by blast
  have r: "align_fit sinf cosf pts1t a = Some (a', c, al_cur a')"
    unfolding align_fit_def ms0_def [symmetric]
    using ms(1) found fit fin by (simp add: Let_def kept_def [symmetric] vecs0_def [symmetric] vecs1_def [symmetric] tr_def [symmetric] sc_def [symmetric])
  have "int ?n div al_step a \<le> 100"
    using assms(3,5) by (cases "al_step a = 0") (auto intro: order.trans [OF div_le_dividend] simp: zdiv_mono2 [of "int ?n" 1 "al_step a", simplified] order.trans [OF zdiv_mono2 [of "int ?n" 1 "al_step a", simplified]])
  then have c: "c \<in> {0, 1}" using fin by (auto simp: align_finish_def Let_def split: if_splits)
  have "al_ok nthe a' \<and> 0 \<le> al_step a' \<and> al_pts0 a' = al_pts0 a \<and> al_pts1 a' = al_pts1 a"
    using fin assms(2,3) ok ms(2) by (auto simp: align_finish_def al_ok_def match_bounds_def Let_def split: if_splits)
  then show ?thesis using r c by blast
qed

lemma AlignStep_outcome:
  assumes "permutes_range nthe" and "al_ok nthe a" and "length (al_pts0 a) \<le> 100"
  shows "if next_step a = 0 \<and> al_pts1 a \<noteq> [] then AlignStep sinf cosf nthe a = Unfinished
    else \<exists>a' c. AlignStep sinf cosf nthe a = Returned (a', c, al_cur a') \<and> c \<in> {0, 1} \<and> al_ok nthe a' \<and>
      al_pts0 a' = al_pts0 a \<and> al_pts1 a' = al_pts1 a"
proof -
  obtain b where b: "align_start nthe a = Some b" "al_ok nthe b" "al_step b = next_step a" "0 \<le> al_step b"
    "al_pts0 b = al_pts0 a" "al_pts1 b = al_pts1 a"
    using align_start_ok [OF assms(1,2)] by blast
  show ?thesis
  proof (cases "next_step a = 0 \<and> al_pts1 a \<noteq> []")
    case True
    then have "align_sample (al_cur b) (al_pts1 b) (nat (al_step b)) 0 [] = None"
      using b(3,6) by (simp add: align_sample_hangs)
    then show ?thesis using True b(1) by (simp add: AlignStep_def)
  next
    case False
    then obtain ys where ys: "align_sample (al_cur b) (al_pts1 b) (nat (al_step b)) 0 [] = Some ys"
      using align_sample_iff [of "al_cur b" "al_pts1 b" "nat (al_step b)"] b(3,4,6)
      by (cases "align_sample (al_cur b) (al_pts1 b) (nat (al_step b)) 0 []") auto
    have "ys = []" if "al_step b = 0"
      using ys that False b(3,6) by (subst (asm) align_sample.simps) simp
    then obtain a' c where "align_fit sinf cosf ys b = Some (a', c, al_cur a')" "c \<in> {0, 1}" "al_ok nthe a'"
      "al_pts0 a' = al_pts0 b" "al_pts1 a' = al_pts1 b"
      using align_fit_total [OF assms(1) b(2,4), of ys sinf cosf] b(5) assms(3) by metis
    then show ?thesis using False b ys by (auto simp: AlignStep_def)
  qed
qed

subsection \<open>A run of alignment steps\<close>

text \<open>The states a caller can bring about from \<open>a\<close> by steps that are answered.\<close>

inductive align_steps :: "(fp \<Rightarrow> fp) \<Rightarrow> (fp \<Rightarrow> fp) \<Rightarrow> anode nth_elem \<Rightarrow> align \<Rightarrow> align \<Rightarrow> bool"
  for sinf cosf nthe a where
  align_steps_refl: "align_steps sinf cosf nthe a a"
| align_steps_step: "align_steps sinf cosf nthe a b \<Longrightarrow> AlignStep sinf cosf nthe b = Returned (c, retstg, m) \<Longrightarrow>
    align_steps sinf cosf nthe a c"

lemma align_steps_ok:
  assumes "permutes_range nthe" and "align_steps sinf cosf nthe a b" and "al_ok nthe a" and "length (al_pts0 a) \<le> 100"
  shows "al_ok nthe b \<and> al_pts0 b = al_pts0 a"
  using assms(2)
proof induction
  case (align_steps_step b c retstg m)
  then show ?case using AlignStep_outcome [OF assms(1), of b sinf cosf] assms(4) by (auto split: if_splits)
qed (use assms in simp)

lemma align_loop_unfinished:
  assumes "permutes_range nthe"
  shows "al_ok nthe a \<Longrightarrow> length (al_pts0 a) \<le> 100 \<Longrightarrow> align_loop sinf cosf nthe fuel a = Unfinished"
proof (induction fuel arbitrary: a)
  case (Suc fuel)
  from AlignStep_outcome [OF assms Suc.prems, of sinf cosf] show ?case
    using Suc.IH Suc.prems(2) by (auto split: if_splits)
qed simp

lemma CreatePtCloudAlign_new:
  "CreatePtCloudAlign pts0 n0 pts1 n1 = Some a \<Longrightarrow> al_ok nthe a \<and> length (al_pts0 a) = n0 div 3"
  by (auto simp: CreatePtCloudAlign_def al_ok_new PTCloudAlign_new_def al_ok_def split: if_splits)
section \<open>Properties\<close>

text \<open>C6: The scorer's initialisation matches nearest points. For clouds with finite coordinates it ends, and
  with \<open>nn\<close> giving for each transformed point of the second cloud a point of the first at least distance,
  the matches are, in order, the points of the first cloud that are nearest to some point, each paired
  with the first of the closest points that have it as their nearest.
\<close>

theorem scorer_matches:
  assumes "permutes_range nthe" and "pts0 \<noteq> []" and "\<forall>p \<in> set pts0. vfin p"
    and "tpts = map (xform_point3 (mat\<lparr>mState := st_AFFINE\<rparr>)) pts1" and "\<forall>p \<in> set tpts. vfin p"
  shows "\<exists>s nn. Scorer_Init nthe (PtScorer_new pts0 pts1 mat frame) = Some s \<and> sc_isinit s \<and> sc_tpts1 s = tpts \<and>
    (\<forall>j < length tpts. nn j < length pts0 \<and>
      (\<forall>i < length pts0. fle (pt_dist (tpts ! j) (pts0 ! nn j)) (pt_dist (tpts ! j) (pts0 ! i)))) \<and>
    map m_idx (sc_matches s) = filter (\<lambda>i. \<exists>j < length tpts. nn j = i) [0..<length pts0] \<and>
    (\<forall>m \<in> set (sc_matches s). \<exists>j.
      first_least nn (\<lambda>j. vlengthSquared (vsub (tpts ! j) (pts0 ! nn j))) (length tpts) (m_idx m) j \<and>
      matchedIdx m = int j \<and> distsq m = vlengthSquared (vsub (tpts ! j) (pts0 ! nn j)))"
proof -
  obtain t where t: "build_tree nthe pts0 kd_empty = Some t" and near: "\<And>p. vfin p \<Longrightarrow>
      \<exists>i < length pts0. nearest_idx t p = Some i \<and> (\<forall>j < length pts0. fle (pt_dist p (pts0 ! i)) (pt_dist p (pts0 ! j)))"
    using build_tree_nearest [OF assms(1,2,3)] by blast
  define nn where "nn = (\<lambda>j. the (nearest_idx t (tpts ! j)))"
  define d where "d = (\<lambda>j. vlengthSquared (vsub (tpts ! j) (pts0 ! nn j)))"
  have fin: "vfin (tpts ! j)" if "j < length tpts" for j using assms(5) that by simp
  have n: "nearest_idx t (tpts ! j) = Some (nn j) \<and> nn j < length pts0 \<and>
      (\<forall>i < length pts0. fle (pt_dist (tpts ! j) (pts0 ! nn j)) (pt_dist (tpts ! j) (pts0 ! i)))" if "j < length tpts" for j
    using near [OF fin [OF that]] by (auto simp: nn_def)
  have "d j \<noteq> NaN" if "j < length tpts" for j
    using vlengthSquared_fnn [OF fin [OF that], of "pts0 ! nn j"] n [OF that] assms(3) by (auto simp: d_def)
  then obtain ms where ms: "match_points t pts0 tpts (map Match_new [0..<length pts0]) = Some ms"
    "slots_ok nn d (length pts0) (length tpts) ms"
    using match_points_ok [OF slots_start, of tpts t nn pts0 d] n by (auto simp: d_def)
  define s where "s = (PtScorer_new pts0 pts1 mat frame)\<lparr>sc_kdtree := t, sc_tpts1 := tpts, sc_matches := matched ms, sc_isinit := True\<rparr>"
  have "Scorer_Init nthe (PtScorer_new pts0 pts1 mat frame) = Some s"
    using t ms(1) by (simp add: Scorer_Init_def PtScorer_new_def s_def assms(4) Let_def)
  moreover have "sc_isinit s" "sc_tpts1 s = tpts" "sc_matches s = matched ms" by (simp_all add: s_def)
  ultimately show ?thesis using n matched_slots [OF ms(2)]
    by (intro exI [of _ s] exI [of _ nn]) (simp add: d_def)
qed

lemma xform_point3_identity_fin: "vfin (xform_point3 (identity_matrix\<lparr>mState := st_AFFINE\<rparr>) (V3 fone fzero fone))"
proof -
  have "mat_identity (identity_matrix\<lparr>mState := st_AFFINE\<rparr>)"
    using makeTrans_identity [OF vzeros_vzero] makeRot_identity [of "Quat fzero fzero fzero fone"]
    by (simp add: mat_identity_def mat_at_def identity_matrix_def all_less_4 mat_of_def upt_conv_Cons denotes_consts)
  from xform_identity [OF this, of "V3 fone fzero fone" 1 0 1] show ?thesis
    by (auto simp: denotes_consts vdenotes_def vfin_def denotes_isfin)
qed

theorem scorer_matches_witness:
  "\<exists>s nn. Scorer_Init nth_by_sorting (PtScorer_new [V3 fone fzero fone, vzero] [V3 fone fzero fone] identity_matrix 0) = Some s \<and>
    sc_isinit s \<and> length (sc_tpts1 s) = 1 \<and>
    map m_idx (sc_matches s) = filter (\<lambda>i. nn = i) [0..<2]"
proof -
  let ?T = "map (xform_point3 (identity_matrix\<lparr>mState := st_AFFINE\<rparr>)) [V3 fone fzero fone]"
  have v: "\<forall>p \<in> set [V3 fone fzero fone, vzero]. vfin p" by (simp add: vfin_def vzero_def fone_def fzero_def)
  have T: "\<forall>p \<in> set ?T. vfin p" using xform_point3_identity_fin by simp
  have p: "permutes_range nth_by_sorting" by (simp add: nth_sorted.nthe_mset)
  obtain s nn where "Scorer_Init nth_by_sorting (PtScorer_new [V3 fone fzero fone, vzero] [V3 fone fzero fone] identity_matrix 0) = Some s"
    "sc_isinit s" "sc_tpts1 s = ?T"
    "map m_idx (sc_matches s) = filter (\<lambda>i. \<exists>j < length ?T. nn j = i) [0..<length [V3 fone fzero fone, vzero]]"
    using scorer_matches [OF p list.distinct(2) v refl T, of 0] by (elim exE conjE) (rule that, assumption+)
  then show ?thesis by (intro exI [of _ s] exI [of _ "nn 0"]) (simp add: numeral_2_eq_2)
qed

text \<open>C22: A cloud fitted to itself stays where it is: when the matched points coincide, the hundred gradient
  steps end with no rotation, no translation and a remaining error of zero, and the transform made of
  them maps every point to an equal one. Coordinates are at most \<open>2 ^ 126\<close>, so that doubling is exact.
\<close>

theorem fit_to_itself:
  assumes "trig_at_zero sinf cosf" and "pts \<noteq> []" and "\<forall>p \<in> set pts. vsmall p"
  shows "\<exists>t r. BestFit sinf cosf pts pts align_dvals = Some (t, r, fzero) \<and>
    (\<forall>p. vsmall p \<longrightarrow> (let q = xform_point3 (fit_transform sinf cosf t r) p
       in feq (vx q) (vx p) \<and> feq (vy q) (vy p) \<and> feq (vz q) (vz p)))"
proof -
  have fin: "isfin (flit F32 q)" if "\<bar>q\<bar> \<le> 1" for q
    using rnd_le_representable [of "\<bar>q\<bar>" 1 F32] representable_int [of 1 F32] that by (auto simp: flit_def fround_def Let_def)
  have d: "isfin (wx align_dvals)" "isfin (wy align_dvals)" "isfin (wz align_dvals)" "isfin (ww align_dvals)"
    by (simp_all add: align_dvals_def fin)
  obtain t r where b: "BestFit sinf cosf pts pts align_dvals = Some (t, r, fzero)" "vzeros t" "vzeros r"
    using BestFit_self [OF assms(1,3,2) d] by blast
  have eq: "feq x y" if "denotes x a" "denotes y a" for x y a using that by (auto simp: denotes_def)
  have "feq (vx q) (vx p) \<and> feq (vy q) (vy p) \<and> feq (vz q) (vz p)"
    if "vsmall p" "q = xform_point3 (fit_transform sinf cosf t r) p" for p q
  proof -
    obtain a b c where p: "denotes (vx p) a" "denotes (vy p) b" "denotes (vz p) c" "exact a" "exact b" "exact c"
      using small_denotes \<open>vsmall p\<close> unfolding vsmall_def by metis
    show ?thesis using xform_identity [OF fit_transform_identity [OF assms(1) b(2,3)] p] p that(2)
      by (auto simp: vdenotes_def intro: eq)
  qed
  then show ?thesis using b(1) by (auto simp: Let_def)
qed

theorem fit_to_itself_witness:
  "\<exists>t r. BestFit (\<lambda>x. x) (\<lambda>_. fone) [V3 fone fzero fone] [V3 fone fzero fone] align_dvals = Some (t, r, fzero) \<and>
    (\<forall>p. vsmall p \<longrightarrow> (let q = xform_point3 (fit_transform (\<lambda>x. x) (\<lambda>_. fone) t r) p
       in feq (vx q) (vx p) \<and> feq (vy q) (vy p) \<and> feq (vz q) (vz p)))"
  by (rule fit_to_itself)
     (use representable_int [of 1 F32] in \<open>auto simp: trig_at_zero_def vsmall_def small_def fone_def fzero_def\<close>)

text \<open>C25: With at most 302 points in the first cloud, the alignment is never finished, and it is never
  undefined either: \<open>CreatePtCloudAlign\<close> keeps a third of the points, and in every state that can be
  reached \<open>AlignStep\<close> answers 0 or 1, or stays in its sampling loop for ever, which happens exactly
  when its step size is 0 and the second cloud is not empty. The caller's loop, which waits for 2, is
  still running after any number of calls. (Memory is unbounded: the sampling loop grows a vector.)
\<close>

theorem align_never_done:
  assumes "permutes_range nthe" and "CreatePtCloudAlign pts0 n0 pts1 n1 = Some a" and "n0 \<le> 302"
  shows "align_loop sinf cosf nthe fuel a = Unfinished \<and>
    (\<forall>b. align_steps sinf cosf nthe a b \<longrightarrow>
      (if next_step b = 0 \<and> al_pts1 b \<noteq> [] then AlignStep sinf cosf nthe b = Unfinished
       else \<exists>c retstg. AlignStep sinf cosf nthe b = Returned (c, retstg, al_cur c) \<and> retstg \<in> {0, 1}))"
proof -
  have a: "al_ok nthe a" "length (al_pts0 a) \<le> 100" using CreatePtCloudAlign_new [OF assms(2)] assms(3) by auto
  have "if next_step b = 0 \<and> al_pts1 b \<noteq> [] then AlignStep sinf cosf nthe b = Unfinished
      else \<exists>c retstg. AlignStep sinf cosf nthe b = Returned (c, retstg, al_cur c) \<and> retstg \<in> {0, 1}"
    if "align_steps sinf cosf nthe a b" for b
    using AlignStep_outcome [OF assms(1), of b sinf cosf] align_steps_ok [OF assms(1) that a] a(2) by (auto split: if_splits)
  then show ?thesis using align_loop_unfinished [OF assms(1) a] by blast
qed

theorem align_never_done_witness:
  "\<exists>a. CreatePtCloudAlign (replicate 100 vzero) 300 [vzero] 3 = Some a \<and>
    align_loop (\<lambda>x. x) (\<lambda>_. fone) nth_by_sorting 1000 a = Unfinished \<and> next_step a = 10 \<and>
    (\<exists>c retstg. AlignStep (\<lambda>x. x) (\<lambda>_. fone) nth_by_sorting a = Returned (c, retstg, al_cur c) \<and> retstg \<in> {0, 1})"
proof -
  obtain a where a: "CreatePtCloudAlign (replicate 100 vzero) 300 [vzero] 3 = Some a" "next_step a = 10"
    by (simp add: CreatePtCloudAlign_def PTCloudAlign_new_def next_step_def)
  have "permutes_range nth_by_sorting" by (simp add: nth_sorted.nthe_mset)
  from align_never_done [OF this a(1), of "\<lambda>x. x" "\<lambda>_. fone" 1000] show ?thesis
    using a align_steps_refl by fastforce
qed

end
