(* ===== verification/KdQuery.thy ===== *)
theory KdQuery
  imports KdNearest
begin

text \<open>
  The other searches of \<^verbatim>\<open>kdtree++/kdtree.hpp\<close>: for a value at the same place (\<open>find\<close>), for an equal
  value (\<open>find_exact\<close>), and for the values within a box (\<^verbatim>\<open>kdtree++/region.hpp\<close>), which are
  counted, visited or collected. A box is the pair of its two arrays of bounds. Absent children are
  the cells \<open>KNil\<close>, on which a search returns what it was given.
\<close>

subsection \<open>Looking for a value\<close>

definition matches_in_d :: "nat \<Rightarrow> ('v \<Rightarrow> nat \<Rightarrow> fp) \<Rightarrow> 'v \<Rightarrow> 'v \<Rightarrow> nat \<Rightarrow> bool" where
  "matches_in_d k acc u v L \<longleftrightarrow> \<not> (node_less k acc L u v \<or> node_less k acc L v u)"

text \<open>The loop runs through the dimensions after \<open>L\<close>, round to the one before it.\<close>

definition matches_in_other_ds :: "nat \<Rightarrow> ('v \<Rightarrow> nat \<Rightarrow> fp) \<Rightarrow> 'v \<Rightarrow> 'v \<Rightarrow> nat \<Rightarrow> bool" where
  "matches_in_other_ds k acc u v L \<longleftrightarrow> list_all (\<lambda>j. matches_in_d k acc u v ((L + j) mod k)) [1..<k]"

definition matches_node :: "nat \<Rightarrow> ('v \<Rightarrow> nat \<Rightarrow> fp) \<Rightarrow> 'v \<Rightarrow> 'v \<Rightarrow> nat \<Rightarrow> bool" where
  "matches_node k acc u v L \<longleftrightarrow> matches_in_d k acc u v L \<and> matches_in_other_ds k acc u v L"

fun M_find :: "nat \<Rightarrow> ('v \<Rightarrow> nat \<Rightarrow> fp) \<Rightarrow> 'v \<Rightarrow> nat \<Rightarrow> kdpath \<Rightarrow> 'v kdnode \<Rightarrow> kdptr" where
  "M_find k acc v L p KNil = Header"
| "M_find k acc v L p (KNode l u r) =
     (let found = (if \<not> node_less k acc L u v
                   then if matches_node k acc u v L then At p else M_find k acc v (Suc L) (False # p) l
                   else Header)
      in if found = Header \<and> \<not> node_less k acc L v u then M_find k acc v (Suc L) (True # p) r else found)"

text \<open>\<open>eq v u\<close> is \<open>v == u\<close> of the value type.\<close>

fun M_find_exact :: "nat \<Rightarrow> ('v \<Rightarrow> nat \<Rightarrow> fp) \<Rightarrow> ('v \<Rightarrow> 'v \<Rightarrow> bool) \<Rightarrow> 'v \<Rightarrow> nat \<Rightarrow> kdpath \<Rightarrow> 'v kdnode \<Rightarrow> kdptr" where
  "M_find_exact k acc eq v L p KNil = Header"
| "M_find_exact k acc eq v L p (KNode l u r) =
     (let found = (if \<not> node_less k acc L u v
                   then if eq v u then At p else M_find_exact k acc eq v (Suc L) (False # p) l
                   else Header)
      in if found = Header \<and> \<not> node_less k acc L v u then M_find_exact k acc eq v (Suc L) (True # p) r else found)"

definition kd_find :: "nat \<Rightarrow> ('v \<Rightarrow> nat \<Rightarrow> fp) \<Rightarrow> 'v kdtree \<Rightarrow> 'v \<Rightarrow> kdptr" where
  "kd_find k acc t v = (if is_KNil (kd_root t) then Header else M_find k acc v 0 [] (kd_root t))"

definition kd_find_exact :: "nat \<Rightarrow> ('v \<Rightarrow> nat \<Rightarrow> fp) \<Rightarrow> ('v \<Rightarrow> 'v \<Rightarrow> bool) \<Rightarrow> 'v kdtree \<Rightarrow> 'v \<Rightarrow> kdptr" where
  "kd_find_exact k acc eq t v = (if is_KNil (kd_root t) then Header else M_find_exact k acc eq v 0 [] (kd_root t))"

subsection \<open>Boxes\<close>

record region =
  rg_low :: "fp list"
  rg_high :: "fp list"

definition region_at :: "nat \<Rightarrow> ('v \<Rightarrow> nat \<Rightarrow> fp) \<Rightarrow> 'v \<Rightarrow> region" where
  "region_at k acc v = \<lparr>rg_low = map (acc v) [0..<k], rg_high = map (acc v) [0..<k]\<rparr>"

definition region_around :: "nat \<Rightarrow> ('v \<Rightarrow> nat \<Rightarrow> fp) \<Rightarrow> 'v \<Rightarrow> fp \<Rightarrow> region" where
  "region_around k acc v R =
     \<lparr>rg_low = map (\<lambda>i. fsub F32 (acc v i) R) [0..<k], rg_high = map (\<lambda>i. fadd F32 (acc v i) R) [0..<k]\<rparr>"

definition intersects_center :: "nat \<Rightarrow> region \<Rightarrow> region \<Rightarrow> fp \<Rightarrow> bool" where
  "intersects_center k a c tol \<longleftrightarrow>
     list_all (\<lambda>i. \<not> (flt (rg_low c ! i) (fsub F32 (rg_low a ! i) tol) \<or> flt (fadd F32 (rg_high a ! i) tol) (rg_low c ! i))) [0..<k]"

definition intersects_with :: "nat \<Rightarrow> region \<Rightarrow> region \<Rightarrow> bool" where
  "intersects_with k a b \<longleftrightarrow>
     list_all (\<lambda>i. \<not> (flt (rg_high b ! i) (rg_low a ! i) \<or> flt (rg_high a ! i) (rg_low b ! i))) [0..<k]"

definition encloses :: "nat \<Rightarrow> ('v \<Rightarrow> nat \<Rightarrow> fp) \<Rightarrow> region \<Rightarrow> 'v \<Rightarrow> bool" where
  "encloses k acc a v \<longleftrightarrow> list_all (\<lambda>i. \<not> (flt (acc v i) (rg_low a ! i) \<or> flt (rg_high a ! i) (acc v i))) [0..<k]"

definition set_high_bound :: "nat \<Rightarrow> ('v \<Rightarrow> nat \<Rightarrow> fp) \<Rightarrow> 'v \<Rightarrow> nat \<Rightarrow> region \<Rightarrow> region" where
  "set_high_bound k acc v L a = a\<lparr>rg_high := (rg_high a)[L mod k := acc v (L mod k)]\<rparr>"

definition set_low_bound :: "nat \<Rightarrow> ('v \<Rightarrow> nat \<Rightarrow> fp) \<Rightarrow> 'v \<Rightarrow> nat \<Rightarrow> region \<Rightarrow> region" where
  "set_low_bound k acc v L a = a\<lparr>rg_low := (rg_low a)[L mod k := acc v (L mod k)]\<rparr>"

subsection \<open>Counting, visiting and collecting\<close>

fun M_count_within :: "nat \<Rightarrow> ('v \<Rightarrow> nat \<Rightarrow> fp) \<Rightarrow> region \<Rightarrow> region \<Rightarrow> nat \<Rightarrow> 'v kdnode \<Rightarrow> nat" where
  "M_count_within k acc reg b L KNil = 0"
| "M_count_within k acc reg b L (KNode l u r) =
     (let lb = set_high_bound k acc u L b; rb = set_low_bound k acc u L b
      in (if encloses k acc reg u then 1 else 0)
         + (if intersects_with k reg lb then M_count_within k acc reg lb (Suc L) l else 0)
         + (if intersects_with k reg rb then M_count_within k acc reg rb (Suc L) r else 0))"

text \<open>The visitor is an object: \<open>f\<close> is its call operator on its state \<open>s\<close>.\<close>

fun M_visit_within :: "nat \<Rightarrow> ('v \<Rightarrow> nat \<Rightarrow> fp) \<Rightarrow> ('v \<Rightarrow> 's \<Rightarrow> 's) \<Rightarrow> region \<Rightarrow> region \<Rightarrow> nat \<Rightarrow> 'v kdnode \<Rightarrow> 's \<Rightarrow> 's" where
  "M_visit_within k acc f reg b L KNil s = s"
| "M_visit_within k acc f reg b L (KNode l u r) s =
     (let lb = set_high_bound k acc u L b; rb = set_low_bound k acc u L b;
          s1 = (if encloses k acc reg u then f u s else s);
          s2 = (if intersects_with k reg lb then M_visit_within k acc f reg lb (Suc L) l s1 else s1)
      in if intersects_with k reg rb then M_visit_within k acc f reg rb (Suc L) r s2 else s2)"

fun M_find_within :: "nat \<Rightarrow> ('v \<Rightarrow> nat \<Rightarrow> fp) \<Rightarrow> region \<Rightarrow> region \<Rightarrow> nat \<Rightarrow> 'v kdnode \<Rightarrow> 'v list \<Rightarrow> 'v list" where
  "M_find_within k acc reg b L KNil out = out"
| "M_find_within k acc reg b L (KNode l u r) out =
     (let lb = set_high_bound k acc u L b; rb = set_low_bound k acc u L b;
          out1 = (if encloses k acc reg u then out @ [u] else out);
          out2 = (if intersects_with k reg lb then M_find_within k acc reg lb (Suc L) l out1 else out1)
      in if intersects_with k reg rb then M_find_within k acc reg rb (Suc L) r out2 else out2)"

definition count_within_range :: "nat \<Rightarrow> ('v \<Rightarrow> nat \<Rightarrow> fp) \<Rightarrow> 'v kdtree \<Rightarrow> 'v \<Rightarrow> fp \<Rightarrow> nat" where
  "count_within_range k acc t v R =
     (if is_KNil (kd_root t) then 0
      else let reg = region_around k acc v R in M_count_within k acc reg reg 0 (kd_root t))"

definition visit_within_range :: "nat \<Rightarrow> ('v \<Rightarrow> nat \<Rightarrow> fp) \<Rightarrow> ('v \<Rightarrow> 's \<Rightarrow> 's) \<Rightarrow> 'v kdtree \<Rightarrow> 'v \<Rightarrow> fp \<Rightarrow> 's \<Rightarrow> 's" where
  "visit_within_range k acc f t v R s =
     (if is_KNil (kd_root t) then s
      else let reg = region_around k acc v R in M_visit_within k acc f reg reg 0 (kd_root t) s)"

definition find_within_range :: "nat \<Rightarrow> ('v \<Rightarrow> nat \<Rightarrow> fp) \<Rightarrow> 'v kdtree \<Rightarrow> 'v \<Rightarrow> fp \<Rightarrow> 'v list \<Rightarrow> 'v list" where
  "find_within_range k acc t v R out =
     (if is_KNil (kd_root t) then out
      else let reg = region_around k acc v R in M_find_within k acc reg reg 0 (kd_root t) out)"

subsection \<open>Matching is equality of places\<close>

definition num_coords :: "nat \<Rightarrow> ('v \<Rightarrow> nat \<Rightarrow> fp) \<Rightarrow> 'v \<Rightarrow> bool" where
  "num_coords k acc v \<longleftrightarrow> (\<forall>i<k. acc v i \<noteq> NaN)"

definition same_place :: "nat \<Rightarrow> ('v \<Rightarrow> nat \<Rightarrow> fp) \<Rightarrow> 'v \<Rightarrow> 'v \<Rightarrow> bool" where
  "same_place k acc u v \<longleftrightarrow> (\<forall>i<k. \<not> flt (acc u i) (acc v i) \<and> \<not> flt (acc v i) (acc u i))"

lemma round_trip_mod:
  assumes "i < (k :: nat)" and "i \<noteq> L mod k"
  shows "\<exists>j \<in> {1..<k}. (L + j) mod k = i"
proof (cases "L mod k < i")
  case True
  then have "(L + (i - L mod k)) mod k = i"
    using assms(1) by (metis add_diff_inverse_nat mod_add_left_eq mod_less not_less_iff_gr_or_eq)
  then show ?thesis using True assms(1) by (intro bexI [of _ "i - L mod k"]) auto
next
  case False
  then have lt: "i < L mod k" "L mod k < k" using assms by simp_all
  have "L mod k + (i + k - L mod k) = i + k" using lt by linarith
  then have "(L mod k + (i + k - L mod k)) mod k = i" using assms(1) by simp
  then have "(L + (i + k - L mod k)) mod k = i" by (metis mod_add_left_eq)
  then show ?thesis using lt by (intro bexI [of _ "i + k - L mod k"]) auto
qed

lemma matches_node_iff: "0 < k \<Longrightarrow> matches_node k acc u v L \<longleftrightarrow> same_place k acc u v"
proof
  assume k: "0 < k" and m: "matches_node k acc u v L"
  have "matches_in_d k acc u v i" if "i < k" for i
  proof (cases "i = L mod k")
    case True
    then show ?thesis using m by (simp add: matches_node_def matches_in_d_def node_less_def)
  next
    case False
    then show ?thesis using m round_trip_mod [OF that, of L]
      by (auto simp: matches_node_def matches_in_other_ds_def list_all_iff)
  qed
  then show "same_place k acc u v" by (simp add: same_place_def matches_in_d_def node_less_def)
qed (simp add: same_place_def matches_node_def matches_in_other_ds_def matches_in_d_def node_less_def list_all_iff)


subsection \<open>The two searches\<close>

text \<open>Both searches differ only in their test of a node: they are instances of one interface.\<close>

locale place_search =
  fixes k :: nat and acc :: "'v \<Rightarrow> nat \<Rightarrow> fp" and v :: 'v and tst :: "'v \<Rightarrow> bool"
    and search :: "nat \<Rightarrow> kdpath \<Rightarrow> 'v kdnode \<Rightarrow> kdptr"
  assumes k_pos: "0 < k"
    and search_KNil: "search L p KNil = Header"
    and search_KNode: "search L p (KNode l u r) =
      (let found = (if \<not> node_less k acc L u v then if tst u then At p else search (Suc L) (False # p) l else Header)
       in if found = Header \<and> \<not> node_less k acc L v u then search (Suc L) (True # p) r else found)"
begin

lemma search_sound: "search L p t = Header \<or> (\<exists>q u. search L p t = At q \<and> (q, u) \<in> kd_nodes p t \<and> tst u)"
proof (induction t arbitrary: L p)
  case (KNode l u r)
  show ?case using KNode.IH(1) [of "Suc L" "False # p"] KNode.IH(2) [of "Suc L" "True # p"]
    unfolding search_KNode Let_def by auto
qed (simp add: search_KNil)

lemma search_complete:
  assumes "check_node k acc t L" and "\<forall>c \<in> set_kdnode t. num_coords k acc c" and "num_coords k acc v"
    and "search L p t = Header" and "u \<in> set_kdnode t" and "tst u"
  shows "\<not> same_place k acc u v"
  using assms
proof (induction t arbitrary: L p)
  case (KNode l c r)
  show ?case
  proof
    assume sp: "same_place k acc u v"
    define i where "i = L mod k"
    have i: "i < k" using k_pos by (simp add: i_def)
    have uv: "\<not> flt (acc u i) (acc v i)" "\<not> flt (acc v i) (acc u i)" using sp i by (simp_all add: same_place_def)
    have num: "acc u i \<noteq> NaN" "acc v i \<noteq> NaN" "acc c i \<noteq> NaN"
      using KNode.prems(2,3,5) i by (auto simp: num_coords_def)
    have ord: "u \<in> set_kdnode l \<Longrightarrow> \<not> flt (acc c i) (acc u i)" "u \<in> set_kdnode r \<Longrightarrow> \<not> flt (acc u i) (acc c i)"
      using KNode.prems(1) by (auto simp: check_children_iff node_less_def i_def)
    have down: "u \<in> set_kdnode l \<or> u = c \<Longrightarrow> \<not> node_less k acc L c v" "u \<in> set_kdnode r \<Longrightarrow> \<not> node_less k acc L v c"
      using ord uv num fle_trans [of "acc v i" "acc u i" "acc c i"] fle_trans [of "acc c i" "acc u i" "acc v i"]
      by (auto simp: node_less_def i_def [symmetric] fle_not_flt)
    have found: "(if \<not> node_less k acc L c v then if tst c then At p else search (Suc L) (False # p) l else Header) = Header"
      and right: "\<not> node_less k acc L v c \<Longrightarrow> search (Suc L) (True # p) r = Header"
      using KNode.prems(4) unfolding search_KNode Let_def by (auto split: if_splits)
    consider "u = c" | "u \<in> set_kdnode l" | "u \<in> set_kdnode r" using KNode.prems(5) by auto
    then show False
    proof cases
      case 1
      then show ?thesis using found down(1) KNode.prems(6) by simp
    next
      case 2
      then show ?thesis using found down(1) KNode.IH(1) KNode.prems sp by (auto split: if_splits)
    next
      case 3
      then show ?thesis using right down(2) KNode.IH(2) KNode.prems sp by auto
    qed
  qed
qed simp

end

interpretation place: place_search "Suc k" acc v "\<lambda>u. same_place (Suc k) acc u v" "M_find (Suc k) acc v" for k acc v
  by unfold_locales (simp_all add: matches_node_iff)

interpretation exact: place_search "Suc k" acc v "eq v" "M_find_exact (Suc k) acc eq v" for k acc v eq
  by unfold_locales simp_all

lemma kd_find_iff:
  assumes "0 < k" and "kd_wf k acc t" and "\<forall>c \<in> set_kdnode (kd_root t). num_coords k acc c" and "num_coords k acc v"
  shows "if \<exists>u \<in> set_kdnode (kd_root t). same_place k acc u v
         then \<exists>q l u r. kd_find k acc t v = At q \<and> node_at (kd_root t) q = KNode l u r \<and> same_place k acc u v
         else kd_find k acc t v = Header"
proof -
  obtain k' where k: "k = Suc k'" using assms(1) by (cases k) auto
  have c: "check_node k acc (kd_root t) 0" using assms(2) by (simp add: kd_wf_def check_tree_def)
  show ?thesis
  proof (cases "kd_find k acc t v")
    case Header
    then have "M_find k acc v 0 [] (kd_root t) = Header" by (auto simp: kd_find_def is_KNil_def split: if_splits)
    then show ?thesis using place.search_complete [of k' acc "kd_root t" 0 v "[]"] assms(3,4) c Header unfolding k by auto
  next
    case ptr: (At q)
    then have f: "M_find k acc v 0 [] (kd_root t) = At q" by (auto simp: kd_find_def split: if_splits)
    obtain u where u: "(q, u) \<in> kd_nodes [] (kd_root t)" "same_place k acc u v"
      using place.search_sound [of k' acc v 0 "[]" "kd_root t"] f unfolding k by auto
    obtain l r where "node_at (kd_root t) q = KNode l u r" using kd_nodes_at [OF u(1)] by auto
    then show ?thesis using ptr u(2) node_at_value by fastforce
  next
    case Null
    then show ?thesis using place.search_sound [of k' acc v 0 "[]" "kd_root t"]
      unfolding k kd_find_def by (auto split: if_splits)
  qed
qed

lemma kd_find_exact_iff:
  assumes "0 < k" and "kd_wf k acc t" and "\<forall>c \<in> set_kdnode (kd_root t). num_coords k acc c" and "num_coords k acc v"
  shows "(\<exists>q l u r. kd_find_exact k acc eq t v = At q \<and> node_at (kd_root t) q = KNode l u r \<and> eq v u) \<or>
    (kd_find_exact k acc eq t v = Header \<and> (\<forall>u \<in> set_kdnode (kd_root t). eq v u \<longrightarrow> \<not> same_place k acc u v))"
proof -
  obtain k' where k: "k = Suc k'" using assms(1) by (cases k) auto
  have c: "check_node k acc (kd_root t) 0" using assms(2) by (simp add: kd_wf_def check_tree_def)
  have f: "kd_find_exact k acc eq t v = M_find_exact k acc eq v 0 [] (kd_root t)"
    by (cases "kd_root t") (simp_all add: kd_find_exact_def)
  show ?thesis
  proof (cases "M_find_exact k acc eq v 0 [] (kd_root t) = Header")
    case True
    then show ?thesis using exact.search_complete [of k' acc "kd_root t" 0 v eq "[]"] assms(3,4) c unfolding k f [unfolded k] by blast
  next
    case False
    then obtain q u where u: "M_find_exact k acc eq v 0 [] (kd_root t) = At q" "(q, u) \<in> kd_nodes [] (kd_root t)" "eq v u"
      using exact.search_sound [of k' acc eq v 0 "[]" "kd_root t"] unfolding k by auto
    obtain l r where "node_at (kd_root t) q = KNode l u r" using kd_nodes_at [OF u(2)] by auto
    then show ?thesis using u f by (intro disjI1 exI [of _ q] exI [of _ l] exI [of _ u] exI [of _ r]) simp
  qed
qed

subsection \<open>Searching a box\<close>

fun kd_preorder :: "'v kdnode \<Rightarrow> 'v list" where
  "kd_preorder KNil = []"
| "kd_preorder (KNode l u r) = u # kd_preorder l @ kd_preorder r"

lemma kd_preorder_mset: "mset (kd_preorder t) = mset (kd_inorder t)"
  by (induction t) simp_all

lemma kd_preorder_set [simp]: "set (kd_preorder t) = set_kdnode t"
  by (induction t) auto

text \<open>
  Bounds that a subtree keeps to: in each dimension the bound is still that of the box searched, or
  the values lie on its inner side.
\<close>

definition bounds_ok :: "nat \<Rightarrow> ('v \<Rightarrow> nat \<Rightarrow> fp) \<Rightarrow> region \<Rightarrow> region \<Rightarrow> 'v set \<Rightarrow> bool" where
  "bounds_ok k acc reg b S \<longleftrightarrow> length (rg_low b) = k \<and> length (rg_high b) = k \<and>
     (\<forall>c \<in> S. \<forall>i<k. (rg_high b ! i = rg_high reg ! i \<or> fle (acc c i) (rg_high b ! i)) \<and>
                      (rg_low b ! i = rg_low reg ! i \<or> fle (rg_low b ! i) (acc c i)))"

lemma bounds_ok_subset: "bounds_ok k acc reg b S \<Longrightarrow> S' \<subseteq> S \<Longrightarrow> bounds_ok k acc reg b S'"
  unfolding bounds_ok_def by blast

lemma bounds_ok_child:
  assumes "0 < k" and "bounds_ok k acc reg b (set_kdnode (KNode l u r))" and "check_node k acc (KNode l u r) L"
    and "\<forall>c \<in> set_kdnode (KNode l u r). num_coords k acc c"
  shows "bounds_ok k acc reg (set_high_bound k acc u L b) (set_kdnode l)"
    and "bounds_ok k acc reg (set_low_bound k acc u L b) (set_kdnode r)"
proof -
  define i where "i = L mod k"
  have i: "i < k" using assms(1) by (simp add: i_def)
  have "fle (acc c i) (acc u i)" if "c \<in> set_kdnode l" for c
    using that assms(3,4) i by (auto simp: check_children_iff node_less_def i_def num_coords_def fle_not_flt)
  moreover have "fle (acc u i) (acc c i)" if "c \<in> set_kdnode r" for c
    using that assms(3,4) i by (auto simp: check_children_iff node_less_def i_def num_coords_def fle_not_flt)
  ultimately show "bounds_ok k acc reg (set_high_bound k acc u L b) (set_kdnode l)"
    and "bounds_ok k acc reg (set_low_bound k acc u L b) (set_kdnode r)"
    using assms(2) i unfolding bounds_ok_def set_high_bound_def set_low_bound_def i_def [symmetric]
    by (auto simp: nth_list_update)
qed

lemma not_enclosed:
  assumes "bounds_ok k acc reg b S" and "\<not> intersects_with k reg b" and "\<forall>c \<in> S. num_coords k acc c" and "c \<in> S"
  shows "\<not> encloses k acc reg c"
proof
  assume e: "encloses k acc reg c"
  obtain i where i: "i < k" and f: "flt (rg_high b ! i) (rg_low reg ! i) \<or> flt (rg_high reg ! i) (rg_low b ! i)"
    using assms(2) by (auto simp: intersects_with_def list_all_iff)
  have in_box: "\<not> flt (acc c i) (rg_low reg ! i)" "\<not> flt (rg_high reg ! i) (acc c i)" "acc c i \<noteq> NaN"
    using e i assms(3,4) by (auto simp: encloses_def list_all_iff num_coords_def)
  have "(rg_high b ! i = rg_high reg ! i \<or> fle (acc c i) (rg_high b ! i)) \<and>
        (rg_low b ! i = rg_low reg ! i \<or> fle (rg_low b ! i) (acc c i))"
    using assms(1,4) i by (auto simp: bounds_ok_def)
  then show False using f in_box
    by (cases "acc c i"; cases "rg_high b ! i"; cases "rg_low b ! i"; cases "rg_high reg ! i"; cases "rg_low reg ! i")
       (auto simp: fle_def)
qed

lemma M_visit_within_filter:
  assumes "0 < k" and "check_node k acc t L" and "\<forall>c \<in> set_kdnode t. num_coords k acc c"
    and "bounds_ok k acc reg b (set_kdnode t)"
  shows "M_visit_within k acc f reg b L t s = fold f (filter (encloses k acc reg) (kd_preorder t)) s"
  using assms(2-)
proof (induction t arbitrary: L b s)
  case (KNode l u r)
  note child = bounds_ok_child [OF assms(1) KNode.prems(3,1,2)]
  have none: "filter (encloses k acc reg) (kd_preorder x) = []"
    if "\<not> intersects_with k reg b'" "bounds_ok k acc reg b' (set_kdnode x)" "set_kdnode x \<subseteq> set_kdnode (KNode l u r)" for x b'
    using not_enclosed [OF that(2,1)] that(3) KNode.prems(2) by (auto simp: filter_empty_conv)
  have none': "\<not> intersects_with k reg (set_high_bound k acc u L b) \<Longrightarrow> filter (encloses k acc reg) (kd_preorder l) = []"
    "\<not> intersects_with k reg (set_low_bound k acc u L b) \<Longrightarrow> filter (encloses k acc reg) (kd_preorder r) = []"
    using none [OF _ child(1)] none [OF _ child(2)] by auto
  show ?case
    using KNode.IH(1) [OF _ _ child(1)] KNode.IH(2) [OF _ _ child(2)] none' KNode.prems(1,2) by (simp add: Let_def)
qed simp

text \<open>Counting and collecting are visits.\<close>

lemma M_find_within_visit: "M_find_within k acc reg b L t out = M_visit_within k acc (\<lambda>u out. out @ [u]) reg b L t out"
  by (induction t arbitrary: b L out) (simp_all add: Let_def)

lemma M_count_within_visit: "M_count_within k acc reg b L t + n = M_visit_within k acc (\<lambda>u. Suc) reg b L t n"
proof (induction t arbitrary: b L n)
  case (KNode l u r)
  show ?case using KNode.IH [symmetric] by (simp add: Let_def)
qed simp

lemma bounds_ok_start: "bounds_ok k acc (region_around k acc v R) (region_around k acc v R) S"
  by (simp add: bounds_ok_def region_around_def)

lemma fold_snoc: "fold (\<lambda>u out. out @ [u]) xs out = out @ xs"
  by (induction xs arbitrary: out) simp_all

lemma fold_Suc: "fold (\<lambda>u. Suc) xs n = length xs + n"
  by (induction xs arbitrary: n) simp_all

lemma within_range_filter:
  assumes "0 < k" and "kd_wf k acc t" and "\<forall>c \<in> set_kdnode (kd_root t). num_coords k acc c"
    and "xs = filter (encloses k acc (region_around k acc v R)) (kd_preorder (kd_root t))"
  shows "visit_within_range k acc f t v R s = fold f xs s" and "find_within_range k acc t v R out = out @ xs"
    and "count_within_range k acc t v R = length xs"
proof -
  have c: "check_node k acc (kd_root t) 0" using assms(2) by (simp add: kd_wf_def check_tree_def)
  note visit = M_visit_within_filter [OF assms(1) c assms(3) bounds_ok_start, of _ v R, folded assms(4)]
  show "visit_within_range k acc f t v R s = fold f xs s"
    using visit [of f s] assms(4) by (auto simp: visit_within_range_def is_KNil_def Let_def)
  show "find_within_range k acc t v R out = out @ xs"
    using visit [of "\<lambda>u out. out @ [u]" out] assms(4)
    by (auto simp: find_within_range_def is_KNil_def Let_def M_find_within_visit fold_snoc)
  show "count_within_range k acc t v R = length xs"
    using visit [of "\<lambda>u. Suc" 0] M_count_within_visit [of k acc "region_around k acc v R" "region_around k acc v R" 0 "kd_root t" 0] assms(4)
    by (auto simp: count_within_range_def is_KNil_def Let_def fold_Suc)
qed

section \<open>Properties\<close>

text \<open>C21: The searches within a range, which leave out subtrees whose bounds miss the box, leave out
  nothing: for a tree in order they collect, visit and count exactly the values inside the box around
  the point, with its rounded bounds, in the order of a walk through the whole tree.
\<close>

theorem within_range_exact:
  assumes "0 < k" and "kd_wf k acc t" and "\<forall>c \<in> set (kd_inorder (kd_root t)). num_coords k acc c"
  shows "\<exists>xs. find_within_range k acc t v R out = out @ xs \<and>
    mset xs = filter_mset (encloses k acc (region_around k acc v R)) (mset (kd_inorder (kd_root t))) \<and>
    visit_within_range k acc f t v R s = fold f xs s \<and> count_within_range k acc t v R = length xs"
proof -
  have "\<forall>c \<in> set_kdnode (kd_root t). num_coords k acc c" using assms(3) by simp
  from within_range_filter [OF assms(1,2) this refl] show ?thesis
    by (intro exI [of _ "filter (encloses k acc (region_around k acc v R)) (kd_preorder (kd_root t))"]) (simp add: kd_preorder_mset)
qed

lemma int_coord_num [simp]: "num_coords k int_coord v"
  by (simp add: num_coords_def int_coord_def)

theorem within_range_exact_witness:
  "\<exists>xs. find_within_range 2 int_coord (kd_insert_range 2 int_coord [[3, 1], [1, 2]] kd_empty) [1, 1] fone [] = [] @ xs \<and>
    mset xs = filter_mset (encloses 2 int_coord (region_around 2 int_coord [1, 1] fone))
      (mset (kd_inorder (kd_root (kd_insert_range 2 int_coord [[3, 1], [1, 2]] kd_empty)))) \<and>
    visit_within_range 2 int_coord (\<lambda>u. Suc) (kd_insert_range 2 int_coord [[3, 1], [1, 2]] kd_empty) [1, 1] fone 0 =
      fold (\<lambda>u. Suc) xs 0 \<and>
    count_within_range 2 int_coord (kd_insert_range 2 int_coord [[3, 1], [1, 2]] kd_empty) [1, 1] fone = length xs"
  by (rule within_range_exact) (simp_all add: kd_insert_range_keeps)

end
