(* ===== verification/KdIter.thy ===== *)
theory KdIter
  imports KdTree
begin

text \<open>
  Iteration backwards (\<^verbatim>\<open>kdtree++/iterator.hpp\<close>), and the constructors and the assignment of the
  k-d tree (\<^verbatim>\<open>kdtree++/kdtree.hpp\<close>) that fill it from a range or another tree.
\<close>

subsection \<open>Backwards\<close>

fun kd_maximum :: "'v kdnode \<Rightarrow> kdpath \<Rightarrow> kdpath" where
  "kd_maximum (KNode l v r) p = (if is_KNil r then p else kd_maximum r (True # p))"
| "kd_maximum KNil p = p"

text \<open>The climb of \<open>_M_decrement\<close>, on while the node is its parent's left child; it ends at the header.\<close>

fun kd_climb_left :: "kdpath \<Rightarrow> kdptr" where
  "kd_climb_left [] = Header"
| "kd_climb_left (False # p) = kd_climb_left p"
| "kd_climb_left (True # p) = At p"

fun kd_decrement :: "'v kdtree \<Rightarrow> kdptr \<Rightarrow> kdptr" where
  "kd_decrement t Header = kd_rightmost t"
| "kd_decrement t (At p) =
     (if \<not> is_KNil (node_at (kd_root t) (False # p)) then At (kd_maximum (node_at (kd_root t) (False # p)) (False # p))
      else kd_climb_left p)"
| "kd_decrement t Null = Null"

text \<open>From \<open>rbegin()\<close> to \<open>rend()\<close>: a reverse iterator shows the value before its base, until that is \<open>begin()\<close>.\<close>

partial_function (option) kd_collect_back :: "'v kdtree \<Rightarrow> kdptr \<Rightarrow> 'v list \<Rightarrow> 'v list option" where
  "kd_collect_back t it vs =
     (if it = kd_leftmost t then Some vs
      else case kd_decrement t it of Header \<Rightarrow> None | Null \<Rightarrow> None
        | At p \<Rightarrow> (case node_at (kd_root t) p of KNil \<Rightarrow> None
            | KNode l v r \<Rightarrow> kd_collect_back t (At p) (vs @ [v])))"

definition kd_values_back :: "'v kdtree \<Rightarrow> 'v list option" where
  "kd_values_back t = kd_collect_back t Header []"

subsection \<open>Filling a tree\<close>

definition kd_from_range :: "nat \<Rightarrow> ('v \<Rightarrow> nat \<Rightarrow> fp) \<Rightarrow> 'v nth_elem \<Rightarrow> 'v list \<Rightarrow> 'v kdtree" where
  "kd_from_range k acc nthe vs = M_optimise k acc nthe vs 0 kd_empty"

definition kd_copy :: "nat \<Rightarrow> ('v \<Rightarrow> nat \<Rightarrow> fp) \<Rightarrow> 'v nth_elem \<Rightarrow> 'v kdtree \<Rightarrow> 'v kdtree option" where
  "kd_copy k acc nthe x = map_option (\<lambda>temp. M_optimise k acc nthe temp 0 kd_empty) (kd_values x)"

text \<open>\<open>operator=\<close> from another object; from the object itself it does nothing.\<close>

definition kd_assign :: "nat \<Rightarrow> ('v \<Rightarrow> nat \<Rightarrow> fp) \<Rightarrow> 'v nth_elem \<Rightarrow> 'v kdtree \<Rightarrow> 'v kdtree \<Rightarrow> 'v kdtree option" where
  "kd_assign k acc nthe x t = map_option (\<lambda>temp. kd_replace_optimise k acc nthe temp t) (kd_values x)"

definition kd_insert_n :: "nat \<Rightarrow> ('v \<Rightarrow> nat \<Rightarrow> fp) \<Rightarrow> nat \<Rightarrow> 'v \<Rightarrow> 'v kdtree \<Rightarrow> 'v kdtree" where
  "kd_insert_n k acc n x t = ((\<lambda>t. fst (kd_insert k acc x t)) ^^ n) t"

subsection \<open>Backwards is the reverse\<close>

lemma kd_maximum_edge: "kd_maximum t p = kd_edge True t p"
  by (induction t p rule: kd_maximum.induct) simp_all

lemma kd_climb_left_minimum: "kd_climb_left (kd_minimum s p) = kd_climb_left p"
  by (induction s p rule: kd_minimum.induct) simp_all

text \<open>The leftmost node: no step to the right leads to it, and it has no left child.\<close>

definition leftmost_ok :: "'v kdtree \<Rightarrow> bool" where
  "leftmost_ok t \<longleftrightarrow> (\<forall>q. kd_leftmost t = At q \<longrightarrow> True \<notin> set q \<and> is_KNil (node_at (kd_root t) (False # q)))"

lemma kd_edge_steps: "set (kd_edge d t p) \<subseteq> insert d (set p)"
proof (induction t arbitrary: p)
  case (KNode l u r)
  then show ?case using KNode.IH(1) [of "False # p"] KNode.IH(2) [of "True # p"] by (cases d) (auto simp: Let_def)
qed auto

lemma kd_wf_leftmost: "kd_wf k acc t \<Longrightarrow> leftmost_ok t"
  using kd_edge_steps [of False "kd_root t" "[]"] kd_edge_child [of "kd_root t" False]
  by (auto simp: leftmost_ok_def kd_wf_def)

lemma node_at_minimum: "node_at t p = s \<Longrightarrow> is_KNil (node_at t (False # kd_minimum s p))"
proof (induction s arbitrary: p)
  case (KNode l u r)
  then show ?case using KNode.IH(1) [of "False # p"] by (cases "is_KNil l") auto
qed simp

lemma kd_minimum_suffix: "set p \<subseteq> set (kd_minimum s p)"
  by (induction s p rule: kd_minimum.induct) auto

lemma kd_collect_back_step:
  "it \<noteq> kd_leftmost t \<Longrightarrow> kd_decrement t it = At p \<Longrightarrow> node_at (kd_root t) p = KNode l v r \<Longrightarrow>
   kd_collect_back t it vs = kd_collect_back t (At p) (vs @ [v])"
  by (subst kd_collect_back.simps) simp

lemma kd_collect_back_subtree:
  assumes "leftmost_ok t" and "node_at (kd_root t) p = s" and "s \<noteq> KNil"
    and "it \<noteq> kd_leftmost t" and "kd_decrement t it = At (kd_maximum s p)"
  shows "kd_collect_back t it vs = kd_collect_back t (At (kd_minimum s p)) (vs @ rev (kd_inorder s))"
  using assms(2-)
proof (induction s arbitrary: p it vs)
  case (KNode l v r)
  let ?C = "kd_collect_back t"
  have down: "node_at (kd_root t) (True # p) = r" "node_at (kd_root t) (False # p) = l" using KNode.prems(1) by simp_all
  have right: "?C it vs = ?C (At p) (vs @ rev (v # kd_inorder r))"
  proof (cases "r = KNil")
    case True
    then show ?thesis using kd_collect_back_step [OF KNode.prems(3) _ KNode.prems(1), of vs] KNode.prems(4) by simp
  next
    case False
    let ?m = "kd_minimum r (True # p)"
    have "?C it vs = ?C (At ?m) (vs @ rev (kd_inorder r))"
      using KNode.IH(2) [OF down(1) False KNode.prems(3), of vs] KNode.prems(4) False by (simp add: is_KNil_def)
    also have "\<dots> = ?C (At p) ((vs @ rev (kd_inorder r)) @ [v])"
    proof (rule kd_collect_back_step [OF _ _ KNode.prems(1)])
      show "At ?m \<noteq> kd_leftmost t" using assms(1) kd_minimum_suffix [of "True # p" r] by (auto simp: leftmost_ok_def)
      show "kd_decrement t (At ?m) = At p" using node_at_minimum [OF down(1)] by (simp add: kd_climb_left_minimum del: node_at.simps)
    qed
    finally show ?thesis by simp
  qed
  show ?case
  proof (cases "l = KNil")
    case True
    then show ?thesis using right by simp
  next
    case False
    have "At p \<noteq> kd_leftmost t" using assms(1) down(2) False by (auto simp: leftmost_ok_def is_KNil_def)
    moreover have "kd_decrement t (At p) = At (kd_maximum l (False # p))"
      using down(2) False by (simp add: is_KNil_def del: node_at.simps)
    ultimately show ?thesis using KNode.IH(1) [OF down(2) False, of "At p"] right False by (simp add: is_KNil_def)
  qed
qed simp

lemma kd_values_back_rev:
  assumes "kd_wf k acc t"
  shows "kd_values_back t = Some (rev (kd_inorder (kd_root t)))"
proof (cases "kd_root t = KNil")
  case True
  then show ?thesis using assms by (simp add: kd_values_back_def kd_wf_def kd_collect_back.simps)
next
  case False
  then have "kd_leftmost t = At (kd_minimum (kd_root t) [])" "kd_rightmost t = At (kd_maximum (kd_root t) [])"
    using assms by (simp_all add: kd_wf_def is_KNil_def kd_minimum_edge kd_maximum_edge)
  then show ?thesis using kd_collect_back_subtree [OF kd_wf_leftmost [OF assms] _ False, of "[]" Header "[]"]
    by (simp add: kd_values_back_def kd_collect_back.simps [of t "At (kd_minimum (kd_root t) [])"])
qed

subsection \<open>Copies hold the same values\<close>

context nth_element
begin

lemma from_range_ok: "kd_wf k acc (kd_from_range k acc nthe vs) \<and> mset (kd_inorder (kd_root (kd_from_range k acc nthe vs))) = mset vs"
  using optimise_keeps [OF kd_wf_empty(1), of k acc vs 0] by (simp add: kd_from_range_def) (simp add: kd_empty_def)

lemma copy_ok:
  "kd_wf k acc x \<Longrightarrow> \<exists>t'. kd_copy k acc nthe x = Some t' \<and> kd_wf k acc t' \<and> mset (kd_inorder (kd_root t')) = mset (kd_inorder (kd_root x))"
  using kd_values_inorder [of k acc x] from_range_ok [of k acc "kd_inorder (kd_root x)"] by (simp add: kd_copy_def kd_from_range_def)

lemma assign_ok:
  "kd_wf k acc x \<Longrightarrow> \<exists>t'. kd_assign k acc nthe x t = Some t' \<and> kd_wf k acc t' \<and> mset (kd_inorder (kd_root t')) = mset (kd_inorder (kd_root x))"
  using kd_values_inorder [of k acc x] optimise_keeps [OF kd_wf_empty(2), of k acc "kd_inorder (kd_root x)" 0 t]
  by (simp add: kd_assign_def kd_replace_optimise_def)

end

end
