(* ===== verification/KdErase.thy ===== *)
theory KdErase
  imports KdQuery KdIter
begin

text \<open>
  Erasure in \<^verbatim>\<open>kdtree++/kdtree.hpp\<close>: the erased node is replaced by the least node of its right
  subtree or the greatest of its left subtree in the dimension of its level, which is itself erased
  first. Nodes keep their places but for the replacement, which takes the place of the erased
  node: so the paths that stand for pointers stay valid, and the pointer to the erased node becomes
  the one to its replacement.
\<close>

subsection \<open>The replacement\<close>

text \<open>
  \<open>_M_get_j_min\<close> and \<open>_M_get_j_max\<close>: the code is the same but for the order of the arguments of
  \<open>compare\<close>, here \<open>lt\<close>. The node is the cell at \<open>p\<close> on level \<open>L\<close>, \<open>d\<close> the level that
  \<open>compare\<close> is for; a node is returned with its value and level, which for the node \<open>p\<close> is \<open>d\<close> until
  the end. There is no result for a null pointer, which the code would follow.
\<close>

type_synonym 'v candidate = "kdpath \<times> 'v \<times> nat"

abbreviation cd_value :: "'v candidate \<Rightarrow> 'v" where
  "cd_value c \<equiv> fst (snd c)"

fun get_j :: "('v \<Rightarrow> 'v \<Rightarrow> bool) \<Rightarrow> nat \<Rightarrow> nat \<Rightarrow> kdpath \<Rightarrow> 'v kdnode \<Rightarrow> 'v candidate option" where
  "get_j lt d L p KNil = None"
| "get_j lt d L p (KNode l u r) =
     (if is_KNil l \<and> is_KNil r then Some (p, u, L)
      else do {
        c \<leftarrow> (if is_KNil l then Some (p, u, d)
             else do { x \<leftarrow> get_j lt d (Suc L) (False # p) l; Some (if lt (cd_value x) u then x else (p, u, d)) });
        c \<leftarrow> (if is_KNil r then Some c
             else do { x \<leftarrow> get_j lt d (Suc L) (True # p) r; Some (if lt (cd_value x) (cd_value c) then x else c) });
        Some (if fst c = p then (p, cd_value c, L) else c) })"

definition get_j_min :: "nat \<Rightarrow> ('v \<Rightarrow> nat \<Rightarrow> fp) \<Rightarrow> nat \<Rightarrow> nat \<Rightarrow> kdpath \<Rightarrow> 'v kdnode \<Rightarrow> 'v candidate option" where
  "get_j_min k acc d = get_j (node_less k acc d) d"

definition get_j_max :: "nat \<Rightarrow> ('v \<Rightarrow> nat \<Rightarrow> fp) \<Rightarrow> nat \<Rightarrow> nat \<Rightarrow> kdpath \<Rightarrow> 'v kdnode \<Rightarrow> 'v candidate option" where
  "get_j_max k acc d = get_j (\<lambda>a b. node_less k acc d b a) d"

text \<open>The choice of the candidate for a node with the children \<open>l\<close> and \<open>r\<close>; its path is relative to the node.\<close>

fun erase_candidate :: "nat \<Rightarrow> ('v \<Rightarrow> nat \<Rightarrow> fp) \<Rightarrow> nat \<Rightarrow> 'v kdnode \<Rightarrow> 'v kdnode \<Rightarrow> 'v candidate option" where
  "erase_candidate k acc L KNil r = get_j_min k acc L (Suc L) [True] r"
| "erase_candidate k acc L l KNil = get_j_max k acc L (Suc L) [False] l"
| "erase_candidate k acc L (KNode l1 a l2) (KNode r1 b r2) =
     (if node_less k acc L b a then get_j_min k acc L (Suc L) [True] (KNode r1 b r2)
      else get_j_max k acc L (Suc L) [False] (KNode l1 a l2))"

subsection \<open>Erasure\<close>

text \<open>The link of a node's parent, which leads to the node at a path, is set to \<open>c\<close>.\<close>

fun put_at :: "'v kdnode \<Rightarrow> kdpath \<Rightarrow> 'v kdnode \<Rightarrow> 'v kdnode" where
  "put_at t [] c = c"
| "put_at t (d # p) c = put_at t p
     (case node_at t p of KNil \<Rightarrow> KNil | KNode l u r \<Rightarrow> if d then KNode l u c else KNode c u r)"

text \<open>The header's link \<open>e\<close> after the node at \<open>p\<close> is replaced, or removed when \<open>step\<close> is false.\<close>

definition edge_after :: "kdpath \<Rightarrow> bool \<Rightarrow> kdptr \<Rightarrow> kdptr" where
  "edge_after p step e = (if e = At p then if step then At p else kd_parent (At p) else e)"

text \<open>The candidate lies below the node.\<close>

lemma node_at_KNil [simp]: "node_at KNil p = KNil"
  by (induction p) simp_all

lemma node_at_snoc: "node_at (KNode l u r) (w @ [d]) = node_at (if d then r else l) w"
  by (simp add: node_at_append)

text \<open>What the comparison has to satisfy, and the node that is found.\<close>

definition weak_order :: "('v \<Rightarrow> 'v \<Rightarrow> bool) \<Rightarrow> 'v set \<Rightarrow> bool" where
  "weak_order lt S \<longleftrightarrow> (\<forall>a \<in> S. \<forall>b \<in> S. lt a b \<longrightarrow> \<not> lt b a) \<and>
     (\<forall>a \<in> S. \<forall>b \<in> S. \<forall>c \<in> S. \<not> lt a b \<longrightarrow> \<not> lt b c \<longrightarrow> \<not> lt a c)"

lemma weak_order_subset: "weak_order lt S \<Longrightarrow> S' \<subseteq> S \<Longrightarrow> weak_order lt S'"
  unfolding weak_order_def by blast

lemma weak_order_flip: "weak_order lt S \<Longrightarrow> weak_order (\<lambda>a b. lt b a) S"
  unfolding weak_order_def by blast

lemma pick_least:
  assumes "weak_order lt (A \<union> B)" and "a \<in> A" and "b \<in> B" and "\<forall>y \<in> A. \<not> lt y a" and "\<forall>y \<in> B. \<not> lt y b"
  shows "\<forall>y \<in> A \<union> B. \<not> lt y (if lt a b then a else b)"
proof (cases "lt a b")
  case True
  then have "\<not> lt b a" using assms(1-3) by (simp add: weak_order_def)
  then have "\<not> lt y a" if "y \<in> B" for y using assms(1-3,5) that unfolding weak_order_def by (meson UnI1 UnI2)
  then show ?thesis using assms(4) True by auto
next
  case False
  then have "\<not> lt y b" if "y \<in> A" for y using assms(1-4) that unfolding weak_order_def by (meson UnI1 UnI2)
  then show ?thesis using assms(5) False by auto
qed

definition least_of :: "('v \<Rightarrow> 'v \<Rightarrow> bool) \<Rightarrow> 'v set \<Rightarrow> 'v \<Rightarrow> bool" where
  "least_of lt S v \<longleftrightarrow> v \<in> S \<and> (weak_order lt S \<longrightarrow> (\<forall>y \<in> S. \<not> lt y v))"

lemma least_of_one: "least_of lt {u} u"
  by (auto simp: least_of_def weak_order_def)

lemma least_of_pick:
  assumes "least_of lt A a" and "least_of lt B b"
  shows "least_of lt (B \<union> A) (if lt a b then a else b)"
proof -
  have "a \<in> A" "b \<in> B" using assms by (simp_all add: least_of_def)
  moreover have "\<forall>y \<in> A \<union> B. \<not> lt y (if lt a b then a else b)" if "weak_order lt (A \<union> B)"
    using pick_least [OF that] weak_order_subset [OF that] assms by (simp add: least_of_def)
  ultimately show ?thesis by (auto simp: least_of_def Un_commute)
qed

text \<open>Where a candidate was found: the node itself, or a node below it with its level.\<close>

definition found_at :: "nat \<Rightarrow> nat \<Rightarrow> kdpath \<Rightarrow> 'v kdnode \<Rightarrow> 'v candidate \<Rightarrow> bool" where
  "found_at d L p t c \<longleftrightarrow> (\<exists>w v l r. c = (w @ p, v, if w = [] then d else L + length w) \<and> node_at t w = KNode l v r)"

lemma found_at_down:
  assumes "found_at (Suc L) (Suc L) (b # p) (if b then r else l) c"
  shows "found_at d L p (KNode l u r) c"
proof -
  obtain w v l' r' where "c = ((w @ [b]) @ p, v, L + length (w @ [b]))" "node_at (if b then r else l) w = KNode l' v r'"
    using assms by (auto simp: found_at_def)
  then show ?thesis unfolding found_at_def
    by (intro exI [of _ "w @ [b]"] exI [of _ v] exI [of _ l'] exI [of _ r']) (simp add: node_at_snoc)
qed

lemma get_j_found:
  "t \<noteq> KNil \<Longrightarrow> \<exists>c. get_j lt d L p t = Some c \<and> found_at L L p t c \<and> least_of lt (set_kdnode t) (cd_value c)"
proof (induction t arbitrary: L p)
  case (KNode l u r)
  let ?t = "KNode l u r"
  show ?case
  proof (cases "is_KNil l \<and> is_KNil r")
    case True
    then show ?thesis by (auto simp: is_KNil_def found_at_def least_of_one intro: exI [of _ "[]"])
  next
    case False
    obtain c1 where c1: "(if is_KNil l then Some (p, u, d)
        else get_j lt d (Suc L) (False # p) l \<bind> (\<lambda>x. Some (if lt (cd_value x) u then x else (p, u, d)))) = Some c1"
      "found_at d L p ?t c1" "least_of lt (insert u (set_kdnode l)) (cd_value c1)"
    proof (cases "l = KNil")
      case True
      then show ?thesis using that [of "(p, u, d)"] by (auto simp: found_at_def least_of_one intro: exI [of _ "[]"])
    next
      case False
      then obtain x where x: "get_j lt d (Suc L) (False # p) l = Some x" "found_at d L p ?t x" "least_of lt (set_kdnode l) (cd_value x)"
        using KNode.IH(1) [of "Suc L" "False # p"] found_at_down [of L False p r l] by auto
      have "found_at d L p ?t (p, u, d)" by (auto simp: found_at_def intro: exI [of _ "[]"])
      then show ?thesis using that [of "if lt (cd_value x) u then x else (p, u, d)"] x False least_of_pick [OF x(3) least_of_one [of lt u]]
        by (auto simp: is_KNil_def split: if_splits)
    qed
    obtain c2 where c2: "(if is_KNil r then Some c1
        else get_j lt d (Suc L) (True # p) r \<bind> (\<lambda>x. Some (if lt (cd_value x) (cd_value c1) then x else c1))) = Some c2"
      "found_at d L p ?t c2" "least_of lt (set_kdnode ?t) (cd_value c2)"
    proof (cases "r = KNil")
      case True
      then show ?thesis using that [of c1] c1 by simp
    next
      case False
      then obtain x where x: "get_j lt d (Suc L) (True # p) r = Some x" "found_at d L p ?t x" "least_of lt (set_kdnode r) (cd_value x)"
        using KNode.IH(2) [of "Suc L" "True # p"] found_at_down [of L True p r l] by auto
      then show ?thesis using that [of "if lt (cd_value x) (cd_value c1) then x else c1"] c1 False least_of_pick [OF x(3) c1(3)]
        by (auto simp: is_KNil_def split: if_splits)
    qed
    have "get_j lt d L p ?t = Some (if fst c2 = p then (p, cd_value c2, L) else c2)"
      using False c1(1) c2(1) by auto
    moreover have "found_at L L p ?t (if fst c2 = p then (p, cd_value c2, L) else c2)"
      using c2(2) by (fastforce simp: found_at_def)
    ultimately show ?thesis using c2(3) by auto
  qed
qed simp

lemma erase_candidate_found:
  assumes "l \<noteq> KNil \<or> r \<noteq> KNil"
  obtains b w v l' r' where "erase_candidate k acc L l r = Some (w @ [b], v, L + length (w @ [b]))"
    "node_at (if b then r else l) w = KNode l' v r'"
    "least_of (\<lambda>x y. if b then node_less k acc L x y else node_less k acc L y x) (set_kdnode (if b then r else l)) v"
proof -
  consider "erase_candidate k acc L l r = get_j_min k acc L (Suc L) [True] r" "r \<noteq> KNil"
    | "erase_candidate k acc L l r = get_j_max k acc L (Suc L) [False] l" "l \<noteq> KNil"
  proof -
    have "erase_candidate k acc L l r = get_j_min k acc L (Suc L) [True] r \<and> r \<noteq> KNil \<or>
        erase_candidate k acc L l r = get_j_max k acc L (Suc L) [False] l \<and> l \<noteq> KNil"
      using assms by (cases l; cases r) auto
    then show thesis using that by blast
  qed
  then show thesis
  proof cases
    case 1
    then obtain c where "get_j (node_less k acc L) L (Suc L) [True] r = Some c" "found_at (Suc L) (Suc L) [True] r c"
      "least_of (node_less k acc L) (set_kdnode r) (cd_value c)" using get_j_found [of r "node_less k acc L" L "Suc L" "[True]"] by auto
    then show thesis using that [of _ True] 1(1) by (auto simp: found_at_def get_j_min_def split: if_splits)
  next
    case 2
    then obtain c where "get_j (\<lambda>a b. node_less k acc L b a) L (Suc L) [False] l = Some c" "found_at (Suc L) (Suc L) [False] l c"
      "least_of (\<lambda>a b. node_less k acc L b a) (set_kdnode l) (cd_value c)"
      using get_j_found [of l "\<lambda>a b. node_less k acc L b a" L "Suc L" "[False]"] by auto
    then show thesis using that [of _ False] 2(1) by (auto simp: found_at_def get_j_max_def split: if_splits)
  qed
qed

lemma size_node_at: "size (node_at t w) \<le> size t"
proof (induction w)
  case (Cons d w)
  then show ?case by (cases "node_at t w") auto
qed simp

lemma erase_candidate_smaller:
  "erase_candidate k acc L l r = Some (w, x) \<Longrightarrow> size (node_at (KNode l u r) w) < size (KNode l u r)"
proof (cases "l \<noteq> KNil \<or> r \<noteq> KNil")
  case True
  assume c: "erase_candidate k acc L l r = Some (w, x)"
  from True obtain b w' where "w = w' @ [b]" by (rule erase_candidate_found [of l r k acc L]) (use c in auto)
  then show ?thesis using size_node_at [of "if b then r else l" w'] by (simp add: node_at_snoc split: if_splits)
qed (simp add: get_j_min_def)

text \<open>
  \<open>_M_erase\<close> of the node at \<open>p\<close>, the root of the cell \<open>t\<close>: what takes its place, and the header's
  links. \<open>_M_get_erase_replacement\<close> is the part in between: it finds the candidate and takes it out.
\<close>

function M_erase :: "nat \<Rightarrow> ('v \<Rightarrow> nat \<Rightarrow> fp) \<Rightarrow> kdpath \<Rightarrow> nat \<Rightarrow> 'v kdnode \<Rightarrow> kdptr \<Rightarrow> kdptr \<Rightarrow> ('v kdnode \<times> kdptr \<times> kdptr) option" where
  "M_erase k acc p L KNil lm rm = None"
| "M_erase k acc p L (KNode l u r) lm rm =
     (if is_KNil l \<and> is_KNil r then Some (KNil, edge_after p False lm, edge_after p False rm)
      else do {
        (w, v, Lc) \<leftarrow> erase_candidate k acc L l r;
        (c, lm, rm) \<leftarrow> M_erase k acc (w @ p) Lc (node_at (KNode l u r) w) lm rm;
        case put_at (KNode l u r) w c of KNil \<Rightarrow> None
        | KNode l' u r' \<Rightarrow> Some (KNode l' v r', edge_after p True lm, edge_after p True rm) })"
  by pat_completeness auto

termination M_erase
  by (relation "measure (\<lambda>(k, acc, p, L, t, lm, rm). size t)") (use erase_candidate_smaller in \<open>auto simp del: node_at.simps\<close>)

declare M_erase.simps [simp del]

definition kd_erase_at :: "nat \<Rightarrow> ('v \<Rightarrow> nat \<Rightarrow> fp) \<Rightarrow> 'v kdtree \<Rightarrow> kdptr \<Rightarrow> 'v kdtree option" where
  "kd_erase_at k acc t it =
     (case it of At p \<Rightarrow> do {
        (n, lm, rm) \<leftarrow> M_erase k acc p (length p) (node_at (kd_root t) p) (kd_leftmost t) (kd_rightmost t);
        Some \<lparr>kd_root = put_at (kd_root t) p n, kd_leftmost = lm, kd_rightmost = rm, kd_count = kd_count t - 1\<rparr> }
      | _ \<Rightarrow> None)"

definition kd_erase :: "nat \<Rightarrow> ('v \<Rightarrow> nat \<Rightarrow> fp) \<Rightarrow> 'v kdtree \<Rightarrow> 'v \<Rightarrow> 'v kdtree option" where
  "kd_erase k acc t v = kd_erase_at k acc t (kd_find k acc t v)"

definition kd_erase_exact :: "nat \<Rightarrow> ('v \<Rightarrow> nat \<Rightarrow> fp) \<Rightarrow> ('v \<Rightarrow> 'v \<Rightarrow> bool) \<Rightarrow> 'v kdtree \<Rightarrow> 'v \<Rightarrow> 'v kdtree option" where
  "kd_erase_exact k acc eq t v = kd_erase_at k acc t (kd_find_exact k acc eq t v)"

subsection \<open>Changing a cell below\<close>

lemma put_at_snoc: "put_at (KNode l u r) (w @ [b]) c = (if b then KNode l u (put_at r w c) else KNode (put_at l w c) u r)"
proof (induction w arbitrary: c)
  case (Cons d w)
  show ?case using Cons.IH by (simp add: node_at_snoc)
qed simp

lemma put_at_root: "w \<noteq> [] \<Longrightarrow> node_at (KNode l u r) w \<noteq> KNil \<Longrightarrow> \<exists>l' r'. put_at (KNode l u r) w c = KNode l' u r'"
  by (cases w rule: rev_cases) (auto simp: put_at_snoc)

text \<open>Induction along a path from the root to a cell that is there.\<close>

lemma path_induct [consumes 1, case_names here down]:
  assumes "node_at t w \<noteq> KNil"
    and "\<And>t. t \<noteq> KNil \<Longrightarrow> P [] t"
    and "\<And>w b l u r. node_at (if b then r else l) w \<noteq> KNil \<Longrightarrow> P w (if b then r else l) \<Longrightarrow> P (w @ [b]) (KNode l u r)"
  shows "P w t"
  using assms(1)
proof (induction w arbitrary: t rule: rev_induct)
  case Nil
  then show ?case using assms(2) by simp
next
  case (snoc b w)
  then obtain l u r where t: "t = KNode l u r" by (cases t) auto
  show ?case unfolding t using snoc assms(3) by (simp add: t node_at_snoc)
qed

lemma put_at_values:
  assumes "node_at t w \<noteq> KNil" and "mset (kd_inorder (node_at t w)) = add_mset v (mset (kd_inorder c))"
  shows "mset (kd_inorder t) = add_mset v (mset (kd_inorder (put_at t w c)))"
  using assms by (induction rule: path_induct) (auto simp: node_at_snoc put_at_snoc split: if_splits)

lemma put_at_set:
  assumes "node_at t w \<noteq> KNil" and "set_kdnode c \<subseteq> set_kdnode (node_at t w)"
  shows "set_kdnode (put_at t w c) \<subseteq> set_kdnode t"
  using assms by (induction rule: path_induct) (auto simp: node_at_snoc put_at_snoc split: if_splits)

lemma node_at_set:
  assumes "node_at t w \<noteq> KNil" shows "set_kdnode (node_at t w) \<subseteq> set_kdnode t"
  using assms by (induction rule: path_induct) (auto simp: node_at_snoc split: if_splits)

lemma check_node_at:
  assumes "node_at t w \<noteq> KNil" and "check_node k acc t L"
  shows "check_node k acc (node_at t w) (L + length w)"
  using assms
proof (induction arbitrary: L rule: path_induct)
  case (down w b l u r)
  then show ?case using down.IH [of "Suc L"] by (cases b) (simp_all add: node_at_snoc)
qed simp

lemma check_children_subset: "check_children k acc t u L b \<Longrightarrow> set_kdnode t' \<subseteq> set_kdnode t \<Longrightarrow> check_children k acc t' u L b"
  unfolding check_children_iff by blast

lemma put_at_check:
  assumes "node_at t w \<noteq> KNil" and "check_node k acc t L" and "check_node k acc c (L + length w)"
    and "set_kdnode c \<subseteq> set_kdnode (node_at t w)"
  shows "check_node k acc (put_at t w c) L"
  using assms
proof (induction arbitrary: L rule: path_induct)
  case (down w b l u r)
  let ?x = "if b then r else l"
  have "check_node k acc ?x (Suc L)" "check_children k acc ?x u L (\<not> b)" using down.prems(1) by (cases b; simp)+
  moreover have "set_kdnode (put_at ?x w c) \<subseteq> set_kdnode ?x" using put_at_set [OF down.hyps] down.prems(3) by (simp add: node_at_snoc)
  moreover have "check_node k acc (put_at ?x w c) (Suc L)"
    using down.IH [of "Suc L"] down.prems calculation(1) by (simp add: node_at_snoc)
  ultimately show ?case using down.prems(1) check_children_subset by (cases b) (auto simp: put_at_snoc)
qed simp

text \<open>The end of a spine, when a cell below is changed: it moves only when that cell is on the spine.\<close>

definition on_spine :: "bool \<Rightarrow> kdpath \<Rightarrow> bool" where
  "on_spine d w \<longleftrightarrow> set w \<subseteq> {d}"

lemma kd_edge_below:
  assumes "node_at t w \<noteq> KNil"
  shows "if on_spine d w then kd_edge d t p = kd_edge d (node_at t w) (w @ p) else outside (At (kd_edge d t p)) (w @ p)"
  using assms
proof (induction arbitrary: p rule: path_induct)
  case (down w b l u r)
  let ?x = "if b then r else l"
  have x: "?x \<noteq> KNil" using down.hyps by auto
  show ?case
  proof (cases "b = d")
    case True
    then have e: "kd_edge d (KNode l u r) p = kd_edge d ?x (d # p)" using x by (auto simp: is_KNil_def Let_def)
    have on: "on_spine d (w @ [d]) = on_spine d w" by (simp add: on_spine_def)
    then show ?thesis using down.IH [of "d # p"] on unfolding e node_at_snoc True by (cases d; cases "on_spine d w") simp_all
  next
    case False
    then have db: "d = (\<not> b)" by simp
    have "kd_edge d (KNode l u r) p \<noteq> ys @ w @ b # p" for ys
      using kd_edge_KNode [of d l u r p] path_neq(1) [of "ys @ w" b p] path_neq(2) [of "ys @ w" b p] unfolding db by auto
    then show ?thesis using False by (simp add: on_spine_def outside_def)
  qed
qed (simp add: on_spine_def)

lemma kd_edge_put:
  assumes "node_at t w \<noteq> KNil" and "w \<noteq> []"
  shows "kd_edge d (put_at t w c) p =
    (if on_spine d w then if c = KNil then tl w @ p else kd_edge d c (w @ p) else kd_edge d t p)"
  using assms
proof (induction arbitrary: p rule: path_induct)
  case (down w b l u r)
  let ?x = "if b then r else l"
  show ?case
  proof (cases "w = []")
    case True
    then show ?thesis by (cases b; cases d) (auto simp: on_spine_def Let_def is_KNil_def)
  next
    case False
    then obtain l' u' r' where x: "?x \<noteq> KNil" "put_at ?x w c = KNode l' u' r'"
      using down.hyps put_at_root by (cases ?x) fastforce+
    show ?thesis
      using down.IH [of "d # p"] x False by (cases b; cases d) (auto simp: on_spine_def put_at_snoc is_KNil_def Let_def)
  qed
qed simp

subsection \<open>What erasure does\<close>

text \<open>A header link \<open>m\<close> becomes \<open>m'\<close> when the cell \<open>t\<close> at \<open>p\<close> becomes \<open>t'\<close>.\<close>

definition edge_moved :: "bool \<Rightarrow> kdpath \<Rightarrow> 'v kdnode \<Rightarrow> 'v kdnode \<Rightarrow> kdptr \<Rightarrow> kdptr \<Rightarrow> bool" where
  "edge_moved d p t t' m m' \<longleftrightarrow> (outside m p \<longrightarrow> m' = m) \<and>
     (m = At (kd_edge d t p) \<longrightarrow> m' = (if t' = KNil then kd_parent (At p) else At (kd_edge d t' p)))"

lemma outside_below: "outside m p \<Longrightarrow> outside m (w @ p)"
  unfolding outside_def by (metis append.assoc)

lemma edge_moved_below:
  assumes "edge_moved d (w @ p) (node_at t w) c m m'" and "w \<noteq> []" and "node_at t w \<noteq> KNil"
  shows "(outside m p \<longrightarrow> m' = m) \<and> (m = At (kd_edge d t p) \<longrightarrow> m' = At (kd_edge d (put_at t w c) p))"
proof -
  have "kd_parent (At (w @ p)) = At (tl w @ p)" using assms(2) by (cases w) simp_all
  then show ?thesis
    using assms(1) kd_edge_below [OF assms(3), of d p] kd_edge_put [OF assms(3,2), of d c p] outside_below [of m p w]
    by (auto simp: edge_moved_def split: if_splits)
qed

lemma node_less_weak_order: "0 < k \<Longrightarrow> \<forall>c \<in> S. num_coords k acc c \<Longrightarrow> weak_order (node_less k acc L) S"
  unfolding weak_order_def node_less_def num_coords_def
  by (smt (verit, best) fle_not_flt fle_trans flt_fle mod_less_divisor)

text \<open>The replacement is in order with both subtrees.\<close>

lemma candidate_order:
  assumes w: "weak_order (node_less k acc L) (insert u (set_kdnode l \<union> set_kdnode r))"
    and "check_children k acc l u L True" and "check_children k acc r u L False"
    and "node_at (if b then r else l) p = KNode l1 v r1"
    and least: "least_of (\<lambda>x y. if b then node_less k acc L x y else node_less k acc L y x) (set_kdnode (if b then r else l)) v"
  shows "(\<forall>x \<in> set_kdnode l. \<not> node_less k acc L v x) \<and> (\<forall>x \<in> set_kdnode r. \<not> node_less k acc L x v)"
proof -
  have trans: "\<not> node_less k acc L x z" if "\<not> node_less k acc L x u" "\<not> node_less k acc L u z"
      "x \<in> set_kdnode l \<union> set_kdnode r" "z \<in> set_kdnode l \<union> set_kdnode r" for x z
    using w that unfolding weak_order_def by (meson insertCI)
  have v: "v \<in> set_kdnode (if b then r else l)" using least by (simp add: least_of_def)
  have sub: "weak_order (node_less k acc L) (set_kdnode l)" "weak_order (node_less k acc L) (set_kdnode r)"
    using weak_order_subset [OF w] by auto
  show ?thesis
    using least v trans sub(2) weak_order_flip [OF sub(1)] assms(2,3) by (cases b) (auto simp: least_of_def check_children_iff)
qed

lemma edge_after_step [simp]: "edge_after p True e = e"
  by (simp add: edge_after_def)

lemma M_erase_keeps:
  assumes "0 < k" and "t = KNode l u r" and "check_node k acc t L" and "\<forall>c \<in> set_kdnode t. num_coords k acc c"
  shows "\<exists>t' lm' rm'. M_erase k acc p L t lm rm = Some (t', lm', rm') \<and>
    mset (kd_inorder t) = add_mset u (mset (kd_inorder t')) \<and> check_node k acc t' L \<and>
    edge_moved False p t t' lm lm' \<and> edge_moved True p t t' rm rm'"
  using assms(2-)
proof (induction "size t" arbitrary: t l u r p L lm rm rule: less_induct)
  case less
  show ?case
  proof (cases "l = KNil \<and> r = KNil")
    case True
    then show ?thesis using outside_self by (auto simp: less.prems(1) M_erase.simps edge_moved_def edge_after_def)
  next
    case False
    obtain b w v l1 r1 where cand: "erase_candidate k acc L l r = Some (w @ [b], v, L + length (w @ [b]))"
      and at: "node_at (if b then r else l) w = KNode l1 v r1"
      and least: "least_of (\<lambda>x y. if b then node_less k acc L x y else node_less k acc L y x) (set_kdnode (if b then r else l)) v"
      using False by (auto intro: erase_candidate_found [of l r k acc L])
    define c where "c = KNode l1 v r1"
    have c: "node_at t (w @ [b]) = c" "c \<noteq> KNil" unfolding c_def less.prems(1) node_at_snoc at by simp_all
    then have ne: "node_at t (w @ [b]) \<noteq> KNil" by simp
    have weak: "weak_order (node_less k acc L) (insert u (set_kdnode l \<union> set_kdnode r))"
      using node_less_weak_order [OF assms(1) less.prems(3)] less.prems(1) by simp
    have "size c < size t" using erase_candidate_smaller [OF cand, of u] c(1) unfolding less.prems(1) by simp
    moreover have "check_node k acc c (L + length (w @ [b]))" using check_node_at [OF ne less.prems(2)] c(1) by simp
    moreover have sub: "set_kdnode c \<subseteq> set_kdnode t" using node_at_set [OF ne] c(1) by simp
    ultimately obtain c' lm' rm' where er: "M_erase k acc ((w @ [b]) @ p) (L + length (w @ [b])) c lm rm = Some (c', lm', rm')"
      and ms: "mset (kd_inorder c) = add_mset v (mset (kd_inorder c'))" and ck: "check_node k acc c' (L + length (w @ [b]))"
      and mv: "edge_moved False ((w @ [b]) @ p) c c' lm lm'" "edge_moved True ((w @ [b]) @ p) c c' rm rm'"
      using less.hyps [OF _ c_def, of "L + length (w @ [b])" "(w @ [b]) @ p" lm rm] less.prems(3) by blast
    have sub': "set_kdnode c' \<subseteq> set_kdnode c"
      using ms by (metis set_kd_inorder set_mset_add_mset_insert set_mset_mset subset_insertI)
    obtain l2 r2 where put: "put_at t (w @ [b]) c' = KNode l2 u r2" using put_at_root [of "w @ [b]" l u r c'] ne less.prems(1) by auto
    have l2r2: "if b then l2 = l \<and> r2 = put_at r w c' else l2 = put_at l w c' \<and> r2 = r"
      using put unfolding less.prems(1) put_at_snoc by (auto split: if_splits)
    have res: "M_erase k acc p L t lm rm = Some (KNode l2 v r2, lm', rm')"
      using False cand er put c(1) unfolding less.prems(1) by (simp add: M_erase.simps(2) is_KNil_def)
    have vals: "mset (kd_inorder t) = add_mset v (mset (kd_inorder (KNode l2 u r2)))"
      using put_at_values [OF ne, of v c'] ms c(1) put by simp
    have ck2: "check_node k acc (KNode l2 u r2) L" using put_at_check [OF ne less.prems(2), of c'] ck sub' c(1) put by simp
    have moved: "edge_moved False p t (KNode l2 v r2) lm lm'" "edge_moved True p t (KNode l2 v r2) rm rm'"
      using edge_moved_below [of False "w @ [b]" p t c' lm lm'] edge_moved_below [of True "w @ [b]" p t c' rm rm'] mv c ne put
      by (simp_all add: edge_moved_def)
    have "set_kdnode l2 \<subseteq> set_kdnode l \<and> set_kdnode r2 \<subseteq> set_kdnode r"
      using l2r2 put_at_set [of "if b then r else l" w c'] at sub' by (auto simp: c_def split: if_splits)
    moreover have "(\<forall>x \<in> set_kdnode l. \<not> node_less k acc L v x) \<and> (\<forall>x \<in> set_kdnode r. \<not> node_less k acc L x v)"
      by (rule candidate_order [OF weak _ _ at least]) (use less.prems(1,2) in simp_all)
    ultimately have "check_node k acc (KNode l2 v r2) L" using ck2 by (auto simp: check_children_iff)
    then show ?thesis using res vals moved by auto
  qed
qed

text \<open>The container: the invariant holds again, and exactly one value is gone.\<close>

lemma kd_erase_at_keeps:
  assumes "0 < k" and "kd_wf k acc t" and "\<forall>c \<in> set_kdnode (kd_root t). num_coords k acc c"
    and "node_at (kd_root t) p = KNode l u r"
  shows "\<exists>t'. kd_erase_at k acc t (At p) = Some t' \<and> kd_wf k acc t' \<and>
    mset (kd_inorder (kd_root t)) = add_mset u (mset (kd_inorder (kd_root t')))"
proof -
  let ?T = "kd_root t"
  have ne: "node_at ?T p \<noteq> KNil" using assms(4) by simp
  have T: "?T \<noteq> KNil" using ne by auto
  have wf: "kd_leftmost t = At (kd_edge False ?T [])" "kd_rightmost t = At (kd_edge True ?T [])"
    "kd_count t = length (kd_inorder ?T)" "check_node k acc ?T 0"
    using assms(2) T by (simp_all add: kd_wf_def check_tree_def is_KNil_def)
  have "check_node k acc (node_at ?T p) (length p)" using check_node_at [OF ne wf(4)] by simp
  moreover have "\<forall>c \<in> set_kdnode (node_at ?T p). num_coords k acc c" using assms(3) node_at_set [OF ne] by blast
  ultimately obtain n lm rm where er: "M_erase k acc p (length p) (node_at ?T p) (kd_leftmost t) (kd_rightmost t) = Some (n, lm, rm)"
    and ms: "mset (kd_inorder (node_at ?T p)) = add_mset u (mset (kd_inorder n))" and ck: "check_node k acc n (length p)"
    and mv: "edge_moved False p (node_at ?T p) n (kd_leftmost t) lm" "edge_moved True p (node_at ?T p) n (kd_rightmost t) rm"
    using M_erase_keeps [OF assms(1,4), where L = "length p" and p = p and lm = "kd_leftmost t" and rm = "kd_rightmost t"] by blast
  define t' where "t' = \<lparr>kd_root = put_at ?T p n, kd_leftmost = lm, kd_rightmost = rm, kd_count = kd_count t - 1\<rparr>"
  have vals: "mset (kd_inorder ?T) = add_mset u (mset (kd_inorder (put_at ?T p n)))" using put_at_values [OF ne ms] .
  then have cnt: "length (kd_inorder ?T) = Suc (length (kd_inorder (put_at ?T p n)))" by (metis size_add_mset size_mset)
  have sub: "set_kdnode n \<subseteq> set_kdnode (node_at ?T p)"
    using ms by (metis set_kd_inorder set_mset_add_mset_insert set_mset_mset subset_insertI)
  have ends: "lm = (if put_at ?T p n = KNil then Header else At (kd_edge False (put_at ?T p n) [])) \<and>
              rm = (if put_at ?T p n = KNil then Header else At (kd_edge True (put_at ?T p n) []))"
  proof (cases "p = []")
    case True
    then show ?thesis using mv wf(1,2) by (simp add: edge_moved_def)
  next
    case False
    obtain l0 u0 r0 where "?T = KNode l0 u0 r0" using T by (cases ?T) auto
    then have "put_at ?T p n \<noteq> KNil" using put_at_root [OF False, of l0 u0 r0 n] ne by auto
    then show ?thesis using edge_moved_below [of _ p "[]" ?T n] mv wf(1,2) False ne by simp
  qed
  have "kd_wf k acc t'" unfolding kd_wf_def check_tree_def t'_def
    using ends put_at_check [OF ne wf(4)] ck sub cnt wf(3) by (simp add: is_KNil_def)
  moreover have "kd_erase_at k acc t (At p) = Some t'" by (simp add: kd_erase_at_def er t'_def)
  ultimately show ?thesis using vals by (auto simp: t'_def)
qed

lemma kd_erase_keeps:
  assumes "0 < k" and "kd_wf k acc t" and "\<forall>c \<in> set_kdnode (kd_root t). num_coords k acc c" and "num_coords k acc v"
  shows "if \<exists>u \<in> set_kdnode (kd_root t). same_place k acc u v
         then \<exists>t' u. kd_erase k acc t v = Some t' \<and> kd_wf k acc t' \<and> same_place k acc u v \<and>
                     mset (kd_inorder (kd_root t)) = add_mset u (mset (kd_inorder (kd_root t')))
         else kd_erase k acc t v = None"
proof (cases "\<exists>u \<in> set_kdnode (kd_root t). same_place k acc u v")
  case True
  then obtain q l u r where f: "kd_find k acc t v = At q" "node_at (kd_root t) q = KNode l u r" "same_place k acc u v"
    using kd_find_iff [OF assms] by auto
  then show ?thesis using kd_erase_at_keeps [OF assms(1-3) f(2)] True by (auto simp: kd_erase_def)
next
  case False
  then show ?thesis using kd_find_iff [OF assms] by (auto simp: kd_erase_def kd_erase_at_def)
qed

subsection \<open>Sequences of operations\<close>

datatype 'v kd_op = KInsert 'v | KErase 'v | KOptimise

fun kd_op_step :: "nat \<Rightarrow> ('v \<Rightarrow> nat \<Rightarrow> fp) \<Rightarrow> 'v nth_elem \<Rightarrow> 'v kd_op \<Rightarrow> 'v kdtree \<Rightarrow> 'v kdtree option" where
  "kd_op_step k acc nthe (KInsert v) t = Some (fst (kd_insert k acc v t))"
| "kd_op_step k acc nthe (KErase v) t = kd_erase k acc t v"
| "kd_op_step k acc nthe KOptimise t = kd_optimise k acc nthe t"

fun kd_ops :: "nat \<Rightarrow> ('v \<Rightarrow> nat \<Rightarrow> fp) \<Rightarrow> 'v nth_elem \<Rightarrow> 'v kd_op list \<Rightarrow> 'v kdtree \<Rightarrow> 'v kdtree option" where
  "kd_ops k acc nthe [] t = Some t"
| "kd_ops k acc nthe (op # ops) t = kd_op_step k acc nthe op t \<bind> kd_ops k acc nthe ops"

text \<open>The same on a multiset of values: erasing takes out any one value at the same place.\<close>

inductive bag_step :: "nat \<Rightarrow> ('v \<Rightarrow> nat \<Rightarrow> fp) \<Rightarrow> 'v kd_op \<Rightarrow> 'v multiset \<Rightarrow> 'v multiset \<Rightarrow> bool" for k acc where
  bag_insert: "bag_step k acc (KInsert v) M (add_mset v M)"
| bag_erase: "same_place k acc u v \<Longrightarrow> bag_step k acc (KErase v) (add_mset u M) M"
| bag_optimise: "bag_step k acc KOptimise M M"

inductive bag_run :: "nat \<Rightarrow> ('v \<Rightarrow> nat \<Rightarrow> fp) \<Rightarrow> 'v kd_op list \<Rightarrow> 'v multiset \<Rightarrow> 'v multiset \<Rightarrow> bool" for k acc where
  bag_done: "bag_run k acc [] M M"
| bag_next: "bag_step k acc op M M' \<Longrightarrow> bag_run k acc ops M' M'' \<Longrightarrow> bag_run k acc (op # ops) M M''"

inductive_cases bag_eraseE: "bag_step k acc (KErase v) M M'"

abbreviation kd_bag :: "'v kdtree \<Rightarrow> 'v multiset" where
  "kd_bag t \<equiv> mset (kd_inorder (kd_root t))"

fun op_values :: "'v kd_op \<Rightarrow> 'v set" where
  "op_values (KInsert v) = {v}"
| "op_values (KErase v) = {v}"
| "op_values KOptimise = {}"

definition kd_ok :: "nat \<Rightarrow> ('v \<Rightarrow> nat \<Rightarrow> fp) \<Rightarrow> 'v kdtree \<Rightarrow> bool" where
  "kd_ok k acc t \<longleftrightarrow> kd_wf k acc t \<and> (\<forall>c \<in># kd_bag t. num_coords k acc c)"

lemma kd_op_step_refines:
  assumes "0 < k" and "nth_element nthe" and "kd_ok k acc t" and "\<forall>v \<in> op_values op. num_coords k acc v"
  shows "(\<exists>t'. kd_op_step k acc nthe op t = Some t' \<and> kd_ok k acc t' \<and> bag_step k acc op (kd_bag t) (kd_bag t')) \<or>
    (\<exists>v. op = KErase v \<and> kd_op_step k acc nthe op t = None \<and> (\<forall>u \<in># kd_bag t. \<not> same_place k acc u v))"
proof -
  have t: "kd_wf k acc t" "\<forall>c \<in> set_kdnode (kd_root t). num_coords k acc c" using assms(3) by (simp_all add: kd_ok_def)
  show ?thesis
  proof (cases op)
    case (KInsert v)
    obtain t' it where i: "kd_insert k acc v t = (t', it)" by fastforce
    have "kd_ok k acc t'" "bag_step k acc op (kd_bag t) (kd_bag t')"
      using kd_insert_keeps [OF t(1) i] KInsert assms(3,4) bag_insert [of k acc v] by (simp_all add: kd_ok_def del: set_mset_mset)
    then show ?thesis using i KInsert by simp
  next
    case (KErase v)
    show ?thesis
    proof (cases "\<exists>u \<in> set_kdnode (kd_root t). same_place k acc u v")
      case True
      then obtain t' u where e: "kd_erase k acc t v = Some t'" "kd_wf k acc t'" "same_place k acc u v" "kd_bag t = add_mset u (kd_bag t')"
        using kd_erase_keeps [OF assms(1) t, of v] KErase assms(4) by auto
      then have "kd_ok k acc t'" "bag_step k acc op (kd_bag t) (kd_bag t')"
        using assms(3) bag_erase [OF e(3)] KErase by (simp_all add: kd_ok_def)
      then show ?thesis using e(1) KErase by simp
    next
      case False
      then show ?thesis using kd_erase_keeps [OF assms(1) t, of v] KErase assms(4) by simp
    qed
  next
    case KOptimise
    obtain t' where o: "kd_optimise k acc nthe t = Some t'" "kd_wf k acc t'" "kd_bag t' = kd_bag t"
      using nth_element.kd_optimise_keeps [OF assms(2) t(1)] by blast
    then show ?thesis using KOptimise assms(3) bag_optimise [of k acc "kd_bag t"] by (simp add: kd_ok_def del: set_mset_mset)
  qed
qed

lemma kd_ops_refine_from:
  assumes "0 < k" and "nth_element nthe" and "kd_ok k acc t" and "\<forall>op \<in> set ops. \<forall>v \<in> op_values op. num_coords k acc v"
  shows "(\<exists>t'. kd_ops k acc nthe ops t = Some t' \<and> kd_ok k acc t' \<and> bag_run k acc ops (kd_bag t) (kd_bag t')) \<or>
    (\<exists>ops1 v ops2 t'. ops = ops1 @ KErase v # ops2 \<and> kd_ops k acc nthe ops1 t = Some t' \<and> kd_ok k acc t' \<and>
       (\<forall>u \<in># kd_bag t'. \<not> same_place k acc u v))"
  using assms(3,4)
proof (induction ops arbitrary: t)
  case (Cons op ops)
  consider t1 where "kd_op_step k acc nthe op t = Some t1" "kd_ok k acc t1" "bag_step k acc op (kd_bag t) (kd_bag t1)"
    | v where "op = KErase v" "\<forall>u \<in># kd_bag t. \<not> same_place k acc u v"
    using kd_op_step_refines [OF assms(1,2) Cons.prems(1), of op] Cons.prems(2) by auto
  then show ?case
  proof cases
    case 1
    then consider t' where "kd_ops k acc nthe ops t1 = Some t'" "kd_ok k acc t'" "bag_run k acc ops (kd_bag t1) (kd_bag t')"
      | ops1 v ops2 t' where "ops = ops1 @ KErase v # ops2" "kd_ops k acc nthe ops1 t1 = Some t'" "kd_ok k acc t'" "\<forall>u \<in># kd_bag t'. \<not> same_place k acc u v"
      using Cons.IH [OF 1(2)] Cons.prems(2) by auto
    then show ?thesis
    proof cases
      case run: 1
      then show ?thesis using 1 bag_next by (intro disjI1 exI [of _ t']) auto
    next
      case stuck: 2
      then show ?thesis using 1(1) by (intro disjI2 exI [of _ "op # ops1"] exI [of _ v] exI [of _ ops2] exI [of _ t']) simp
    qed
  next
    case 2
    then show ?thesis by (intro disjI2 exI [of _ "[]"] exI [of _ v] exI [of _ ops] exI [of _ t]) (simp add: Cons.prems(1))
  qed
qed (auto intro: bag_done)

text \<open>Erasing an equal value, when equal values are at the same place.\<close>

lemma kd_erase_exact_keeps:
  assumes "0 < k" and "kd_wf k acc t" and "\<forall>c \<in> set_kdnode (kd_root t). num_coords k acc c" and "num_coords k acc v"
    and "\<And>u. eq v u \<Longrightarrow> same_place k acc u v"
  shows "(\<exists>t' u. kd_erase_exact k acc eq t v = Some t' \<and> kd_wf k acc t' \<and> eq v u \<and> kd_bag t = add_mset u (kd_bag t')) \<or>
    (kd_erase_exact k acc eq t v = None \<and> (\<forall>u \<in> set_kdnode (kd_root t). \<not> eq v u))"
  using kd_find_exact_iff [OF assms(1-4), of eq]
proof (elim disjE exE conjE)
  fix q l u r assume f: "kd_find_exact k acc eq t v = At q" "node_at (kd_root t) q = KNode l u r" "eq v u"
  then show ?thesis using kd_erase_at_keeps [OF assms(1-3) f(2)] by (auto simp: kd_erase_exact_def)
next
  assume "kd_find_exact k acc eq t v = Header" "\<forall>u \<in> set_kdnode (kd_root t). eq v u \<longrightarrow> \<not> same_place k acc u v"
  then show ?thesis using assms(5) by (auto simp: kd_erase_exact_def kd_erase_at_def)
qed

section \<open>Properties\<close>

text \<open>C20: The container refines a multiset of values. From the empty tree, any sequence of insertions,
  erasures and rebuildings runs on both: the tree passes \<open>check_tree\<close>, its count and its iteration in both directions agree
  with a multiset that the same operations lead to, and an erasure takes out one value at the place given;
  the sequence stops only at an erasure for which no value of the container is at the place.
\<close>

theorem kd_ops_refine:
  assumes "\<forall>le m (xs :: 'v list). mset (nthe le m xs) = mset xs"
    and "0 < k" and "\<forall>op \<in> set ops. \<forall>v \<in> op_values op. num_coords k acc v"
  shows "(\<exists>t vs. kd_ops k acc nthe ops kd_empty = Some t \<and> check_tree k acc t \<and> kd_values t = Some vs \<and>
            kd_values_back t = Some (rev vs) \<and> kd_count t = length vs \<and> bag_run k acc ops {#} (mset vs)) \<or>
    (\<exists>ops1 v ops2 t vs. ops = ops1 @ KErase v # ops2 \<and> kd_ops k acc nthe ops1 kd_empty = Some t \<and>
       kd_values t = Some vs \<and> (\<forall>u \<in> set vs. \<not> same_place k acc u v))"
proof -
  have n: "nth_element nthe" using assms(1) by (auto intro!: nth_element.intro)
  have e: "kd_ok k acc kd_empty" "kd_bag (kd_empty :: 'v kdtree) = {#}" by (simp_all add: kd_ok_def) (simp_all add: kd_empty_def)
  have wf: "kd_values t = Some (kd_inorder (kd_root t)) \<and> kd_values_back t = Some (rev (kd_inorder (kd_root t))) \<and> kd_count t = length (kd_inorder (kd_root t)) \<and> check_tree k acc t"
    if "kd_ok k acc t" for t using that kd_values_inorder [of k acc t] kd_values_back_rev [of k acc t] by (simp add: kd_ok_def kd_wf_def)
  from kd_ops_refine_from [OF assms(2) n e(1) assms(3)]
  show ?thesis unfolding e(2)
  proof (elim disjE exE conjE)
    fix t assume "kd_ops k acc nthe ops kd_empty = Some t" "kd_ok k acc t" "bag_run k acc ops {#} (kd_bag t)"
    then show ?thesis using wf by auto
  next
    fix ops1 v ops2 t
    assume "ops = ops1 @ KErase v # ops2" "kd_ops k acc nthe ops1 kd_empty = Some t" "kd_ok k acc t" "\<forall>u \<in># kd_bag t. \<not> same_place k acc u v"
    then show ?thesis using wf by (intro disjI2 exI [of _ ops1] exI [of _ v] exI [of _ ops2] exI [of _ t] exI [of _ "kd_inorder (kd_root t)"]) simp
  qed
qed

theorem kd_ops_refine_witness:
  "let ops = [KInsert [3, 1], KInsert [1, 2], KOptimise, KErase [3, 1], KInsert [0, 0 :: int]] in
   (\<exists>t vs. kd_ops 2 int_coord nth_by_sorting ops kd_empty = Some t \<and> check_tree 2 int_coord t \<and> kd_values t = Some vs \<and>
      kd_values_back t = Some (rev vs) \<and> kd_count t = length vs \<and> bag_run 2 int_coord ops {#} (mset vs)) \<or>
   (\<exists>ops1 v ops2 t vs. ops = ops1 @ KErase v # ops2 \<and> kd_ops 2 int_coord nth_by_sorting ops1 kd_empty = Some t \<and>
      kd_values t = Some vs \<and> (\<forall>u \<in> set vs. \<not> same_place 2 int_coord u v))"
  unfolding Let_def by (rule kd_ops_refine) (simp_all add: nth_sorted.nthe_mset)

end
