(* ===== verification/Spec2Isabelle.thy ===== *)
theory Spec2Isabelle
  imports OctTree BlockFile NetLink Mesh OctGrid Window VideoStream Alignment KdErase
begin

text \<open>
  A model of sqwar, a C++ program that captures depth and face frames from a phone's camera, records
  and streams them, plays them back, and shows them as points, planes and a face mesh. The model
  follows the sources under \<open>src/core\<close> and \<open>src/win\<close>; this theory imports all others.

  The program and its parts. Frames arrive at \<open>Application::OnDepthBuffer\<close> and \<open>OnFaceData\<close>, on Windows
  from the playback of a capture (\<open>win/map.cpp\<close>). The application counts their time from the first
  frame, hands them to the recorder, whose thread turns each depth frame into the planes of a video
  stream, and to the world, which computes coloured points and planar regions for its visuals. A
  player turns the planes of a stream back into frames. Each drawing step the world brings the scene
  up to date with the display mode, and the engine draws the scene.

  How the code is modelled. A class is a record with the source's field names, an operation a function
  on it; threads, sockets and interleavings are steps. Undefined behaviour (an access out of bounds, a
  shift by too much, a conversion out of range) is \<open>None\<close>; where a loop may also run for ever, a
  \<open>loop_result\<close> tells undefined behaviour, a returned value and a loop still running apart. A float is a value of the datatype \<open>fp\<close> with
  one rounding per operation; 32- and 64-bit integers are words where they can wrap. Uninitialised
  fields are arguments, as are the C library's \<open>sin\<close>, \<open>cos\<close>, \<open>tan\<close> and \<open>log10\<close>, \<open>std::sort\<close> and
  \<open>std::nth_element\<close> (any functions with the contracts of the locales \<open>std_sort\<close> and \<open>nth_element\<close>),
  shader creation, and the video codec, of which the theorems assume what they name (\<open>encoder_laws\<close>;
  \<open>returned_log\<close>, \<open>runs_out\<close> and \<open>gives_size\<close> of the decoder) but nothing of what its pictures show.

  Foundations.
  \<^item> \<open>SqPrelude\<close>: checked arrays, loops that may stop, index pairs, the contract of \<open>std::sort\<close> with an
    insertion sort that meets it, word facts.
  \<^item> \<open>IeeeFloat\<close>: binary32 and binary64 with rounding to nearest; monotone rounding, exact integers.
    \<open>FloatOrder\<close>: sums, squares and square roots of non-negative floats keep order.
  \<^item> \<open>Gmtl\<close>, \<open>GmtlMat\<close>, \<open>GmtlInv\<close> (\<open>core/gmtl\<close>): vectors, boxes, matrices with the library's transform
    state, quaternions, projections, and inversion chosen by the state. Inverting a translation is
    exact.
  \<^item> \<open>Bytes\<close>, \<open>DepthProps\<close> (\<open>core/DepthProps.h\<close>): little-endian layout of the frame structures, with the
    round trips of floats, arrays and structures.

  Data structures.
  \<^item> \<open>OctTreeLoc\<close>, \<open>OctTree\<close> (\<open>core/OctTreeLoc.cpp\<close>, \<open>OctTree.cpp\<close>): cell addresses on 32-bit words
    (children, parents, relative addresses) and the tree of points: insertion keeps the tree
    well-formed, the leaves partition the points, consolidation leaves one point per cell. The
    recursion of insertion takes the depth of the tree as fuel; \<open>tree_add_point\<close> shows it is enough.
  \<^item> \<open>KdTree\<close>, \<open>KdIter\<close>, \<open>KdErase\<close> (\<open>core/kdtree++\<close>): the tree that matches points. A node is a tree cell
    and a node pointer its path from the root; sentinels and parent links follow from the path. The loops
    are partial functions whose end is proved. Insertion, erasure and rebuilding keep the order of the
    tree and act as on a multiset of values.
  \<^item> \<open>KdNearest\<close>, \<open>KdQuery\<close> (\<open>core/kdtree++\<close>): its searches. The search for the nearest point, which climbs by
    parent pointers, is the recursive search and returns a point at least distance, with distances as
    rounded; the searches within a box miss nothing; the searches for a value, both instances of the locale
    \<open>place_search\<close>, find one exactly when there is one.
  \<^item> \<open>OctGrid\<close> (\<open>core/OctGrid.h\<close>): the dense grid refines a function from cells to values.
  \<^item> \<open>PtOps\<close> (\<open>core/Pt.h\<close>, \<open>PtsLib.h\<close>): pixel offsets, points, aggregation, growing boxes.
  \<^item> \<open>Mesh\<close> (\<open>core/Mesh.cpp\<close>, \<open>Mesh.h\<close>, \<open>StdIncludes.h\<close>): handle owners, the cube, quad and grid meshes,
    cube lists and voxel instances.

  Frames.
  \<^item> \<open>BlockFile\<close> (\<open>core/Application.cpp\<close>, \<open>win/map.cpp\<close>): writing and reading a capture of blocks over a
    model of \<open>std::fstream\<close>: what is written is read back, in time order; with a missing file the
    loop is still running after any number of iterations. The reading loop takes fuel; more than the number of frames is enough.
  \<^item> \<open>Network\<close>, \<open>NetLink\<close> (\<open>core/Network.cpp\<close>): the server's sessions and the client's chunks, then both joined by
    a connection that keeps no boundaries. While each read takes all that has arrived, the client's waiting keeps
    its writes apart and every message arrives (an empty last one stays pending); one read that takes a part of a write breaks a later message. The server starts with a race
    for its callback and stops without deadlock.
  \<^item> \<open>DepthPts\<close> (\<open>core/DepthPts.cpp\<close>): coloured points, the depth pyramid, filling of holes, and the
    encoding of a depth image as video planes with its decoding: of depths that are NaN, infinite or from
    0 to 10, infinite ones come back as NaN, NaN ones as the bounded depths their holes are filled with, others
    within one step.
  \<^item> \<open>DepthPlanes\<close> (\<open>core/DepthPlanes.cpp\<close>): recursive splitting into planar tiles, the sweep that finds
    neighbouring tiles, grouping, and the triangles. Each part ends, with fuel above the image's width
    plus height and the number of tiles, and its result is characterised.
  \<^item> \<open>Recorder\<close> (\<open>core/Record.cpp\<close>): the queues and the background thread as a step relation; the streamed
    frames are the first queued ones in order; the destructor can block for ever.
  \<^item> \<open>Player\<close> (\<open>core/Player.cpp\<close>): the decoding thread and the queue, an instance of the locale
    \<open>fifo_queue\<close>; recording and playing a frame gives back its video and nearly its depths.
  \<^item> \<open>Codec\<close>, \<open>VideoStream\<close> (\<open>core/FFmpeg.cpp\<close>, with \<open>Record.cpp\<close> and \<open>Player.cpp\<close>): writing and reading a video
    stream. Packets leave in the order of the frames, frames come back in the order of the packets, and the
    player queues, in order, one frame for each read, made of exactly the pictures the decoder has returned; when the
    planes of recorder and player fit the size of the pictures, and how long the time stamps last.
  \<^item> \<open>AlignGrad\<close>, \<open>Alignment\<close> (\<open>core/Alignment.cpp\<close>): matching the points of two clouds, and the steps that
    move one onto the other. The derivatives are those of the source over any type with \<open>+ - *\<close>; over the
    reals they are the derivatives of the squared distance. A cloud without outliers is matched to
    itself exactly. With fewer than 303 points no step reports that it is done and none is undefined: the
    caller's loop runs for any number of calls, its fuel.

  The program.
  \<^item> \<open>Scene\<close> (\<open>core/SceneItem.cpp\<close>, \<open>Engine.cpp\<close>): camera, tree of items, drawing, animations, shader cache.
  \<^item> \<open>World\<close> (\<open>core/World.cpp\<close>, \<open>PlanesVis.cpp\<close>, \<open>PtsVis.cpp\<close>, \<open>FaceVis.cpp\<close>): touches, keys, display
    modes, and what frames change; the scene always shows the mode, and the blanking around the face
    has no effect.
  \<^item> \<open>Application\<close> (\<open>core/Application.cpp\<close>): input, ticks, drawing, and the recording of frames.
  \<^item> \<open>Render\<close> (\<open>core/PlanesVis.cpp\<close>, \<open>PtsVis.cpp\<close>, \<open>FaceVis.cpp\<close>, \<open>Hud.cpp\<close>): the calls of the graphics library
    that a frame makes, and the application as a sequence of events: after any of them, exactly which draw
    calls a frame consists of.
  \<^item> \<open>WinMain\<close>, \<open>Window\<close> (\<open>win/map.cpp\<close>): the key filter, the playback of a capture by the timer, and the program
    around them: window procedure, start and message loop. A simulation (\<open>locale simulation\<close>) shows that any
    messages give a run of the application's events, so what holds for those holds for the program.

  Not modelled. Registering the window class in \<open>win/map.cpp\<close> and the program
  for the phone under \<open>src/ios\<close> are glue to their systems. \<open>src/core/asio\<close>, \<open>cppcoro\<close>, \<open>imgui\<close> and \<open>src/mdns\<close>
  are libraries the program only calls. The gmtl parts that nothing under \<open>src/core\<close> or
  \<open>src/win\<close> calls are left out, as are the memory of the k-d tree's nodes, and \<open>CalcScores\<close> and \<open>randfl\<close>
  of the alignment, which nothing calls.
\<close>

end
